(* ===== verification/Prelude.thy ===== *)
theory Prelude
  imports Main "HOL-Library.Word" "HOL-Library.List_Lexorder"
begin

text \<open>
  Shared vocabulary of the development.

  \<^item> Machine integers: \<open>u8\<close>, \<open>u16\<close>, \<open>u32\<close>, \<open>u64\<close> are words of that width; a \<open>usize\<close> that only
    counts the elements of an in-memory buffer is a \<open>nat\<close>.
  \<^item> Failures: Rust's \<open>io::Result\<close> and panics are one sum type, \<open>'a res\<close>; \<open>and_then\<close> is the
    question-mark operator.
  \<^item> Rust's \<open>String\<close>: the type \<open>rstring\<close> of well-formed UTF-8 byte sequences, ordered by their bytes.
  \<^item> Readers: \<open>read_exact\<close> consumes a prefix of the bytes that are left of a file or a slice.
  \<^item> Big-endian integers, \<open>be_bytes\<close> and \<open>from_be\<close>, with their round trip.
  \<^item> \<open>BTreeMap\<close>: association lists sorted by key, under the locale \<open>map_ops\<close>.
  \<^item> \<open>item_codec\<close>: the contract of an encoder and a decoder for one item of a stream, and what it
    says of a whole stream of items.
\<close>

unbundle bit_operations_syntax

named_theorems codec_simps \<open>unfolding of the byte-level encoders and decoders\<close>
named_theorems wf_intros \<open>preservation of the components' invariants\<close>

section \<open>Integers, failures, readers\<close>

type_synonym u8 = "8 word"
type_synonym u16 = "16 word"
type_synonym u32 = "32 word"
type_synonym u64 = "64 word"
type_synonym byte = "8 word"
type_synonym bytes = "byte list"

datatype error_kind =
  UnexpectedEof | InvalidData | InvalidInput | NotFound | AlreadyExists | WouldBlock | OtherError

text \<open>The message a failure carries: a literal of the source, the UTF-8 decoder's error, or the
  operating system's.\<close>

datatype payload = Message string | Utf8Error | OsError

datatype failure = IoError (kind_of: error_kind) payload | Panic string

type_synonym 'a res = "failure + 'a"

fun and_then :: "'a res \<Rightarrow> ('a \<Rightarrow> 'b res) \<Rightarrow> 'b res" where
  "and_then (Inl e) f = Inl e"
| "and_then (Inr x) f = f x"

lemma and_then_cong [fundef_cong]:
  assumes "m = m'" and "\<And>x. m' = Inr x \<Longrightarrow> f x = f' x"
  shows "and_then m f = and_then m' f'"
  using assms by (cases m') auto

lemma and_then_Inr_iff: "and_then m f = Inr y \<longleftrightarrow> (\<exists>x. m = Inr x \<and> f x = Inr y)"
  by (cases m) auto

lemma and_then_assoc: "and_then (and_then m f) g = and_then m (\<lambda>x. and_then (f x) g)"
  by (cases m) auto

text \<open>A loop over a collection whose body may fail.\<close>

fun fold_res :: "('a \<Rightarrow> 's \<Rightarrow> 's res) \<Rightarrow> 'a list \<Rightarrow> 's \<Rightarrow> 's res" where
  "fold_res f [] s = Inr s"
| "fold_res f (x # xs) s = and_then (f x s) (fold_res f xs)"

lemma fold_res_append: "fold_res f (xs @ ys) s = and_then (fold_res f xs s) (fold_res f ys)"
  by (induction xs arbitrary: s) (auto simp: and_then_assoc intro: and_then_cong)

lemma fold_res_total:
  assumes "\<And>x s. x \<in> set xs \<Longrightarrow> f x s = Inr (g x s)"
  shows "fold_res f xs s = Inr (fold g xs s)"
  using assms by (induction xs arbitrary: s) auto

text \<open>Collecting the results of a fallible function, in order.\<close>

fun map_res :: "('a \<Rightarrow> 'b res) \<Rightarrow> 'a list \<Rightarrow> 'b list res" where
  "map_res f [] = Inr []"
| "map_res f (x # xs) = and_then (f x) (\<lambda>y. and_then (map_res f xs) (\<lambda>ys. Inr (y # ys)))"

lemma map_res_total:
  assumes "\<And>x. x \<in> set xs \<Longrightarrow> f x = Inr (g x)"
  shows "map_res f xs = Inr (map g xs)"
  using assms by (induction xs) auto

text \<open>The test \<open>e.kind() == ErrorKind::UnexpectedEof\<close>.\<close>

fun is_eof :: "failure \<Rightarrow> bool" where
  "is_eof (IoError k p) \<longleftrightarrow> k = UnexpectedEof"
| "is_eof (Panic s) \<longleftrightarrow> False"

text \<open>Indexing a slice: out of range is a panic.\<close>

definition idx :: "'a list \<Rightarrow> nat \<Rightarrow> 'a res" where
  "idx xs i = (if i < length xs then Inr (xs ! i) else Inl (Panic ''index out of bounds''))"

lemma idx_in_range [simp]: "i < length xs \<Longrightarrow> idx xs i = Inr (xs ! i)"
  by (simp add: idx_def)

definition set_idx :: "nat \<Rightarrow> 'a \<Rightarrow> 'a list \<Rightarrow> 'a list res" where
  "set_idx i x xs = (if i < length xs then Inr (xs[i := x]) else Inl (Panic ''index out of bounds''))"

lemma set_idx_in_range [simp]: "i < length xs \<Longrightarrow> set_idx i x xs = Inr (xs[i := x])"
  by (simp add: set_idx_def)

text \<open>Unsigned subtraction in the dev profile: an underflow is a panic.\<close>

definition checked_sub :: "nat \<Rightarrow> nat \<Rightarrow> nat res" where
  "checked_sub a b = (if b \<le> a then Inr (a - b) else Inl (Panic ''attempt to subtract with overflow''))"

lemma checked_sub_ok [simp]: "b \<le> a \<Longrightarrow> checked_sub a b = Inr (a - b)"
  by (simp add: checked_sub_def)

text \<open>Addition of 64-bit integers in the dev profile.\<close>

definition checked_add64 :: "u64 \<Rightarrow> u64 \<Rightarrow> u64 res" where
  "checked_add64 a b =
     (if unat a + unat b < 2 ^ 64 then Inr (a + b) else Inl (Panic ''attempt to add with overflow''))"

lemma checked_add64_of_nat [simp]:
  "a + b < 2 ^ 64 \<Longrightarrow> checked_add64 (of_nat a) (of_nat b) = Inr (of_nat (a + b))"
  by (simp add: checked_add64_def unat_of_nat)

text \<open>\<open>Read::read_exact\<close> on the bytes that are left.\<close>

definition read_exact :: "nat \<Rightarrow> bytes \<Rightarrow> (bytes \<times> bytes) res" where
  "read_exact n bs =
     (if n \<le> length bs then Inr (take n bs, drop n bs) else Inl (IoError UnexpectedEof OsError))"

lemma read_exact_append [simp]:
  "length xs = n \<Longrightarrow> read_exact n (xs @ rest) = Inr (xs, rest)"
  by (simp add: read_exact_def)

lemma read_exact_short:
  "length bs < n \<Longrightarrow> read_exact n bs = Inl (IoError UnexpectedEof OsError)"
  by (simp add: read_exact_def)

lemma read_exact_take:
  "length xs = n \<Longrightarrow> read_exact n (take m (xs @ ys)) =
     (if n \<le> m then Inr (xs, take (m - n) ys) else Inl (IoError UnexpectedEof OsError))"
  by (auto simp: read_exact_def)

lemma read_exact_Inr_iff:
  "read_exact n bs = Inr (xs, rest) \<longleftrightarrow> bs = xs @ rest \<and> length xs = n"
  unfolding read_exact_def by (auto simp: append_eq_conv_conj)

section \<open>Big-endian integers\<close>

primrec be_bytes :: "nat \<Rightarrow> 'a::len word \<Rightarrow> bytes" where
  "be_bytes 0 w = []"
| "be_bytes (Suc n) w = ucast (drop_bit (8 * n) w) # be_bytes n w"

definition from_be :: "bytes \<Rightarrow> 'a::len word" where
  "from_be bs = foldl (\<lambda>a b. push_bit 8 a OR ucast b) 0 bs"

lemma length_be_bytes [simp]: "length (be_bytes n w) = n"
  by (induction n) auto

lemma be_step:
  fixes w a :: "'a::len word"
  shows "push_bit (8 * n) (push_bit 8 a OR ucast (ucast (drop_bit (8 * n) w) :: byte)) OR take_bit (8 * n) w
       = push_bit (8 * Suc n) a OR take_bit (8 * Suc n) w"
  by (rule bit_eqI) (auto simp: bit_simps not_le not_less algebra_simps)

lemma foldl_be_bytes:
  fixes w a :: "'a::len word"
  shows "foldl (\<lambda>a b. push_bit 8 a OR ucast b) a (be_bytes n w)
       = push_bit (8 * n) a OR take_bit (8 * n) w"
proof (induction n arbitrary: a)
  case 0
  then show ?case by simp
next
  case (Suc n)
  then show ?case by (simp only: be_bytes.simps foldl_Cons Suc.IH be_step)
qed

lemma from_be_be_bytes [simp]:
  fixes w :: "'a::len word"
  assumes "LENGTH('a) \<le> 8 * n"
  shows "from_be (be_bytes n w) = w"
proof -
  have "take_bit (8 * n) w = w"
    using assms by (metis take_bit_word_eq_self)
  then show ?thesis by (simp add: from_be_def foldl_be_bytes)
qed

lemma bit_from_be: "bit (from_be bs :: 'a::len word) m \<Longrightarrow> m < 8 * length bs"
  and foldl_from_be: "foldl (\<lambda>a b. push_bit 8 a OR ucast b) a bs = push_bit (8 * length bs) a OR (from_be bs :: 'a word)"
proof (induction bs arbitrary: a m rule: rev_induct)
  case Nil
  { case 1 then show ?case by (simp add: from_be_def) next
    case 2 then show ?case by (simp add: from_be_def) }
next
  case (snoc b bs)
  have step: "from_be (bs @ [b]) = push_bit 8 (from_be bs) OR (ucast b :: 'a word)"
    by (simp add: from_be_def)
  { case 1
    then have "8 \<le> m \<and> bit (from_be bs :: 'a word) (m - 8) \<or> bit b m"
      by (auto simp: step bit_simps)
    then show ?case using snoc(1) [of "m - 8"] bit_imp_le_length [of b m] by auto
  next
    case 2
    have "push_bit 8 (push_bit (8 * length bs) a OR from_be bs) = push_bit (8 * length (bs @ [b])) a OR push_bit 8 (from_be bs)"
      by (simp add: push_bit_or algebra_simps)
    then show ?case by (simp add: step snoc(2) or.assoc) }
qed

lemma be_bytes_take_bit: "8 * n \<le> m \<Longrightarrow> be_bytes n (take_bit m w) = be_bytes n w"
proof (induction n)
  case (Suc n)
  have "ucast (drop_bit (8 * n) (take_bit m w)) = (ucast (drop_bit (8 * n) w) :: byte)"
    using Suc.prems by (intro bit_word_eqI) (auto simp: bit_simps)
  with Suc show ?case by simp
qed simp

lemma be_bytes_from_be [simp]:
  assumes "length bs = n" and "8 * n \<le> LENGTH('a)"
  shows "be_bytes n (from_be bs :: 'a::len word) = bs"
  using assms
proof (induction bs arbitrary: n)
  case (Cons b bs)
  let ?m = "length bs"
  let ?w = "from_be (b # bs) :: 'a word"
  have w: "?w = push_bit (8 * ?m) (ucast b) OR from_be bs"
    using foldl_from_be [of "ucast b" bs] by (simp add: from_be_def)
  have head: "ucast (drop_bit (8 * ?m) ?w) = b"
    using Cons.prems by (intro bit_word_eqI) (auto simp: w bit_simps dest: bit_from_be)
  have "take_bit (8 * ?m) ?w = from_be bs"
    by (rule bit_word_eqI) (auto simp: w bit_simps dest: bit_from_be)
  then have "be_bytes ?m ?w = be_bytes ?m (from_be bs :: 'a word)"
    using be_bytes_take_bit [of ?m "8 * ?m" ?w] by simp
  with Cons head show ?case by auto
qed (simp add: from_be_def)

section \<open>Exclusive or\<close>

lemma xor_eq_0_iff: "(a XOR b = 0) \<longleftrightarrow> a = (b :: 'a::len word)"
  by (auto simp: bit_eq_iff bit_simps)

lemma xor_right_cancel [simp]: "(a XOR c = b XOR c) \<longleftrightarrow> a = (b :: 'a::len word)"
  by (auto simp: bit_eq_iff bit_simps)

lemma xor_left_cancel [simp]: "(c XOR a = c XOR b) \<longleftrightarrow> a = (b :: 'a::len word)"
  by (auto simp: bit_eq_iff bit_simps)

section \<open>Rust strings\<close>

text \<open>\<open>String::from_utf8\<close> accepts exactly the well-formed byte sequences of the Unicode standard:
  one to four bytes per character, no overlong forms, no surrogates, nothing above U+10FFFF.\<close>

definition utf8_cont :: "byte \<Rightarrow> bool" where
  "utf8_cont b \<longleftrightarrow> 0x80 \<le> b \<and> b \<le> 0xBF"

definition utf8_lead3 :: "byte \<Rightarrow> byte \<Rightarrow> bool" where
  "utf8_lead3 a b \<longleftrightarrow>
     a = 0xE0 \<and> 0xA0 \<le> b \<and> b \<le> 0xBF \<or>
     (0xE1 \<le> a \<and> a \<le> 0xEC \<or> 0xEE \<le> a \<and> a \<le> 0xEF) \<and> utf8_cont b \<or>
     a = 0xED \<and> 0x80 \<le> b \<and> b \<le> 0x9F"

definition utf8_lead4 :: "byte \<Rightarrow> byte \<Rightarrow> bool" where
  "utf8_lead4 a b \<longleftrightarrow>
     a = 0xF0 \<and> 0x90 \<le> b \<and> b \<le> 0xBF \<or>
     0xF1 \<le> a \<and> a \<le> 0xF3 \<and> utf8_cont b \<or>
     a = 0xF4 \<and> 0x80 \<le> b \<and> b \<le> 0x8F"

fun utf8_valid :: "bytes \<Rightarrow> bool" where
  "utf8_valid [] \<longleftrightarrow> True"
| "utf8_valid [a] \<longleftrightarrow> a < 0x80"
| "utf8_valid [a, b] \<longleftrightarrow>
     (if a < 0x80 then utf8_valid [b] else 0xC2 \<le> a \<and> a \<le> 0xDF \<and> utf8_cont b)"
| "utf8_valid [a, b, c] \<longleftrightarrow>
     (if a < 0x80 then utf8_valid [b, c]
      else if 0xC2 \<le> a \<and> a \<le> 0xDF then utf8_cont b \<and> utf8_valid [c]
      else utf8_lead3 a b \<and> utf8_cont c)"
| "utf8_valid (a # b # c # d # es) \<longleftrightarrow>
     (if a < 0x80 then utf8_valid (b # c # d # es)
      else if 0xC2 \<le> a \<and> a \<le> 0xDF then utf8_cont b \<and> utf8_valid (c # d # es)
      else if utf8_lead3 a b then utf8_cont c \<and> utf8_valid (d # es)
      else utf8_lead4 a b \<and> utf8_cont c \<and> utf8_cont d \<and> utf8_valid es)"

lemma utf8_valid_ascii_Cons: "a < 0x80 \<Longrightarrow> utf8_valid (a # bs) \<longleftrightarrow> utf8_valid bs"
  by (cases bs rule: utf8_valid.cases) (simp_all split: if_splits)

lemma utf8_valid_ascii: "(\<And>b. b \<in> set bs \<Longrightarrow> b < 0x80) \<Longrightarrow> utf8_valid bs"
  by (induction bs) (simp_all add: utf8_valid_ascii_Cons)

typedef rstring = "{bs :: bytes. utf8_valid bs}"
  morphisms as_bytes of_bytes
  by (rule exI [of _ "[]"]) simp

setup_lifting type_definition_rstring

lift_definition mk_string :: "bytes \<Rightarrow> rstring" is "\<lambda>bs. if utf8_valid bs then bs else []"
  by simp

text \<open>Literals of the source: ASCII text.\<close>

lift_definition lit :: "string \<Rightarrow> rstring" is "map (\<lambda>c. take_bit 7 (of_char c :: byte))"
proof -
  fix s :: string
  have "take_bit 7 w < (0x80 :: byte)" for w :: byte
    by (simp add: word_less_nat_alt take_bit_eq_mod unat_mod)
  then show "utf8_valid (map (\<lambda>c. take_bit 7 (of_char c :: byte)) s)"
    by (intro utf8_valid_ascii) auto
qed

declare lit.rep_eq [simp]

definition len :: "rstring \<Rightarrow> nat" where
  "len s = length (as_bytes s)"

definition from_utf8 :: "bytes \<Rightarrow> rstring res" where
  "from_utf8 bs =
     (if utf8_valid bs then Inr (mk_string bs) else Inl (IoError InvalidData Utf8Error))"

lemma utf8_valid_as_bytes [simp]: "utf8_valid (as_bytes s)"
  using as_bytes [of s] by simp

lemma from_utf8_as_bytes [simp]: "from_utf8 (as_bytes s) = Inr s"
  by (simp add: from_utf8_def as_bytes_inject [symmetric] mk_string.rep_eq)

lemma as_bytes_from_utf8: "from_utf8 bs = Inr s \<Longrightarrow> as_bytes s = bs"
  by (auto simp: from_utf8_def mk_string.rep_eq split: if_splits)

lemma from_utf8_Inr_iff: "from_utf8 bs = Inr s \<longleftrightarrow> bs = as_bytes s"
  using as_bytes_from_utf8 by auto

lemma len_lit [simp]: "len (lit s) = length s"
  by (simp add: len_def)

lemma length_as_bytes [simp]: "length (as_bytes s) = len s"
  by (simp add: len_def)

instantiation rstring :: linorder
begin

definition less_eq_rstring :: "rstring \<Rightarrow> rstring \<Rightarrow> bool" where
  "less_eq_rstring s t \<longleftrightarrow> as_bytes s \<le> as_bytes t"

definition less_rstring :: "rstring \<Rightarrow> rstring \<Rightarrow> bool" where
  "less_rstring s t \<longleftrightarrow> as_bytes s < as_bytes t"

instance
  by standard (auto simp: less_eq_rstring_def less_rstring_def as_bytes_inject less_le_not_le)

end

instantiation rstring :: equal
begin

definition equal_rstring :: "rstring \<Rightarrow> rstring \<Rightarrow> bool" where
  "equal_rstring s t \<longleftrightarrow> as_bytes s = as_bytes t"

instance
  by standard (simp add: equal_rstring_def as_bytes_inject)

end

section \<open>Maps\<close>

text \<open>What the program relies on of a key-value map, and what follows for a log of updates and
  removals replayed into it.\<close>

locale map_ops =
  fixes empty :: "'m"
    and insert :: "'k \<Rightarrow> 'v \<Rightarrow> 'm \<Rightarrow> 'm"
    and remove :: "'k \<Rightarrow> 'm \<Rightarrow> 'm"
    and get :: "'m \<Rightarrow> 'k \<Rightarrow> 'v option"
    and invar :: "'m \<Rightarrow> bool"
  assumes get_empty: "get empty k = None"
    and get_insert: "invar m \<Longrightarrow> get (insert k v m) k' = (if k' = k then Some v else get m k')"
    and get_remove: "invar m \<Longrightarrow> get (remove k m) k' = (if k' = k then None else get m k')"
    and invar_empty: "invar empty"
    and invar_insert: "invar m \<Longrightarrow> invar (insert k v m)"
    and invar_remove: "invar m \<Longrightarrow> invar (remove k m)"
begin

lemmas map_laws = get_empty get_insert get_remove invar_empty invar_insert invar_remove

text \<open>One logged operation: \<open>Some v\<close> stores, \<open>None\<close> removes.\<close>

definition apply_op :: "'k \<times> 'v option \<Rightarrow> 'm \<Rightarrow> 'm" where
  "apply_op = (\<lambda>(k, ov) m. case ov of Some v \<Rightarrow> insert k v m | None \<Rightarrow> remove k m)"

lemma invar_apply_op: "invar m \<Longrightarrow> invar (apply_op opn m)"
  by (auto simp: apply_op_def map_laws split: prod.splits option.splits)

lemma invar_fold: "invar m \<Longrightarrow> invar (fold apply_op ops m)"
  by (induction ops arbitrary: m) (auto intro: invar_apply_op)

text \<open>The last operation on a key decides: \<open>map_of\<close> of the reversed log.\<close>

lemma get_fold:
  "invar m \<Longrightarrow> get (fold apply_op ops m) k =
     (case map_of (rev ops) k of Some ov \<Rightarrow> ov | None \<Rightarrow> get m k)"
proof (induction ops rule: rev_induct)
  case Nil
  then show ?case by simp
next
  case (snoc opn ops)
  obtain k' ov where opn: "opn = (k', ov)" by (cases opn)
  have "invar (fold apply_op ops m)" using snoc.prems by (rule invar_fold)
  with snoc opn show ?case
    by (simp add: apply_op_def map_laws split: option.split)
qed

end

subsection \<open>BTreeMap: association lists sorted by key\<close>

fun bt_insert :: "'k::linorder \<Rightarrow> 'v \<Rightarrow> ('k \<times> 'v) list \<Rightarrow> ('k \<times> 'v) list" where
  "bt_insert k v [] = [(k, v)]"
| "bt_insert k v ((a, b) # ps) =
     (if k < a then (k, v) # (a, b) # ps
      else if k = a then (k, v) # ps
      else (a, b) # bt_insert k v ps)"

definition bt_remove :: "'k \<Rightarrow> ('k \<times> 'v) list \<Rightarrow> ('k \<times> 'v) list" where
  "bt_remove k ps = filter (\<lambda>p. fst p \<noteq> k) ps"

definition bt_ok :: "('k::linorder \<times> 'v) list \<Rightarrow> bool" where
  "bt_ok ps \<longleftrightarrow> sorted_wrt (<) (map fst ps)"

lemma bt_ok_Nil [simp]: "bt_ok []"
  by (simp add: bt_ok_def)

lemma bt_ok_Cons: "bt_ok ((k, v) # ps) \<longleftrightarrow> (\<forall>p \<in> set ps. k < fst p) \<and> bt_ok ps"
  by (auto simp: bt_ok_def)

lemma set_bt_insert_sub: "set (bt_insert k v ps) \<subseteq> insert (k, v) (set ps)"
  by (induction k v ps rule: bt_insert.induct) auto

lemma bt_ok_insert [wf_intros]: "bt_ok ps \<Longrightarrow> bt_ok (bt_insert k v ps)"
proof (induction k v ps rule: bt_insert.induct)
  case (2 k v a b ps)
  then show ?case
    using set_bt_insert_sub [of k v ps] by (fastforce simp: bt_ok_Cons)
qed (simp add: bt_ok_Cons)

lemma map_of_bt_insert: "map_of (bt_insert k v ps) k' = (if k' = k then Some v else map_of ps k')"
  by (induction k v ps rule: bt_insert.induct) auto

lemma bt_ok_filter [wf_intros]: "bt_ok ps \<Longrightarrow> bt_ok (filter P ps)"
  by (induction ps) (auto simp: bt_ok_Cons)

lemma bt_ok_remove [wf_intros]: "bt_ok ps \<Longrightarrow> bt_ok (bt_remove k ps)"
  by (simp add: bt_remove_def bt_ok_filter)

lemma map_of_bt_remove: "map_of (bt_remove k ps) k' = (if k' = k then None else map_of ps k')"
  unfolding bt_remove_def by (induction ps) auto

lemma map_of_perm:
  "distinct (map fst xs) \<Longrightarrow> distinct (map fst ys) \<Longrightarrow> set xs = set ys \<Longrightarrow> map_of xs = map_of ys"
  by (simp add: map_of_inject_set)

lemma map_of_rev_distinct: "distinct (map fst xs) \<Longrightarrow> map_of (rev xs) = map_of xs"
  by (rule map_of_perm) (simp_all add: rev_map [symmetric])

lemma bt_ok_distinct: "bt_ok ps \<Longrightarrow> distinct (map fst ps)"
  by (simp add: bt_ok_def strict_sorted_iff)

lemma bt_ok_append:
  "bt_ok (ps @ qs) \<longleftrightarrow> bt_ok ps \<and> bt_ok qs \<and> (\<forall>p \<in> set ps. \<forall>q \<in> set qs. fst p < fst q)"
  by (auto simp: bt_ok_def sorted_wrt_append)

lemma bt_insert_snoc:
  "\<forall>p \<in> set ps. fst p < k \<Longrightarrow> bt_insert k v ps = ps @ [(k, v)]"
  by (induction ps) (auto dest: order.asym)

interpretation bt: map_ops "[]" bt_insert bt_remove map_of "bt_ok :: ('k::linorder \<times> 'v) list \<Rightarrow> bool"
  by unfold_locales (simp_all add: map_of_bt_insert map_of_bt_remove bt_ok_insert bt_ok_remove)

section \<open>Streams of items\<close>

text \<open>Decode items until the input is used up or an item fails; the failure, if any, is returned
  with the items before it. The guard on the length makes the recursion well-founded for any decoder.\<close>

function parse_all :: "(bytes \<Rightarrow> ('b \<times> bytes) res) \<Rightarrow> bytes \<Rightarrow> 'b list \<times> failure option" where
  "parse_all dec bs =
     (if bs = [] then ([], None)
      else case dec bs of
        Inl e \<Rightarrow> ([], Some e)
      | Inr (x, rest) \<Rightarrow>
          if length rest < length bs
          then (let (xs, e) = parse_all dec rest in (x # xs, e))
          else ([], Some (Panic ''no progress'')))"
  by pat_completeness auto
termination
  by (relation "measure (\<lambda>(dec, bs). length bs)") auto

declare parse_all.simps [simp del]

lemma parse_all_Nil [simp]: "parse_all dec [] = ([], None)"
  by (simp add: parse_all.simps)

text \<open>The contract of an encoder and a decoder: decoding after encoding gives the item's view and
  leaves the rest; a proper prefix of an encoding is an unexpected end of file; decoding always
  consumes input.\<close>

locale item_codec =
  fixes enc :: "'a \<Rightarrow> bytes"
    and dec :: "bytes \<Rightarrow> ('b \<times> bytes) res"
    and view :: "'a \<Rightarrow> 'b"
    and ok :: "'a \<Rightarrow> bool"
  assumes dec_enc: "ok x \<Longrightarrow> dec (enc x @ rest) = Inr (view x, rest)"
    and dec_torn: "ok x \<Longrightarrow> n < length (enc x) \<Longrightarrow> dec (take n (enc x)) = Inl (IoError UnexpectedEof OsError)"
    and dec_shrinks: "dec bs = Inr (y, rest) \<Longrightarrow> length rest < length bs"
begin

lemma enc_nonempty: "ok x \<Longrightarrow> enc x \<noteq> []"
proof
  assume x: "ok x" and "enc x = []"
  with dec_enc [OF x, of "[]"] have "dec [] = Inr (view x, [])" by simp
  from dec_shrinks [OF this] show False by simp
qed

lemma parse_all_Cons:
  assumes "ok x"
  shows "parse_all dec (enc x @ rest) = (let (xs, e) = parse_all dec rest in (view x # xs, e))"
  using assms enc_nonempty [OF assms]
  by (subst parse_all.simps) (simp add: dec_enc)

lemma parse_all_append:
  assumes "\<forall>x \<in> set xs. ok x"
  shows "parse_all dec (concat (map enc xs) @ rest) =
           (let (ys, e) = parse_all dec rest in (map view xs @ ys, e))"
  using assms by (induction xs) (auto simp: parse_all_Cons Let_def split: prod.split)

lemma parse_all_concat:
  assumes "\<forall>x \<in> set xs. ok x"
  shows "parse_all dec (concat (map enc xs)) = (map view xs, None)"
  using parse_all_append [OF assms, where rest = "[]"] by simp

lemma parse_all_torn:
  assumes "\<forall>x \<in> set xs. ok x" and "ok x" and "0 < n" and "n < length (enc x)"
  shows "parse_all dec (concat (map enc xs) @ take n (enc x)) =
           (map view xs, Some (IoError UnexpectedEof OsError))"
proof -
  have "parse_all dec (take n (enc x)) = ([], Some (IoError UnexpectedEof OsError))"
    using assms(3,4) enc_nonempty [OF assms(2)] dec_torn [OF assms(2,4)]
    by (subst parse_all.simps) simp
  then show ?thesis using parse_all_append [OF assms(1), where rest = "take n (enc x)"] by simp
qed

end

end
