(* ===== verification/Crc32.thy ===== *)
theory Crc32
  imports Prelude
begin

text \<open>
  \<^verbatim>\<open>src/crc.rs\<close>: the table-driven CRC-32 (IEEE, reflected). The table entry of a byte is eight
  steps of the bit-serial register; \<open>crc_update_bitwise\<close> shows that the table-driven update is the
  bit-serial one, and the register step is linear and injective, so that no change of a single
  byte goes undetected.
\<close>

definition REFLECTED_POLYNOMIAL :: u32 where
  "REFLECTED_POLYNOMIAL = 0xEDB88320"

text \<open>The body of the inner loop of \<open>make_lookup_table\<close>.\<close>

definition crc_bit_step :: "u32 \<Rightarrow> u32" where
  "crc_bit_step crc =
     (if crc AND 1 = 1 then drop_bit 1 crc XOR REFLECTED_POLYNOMIAL else drop_bit 1 crc)"

definition make_lookup_table :: "u32 list" where
  "make_lookup_table = map (\<lambda>i. (crc_bit_step ^^ 8) (of_nat i)) [0..<256]"

definition LOOKUP_TABLE :: "u32 list" where
  "LOOKUP_TABLE = make_lookup_table"

definition crc_update :: "u32 \<Rightarrow> byte \<Rightarrow> u32" where
  "crc_update crc b = LOOKUP_TABLE ! unat (ucast crc XOR b) XOR drop_bit 8 crc"

definition crc32 :: "bytes \<Rightarrow> u32" where
  "crc32 data = foldl crc_update 0xFFFFFFFF data XOR 0xFFFFFFFF"

definition crc32_seeded :: "bytes \<Rightarrow> u32 \<Rightarrow> u32" where
  "crc32_seeded data seed = foldl crc_update seed data XOR 0xFFFFFFFF"

text \<open>The reference: one byte is eight steps of the shift register.\<close>

definition crc_bitwise :: "u32 \<Rightarrow> byte \<Rightarrow> u32" where
  "crc_bitwise crc b = (crc_bit_step ^^ 8) (crc XOR ucast b)"

section \<open>The register step\<close>

lemma crc_bit_step_alt:
  "crc_bit_step c = drop_bit 1 c XOR (if bit c 0 then REFLECTED_POLYNOMIAL else 0)"
  by (simp add: crc_bit_step_def and_one_eq bit_0 mod_2_eq_odd)

lemma crc_bit_step_xor: "crc_bit_step (a XOR b) = crc_bit_step a XOR crc_bit_step b"
  by (auto simp: crc_bit_step_alt drop_bit_xor bit_xor_iff ac_simps)

lemma crc_pow_xor: "(crc_bit_step ^^ n) (a XOR b) = (crc_bit_step ^^ n) a XOR (crc_bit_step ^^ n) b"
  by (induction n) (simp_all add: crc_bit_step_xor)

lemma crc_bit_step_zero: "crc_bit_step x = 0 \<Longrightarrow> x = 0"
proof (rule bit_word_eqI)
  fix n
  assume z: "crc_bit_step x = 0" and n: "n < LENGTH(32)"
  have "bit (crc_bit_step x) 31 = bit x 0"
    using bit_imp_le_length [of x 32] by (auto simp: crc_bit_step_alt REFLECTED_POLYNOMIAL_def bit_simps)
  with z have b0: "\<not> bit x 0" by simp
  with z have "drop_bit 1 x = 0" by (simp add: crc_bit_step_alt)
  then have "\<not> bit x (Suc m)" for m
    using bit_drop_bit_eq [of 1 x] by (metis bit_0_eq bot_apply bot_bool_def comp_apply plus_1_eq_Suc)
  with b0 show "bit x n = bit 0 n" by (cases n) auto
qed

lemma crc_bit_step_inj: "crc_bit_step a = crc_bit_step b \<Longrightarrow> a = b"
  using crc_bit_step_zero [of "a XOR b"] by (simp add: crc_bit_step_xor xor_eq_0_iff)

lemma crc_pow_inj: "(crc_bit_step ^^ n) a = (crc_bit_step ^^ n) b \<Longrightarrow> a = b"
  by (induction n) (auto dest: crc_bit_step_inj)

lemma crc_pow_high:
  assumes "n \<le> 8"
  shows "(crc_bit_step ^^ n) (push_bit 8 (drop_bit 8 x)) = push_bit (8 - n) (drop_bit 8 x)"
  using assms
proof (induction n)
  case 0
  then show ?case by simp
next
  case (Suc n)
  have "crc_bit_step (push_bit (8 - n) (drop_bit 8 x)) = push_bit (8 - Suc n) (drop_bit 8 x)"
    using Suc.prems unfolding crc_bit_step_alt
    by (intro bit_word_eqI) (auto simp: bit_simps Suc_diff_le not_le less_Suc_eq_le dest: bit_imp_le_length)
  with Suc show ?case by simp
qed

lemma length_LOOKUP_TABLE: "length LOOKUP_TABLE = 256"
  by (simp add: LOOKUP_TABLE_def make_lookup_table_def)

lemma LOOKUP_TABLE_nth: "LOOKUP_TABLE ! unat (i :: byte) = (crc_bit_step ^^ 8) (ucast i)"
  using unsigned_less [of i, where ?'a = nat]
  by (simp add: LOOKUP_TABLE_def make_lookup_table_def)

text \<open>The table-driven update is the bit-serial one.\<close>

lemma crc_update_bitwise: "crc_update crc b = crc_bitwise crc b"
proof -
  let ?x = "crc XOR ucast b"
  have low: "ucast (ucast crc XOR b :: byte) = (take_bit 8 ?x :: u32)"
    by (intro bit_word_eqI) (auto simp: bit_simps dest: bit_imp_le_length)
  have split: "?x = take_bit 8 ?x XOR push_bit 8 (drop_bit 8 ?x)"
  proof (rule bit_word_eqI)
    fix n
    show "bit ?x n = bit (take_bit 8 ?x XOR push_bit 8 (drop_bit 8 ?x)) n" if "n < LENGTH(32)"
      using that by (cases "n < 8") (simp_all add: bit_simps)
  qed
  have high: "drop_bit 8 ?x = drop_bit 8 crc"
    by (intro bit_word_eqI) (auto simp: bit_simps dest: bit_imp_le_length)
  have "crc_bitwise crc b
      = (crc_bit_step ^^ 8) (take_bit 8 ?x) XOR (crc_bit_step ^^ 8) (push_bit 8 (drop_bit 8 ?x))"
    unfolding crc_bitwise_def by (subst split) (simp only: crc_pow_xor)
  also have "\<dots> = crc_update crc b"
    using crc_pow_high [of 8 ?x] by (simp only: crc_update_def LOOKUP_TABLE_nth low high) simp
  finally show ?thesis by simp
qed

lemma crc_update_inj_state: "crc_update a x = crc_update b x \<Longrightarrow> a = b"
  by (auto simp: crc_update_bitwise crc_bitwise_def dest!: crc_pow_inj)

lemma ucast_byte_inj: "(ucast (x :: byte) :: u32) = ucast y \<Longrightarrow> x = y"
proof (rule bit_word_eqI)
  fix n
  assume h: "(ucast x :: u32) = ucast y" and n: "n < LENGTH(8)"
  have "bit (ucast x :: u32) n = bit (ucast y :: u32) n" by (simp only: h)
  with n show "bit x n = bit y n" by (simp add: bit_simps)
qed

lemma crc_update_inj_byte: "crc_update a x = crc_update a y \<Longrightarrow> x = y"
  by (auto simp: crc_update_bitwise crc_bitwise_def dest!: crc_pow_inj dest: ucast_byte_inj)

lemma crc_fold_inj: "foldl crc_update a xs = foldl crc_update b xs \<Longrightarrow> a = b"
  by (induction xs arbitrary: a b) (auto dest: crc_update_inj_state)

text \<open>Evaluation goes through the bit-serial form, which needs no table.\<close>

lemma crc_update_eq [code]: "crc_update = crc_bitwise"
  by (intro ext crc_update_bitwise)

section \<open>Correctness\<close>

text \<open>C40. the table-driven \<open>crc32\<close> computes the CRC of the bit-serial shift register with the
  reflected IEEE polynomial, initial value and final inversion all ones.\<close>

theorem crc32_is_bitwise_crc:
  "crc32 data = foldl (\<lambda>crc b. (crc_bit_step ^^ 8) (crc XOR ucast b)) 0xFFFFFFFF data XOR 0xFFFFFFFF"
  by (simp add: crc32_def crc_update_eq crc_bitwise_def [abs_def])

lemma crc32_byte_change: "crc32 (xs @ b # ys) = crc32 (xs @ c # ys) \<longleftrightarrow> b = c"
  by (auto simp: crc32_def dest: crc_fold_inj crc_update_inj_byte)

end
