(* ===== verification/Disk_Record.thy ===== *)
theory Disk_Record
  imports Crc32
begin

text \<open>
  \<^verbatim>\<open>src/record.rs\<close> and \<^verbatim>\<open>src/utils.rs\<close>: the record that every log, segment and SSTable block is
  made of. \<open>record_bytes\<close> is \<open>Record::to_be_bytes\<close>. The record codec is an \<open>item_codec\<close>
  (interpretation \<open>rec\<close>): round trip, torn writes, progress. A successful read re-encodes to exactly
  the bytes it consumed, and a change of one byte outside the size and flag fields is caught.
\<close>

section \<open>Data\<close>

abbreviation CRC_LEN :: nat where "CRC_LEN \<equiv> 4"
abbreviation SIZE_FIELD_LEN :: nat where "SIZE_FIELD_LEN \<equiv> 8"
abbreviation FLAGS_LEN :: nat where "FLAGS_LEN \<equiv> 1"
abbreviation TTL_LEN :: nat where "TTL_LEN \<equiv> 8"
abbreviation RECORD_HEADER_LEN :: nat where "RECORD_HEADER_LEN \<equiv> CRC_LEN + SIZE_FIELD_LEN * 2 + FLAGS_LEN"

definition MAX_KEY_SIZE :: nat where "MAX_KEY_SIZE = 1048576"
definition MAX_VALUE_SIZE :: nat where "MAX_VALUE_SIZE = 1048576 * 5"

definition FLAG_TOMBSTONE :: u8 where "FLAG_TOMBSTONE = push_bit 0 1"
definition FLAG_HAS_EXPIRY :: u8 where "FLAG_HAS_EXPIRY = push_bit 1 1"

record record_header =
  hdr_crc32 :: u32
  hdr_key_size :: u64
  hdr_value_size :: u64
  hdr_flags :: u8
  hdr_expiry_ms :: "u64 option"

record disk_record =
  rec_header :: record_header
  rec_key :: rstring
  rec_value :: rstring

text \<open>The struct literal by which the engines, the log and the SSTable writer build a record; the
  checksum is filled in by the encoder.\<close>

definition mk_record :: "rstring \<Rightarrow> rstring \<Rightarrow> u8 \<Rightarrow> u64 option \<Rightarrow> disk_record" where
  "mk_record key value flags expiry_ms =
     \<lparr>rec_header = \<lparr>hdr_crc32 = 0, hdr_key_size = of_nat (len key), hdr_value_size = of_nat (len value),
                   hdr_flags = flags, hdr_expiry_ms = expiry_ms\<rparr>,
      rec_key = key, rec_value = value\<rparr>"

definition is_expired :: "u64 \<Rightarrow> u64 \<Rightarrow> bool" where
  "is_expired expiry_ms now_ms \<longleftrightarrow> expiry_ms \<le> now_ms"

definition is_tombstone :: "record_header \<Rightarrow> bool" where
  "is_tombstone h \<longleftrightarrow> hdr_flags h AND FLAG_TOMBSTONE \<noteq> 0"

definition set_ttl :: "u64 \<Rightarrow> record_header \<Rightarrow> record_header" where
  "set_ttl expiry_ms h = h\<lparr>hdr_expiry_ms := Some expiry_ms\<rparr>"

section \<open>Encoding and decoding\<close>

text \<open>The sizes are those of a key and a value in memory, so that the sum does not overflow; in the model it would wrap around.\<close>

definition size_on_disk :: "disk_record \<Rightarrow> u64" where
  "size_on_disk r =
     (let expiry_len = if hdr_expiry_ms (rec_header r) \<noteq> None then of_nat TTL_LEN else 0
      in of_nat RECORD_HEADER_LEN + expiry_len + hdr_key_size (rec_header r) + hdr_value_size (rec_header r))"

text \<open>What the checksum covers: everything after the checksum field.\<close>

definition record_payload :: "record_header \<Rightarrow> bytes \<Rightarrow> bytes \<Rightarrow> bytes" where
  "record_payload h k v =
     be_bytes SIZE_FIELD_LEN (hdr_key_size h) @ be_bytes SIZE_FIELD_LEN (hdr_value_size h) @ [hdr_flags h] @
     (case hdr_expiry_ms h of Some ms \<Rightarrow> be_bytes TTL_LEN ms | None \<Rightarrow> []) @ k @ v"

definition record_bytes :: "disk_record \<Rightarrow> bytes" where
  "record_bytes r =
     (let payload = record_payload (rec_header r) (as_bytes (rec_key r)) (as_bytes (rec_value r))
      in be_bytes CRC_LEN (crc32 payload) @ payload)"

text \<open>\<open>Record::append\<close>: the offset of the record and the file after it.\<close>

definition record_append :: "disk_record \<Rightarrow> bytes \<Rightarrow> u64 \<times> bytes" where
  "record_append r file = (of_nat (length file), file @ record_bytes r)"

definition read_header :: "bytes \<Rightarrow> (record_header \<times> bytes) res" where
  "read_header bs =
     and_then (read_exact CRC_LEN bs) (\<lambda>(c32_buf, bs).
     and_then (read_exact SIZE_FIELD_LEN bs) (\<lambda>(k_buf, bs).
     and_then (read_exact SIZE_FIELD_LEN bs) (\<lambda>(v_buf, bs).
     and_then (read_exact FLAGS_LEN bs) (\<lambda>(f_buf, bs).
       let flags = hd f_buf in
       and_then
         (if flags AND FLAG_HAS_EXPIRY \<noteq> 0
          then and_then (read_exact TTL_LEN bs) (\<lambda>(ttl_buf, bs). Inr (Some (from_be ttl_buf), bs))
          else Inr (None, bs))
         (\<lambda>(expiry_ms, bs).
            Inr (\<lparr>hdr_crc32 = from_be c32_buf, hdr_key_size = from_be k_buf,
                  hdr_value_size = from_be v_buf, hdr_flags = flags, hdr_expiry_ms = expiry_ms\<rparr>, bs))))))"

definition read_next :: "bytes \<Rightarrow> (disk_record \<times> bytes) res" where
  "read_next bs =
     and_then (read_header bs) (\<lambda>(header, bs).
       if MAX_KEY_SIZE < unat (hdr_key_size header) \<or> MAX_VALUE_SIZE < unat (hdr_value_size header)
       then Inl (IoError InvalidInput (Message ''key or value exceeds maximum allowed size''))
       else
         and_then (read_exact (unat (hdr_key_size header)) bs) (\<lambda>(k_buf, bs).
         and_then (read_exact (unat (hdr_value_size header)) bs) (\<lambda>(v_buf, bs).
           if crc32 (record_payload header k_buf v_buf) \<noteq> hdr_crc32 header
           then Inl (IoError InvalidData (Message ''CRC mismatch''))
           else
             and_then (from_utf8 k_buf) (\<lambda>k.
             and_then (from_utf8 v_buf) (\<lambda>v.
               Inr (\<lparr>rec_header = header, rec_key = k, rec_value = v\<rparr>, bs))))))"

definition read_record_at :: "bytes \<Rightarrow> u64 \<Rightarrow> (disk_record \<times> bytes) res" where
  "read_record_at file offset = read_next (drop (unat offset) file)"

section \<open>Well-formed records\<close>

text \<open>What every writer of the program puts in a header: the real sizes, and the expiry flag exactly
  when there is an expiry. A reader accepts the record when the sizes are within the limits.\<close>

definition record_wf :: "disk_record \<Rightarrow> bool" where
  "record_wf r \<longleftrightarrow>
     unat (hdr_key_size (rec_header r)) = len (rec_key r) \<and>
     unat (hdr_value_size (rec_header r)) = len (rec_value r) \<and>
     (hdr_flags (rec_header r) AND FLAG_HAS_EXPIRY \<noteq> 0 \<longleftrightarrow> hdr_expiry_ms (rec_header r) \<noteq> None)"

definition record_fits :: "disk_record \<Rightarrow> bool" where
  "record_fits r \<longleftrightarrow> len (rec_key r) \<le> MAX_KEY_SIZE \<and> len (rec_value r) \<le> MAX_VALUE_SIZE"

abbreviation record_ok :: "disk_record \<Rightarrow> bool" where
  "record_ok r \<equiv> record_wf r \<and> record_fits r"

lemma mk_record_simps [simp]:
  "rec_key (mk_record k v f e) = k" "rec_value (mk_record k v f e) = v"
  "hdr_flags (rec_header (mk_record k v f e)) = f" "hdr_expiry_ms (rec_header (mk_record k v f e)) = e"
  by (simp_all add: mk_record_def)

lemma record_wf_mk_record [wf_intros]:
  "len k < 2 ^ 64 \<Longrightarrow> len v < 2 ^ 64 \<Longrightarrow> (f AND FLAG_HAS_EXPIRY \<noteq> 0 \<longleftrightarrow> e \<noteq> None) \<Longrightarrow> record_wf (mk_record k v f e)"
  by (simp add: record_wf_def mk_record_def unat_of_nat)

lemma flag_simps [simp]:
  "FLAG_HAS_EXPIRY \<noteq> 0" "FLAG_TOMBSTONE \<noteq> 0" "FLAG_TOMBSTONE AND FLAG_HAS_EXPIRY = 0"
  "FLAG_HAS_EXPIRY AND FLAG_TOMBSTONE = 0"
  "(FLAG_TOMBSTONE OR FLAG_HAS_EXPIRY) AND FLAG_HAS_EXPIRY \<noteq> 0"
  "(FLAG_TOMBSTONE OR FLAG_HAS_EXPIRY) AND FLAG_TOMBSTONE \<noteq> 0"
  by (simp_all add: FLAG_HAS_EXPIRY_def FLAG_TOMBSTONE_def)

text \<open>The record as it is read back: the checksum field holds the checksum.\<close>

definition stored :: "disk_record \<Rightarrow> disk_record" where
  "stored r = r\<lparr>rec_header := (rec_header r)\<lparr>hdr_crc32 :=
     crc32 (record_payload (rec_header r) (as_bytes (rec_key r)) (as_bytes (rec_value r)))\<rparr>\<rparr>"

lemma stored_simps [simp]:
  "rec_key (stored r) = rec_key r" "rec_value (stored r) = rec_value r"
  "hdr_flags (rec_header (stored r)) = hdr_flags (rec_header r)"
  "hdr_expiry_ms (rec_header (stored r)) = hdr_expiry_ms (rec_header r)"
  "hdr_key_size (rec_header (stored r)) = hdr_key_size (rec_header r)"
  "hdr_value_size (rec_header (stored r)) = hdr_value_size (rec_header r)"
  by (simp_all add: stored_def)

lemma stored_eq_iff:
  "stored r = r \<longleftrightarrow>
     hdr_crc32 (rec_header r) = crc32 (record_payload (rec_header r) (as_bytes (rec_key r)) (as_bytes (rec_value r)))"
  by (cases r, cases "rec_header r") (auto simp: stored_def)

lemma is_tombstone_stored [simp]: "is_tombstone (rec_header (stored r)) = is_tombstone (rec_header r)"
  by (simp add: is_tombstone_def)

lemma record_payload_crc [simp]: "record_payload (h\<lparr>hdr_crc32 := c\<rparr>) k v = record_payload h k v"
  by (simp add: record_payload_def)

lemma record_bytes_stored [simp]: "record_bytes (stored r) = record_bytes r"
  by (simp add: record_bytes_def stored_def)

lemma record_wf_stored [simp]: "record_wf (stored r) = record_wf r"
  by (simp add: record_wf_def)

text \<open>The header as bytes.\<close>

definition header_bytes :: "u32 \<Rightarrow> record_header \<Rightarrow> bytes" where
  "header_bytes c h =
     be_bytes CRC_LEN c @ be_bytes SIZE_FIELD_LEN (hdr_key_size h) @ be_bytes SIZE_FIELD_LEN (hdr_value_size h) @
     [hdr_flags h] @ (case hdr_expiry_ms h of Some ms \<Rightarrow> be_bytes TTL_LEN ms | None \<Rightarrow> [])"

abbreviation flags_agree :: "record_header \<Rightarrow> bool" where
  "flags_agree h \<equiv> (hdr_flags h AND FLAG_HAS_EXPIRY \<noteq> 0 \<longleftrightarrow> hdr_expiry_ms h \<noteq> None)"

lemma record_bytes_split:
  "record_bytes r = header_bytes (hdr_crc32 (rec_header (stored r))) (rec_header r) @ as_bytes (rec_key r) @ as_bytes (rec_value r)"
  by (simp add: record_bytes_def header_bytes_def stored_def record_payload_def Let_def)

lemma read_exact_one [simp]: "read_exact (Suc 0) (x # xs) = Inr ([x], xs)"
  by (simp add: read_exact_def)

lemma read_header_bytes:
  "flags_agree h \<Longrightarrow> read_header (header_bytes c h @ rest) = Inr (h\<lparr>hdr_crc32 := c\<rparr>, rest)"
  by (cases "hdr_expiry_ms h") (auto simp: read_header_def header_bytes_def)

lemma read_header_torn:
  assumes "flags_agree h" and "n < length (header_bytes c h)"
  shows "read_header (take n (header_bytes c h)) = Inl (IoError UnexpectedEof OsError)"
proof (cases "hdr_expiry_ms h")
  case None
  with assms show ?thesis
    by (auto simp: read_header_def header_bytes_def read_exact_take read_exact_short simp del: take_append)
next
  case (Some ms)
  with assms show ?thesis
    by (auto simp: read_header_def header_bytes_def read_exact_take read_exact_short take_Cons' simp del: take_append)
qed

section \<open>The record codec\<close>

lemma read_next_record_bytes:
  assumes "record_ok r"
  shows "read_next (record_bytes r @ rest) = Inr (stored r, rest)"
proof -
  have fl: "flags_agree (rec_header r)" using assms by (simp add: record_wf_def)
  show ?thesis
    unfolding read_next_def record_bytes_split append_assoc read_header_bytes [OF fl]
    using assms by (simp add: record_wf_def record_fits_def stored_def)
qed

lemma read_next_torn:
  assumes ok: "record_ok r" and n: "n < length (record_bytes r)"
  shows "read_next (take n (record_bytes r)) = Inl (IoError UnexpectedEof OsError)"
proof -
  let ?c = "hdr_crc32 (rec_header (stored r))"
  let ?hb = "header_bytes ?c (rec_header r)"
  have fl: "flags_agree (rec_header r)" using ok by (simp add: record_wf_def)
  show ?thesis
  proof (cases "n < length ?hb")
    case True
    then show ?thesis
      using read_header_torn [OF fl True] by (simp add: read_next_def record_bytes_split)
  next
    case False
    then have "take n (record_bytes r) = ?hb @ take (n - length ?hb) (as_bytes (rec_key r) @ as_bytes (rec_value r))"
      by (simp add: record_bytes_split)
    then show ?thesis
      using ok n False unfolding read_next_def
      by (simp add: read_header_bytes [OF fl] record_wf_def record_fits_def record_bytes_split
          read_exact_take read_exact_short del: take_append)
  qed
qed

lemma read_header_exact:
  "read_header bs = Inr (h, rest) \<Longrightarrow> bs = header_bytes (hdr_crc32 h) h @ rest \<and> flags_agree h"
  by (auto simp: read_header_def header_bytes_def and_then_Inr_iff read_exact_Inr_iff Let_def
      length_Suc_conv split: if_splits prod.splits)

lemma read_next_exact:
  assumes "read_next bs = Inr (r, rest)"
  shows "bs = record_bytes r @ rest \<and> record_ok r \<and> stored r = r"
proof -
  from assms obtain h bs1 where h: "read_header bs = Inr (h, bs1)"
    and sz: "unat (hdr_key_size h) \<le> MAX_KEY_SIZE" "unat (hdr_value_size h) \<le> MAX_VALUE_SIZE"
    and kv: "bs1 = as_bytes (rec_key r) @ as_bytes (rec_value r) @ rest"
      "len (rec_key r) = unat (hdr_key_size h)" "len (rec_value r) = unat (hdr_value_size h)"
    and crc: "crc32 (record_payload h (as_bytes (rec_key r)) (as_bytes (rec_value r))) = hdr_crc32 h"
    and r: "rec_header r = h"
    by (auto simp: read_next_def and_then_Inr_iff read_exact_Inr_iff from_utf8_Inr_iff
        split: if_splits prod.splits)
  have st: "stored r = r" using crc r by (simp add: stored_def)
  moreover have "bs = record_bytes r @ rest"
    using read_header_exact [OF h] kv st r by (simp add: record_bytes_split)
  moreover have "record_ok r"
    using read_header_exact [OF h] kv sz r by (simp add: record_wf_def record_fits_def)
  ultimately show ?thesis by blast
qed

lemma length_record_bytes:
  "length (record_bytes r) = RECORD_HEADER_LEN + (if hdr_expiry_ms (rec_header r) \<noteq> None then TTL_LEN else 0)
     + len (rec_key r) + len (rec_value r)"
  by (auto simp: record_bytes_def record_payload_def Let_def split: option.splits)

lemma read_next_shrinks: "read_next bs = Inr (r, rest) \<Longrightarrow> length rest < length bs"
  by (drule read_next_exact) (auto simp: length_record_bytes)

interpretation rec: item_codec record_bytes read_next stored record_ok
  by unfold_locales (auto intro: read_next_record_bytes read_next_torn read_next_shrinks)

section \<open>Correctness\<close>

text \<open>C18. writing a record and reading it back gives the same record (with the checksum filled in) and
  leaves the reader at the byte after it, whatever follows.\<close>

theorem record_roundtrip:
  assumes "record_wf r" and "record_fits r"
  shows "read_next (record_bytes r @ rest) = Inr (stored r, rest)"
  using assms by (intro rec.dec_enc) simp

theorem record_roundtrip_witness:
  "record_wf (mk_record (lit ''k'') (lit ''v'') FLAG_HAS_EXPIRY (Some 9)) \<and>
   read_next (record_bytes (mk_record (lit ''k'') (lit ''v'') FLAG_HAS_EXPIRY (Some 9)) @ [7]) =
     Inr (stored (mk_record (lit ''k'') (lit ''v'') FLAG_HAS_EXPIRY (Some 9)), [7])"
proof -
  let ?r = "mk_record (lit ''k'') (lit ''v'') FLAG_HAS_EXPIRY (Some 9)"
  have wf: "record_wf ?r" and fits: "record_fits ?r"
    by (simp_all add: record_wf_mk_record  record_fits_def MAX_KEY_SIZE_def MAX_VALUE_SIZE_def)
  show ?thesis using wf record_roundtrip [OF wf fits, of "[7]"] by simp
qed

text \<open>C36. the reader accepts nothing but what the writer writes: a successful read consumed exactly the
  encoding of the record it returns, whose sizes, flags and checksum are consistent.\<close>

theorem read_next_sound:
  assumes "read_next bs = Inr (r, rest)"
  shows "bs = record_bytes r @ rest \<and> record_wf r \<and> record_fits r
           \<and> hdr_crc32 (rec_header r) = crc32 (record_payload (rec_header r) (as_bytes (rec_key r)) (as_bytes (rec_value r)))"
  using read_next_exact [OF assms] by (simp add: stored_eq_iff)

theorem read_next_sound_witness:
  "\<exists>r. read_next (record_bytes (mk_record (lit ''a'') (lit ''b'') FLAG_TOMBSTONE None) @ [1]) = Inr (r, [1]) \<and> record_wf r"
proof -
  let ?r = "mk_record (lit ''a'') (lit ''b'') FLAG_TOMBSTONE None"
  have "record_ok ?r"
    by (simp add: record_wf_mk_record  record_fits_def MAX_KEY_SIZE_def MAX_VALUE_SIZE_def)
  then have "read_next (record_bytes ?r @ [1]) = Inr (stored ?r, [1])" by (rule read_next_record_bytes)
  with read_next_sound [OF this] show ?thesis by blast
qed

text \<open>The reader on a header and a tail of the right length whose checksum is wrong.\<close>

lemma read_next_bad_tail:
  assumes fl: "flags_agree h"
    and len: "length t = (if hdr_expiry_ms h \<noteq> None then TTL_LEN else 0) + unat (hdr_key_size h) + unat (hdr_value_size h)"
    and fits: "unat (hdr_key_size h) \<le> MAX_KEY_SIZE" "unat (hdr_value_size h) \<le> MAX_VALUE_SIZE"
    and crc: "crc32 (be_bytes 8 (hdr_key_size h) @ be_bytes 8 (hdr_value_size h) @ hdr_flags h # t) \<noteq> c"
  shows "read_next (be_bytes 4 c @ be_bytes 8 (hdr_key_size h) @ be_bytes 8 (hdr_value_size h) @ hdr_flags h # t @ rest)
           = Inl (IoError InvalidData (Message ''CRC mismatch''))"
proof (cases "hdr_expiry_ms h")
  case None
  define k v where "k = take (unat (hdr_key_size h)) t" and "v = drop (unat (hdr_key_size h)) t"
  have "t = k @ v" "length k = unat (hdr_key_size h)" "length v = unat (hdr_value_size h)"
    using len None by (auto simp: k_def v_def)
  with None fl fits crc show ?thesis
    by (simp add: read_next_def read_header_def record_payload_def)
next
  case (Some ms)
  define e k v where "e = take 8 t" and "k = take (unat (hdr_key_size h)) (drop 8 t)"
    and "v = drop (unat (hdr_key_size h)) (drop 8 t)"
  have t: "t = e @ k @ v" by (simp add: e_def k_def v_def flip: drop_drop)
  have "length e = 8" "length k = unat (hdr_key_size h)" "length v = unat (hdr_value_size h)"
    using len Some by (auto simp: e_def k_def v_def)
  with t Some fl fits crc show ?thesis
    by (simp add: read_next_def read_header_def record_payload_def)
qed

lemma crc32_update: "i < length xs \<Longrightarrow> b \<noteq> xs ! i \<Longrightarrow> crc32 (xs[i := b]) \<noteq> crc32 xs"
  by (metis crc32_byte_change id_take_nth_drop upd_conv_take_nth_drop)

lemma be_bytes_update:
  assumes "i < n" and "b \<noteq> be_bytes n w ! i" and "LENGTH('a) = 8 * n"
  shows "\<exists>w'. (be_bytes n (w :: 'a::len word))[i := b] = be_bytes n w' \<and> w' \<noteq> w"
proof (intro exI conjI)
  show eq: "(be_bytes n w)[i := b] = be_bytes n (from_be ((be_bytes n w)[i := b]) :: 'a word)"
    using assms(3) by simp
  show "from_be ((be_bytes n w)[i := b]) \<noteq> w"
  proof
    assume "from_be ((be_bytes n w)[i := b]) = w"
    with eq have "(be_bytes n w)[i := b] = be_bytes n w" by simp
    with assms(1,2) show False by (metis length_be_bytes nth_list_update_eq)
  qed
qed

text \<open>C37. a stored record in which one byte outside the size and flag fields (bytes 4 to 20) was changed
  is never read as a record: the reader reports a CRC mismatch.\<close>

theorem record_corruption_detected:
  assumes ok: "record_wf r" "record_fits r"
    and i: "i < length (record_bytes r)" "i < CRC_LEN \<or> RECORD_HEADER_LEN \<le> i"
    and b: "b \<noteq> record_bytes r ! i"
  shows "read_next ((record_bytes r)[i := b] @ rest) = Inl (IoError InvalidData (Message ''CRC mismatch''))"
proof -
  let ?h = "rec_header r"
  let ?F = "be_bytes 8 (hdr_key_size ?h) @ be_bytes 8 (hdr_value_size ?h) @ [hdr_flags ?h]"
  define t where "t = (case hdr_expiry_ms ?h of Some ms \<Rightarrow> be_bytes TTL_LEN ms | None \<Rightarrow> []) @ as_bytes (rec_key r) @ as_bytes (rec_value r)"
  define c where "c = crc32 (?F @ t)"
  have rb: "record_bytes r = be_bytes 4 c @ ?F @ t"
    by (simp add: record_bytes_def record_payload_def t_def c_def Let_def)
  have fl: "flags_agree ?h" and len: "length t = (if hdr_expiry_ms ?h \<noteq> None then TTL_LEN else 0) + unat (hdr_key_size ?h) + unat (hdr_value_size ?h)"
    and fits: "unat (hdr_key_size ?h) \<le> MAX_KEY_SIZE" "unat (hdr_value_size ?h) \<le> MAX_VALUE_SIZE"
    using ok by (auto simp: record_wf_def record_fits_def t_def split: option.splits)
  show ?thesis
  proof (cases "i < 4")
    case True
    with b obtain c' where "(be_bytes 4 c)[i := b] = be_bytes 4 c'" "c' \<noteq> c"
      using be_bytes_update [of i 4 b c] by (auto simp: rb nth_append)
    then show ?thesis
      using read_next_bad_tail [OF fl len fits, of c' rest] True by (simp add: rb list_update_append c_def)
  next
    case False
    define m where "m = i - 21"
    have m: "i = 21 + m" "m < length t" using i False by (auto simp: rb m_def)
    have upd: "(xs @ t)[n + m := b] = xs @ t[m := b]" "(xs @ t) ! (n + m) = t ! m" if "length xs = n" for xs n
      using that by (auto simp: list_update_append nth_append)
    have "b \<noteq> t ! m" using b m upd(2) [of "be_bytes 4 c @ ?F" 21] by (simp add: rb)
    then have "crc32 (?F @ t[m := b]) \<noteq> c"
      using crc32_update [of "17 + m" "?F @ t" b] m(2) upd [of ?F 17] by (simp add: c_def)
    then show ?thesis
      using read_next_bad_tail [OF fl _ fits, of "t[m := b]" c rest] len upd(1) [of "be_bytes 4 c @ ?F" 21] m
      by (simp add: rb)
  qed
qed

theorem record_corruption_detected_witness:
  "read_next ((record_bytes (mk_record (lit ''k'') (lit ''v'') 0 None))[21 := 0] @ []) =
     Inl (IoError InvalidData (Message ''CRC mismatch''))"
proof -
  let ?r = "mk_record (lit ''k'') (lit ''v'') 0 None"
  have wf: "record_wf ?r" and fits: "record_fits ?r" and i: "21 < length (record_bytes ?r)"
    by (simp_all add: record_wf_mk_record length_record_bytes  record_fits_def MAX_KEY_SIZE_def MAX_VALUE_SIZE_def)
  have "0 \<noteq> record_bytes ?r ! 21"
    by (simp add: record_bytes_def record_payload_def Let_def nth_append nth_Cons' of_char_def)
  from record_corruption_detected [OF wf fits i _ this, of "[]"] show ?thesis by simp
qed

end
