(* ===== verification/Lz77_Codec.thy ===== *)
theory Lz77_Codec
  imports Prelude
begin

text \<open>
  \<^verbatim>\<open>src/lz77.rs\<close>: the LZ77 codec of the SSTable blocks, with its hash table of trigrams, hash chains
  and varint-coded matches. Every array access of the encoder is checked in the model; the main theorem
  shows that the encoder never panics and that decoding gives the data back. The locale \<open>compressor\<close> is
  the contract the block layer relies on.
\<close>

section \<open>Varints and the rolling hash\<close>

definition SEARCH_WINDOW :: nat where "SEARCH_WINDOW = 32768"
definition LOOKAHEAD_WINDOW :: nat where "LOOKAHEAD_WINDOW = 258"
definition MAX_CHAIN :: nat where "MAX_CHAIN = 128"
definition HASH_SIZE :: nat where "HASH_SIZE = 32768"
definition H_SHIFT :: nat where "H_SHIFT = 5"

definition rolling_hash :: "u32 \<Rightarrow> byte \<Rightarrow> u32" where
  "rolling_hash prev b = (push_bit H_SHIFT prev XOR ucast b) AND (of_nat HASH_SIZE - 1)"

lemma drop7_less: "128 \<le> v \<Longrightarrow> unat (drop_bit 7 v) < unat (v :: u32)"
  by (simp add: drop_bit_eq_div word_le_nat_alt unat_div)

function encode_varint :: "u32 \<Rightarrow> bytes \<Rightarrow> bytes" where
  "encode_varint v output =
     (if 128 \<le> v then encode_varint (drop_bit 7 v) (output @ [ucast (v AND 127 OR 128)])
      else output @ [ucast (v AND 127)])"
  by pat_completeness auto
termination
  by (relation "measure (\<lambda>(v, output). unat v)") (auto intro: drop7_less)

declare encode_varint.simps [simp del]

function decode_varint_loop :: "bytes \<Rightarrow> u32 \<Rightarrow> nat \<Rightarrow> nat \<Rightarrow> (u32 \<times> nat) res" where
  "decode_varint_loop encoded v shift i =
     and_then (idx encoded i) (\<lambda>b.
       if 32 \<le> shift then Inl (Panic ''attempt to shift left with overflow'')
       else
         let v = v OR push_bit shift (ucast (b AND 127))
         in if b AND 128 = 0 then Inr (v, i + 1)
            else decode_varint_loop encoded v (shift + 7) (i + 1))"
  by pat_completeness auto
termination
  by (relation "measure (\<lambda>(encoded, v, shift, i). length encoded - i)") (auto simp: idx_def split: if_splits)

declare decode_varint_loop.simps [simp del]

definition decode_varint :: "bytes \<Rightarrow> (u32 \<times> nat) res" where
  "decode_varint encoded = (if encoded = [] then Inr (0, 0) else decode_varint_loop encoded 0 0 0)"

section \<open>The encoder\<close>

record lz_match =
  match_offset :: nat
  match_len :: nat

definition common_prefix :: "bytes \<Rightarrow> bytes \<Rightarrow> nat" where
  "common_prefix xs ys = length (takeWhile (\<lambda>(a, b). a = b) (zip xs ys))"

text \<open>The candidate loop; the first argument is the number of iterations left of \<open>MAX_CHAIN\<close>.\<close>

fun find_loop :: "nat \<Rightarrow> bytes \<Rightarrow> nat \<Rightarrow> bytes \<Rightarrow> nat \<Rightarrow> nat option list \<Rightarrow> nat \<Rightarrow> nat \<Rightarrow> nat \<Rightarrow> (nat \<times> nat) res" where
  "find_loop 0 data pos lookahead search_start chain candidate best_offset best_len = Inr (best_offset, best_len)"
| "find_loop (Suc n) data pos lookahead search_start chain candidate best_offset best_len =
     (if pos \<le> candidate then
        and_then (idx chain candidate) (\<lambda>c.
          case c of
            Some prev \<Rightarrow> find_loop n data pos lookahead search_start chain prev best_offset best_len
          | None \<Rightarrow> Inr (best_offset, best_len))
      else if candidate < search_start then Inr (best_offset, best_len)
      else
        let l = common_prefix (drop candidate data) lookahead;
            best_offset' = (if best_len < l then pos - candidate else best_offset);
            best_len' = (if best_len < l then l else best_len)
        in and_then (idx chain candidate) (\<lambda>c.
             case c of
               Some prev \<Rightarrow> find_loop n data pos lookahead search_start chain prev best_offset' best_len'
             | None \<Rightarrow> Inr (best_offset', best_len')))"

definition find_longest_match ::
  "bytes \<Rightarrow> nat \<Rightarrow> nat \<Rightarrow> u32 list \<Rightarrow> nat option list \<Rightarrow> lz_match option res" where
  "find_longest_match data pos hash table chain =
     (let lookahead = take (min (pos + LOOKAHEAD_WINDOW) (length data) - pos) (drop pos data);
          search_start = pos - SEARCH_WINDOW
      in if length lookahead < 3 then Inr None
         else
           and_then (idx table hash) (\<lambda>first.
             if first = 0xFFFFFFFF then Inr None
             else
               and_then (find_loop MAX_CHAIN data pos lookahead search_start chain (unat first) 0 0)
                 (\<lambda>(best_offset, best_len).
                    if best_len < 3 then Inr None
                    else Inr (Some \<lparr>match_offset = best_offset, match_len = best_len\<rparr>))))"

text \<open>Inserting a position under the hash of its trigram: the old head goes to the chain.\<close>

definition lz_insert :: "bytes \<Rightarrow> nat \<Rightarrow> u32 \<Rightarrow> u32 list \<times> nat option list \<Rightarrow> (u32 list \<times> nat option list) res" where
  "lz_insert data p hash = (\<lambda>(table, chain).
     if p + 3 \<le> length data then
       and_then (idx table (unat hash)) (\<lambda>old_head.
       and_then (if old_head \<noteq> 0xFFFFFFFF then set_idx p (Some (unat old_head)) chain else Inr chain) (\<lambda>chain.
       and_then (set_idx (unat hash) (of_nat p) table) (\<lambda>table.
         Inr (table, chain))))
     else Inr (table, chain))"

text \<open>The loop over the positions of a match: \<open>n\<close> positions are left, \<open>p\<close> is the current one.\<close>

fun lz_insert_range ::
  "nat \<Rightarrow> bytes \<Rightarrow> nat \<Rightarrow> u32 \<Rightarrow> u32 list \<times> nat option list \<Rightarrow> (u32 \<times> u32 list \<times> nat option list) res" where
  "lz_insert_range 0 data p hash tc = Inr (hash, tc)"
| "lz_insert_range (Suc n) data p hash tc =
     and_then (lz_insert data p hash tc) (\<lambda>tc.
       lz_insert_range n data (p + 1)
         (if p + 3 < length data then rolling_hash hash (data ! (p + 3)) else hash) tc)"

lemma find_longest_match_len:
  "find_longest_match data pos hash table chain = Inr (Some m) \<Longrightarrow> 3 \<le> match_len m"
  by (auto simp: find_longest_match_def and_then_Inr_iff Let_def split: if_splits prod.splits)

function lz_encode_loop ::
  "bytes \<Rightarrow> nat \<Rightarrow> u32 \<Rightarrow> u32 list \<times> nat option list \<Rightarrow> bytes \<Rightarrow> bytes res" where
  "lz_encode_loop data pos hash tc output =
     (if pos < length data then
        let hash = (if pos + 2 < length data then rolling_hash hash (data ! (pos + 2)) else hash) in
        and_then (find_longest_match data pos (unat hash) (fst tc) (snd tc)) (\<lambda>found.
          case found of
            Some best_match \<Rightarrow>
              and_then (lz_insert_range (match_len best_match) data pos hash tc) (\<lambda>(hash, tc).
                lz_encode_loop data (pos + match_len best_match) hash tc
                  (encode_varint (of_nat (match_len best_match))
                    (encode_varint (of_nat (match_offset best_match)) (output @ [1]))))
          | None \<Rightarrow>
              and_then (lz_insert data pos hash tc) (\<lambda>tc.
                lz_encode_loop data (pos + 1) hash tc (output @ [0, data ! pos])))
      else Inr output)"
  by pat_completeness auto
termination
  by (relation "measure (\<lambda>(data, pos, hash, tc, output). length data - pos)")
    (auto dest!: find_longest_match_len)

declare lz_encode_loop.simps [simp del]

definition lz77_encode :: "bytes \<Rightarrow> bytes res" where
  "lz77_encode data =
     (let table = replicate HASH_SIZE 0xFFFFFFFF;
          chain = replicate (length data) None;
          hash = 0;
          hash = (if data \<noteq> [] then rolling_hash hash (data ! 0) else hash);
          hash = (if 2 \<le> length data then rolling_hash hash (data ! 1) else hash)
      in lz_encode_loop data 0 hash (table, chain) [])"

section \<open>The decoder\<close>

text \<open>Copying a match byte by byte, so that it may overlap its own output.\<close>

fun copy_match :: "nat \<Rightarrow> nat \<Rightarrow> nat \<Rightarrow> bytes \<Rightarrow> bytes res" where
  "copy_match source_start i 0 output = Inr output"
| "copy_match source_start i (Suc n) output =
     and_then (idx output (source_start + i)) (\<lambda>b. copy_match source_start (i + 1) n (output @ [b]))"

function lz_decode_loop :: "bytes \<Rightarrow> bytes \<Rightarrow> bytes res" where
  "lz_decode_loop [] output = Inr output"
| "lz_decode_loop (token # rest) output =
     (if token = 0 then
        (case rest of
           [] \<Rightarrow> Inl (Panic ''Truncated literal: no byte after token'')
         | b # rest \<Rightarrow> lz_decode_loop rest (output @ [b]))
      else if token = 1 then
        and_then (decode_varint rest) (\<lambda>(offset, offset_len).
        and_then (decode_varint (drop offset_len rest)) (\<lambda>(n, length_len).
          if length output < unat offset then Inl (Panic ''Invalid match offset'')
          else
            and_then (copy_match (length output - unat offset) 0 (unat n) output)
              (lz_decode_loop (drop length_len (drop offset_len rest)))))
      else Inl (Panic ''Invalid compression token''))"
  by pat_completeness auto
termination
  by (relation "measure (\<lambda>(data, output). length data)") auto

definition lz77_decode :: "bytes \<Rightarrow> bytes res" where
  "lz77_decode data = lz_decode_loop data []"

section \<open>Varints round trip\<close>

function varint :: "u32 \<Rightarrow> bytes" where
  "varint v = (if 128 \<le> v then ucast (v AND 127 OR 128) # varint (drop_bit 7 v) else [ucast (v AND 127)])"
  by pat_completeness auto
termination
  by (relation "measure unat") (auto intro: drop7_less)

declare varint.simps [simp del]

lemma encode_varint_eq: "encode_varint v out = out @ varint v"
  by (induction v out rule: encode_varint.induct)
    (subst encode_varint.simps, subst varint.simps, simp)

lemma varint_nonempty [simp]: "varint v \<noteq> []"
  by (subst varint.simps) simp

lemma and_127: "w AND 127 = take_bit 7 (w :: 'a::len word)"
  by (simp add: take_bit_eq_mask mask_eq_exp_minus_1)

lemma and_128: "w AND 128 = 0 \<longleftrightarrow> \<not> bit w 7"
  using bit_iff_and_push_bit_not_eq_0 [of w 7] by simp

lemma bit_128: "bit (128 :: u32) n \<longleftrightarrow> n = 7" "bit (128 :: int) n \<longleftrightarrow> n = 7"
  using bit_exp_iff [of 7 n, where ?'a = u32] bit_exp_iff [of 7 n, where ?'a = int] by auto

lemma varint_byte:
  fixes v :: u32
  shows "ucast ((ucast (v AND 127 OR 128) :: byte) AND 127) = v AND 127" "(ucast (v AND 127 OR 128) :: byte) AND 128 \<noteq> 0"
    and "ucast ((ucast (v AND 127) :: byte) AND 127) = v AND 127" "(ucast (v AND 127) :: byte) AND 128 = 0"
proof -
  show "ucast ((ucast (v AND 127 OR 128) :: byte) AND 127) = v AND 127"
    unfolding and_127 by (rule bit_word_eqI) (auto simp: bit_simps bit_128)
  show "(ucast (v AND 127 OR 128) :: byte) AND 128 \<noteq> 0"
    by (auto simp: and_128 bit_simps bit_128)
  show "ucast ((ucast (v AND 127) :: byte) AND 127) = v AND 127"
    unfolding and_127 by (rule bit_word_eqI) (auto simp: bit_simps)
  show "(ucast (v AND 127) :: byte) AND 128 = 0"
    unfolding and_127 by (simp add: and_128 bit_simps)
qed

lemma varint_bits:
  fixes v acc :: u32
  shows "(acc OR push_bit s (v AND 127)) OR push_bit (s + 7) (drop_bit 7 v) = acc OR push_bit s v"
  unfolding and_127
proof (rule bit_word_eqI)
  fix n
  have "7 + (n - (s + 7)) = n - s" if "s \<le> n" "\<not> n - s < 7" using that by simp
  then show "bit ((acc OR push_bit s (take_bit 7 v)) OR push_bit (s + 7) (drop_bit 7 v)) n = bit (acc OR push_bit s v) n"
    by (cases "n - s < 7") (auto simp: bit_simps)
qed

lemma and127_small: "\<not> 128 \<le> v \<Longrightarrow> v AND 127 = (v :: u32)"
  by (simp add: and_127 take_bit_eq_mod word_unat_eq_iff unat_mod word_le_nat_alt)

lemma decode_varint_loop_varint:
  assumes "drop i enc = varint v @ rest" and "i < length enc" and "s < 32" and "unat v < 2 ^ (32 - s)"
  shows "decode_varint_loop enc acc s i = Inr (acc OR push_bit s v, i + length (varint v))"
  using assms
proof (induction v arbitrary: i acc s rule: varint.induct)
  case (1 v)
  have hd: "enc ! i = hd (varint v @ rest)" using 1(2,3) by (metis hd_drop_conv_nth)
  show ?case
  proof (cases "128 \<le> v")
    case False
    then have "varint v = [ucast (v AND 127)]" by (subst varint.simps) simp
    with hd 1(3,4) show ?thesis
      by (subst decode_varint_loop.simps) (simp add: Let_def and127_small [OF False]
          varint_byte(3,4) [of v, unfolded and127_small [OF False]])
  next
    case True
    then have v: "varint v = ucast (v AND 127 OR 128) # varint (drop_bit 7 v)" by (subst varint.simps) simp
    have "2 ^ 7 \<le> unat v" using True by (simp add: word_le_nat_alt)
    with 1(5) have "(2::nat) ^ 7 < 2 ^ (32 - s)" by linarith
    then have s: "s + 7 < 32" using power_less_imp_less_exp [of "2 :: nat" 7 "32 - s"] by simp
    have "unat (drop_bit 7 v) < 2 ^ (32 - (s + 7))"
    proof -
      have "32 - s = 32 - (s + 7) + 7" using s by simp
      with 1(5) have "unat v < 2 ^ (32 - (s + 7)) * 2 ^ 7" by (metis power_add)
      then show ?thesis by (simp add: drop_bit_eq_div unat_div less_mult_imp_div_less)
    qed
    moreover have "drop (i + 1) enc = varint (drop_bit 7 v) @ rest"
      using 1(2) v by (metis Suc_eq_plus1 append_Cons drop_Suc list.sel(3) tl_drop)
    moreover from this have "i + 1 < length enc" by (metis append_is_Nil_conv drop_all leI varint_nonempty)
    ultimately have "decode_varint_loop enc (acc OR push_bit s (v AND 127)) (s + 7) (i + 1)
        = Inr ((acc OR push_bit s (v AND 127)) OR push_bit (s + 7) (drop_bit 7 v), i + 1 + length (varint (drop_bit 7 v)))"
      using 1(1) [OF True] s by simp
    moreover have "decode_varint_loop enc acc s i = decode_varint_loop enc (acc OR push_bit s (v AND 127)) (s + 7) (i + 1)"
      using hd v 1(3,4) by (subst decode_varint_loop.simps) (simp add: varint_byte)
    ultimately show ?thesis by (simp only: varint_bits) (simp add: v)
  qed
qed

lemma decode_varint_varint: "decode_varint (varint v @ rest) = Inr (v, length (varint v))"
  using decode_varint_loop_varint [of 0 "varint v @ rest" v rest 0 0] unsigned_less [of v, where ?'a = nat]
  by (simp add: decode_varint_def)

lemma length_varint: "unat v < 2 ^ (7 * Suc k) \<Longrightarrow> length (varint v) \<le> Suc k"
proof (induction k arbitrary: v)
  case 0
  then have "\<not> 128 \<le> v" by (simp add: word_le_nat_alt)
  then show ?case by (subst varint.simps) simp
next
  case (Suc k)
  have "unat (drop_bit 7 v) < 2 ^ (7 * Suc k)"
    using Suc.prems by (simp add: drop_bit_eq_div unat_div less_mult_imp_div_less power_add)
  from Suc.IH [OF this] show ?case by (subst varint.simps) simp
qed

section \<open>The encoder's tables stay in range\<close>

lemma rolling_hash_bound: "unat (rolling_hash h b) < HASH_SIZE"
proof -
  have "rolling_hash h b = take_bit 15 (push_bit H_SHIFT h XOR ucast b)"
    by (simp add: rolling_hash_def HASH_SIZE_def take_bit_eq_mask mask_eq_exp_minus_1)
  then show ?thesis by (simp add: take_bit_eq_mod unat_mod HASH_SIZE_def)
qed

text \<open>The table has an entry per hash value, the chain one per position, and both point into the data.\<close>

definition lz_ok :: "bytes \<Rightarrow> u32 list \<times> nat option list \<Rightarrow> bool" where
  "lz_ok data = (\<lambda>(table, chain).
     length table = HASH_SIZE \<and> length chain = length data \<and>
     (\<forall>h \<in> set table. h \<noteq> 0xFFFFFFFF \<longrightarrow> unat h < length data) \<and>
     (\<forall>p. Some p \<in> set chain \<longrightarrow> p < length data))"

lemma lz_ok_init: "lz_ok data (replicate HASH_SIZE 0xFFFFFFFF, replicate (length data) None)"
  by (auto simp: lz_ok_def)

lemma unat_of_nat_le: "unat (of_nat n :: u32) \<le> n"
  by (simp add: unat_of_nat)

lemma lz_insert_ok:
  assumes "lz_ok data tc" and "unat hash < HASH_SIZE"
  shows "\<exists>tc'. lz_insert data p hash tc = Inr tc' \<and> lz_ok data tc'"
proof (cases "p + 3 \<le> length data")
  case True
  obtain table chain where tc: "tc = (table, chain)" by (cases tc)
  have "unat (of_nat p :: u32) < length data" using True unat_of_nat_le [of p] by simp
  moreover have "table ! unat hash \<in> set table" using assms tc by (simp add: lz_ok_def)
  ultimately show ?thesis
    using True assms set_update_subset_insert [of table "unat hash" "of_nat p"]
      set_update_subset_insert [of chain p "Some (unat (table ! unat hash))"]
    by (auto simp: lz_insert_def tc lz_ok_def)
qed (use assms in \<open>auto simp: lz_insert_def split: prod.splits\<close>)

lemma lz_insert_range_ok:
  assumes "lz_ok data tc" and "unat hash < HASH_SIZE"
  shows "\<exists>hash' tc'. lz_insert_range n data p hash tc = Inr (hash', tc') \<and> unat hash' < HASH_SIZE \<and> lz_ok data tc'"
  using assms
proof (induction n arbitrary: p hash tc)
  case (Suc n)
  from lz_insert_ok [OF Suc.prems] obtain tc' where tc': "lz_insert data p hash tc = Inr tc'" "lz_ok data tc'" by blast
  then show ?case using Suc.IH [OF tc'(2)] Suc.prems by (simp add: rolling_hash_bound)
qed simp

section \<open>The match finder\<close>

definition good_match :: "bytes \<Rightarrow> nat \<Rightarrow> nat \<Rightarrow> nat \<Rightarrow> bool" where
  "good_match data pos off n \<longleftrightarrow>
     1 \<le> off \<and> off \<le> pos \<and> off \<le> SEARCH_WINDOW \<and> n \<le> LOOKAHEAD_WINDOW \<and> pos + n \<le> length data \<and>
     (\<forall>i < n. data ! (pos - off + i) = data ! (pos + i))"

lemma common_prefix_le: "common_prefix xs ys \<le> length ys"
  unfolding common_prefix_def by (metis length_takeWhile_le length_zip min.boundedE)

lemma common_prefix_nth: "i < common_prefix xs ys \<Longrightarrow> xs ! i = ys ! i"
proof -
  assume i: "i < common_prefix xs ys"
  then have "zip xs ys ! i = takeWhile (\<lambda>(a, b). a = b) (zip xs ys) ! i"
    unfolding common_prefix_def by (simp add: takeWhile_nth)
  moreover have "takeWhile (\<lambda>(a, b). a = b) (zip xs ys) ! i \<in> set (takeWhile (\<lambda>(a, b). a = b) (zip xs ys))"
    using i unfolding common_prefix_def by (rule nth_mem)
  ultimately have "(\<lambda>(a, b). a = b) (zip xs ys ! i)" by (metis set_takeWhileD)
  moreover have "i < length (zip xs ys)"
    using i length_takeWhile_le unfolding common_prefix_def by (metis order.strict_trans2)
  ultimately show ?thesis by simp
qed

lemma candidate_good:
  assumes "candidate < pos" and "pos - SEARCH_WINDOW \<le> candidate" and "pos \<le> length data"
    and "lookahead = take (min (pos + LOOKAHEAD_WINDOW) (length data) - pos) (drop pos data)"
  shows "good_match data pos (pos - candidate) (common_prefix (drop candidate data) lookahead)"
proof -
  let ?n = "common_prefix (drop candidate data) lookahead"
  have n: "?n \<le> length lookahead" by (rule common_prefix_le)
  have "data ! (pos - (pos - candidate) + i) = data ! (pos + i)" if "i < ?n" for i
    using common_prefix_nth [OF that] that n assms by simp
  moreover have "?n \<le> LOOKAHEAD_WINDOW" "pos + ?n \<le> length data"
    using n assms(3) unfolding assms(4) by auto
  ultimately show ?thesis using assms(1,2) by (auto simp: good_match_def)
qed

lemma find_loop_good:
  assumes "lz_ok data (table, chain)" and "candidate < length data" and "pos \<le> length data"
    and "lookahead = take (min (pos + LOOKAHEAD_WINDOW) (length data) - pos) (drop pos data)"
    and "bl = 0 \<or> good_match data pos bo bl"
  shows "\<exists>off n. find_loop k data pos lookahead (pos - SEARCH_WINDOW) chain candidate bo bl = Inr (off, n)
           \<and> (n = 0 \<or> good_match data pos off n)"
  using assms(2,5)
proof (induction k arbitrary: candidate bo bl)
  case (Suc k)
  have chain: "candidate < length chain" using assms(1) Suc.prems by (simp add: lz_ok_def)
  have prev: "p < length data" if "chain ! candidate = Some p" for p
    using assms(1) chain that nth_mem [OF chain] by (simp add: lz_ok_def)
  let ?l = "common_prefix (drop candidate data) lookahead"
  have good: "good_match data pos (pos - candidate) ?l" if "\<not> pos \<le> candidate" "\<not> candidate < pos - SEARCH_WINDOW"
    using candidate_good [OF _ _ assms(3,4)] that by simp
  let ?bo = "if bl < ?l then pos - candidate else bo" and ?bl = "if bl < ?l then ?l else bl"
  have best: "?bl = 0 \<or> good_match data pos ?bo ?bl" if "\<not> pos \<le> candidate" "\<not> candidate < pos - SEARCH_WINDOW"
    using good [OF that] Suc.prems(2) by (auto split: if_splits)
  show ?case
    using Suc.IH [OF prev Suc.prems(2)] Suc.IH [OF prev best] best Suc.prems(2) chain
    by (auto simp: Let_def split: option.split)
qed auto

lemma find_longest_match_good:
  assumes "lz_ok data (table, chain)" and "hash < HASH_SIZE" and "pos \<le> length data"
  shows "\<exists>m. find_longest_match data pos hash table chain = Inr m \<and>
           (\<forall>x. m = Some x \<longrightarrow> 3 \<le> match_len x \<and> good_match data pos (match_offset x) (match_len x))"
proof -
  let ?look = "take (min (pos + LOOKAHEAD_WINDOW) (length data) - pos) (drop pos data)"
  have h: "hash < length table" using assms by (simp add: lz_ok_def)
  show ?thesis
  proof (cases "length ?look < 3 \<or> table ! hash = 0xFFFFFFFF")
    case True
    then show ?thesis using h by (auto simp: find_longest_match_def Let_def)
  next
    case False
    then have "unat (table ! hash) < length data" using assms(1) h by (auto simp: lz_ok_def)
    from find_loop_good [OF assms(1) this assms(3) refl, of 0 0 MAX_CHAIN]
    obtain off n where "find_loop MAX_CHAIN data pos ?look (pos - SEARCH_WINDOW) chain (unat (table ! hash)) 0 0 = Inr (off, n)"
      and "n = 0 \<or> good_match data pos off n" by auto
    then show ?thesis using False h by (cases "n < 3") (auto simp: find_longest_match_def Let_def)
  qed
qed

section \<open>Decoding undoes encoding\<close>

lemma copy_match_good:
  assumes "good_match data pos off l" and "i + n \<le> l"
  shows "copy_match (pos - off) i n (take (pos + i) data) = Inr (take (pos + i + n) data)"
  using assms(2)
proof (induction n arbitrary: i)
  case (Suc n)
  have r: "pos - off + i < pos + i" "pos + i < length data" using assms(1) Suc.prems by (auto simp: good_match_def)
  have "data ! (pos - off + i) = data ! (pos + i)" using assms(1) Suc.prems unfolding good_match_def by auto
  then have "take (pos + i) data @ [data ! (pos - off + i)] = take (pos + (i + 1)) data"
    using r by (simp only: take_Suc_conv_app_nth add_Suc_right Suc_eq_plus1 [symmetric])
  then show ?case using Suc.IH [of "i + 1"] Suc.prems r by simp
qed simp

lemma decode_match_token:
  assumes "good_match data pos off n"
  shows "lz_decode_loop (1 # varint (of_nat off) @ varint (of_nat n) @ rest) (take pos data)
       = lz_decode_loop rest (take (pos + n) data)"
proof -
  have "off \<le> 32768" "n \<le> 258" "off \<le> pos" "pos \<le> length data"
    using assms by (auto simp: good_match_def SEARCH_WINDOW_def LOOKAHEAD_WINDOW_def)
  moreover from this have "unat (of_nat off :: u32) = off" "unat (of_nat n :: u32) = n" by (auto simp: unat_of_nat)
  ultimately show ?thesis using copy_match_good [OF assms, of 0 n] by (simp add: decode_varint_varint)
qed

lemma match_token_length:
  assumes "good_match data pos off n" and "3 \<le> n"
  shows "length (1 # varint (of_nat off) @ varint (of_nat n)) \<le> 2 * n"
proof -
  have "off \<le> 32768" "n \<le> 258"
    using assms by (auto simp: good_match_def SEARCH_WINDOW_def LOOKAHEAD_WINDOW_def)
  then have "unat (of_nat off :: u32) < 2 ^ (7 * Suc 2)" "unat (of_nat n :: u32) < 2 ^ (7 * Suc 1)"
    by (auto simp: unat_of_nat)
  from this [THEN length_varint] show ?thesis using assms(2) by simp
qed

lemma lz_encode_loop_correct:
  assumes "lz_ok data tc" and "unat hash < HASH_SIZE" and "pos \<le> length data"
  shows "\<exists>enc. lz_encode_loop data pos hash tc out = Inr (out @ enc) \<and>
           lz_decode_loop enc (take pos data) = Inr data \<and> length enc \<le> 2 * (length data - pos)"
  using assms
proof (induction "length data - pos" arbitrary: pos hash tc out rule: less_induct)
  case less
  define h where "h = (if pos + 2 < length data then rolling_hash hash (data ! (pos + 2)) else hash)"
  have h: "unat h < HASH_SIZE" using less.prems by (simp add: h_def rolling_hash_bound)
  obtain table chain where tc: "tc = (table, chain)" by (cases tc)
  obtain m where m: "find_longest_match data pos (unat h) (fst tc) (snd tc) = Inr m"
    and good: "\<And>x. m = Some x \<Longrightarrow> 3 \<le> match_len x \<and> good_match data pos (match_offset x) (match_len x)"
    using find_longest_match_good [of data table chain "unat h" pos] less.prems h tc by auto
  show ?case
  proof (cases "pos < length data")
    case False
    then show ?thesis using less.prems by (simp add: lz_encode_loop.simps)
  next
    case pos: True
    show ?thesis
    proof (cases m)
      case None
      obtain tc' where tc': "lz_insert data pos h tc = Inr tc'" "lz_ok data tc'"
        using lz_insert_ok [OF less.prems(1) h] by blast
      have "length data - (pos + 1) < length data - pos" using pos by simp
      from less.hyps [OF this tc'(2) h, of "out @ [0, data ! pos]"] pos
      obtain enc where "lz_encode_loop data (pos + 1) h tc' (out @ [0, data ! pos]) = Inr (out @ [0, data ! pos] @ enc)"
        "lz_decode_loop enc (take (pos + 1) data) = Inr data" "length enc \<le> 2 * (length data - (pos + 1))" by auto
      moreover have "lz_encode_loop data pos hash tc out = lz_encode_loop data (pos + 1) h tc' (out @ [0, data ! pos])"
        using pos m None tc'(1) by (subst lz_encode_loop.simps, unfold Let_def, fold h_def) simp
      ultimately show ?thesis
        using pos by (intro exI [of _ "[0, data ! pos] @ enc"]) (simp add: take_Suc_conv_app_nth)
    next
      case (Some x)
      let ?n = "match_len x" and ?o = "match_offset x"
      let ?tok = "1 # varint (of_nat ?o) @ varint (of_nat ?n)"
      have g: "3 \<le> ?n" "good_match data pos ?o ?n" using good [OF Some] by auto
      then have le: "pos + ?n \<le> length data" by (simp add: good_match_def)
      obtain h' tc' where tc': "lz_insert_range ?n data pos h tc = Inr (h', tc')" "unat h' < HASH_SIZE" "lz_ok data tc'"
        using lz_insert_range_ok [OF less.prems(1) h] by blast
      have "length data - (pos + ?n) < length data - pos" using pos g(1) by simp
      from less.hyps [OF this tc'(3,2), of "out @ ?tok"] le
      obtain enc where "lz_encode_loop data (pos + ?n) h' tc' (out @ ?tok) = Inr (out @ ?tok @ enc)"
        "lz_decode_loop enc (take (pos + ?n) data) = Inr data" "length enc \<le> 2 * (length data - (pos + ?n))" by auto
      moreover have "lz_encode_loop data pos hash tc out = lz_encode_loop data (pos + ?n) h' tc' (out @ ?tok)"
        using pos m Some tc'(1) by (subst lz_encode_loop.simps, unfold Let_def, fold h_def) (simp add: encode_varint_eq)
      ultimately show ?thesis
        using decode_match_token [OF g(2), of enc] match_token_length [OF g(2,1)] le
        by (intro exI [of _ "?tok @ enc"]) simp
    qed
  qed
qed

section \<open>The contract of the block compressor\<close>

locale compressor =
  fixes compress :: "bytes \<Rightarrow> bytes res"
    and decompress :: "bytes \<Rightarrow> bytes res"
  assumes compress_ok: "\<exists>enc. compress data = Inr enc \<and> decompress enc = Inr data \<and> length enc \<le> 2 * length data"

interpretation lz77: compressor lz77_encode lz77_decode
proof
  fix data :: bytes
  have "unat (if 2 \<le> length data then rolling_hash h b else h) < HASH_SIZE" if "unat h < HASH_SIZE" for h b
    using that by (simp add: rolling_hash_bound)
  moreover have "unat (if data \<noteq> [] then rolling_hash 0 (data ! 0) else 0) < HASH_SIZE"
    by (simp add: rolling_hash_bound) (simp add: HASH_SIZE_def)
  ultimately show "\<exists>enc. lz77_encode data = Inr enc \<and> lz77_decode enc = Inr data \<and> length enc \<le> 2 * length data"
    using lz_encode_loop_correct [OF lz_ok_init, of _ 0 data "[]"]
    by (simp add: lz77_encode_def lz77_decode_def Let_def del: lz_decode_loop.simps)
qed

text \<open>C16. The LZ77 codec of \<^verbatim>\<open>lz77.rs\<close> is lossless and total: on every input the encoder returns (no index
  is out of range, no loop runs forever), the decoder accepts its output without a panic and gives back exactly
  the input, and the output is at most twice as long.\<close>

theorem lz77_roundtrip:
  "\<exists>enc. lz77_encode data = Inr enc \<and> lz77_decode enc = Inr data \<and> length enc \<le> 2 * length data"
  by (rule lz77.compress_ok)

end
