(* ===== verification/Block_Format.thy ===== *)
theory Block_Format
  imports Disk_Record Lz77_Codec
begin

text \<open>
  \<^verbatim>\<open>src/block.rs\<close>: the blocks of an SSTable, a nine-byte header in front of a buffer of records that may be
  compressed. A block that is flushed and read back gives its buffer, with and without compression; the proofs
  use of the codec only the contract \<open>compressor\<close> of \<open>Lz77_Codec\<close>, through the locale \<open>block_codec\<close>.
\<close>

section \<open>Data and operations\<close>

record block_header =
  uncompressed_size :: u32
  stored_size :: u32
  compression_flag :: u8

definition block_header_to_bytes :: "block_header \<Rightarrow> bytes" where
  "block_header_to_bytes h =
     be_bytes 4 (uncompressed_size h) @ be_bytes 4 (stored_size h) @ [compression_flag h]"

text \<open>The argument is an array of nine bytes.\<close>

definition block_header_from_bytes :: "bytes \<Rightarrow> block_header" where
  "block_header_from_bytes bs =
     \<lparr>uncompressed_size = from_be (take 4 bs), stored_size = from_be (take 4 (drop 4 bs)), compression_flag = bs ! 8\<rparr>"

record block_writer =
  target_block_size :: nat
  compression_enabled :: bool
  bw_buffer :: bytes

definition block_writer_new :: "nat \<Rightarrow> bool \<Rightarrow> block_writer" where
  "block_writer_new target enabled =
     \<lparr>target_block_size = target, compression_enabled = enabled, bw_buffer = []\<rparr>"

text \<open>The block that \<open>flush\<close> emits for a buffer; both sizes are cut to 32 bits.\<close>

definition block_encode :: "bool \<Rightarrow> bytes \<Rightarrow> bytes res" where
  "block_encode enabled buffer =
     (if enabled then
        and_then (lz77_encode buffer) (\<lambda>compressed.
          Inr (block_header_to_bytes
                \<lparr>uncompressed_size = of_nat (length buffer), stored_size = of_nat (length compressed), compression_flag = 1\<rparr>
               @ compressed))
      else
        Inr (block_header_to_bytes
              \<lparr>uncompressed_size = of_nat (length buffer), stored_size = of_nat (length buffer), compression_flag = 0\<rparr>
             @ buffer))"

definition block_flush :: "block_writer \<Rightarrow> (bytes option \<times> block_writer) res" where
  "block_flush w =
     (if bw_buffer w = [] then Inr (None, w)
      else and_then (block_encode (compression_enabled w) (bw_buffer w)) (\<lambda>buf.
             Inr (Some buf, w\<lparr>bw_buffer := []\<rparr>)))"

definition block_add_record :: "disk_record \<Rightarrow> block_writer \<Rightarrow> (bytes option \<times> block_writer) res" where
  "block_add_record record w =
     (let data = record_bytes record in
      and_then
        (if target_block_size w < length data + length (bw_buffer w) then block_flush w else Inr (None, w))
        (\<lambda>(flushed, w). Inr (flushed, w\<lparr>bw_buffer := bw_buffer w @ data\<rparr>)))"

text \<open>\<open>BlockReader::read_block\<close> on the bytes after the header: the block's data and the bytes after the block.\<close>

definition read_block :: "block_header \<Rightarrow> bytes \<Rightarrow> (bytes \<times> bytes) res" where
  "read_block header bs =
     (if compression_flag header = 0 then
        and_then (read_exact (unat (stored_size header)) bs) (\<lambda>(buf, bs). Inr (buf, bs))
      else if compression_flag header = 1 then
        and_then (read_exact (unat (stored_size header)) bs) (\<lambda>(buf, bs).
          and_then (lz77_decode buf) (\<lambda>data. Inr (data, bs)))
      else Inl (IoError InvalidData (Message ''Invalid compression flag found'')))"

text \<open>Reading a header and its block, as the SSTable readers do it one after the other.\<close>

definition read_header_and_block :: "bytes \<Rightarrow> (bytes \<times> bytes) res" where
  "read_header_and_block bs =
     and_then (read_exact 9 bs) (\<lambda>(header_bytes, bs). read_block (block_header_from_bytes header_bytes) bs)"

section \<open>Headers\<close>

lemma length_block_header [simp]: "length (block_header_to_bytes h) = 9"
  by (simp add: block_header_to_bytes_def)

lemma block_header_roundtrip [simp]: "block_header_from_bytes (block_header_to_bytes h) = h"
  by (simp add: block_header_from_bytes_def block_header_to_bytes_def nth_append)

section \<open>Blocks\<close>

text \<open>The largest buffer whose block has exact sizes, compressed or not: the codec at most doubles it.\<close>

definition block_fits :: "bytes \<Rightarrow> bool" where
  "block_fits buffer \<longleftrightarrow> length buffer < 2 ^ 31"

text \<open>The contract of a block codec: a block is never empty, and reading gives the buffer and the bytes after it.\<close>

locale block_codec =
  fixes encode :: "bool \<Rightarrow> bytes \<Rightarrow> bytes res"
    and decode :: "bytes \<Rightarrow> (bytes \<times> bytes) res"
    and fits :: "bytes \<Rightarrow> bool"
  assumes encode_total: "\<exists>blk. encode c buffer = Inr blk \<and> 9 \<le> length blk"
    and decode_encode: "fits buffer \<Longrightarrow> encode c buffer = Inr blk \<Longrightarrow> decode (blk @ rest) = Inr (buffer, rest)"

lemma block_encode_total: "\<exists>blk. block_encode c buffer = Inr blk \<and> 9 \<le> length blk"
  using lz77.compress_ok [of buffer] by (auto simp: block_encode_def)

lemma block_decode_encode:
  assumes "block_fits buffer" and "block_encode c buffer = Inr blk"
  shows "read_header_and_block (blk @ rest) = Inr (buffer, rest)"
proof (cases c)
  case False
  then show ?thesis using assms
    by (auto simp: block_encode_def read_header_and_block_def read_block_def unat_of_nat block_fits_def)
next
  case True
  obtain enc where enc: "lz77_encode buffer = Inr enc" "lz77_decode enc = Inr buffer" "length enc \<le> 2 * length buffer"
    using lz77.compress_ok by blast
  then have "length enc < 2 ^ 32" using assms(1) by (simp add: block_fits_def)
  with assms(2) True enc(1,2) show ?thesis
    by (auto simp: block_encode_def read_header_and_block_def read_block_def unat_of_nat)
qed

interpretation blk: block_codec block_encode read_header_and_block block_fits
  by unfold_locales (fact block_encode_total, fact block_decode_encode)

text \<open>The block of a buffer, as a total function.\<close>

definition block_bytes :: "bool \<Rightarrow> bytes \<Rightarrow> bytes" where
  "block_bytes c buffer = (case block_encode c buffer of Inr blk \<Rightarrow> blk | Inl _ \<Rightarrow> [])"

lemma block_encode_bytes [simp]: "block_encode c buffer = Inr (block_bytes c buffer)"
  using blk.encode_total [of c buffer] by (auto simp: block_bytes_def)

lemma length_block_bytes: "9 \<le> length (block_bytes c buffer)"
  using blk.encode_total [of c buffer] by simp

lemma read_block_bytes [simp]:
  "block_fits buffer \<Longrightarrow> read_header_and_block (block_bytes c buffer @ rest) = Inr (buffer, rest)"
  by (rule blk.decode_encode) simp_all

text \<open>A block survives its trip to disk: for a non-empty buffer of less than two gigabytes, compressed or
  not, \<open>flush\<close> emits a block and empties the writer, and reading the nine header bytes and the block gives
  exactly the buffer and stops at the byte after the block.\<close>

theorem block_roundtrip:
  assumes "bw_buffer w \<noteq> []" and "length (bw_buffer w) < 2 ^ 31"
  shows "\<exists>blk. block_flush w = Inr (Some blk, w\<lparr>bw_buffer := []\<rparr>) \<and>
           read_header_and_block (blk @ rest) = Inr (bw_buffer w, rest)"
  using assms by (simp add: block_flush_def block_fits_def)

theorem block_roundtrip_witness:
  "\<exists>blk. block_flush \<lparr>target_block_size = 4096, compression_enabled = True, bw_buffer = [1, 2, 3]\<rparr>
       = Inr (Some blk, \<lparr>target_block_size = 4096, compression_enabled = True, bw_buffer = []\<rparr>)
     \<and> read_header_and_block (blk @ [9]) = Inr ([1, 2, 3], [9])"
  using block_roundtrip [of "\<lparr>target_block_size = 4096, compression_enabled = True, bw_buffer = [1, 2, 3]\<rparr>" "[9]"]
  by simp

end
