(* ===== verification/Bloom_Filter.thy ===== *)
theory Bloom_Filter
  imports Crc32
begin

text \<open>
  \<^verbatim>\<open>src/bloom.rs\<close>: the Bloom filter of an SSTable, double hashing over two CRCs. The locale
  \<open>membership_filter\<close> states what an SSTable relies on (an inserted key is never reported absent);
  it is interpreted on \<open>bloom_insert\<close> and \<open>might_contain\<close>.
\<close>

section \<open>Operations\<close>

definition BLOOM_SALT :: u32 where
  "BLOOM_SALT = 0x517CC1B7"

record bloom =
  bloom_bits :: bytes
  bloom_hash_count :: u32

definition bloom_new :: "nat \<Rightarrow> u32 \<Rightarrow> bloom" where
  "bloom_new n hash_count = \<lparr>bloom_bits = replicate n 0, bloom_hash_count = hash_count\<rparr>"

text \<open>The bit that round \<open>i\<close> addresses in a filter of \<open>n\<close> bytes; both additions wrap.\<close>

definition bloom_bit_index :: "nat \<Rightarrow> rstring \<Rightarrow> u32 \<Rightarrow> nat" where
  "bloom_bit_index n key i =
     (let h1 = crc32 (as_bytes key);
          h2 = crc32_seeded (as_bytes key) BLOOM_SALT
      in unat (h1 + i * h2) mod (n * 8))"

definition bloom_rounds :: "bloom \<Rightarrow> u32 list" where
  "bloom_rounds b = map of_nat [0..<unat (bloom_hash_count b)]"

text \<open>A filter with no bytes divides by zero in its first round.\<close>

definition bloom_guard :: "bloom \<Rightarrow> 'a \<Rightarrow> 'a res" where
  "bloom_guard b x =
     (if bloom_bits b = [] \<and> bloom_hash_count b \<noteq> 0
      then Inl (Panic ''attempt to calculate the remainder with a divisor of zero'') else Inr x)"

definition bloom_probe :: "bytes \<Rightarrow> nat \<Rightarrow> bool" where
  "bloom_probe bits j \<longleftrightarrow> bits ! (j div 8) AND push_bit (j mod 8) 1 \<noteq> 0"

definition might_contain :: "bloom \<Rightarrow> rstring \<Rightarrow> bool res" where
  "might_contain b key =
     bloom_guard b
       (list_all (\<lambda>i. bloom_probe (bloom_bits b) (bloom_bit_index (length (bloom_bits b)) key i))
         (bloom_rounds b))"

definition bloom_set_bit :: "nat \<Rightarrow> bytes \<Rightarrow> bytes" where
  "bloom_set_bit j bits = bits[j div 8 := bits ! (j div 8) OR push_bit (j mod 8) 1]"

definition bloom_set_round :: "rstring \<Rightarrow> u32 \<Rightarrow> bytes \<Rightarrow> bytes" where
  "bloom_set_round key i bits = bloom_set_bit (bloom_bit_index (length bits) key i) bits"

definition bloom_insert :: "rstring \<Rightarrow> bloom \<Rightarrow> bloom res" where
  "bloom_insert key b =
     bloom_guard b
       (b\<lparr>bloom_bits := fold (bloom_set_round key) (bloom_rounds b) (bloom_bits b)\<rparr>)"

section \<open>The contract of a membership filter\<close>

locale membership_filter =
  fixes insert :: "'k \<Rightarrow> 'f \<Rightarrow> 'f res"
    and member :: "'f \<Rightarrow> 'k \<Rightarrow> bool res"
    and usable :: "'f \<Rightarrow> bool"
  assumes insert_total: "usable f \<Longrightarrow> \<exists>f'. insert k f = Inr f' \<and> usable f'"
    and member_total: "usable f \<Longrightarrow> \<exists>r. member f k = Inr r"
    and member_insert: "usable f \<Longrightarrow> insert k f = Inr f' \<Longrightarrow> member f' k = Inr True"
    and member_mono: "usable f \<Longrightarrow> insert k f = Inr f' \<Longrightarrow> member f j = Inr True \<Longrightarrow> member f' j = Inr True"
begin

lemma insert_all_mono:
  "usable f \<Longrightarrow> fold_res insert ks f = Inr f' \<Longrightarrow> member f j = Inr True \<Longrightarrow> member f' j = Inr True"
proof (induction ks arbitrary: f)
  case (Cons k ks)
  then obtain g where g: "insert k f = Inr g" "fold_res insert ks g = Inr f'"
    by (auto simp: and_then_Inr_iff)
  moreover have "usable g" using insert_total [OF Cons.prems(1), of k] g(1) by auto
  ultimately show ?case using Cons.IH member_mono [OF Cons.prems(1) g(1) Cons.prems(3)] by blast
qed simp

lemma insert_all_total: "usable f \<Longrightarrow> \<exists>f'. fold_res insert ks f = Inr f' \<and> usable f'"
proof (induction ks arbitrary: f)
  case (Cons k ks)
  from insert_total [OF Cons.prems, of k] Cons.IH show ?case by fastforce
qed simp

lemma no_false_negative:
  assumes "usable f" and "fold_res insert ks f = Inr f'" and "k \<in> set ks"
  shows "member f' k = Inr True"
proof -
  from assms(3) obtain as bs where ks: "ks = as @ k # bs" by (meson split_list)
  with assms(2) obtain g h where g: "fold_res insert as f = Inr g" and h: "insert k g = Inr h"
    and rest: "fold_res insert bs h = Inr f'"
    by (auto simp: fold_res_append and_then_Inr_iff)
  have "usable g" using insert_all_total [OF assms(1), of as] g by auto
  moreover from this have "usable h" using insert_total [of g k] h by auto
  ultimately show ?thesis
    using member_insert h insert_all_mono [OF _ rest] by blast
qed

end

section \<open>The Bloom filter is a membership filter\<close>

lemma length_set_bit [simp]: "length (bloom_set_bit j bits) = length bits"
  by (simp add: bloom_set_bit_def)

lemma bloom_probe_alt: "bloom_probe bits j \<longleftrightarrow> bit (bits ! (j div 8)) (j mod 8)"
  by (simp add: bloom_probe_def bit_iff_and_push_bit_not_eq_0)

lemma bloom_probe_set_same: "j < length bits * 8 \<Longrightarrow> bloom_probe (bloom_set_bit j bits) j"
  by (simp add: bloom_probe_alt bloom_set_bit_def bit_simps less_mult_imp_div_less)

lemma bloom_probe_set_mono: "bloom_probe bits k \<Longrightarrow> bloom_probe (bloom_set_bit j bits) k"
  by (cases "j div 8 < length bits")
    (auto simp: bloom_probe_alt bloom_set_bit_def nth_list_update bit_simps list_update_beyond)

lemma fold_set_bits_length [simp]: "length (fold (bloom_set_round key) is bits) = length bits"
  by (induction "is" arbitrary: bits) (auto simp: bloom_set_round_def)

lemma fold_set_bits_Nil [simp]: "fold (bloom_set_round key) is bits = [] \<longleftrightarrow> bits = []"
  using fold_set_bits_length [of key "is" bits] by (metis length_0_conv)

lemma fold_set_bits_mono: "bloom_probe bits k \<Longrightarrow> bloom_probe (fold (bloom_set_round key) is bits) k"
  by (induction "is" arbitrary: bits) (auto simp: bloom_set_round_def intro: bloom_probe_set_mono)

lemma bloom_bit_index_less: "0 < n \<Longrightarrow> bloom_bit_index n key i < n * 8"
  by (simp add: bloom_bit_index_def Let_def)

lemma fold_set_bits_sets:
  assumes "i \<in> set is" and "bits \<noteq> []"
  shows "bloom_probe (fold (bloom_set_round key) is bits) (bloom_bit_index (length bits) key i)"
  using assms
proof (induction "is" arbitrary: bits)
  case (Cons a "is")
  let ?j = "bloom_bit_index (length bits) key i"
  show ?case
  proof (cases "a = i")
    case True
    have "bloom_probe (bloom_set_round key i bits) ?j"
      using Cons.prems(2) unfolding bloom_set_round_def
      by (intro bloom_probe_set_same bloom_bit_index_less) simp
    with True show ?thesis by (simp add: fold_set_bits_mono)
  next
    case False
    have "bloom_set_round key a bits \<noteq> []" and "length (bloom_set_round key a bits) = length bits"
      using Cons.prems(2) by (auto simp: bloom_set_round_def bloom_set_bit_def)
    with False Cons show ?thesis by (metis fold_simps(2) set_ConsD)
  qed
qed simp

definition bloom_usable :: "bloom \<Rightarrow> bool" where
  "bloom_usable b \<longleftrightarrow> bloom_bits b \<noteq> []"

lemma bloom_guard_usable [simp]: "bloom_usable b \<Longrightarrow> bloom_guard b x = Inr x"
  by (simp add: bloom_guard_def bloom_usable_def)

lemma bloom_insert_usable:
  assumes "bloom_usable b"
  shows "\<exists>b'. bloom_insert key b = Inr b' \<and> bloom_usable b' \<and> length (bloom_bits b') = length (bloom_bits b)
           \<and> bloom_hash_count b' = bloom_hash_count b"
  using assms by (simp add: bloom_insert_def) (simp add: bloom_usable_def)

lemma might_contain_insert:
  assumes "bloom_usable b" and "bloom_insert k b = Inr b'"
  shows "might_contain b' k = Inr True"
  using assms bloom_insert_usable [OF assms(1), of k]
    fold_set_bits_sets [of _ "bloom_rounds b" "bloom_bits b" k]
  by (auto simp: might_contain_def bloom_insert_def list_all_iff bloom_rounds_def bloom_usable_def)

lemma might_contain_mono:
  assumes "bloom_usable b" and "bloom_insert k b = Inr b'" and "might_contain b j = Inr True"
  shows "might_contain b' j = Inr True"
  using assms bloom_insert_usable [OF assms(1), of k]
  by (auto simp: might_contain_def bloom_insert_def list_all_iff bloom_rounds_def
      intro!: fold_set_bits_mono)

interpretation bloom: membership_filter bloom_insert might_contain bloom_usable
proof unfold_locales
  fix f k j f'
  assume u: "bloom_usable f"
  show "\<exists>f'. bloom_insert k f = Inr f' \<and> bloom_usable f'"
    using bloom_insert_usable [OF u, of k] by auto
  show "\<exists>r. might_contain f k = Inr r"
    using u by (simp add: might_contain_def)
  show "bloom_insert k f = Inr f' \<Longrightarrow> might_contain f' k = Inr True"
    by (rule might_contain_insert [OF u])
  show "bloom_insert k f = Inr f' \<Longrightarrow> might_contain f j = Inr True \<Longrightarrow> might_contain f' j = Inr True"
    by (rule might_contain_mono [OF u])
qed

lemma bloom_new_usable [simp]: "bloom_usable (bloom_new n h) \<longleftrightarrow> 0 < n"
  by (auto simp: bloom_usable_def bloom_new_def)

text \<open>C39. a Bloom filter never reports an inserted key as absent, whatever else was inserted before
  or after it.\<close>

theorem bloom_no_false_negative:
  assumes "0 < n" and "fold_res bloom_insert ks (bloom_new n hash_count) = Inr b" and "k \<in> set ks"
  shows "might_contain b k = Inr True"
  using bloom.no_false_negative [OF _ assms(2,3)] assms(1) by simp

theorem bloom_no_false_negative_witness:
  "\<exists>b. fold_res bloom_insert [lit ''a'', lit ''b''] (bloom_new 2 7) = Inr b \<and> might_contain b (lit ''a'') = Inr True"
proof -
  obtain b where b: "fold_res bloom_insert [lit ''a'', lit ''b''] (bloom_new 2 7) = Inr b"
    using bloom.insert_all_total [of "bloom_new 2 7" "[lit ''a'', lit ''b'']"] by auto
  with bloom_no_false_negative [OF _ b, of "lit ''a''"] show ?thesis by simp
qed

end
