(* ===== verification/Memtable_Model.thy ===== *)
theory Memtable_Model
  imports Disk_Record
begin

text \<open>
  \<^verbatim>\<open>src/memtable.rs\<close>: the memtable, a \<open>BTreeMap\<close> from keys to values or tombstones with a running
  byte count. \<open>mt_ok\<close> is its invariant: the entries are sorted and the byte count is at least the size of
  the entries, so that no subtraction of the accounting can underflow.
\<close>

section \<open>Operations\<close>

record memtable_entry =
  me_value :: "rstring option"
  me_expiry_ms :: "u64 option"

record memtable =
  mt_entries :: "(rstring \<times> memtable_entry) list"
  mt_size_bytes :: nat

abbreviation tombstone_entry :: memtable_entry where
  "tombstone_entry \<equiv> \<lparr>me_value = None, me_expiry_ms = None\<rparr>"

text \<open>What an entry says at a time.\<close>

definition entry_value :: "u64 \<Rightarrow> memtable_entry \<Rightarrow> rstring option" where
  "entry_value now e =
     (case me_expiry_ms e of
        Some ms \<Rightarrow> if is_expired ms now then None else me_value e
      | None \<Rightarrow> me_value e)"

definition memtable_new :: memtable where
  "memtable_new = \<lparr>mt_entries = [], mt_size_bytes = 0\<rparr>"

definition memtable_get_entry :: "memtable \<Rightarrow> rstring \<Rightarrow> memtable_entry option" where
  "memtable_get_entry m key = map_of (mt_entries m) key"

text \<open>\<open>map_or(0, |v| v.len())\<close> and \<open>map_or(0, |_| TTL_LEN)\<close>.\<close>

definition value_len :: "memtable_entry \<Rightarrow> nat" where
  "value_len e = (case me_value e of Some v \<Rightarrow> len v | None \<Rightarrow> 0)"

definition ttl_len :: "memtable_entry \<Rightarrow> nat" where
  "ttl_len e = (case me_expiry_ms e of Some _ \<Rightarrow> TTL_LEN | None \<Rightarrow> 0)"

definition memtable_insert :: "rstring \<Rightarrow> rstring \<Rightarrow> u64 option \<Rightarrow> memtable \<Rightarrow> memtable res" where
  "memtable_insert key value expiry_ms m =
     (let ttl_bytes = (if expiry_ms \<noteq> None then TTL_LEN else 0);
          added = len key + len value + ttl_bytes;
          entry = \<lparr>me_value = Some value, me_expiry_ms = expiry_ms\<rparr>;
          entries = bt_insert key entry (mt_entries m)
      in and_then
           (case map_of (mt_entries m) key of
              Some old \<Rightarrow>
                and_then (checked_sub (mt_size_bytes m) (value_len old)) (\<lambda>s. checked_sub s (ttl_len old))
            | None \<Rightarrow> Inr (mt_size_bytes m + len key))
           (\<lambda>s. Inr \<lparr>mt_entries = entries, mt_size_bytes = s + (added - len key)\<rparr>))"

definition memtable_remove :: "rstring \<Rightarrow> memtable \<Rightarrow> memtable res" where
  "memtable_remove key m =
     (let deleted_entry = \<lparr>me_value = None, me_expiry_ms = None\<rparr>;
          entries = bt_insert key deleted_entry (mt_entries m)
      in and_then
           (case map_of (mt_entries m) key of
              Some old_entry \<Rightarrow> checked_sub (mt_size_bytes m) (value_len old_entry)
            | None \<Rightarrow> Inr (mt_size_bytes m + len key))
           (\<lambda>s. Inr \<lparr>mt_entries = entries, mt_size_bytes = s\<rparr>))"

definition memtable_clear :: "memtable \<Rightarrow> memtable" where
  "memtable_clear m = \<lparr>mt_entries = [], mt_size_bytes = 0\<rparr>"

definition drop_tombstones :: "memtable \<Rightarrow> memtable" where
  "drop_tombstones m =
     (let entries = filter (\<lambda>(_, e). me_value e \<noteq> None) (mt_entries m)
      in \<lparr>mt_entries = entries,
          mt_size_bytes = sum_list (map (\<lambda>(k, e). len k + value_len e + ttl_len e) entries)\<rparr>)"

section \<open>The accounting\<close>

text \<open>The number of bytes the entries really take.\<close>

definition entry_bytes :: "rstring \<Rightarrow> memtable_entry \<Rightarrow> nat" where
  "entry_bytes k e = len k + value_len e + ttl_len e"

definition mem_bytes :: "(rstring \<times> memtable_entry) list \<Rightarrow> nat" where
  "mem_bytes es = sum_list (map (\<lambda>(k, e). entry_bytes k e) es)"

definition mt_ok :: "memtable \<Rightarrow> bool" where
  "mt_ok m \<longleftrightarrow> bt_ok (mt_entries m) \<and> mem_bytes (mt_entries m) \<le> mt_size_bytes m"

lemma mem_bytes_simps [simp]:
  "mem_bytes [] = 0" "mem_bytes ((k, e) # es) = entry_bytes k e + mem_bytes es"
  by (simp_all add: mem_bytes_def)

lemma map_of_below: "\<forall>p \<in> set (es :: (_ :: linorder \<times> _) list). a < fst p \<Longrightarrow> k \<le> a \<Longrightarrow> map_of es k = None"
  by (induction es) (auto dest: leD)

lemma mem_bytes_insert:
  "bt_ok es \<Longrightarrow> mem_bytes (bt_insert k e es) + (case map_of es k of Some old \<Rightarrow> entry_bytes k old | None \<Rightarrow> 0)
     = mem_bytes es + entry_bytes k e"
proof (induction k e es rule: bt_insert.induct)
  case (2 k e a b ps)
  then have above: "\<forall>p \<in> set ps. a < fst p" and ok: "bt_ok ps" by (auto simp: bt_ok_Cons)
  consider "k < a" | "k = a" | "a < k" by (rule linorder_cases)
  then show ?case
  proof cases
    case 1
    then show ?thesis using map_of_below [OF above, of k] by auto
  next
    case 2
    then show ?thesis by simp
  next
    case 3
    with "2.IH" ok have "mem_bytes (bt_insert k e ps) + (case map_of ps k of Some old \<Rightarrow> entry_bytes k old | None \<Rightarrow> 0)
       = mem_bytes ps + entry_bytes k e"
      by (simp add: order.asym)
    with 3 show ?thesis by auto
  qed
qed simp

lemma mem_bytes_lookup: "map_of es k = Some old \<Longrightarrow> entry_bytes k old \<le> mem_bytes es"
  by (induction es) (auto split: if_splits)

lemma entry_bytes_value [simp]:
  "entry_bytes k \<lparr>me_value = Some v, me_expiry_ms = x\<rparr> = len k + len v + (if x \<noteq> None then TTL_LEN else 0)"
  "entry_bytes k \<lparr>me_value = None, me_expiry_ms = None\<rparr> = len k"
  by (auto simp: entry_bytes_def value_len_def ttl_len_def)

lemma memtable_new_ok [simp, wf_intros]: "mt_ok memtable_new"
  by (simp add: mt_ok_def memtable_new_def)

lemma memtable_insert_spec:
  assumes "mt_ok m"
  shows "\<exists>m'. memtable_insert k v x m = Inr m' \<and> mt_ok m'
      \<and> mt_entries m' = bt_insert k \<lparr>me_value = Some v, me_expiry_ms = x\<rparr> (mt_entries m)
      \<and> mt_size_bytes m' + mem_bytes (mt_entries m) = mt_size_bytes m + mem_bytes (mt_entries m')"
proof -
  let ?e = "\<lparr>me_value = Some v, me_expiry_ms = x\<rparr>"
  have ok: "bt_ok (mt_entries m)" "mem_bytes (mt_entries m) \<le> mt_size_bytes m"
    using assms by (auto simp: mt_ok_def)
  note upd = mem_bytes_insert [OF ok(1), of k ?e]
  show ?thesis
  proof (cases "map_of (mt_entries m) k")
    case None
    with ok upd show ?thesis
      by (auto simp: memtable_insert_def mt_ok_def bt_ok_insert)
  next
    case (Some old)
    then have "entry_bytes k old \<le> mem_bytes (mt_entries m)" by (rule mem_bytes_lookup)
    with Some ok upd show ?thesis
      by (auto simp: memtable_insert_def mt_ok_def bt_ok_insert entry_bytes_def [of k old])
  qed
qed

lemma memtable_remove_spec:
  assumes "mt_ok m"
  shows "\<exists>m'. memtable_remove k m = Inr m' \<and> mt_ok m'
      \<and> mt_entries m' = bt_insert k \<lparr>me_value = None, me_expiry_ms = None\<rparr> (mt_entries m)
      \<and> mt_size_bytes m' + mem_bytes (mt_entries m) = mt_size_bytes m + mem_bytes (mt_entries m')
          + (case map_of (mt_entries m) k of Some old \<Rightarrow> ttl_len old | None \<Rightarrow> 0)"
proof -
  let ?e = "\<lparr>me_value = None, me_expiry_ms = None\<rparr>"
  have ok: "bt_ok (mt_entries m)" "mem_bytes (mt_entries m) \<le> mt_size_bytes m"
    using assms by (auto simp: mt_ok_def)
  note upd = mem_bytes_insert [OF ok(1), of k ?e]
  show ?thesis
  proof (cases "map_of (mt_entries m) k")
    case None
    with ok upd show ?thesis
      by (auto simp: memtable_remove_def mt_ok_def bt_ok_insert)
  next
    case (Some old)
    then have "entry_bytes k old \<le> mem_bytes (mt_entries m)" by (rule mem_bytes_lookup)
    with Some ok upd show ?thesis
      by (auto simp: memtable_remove_def mt_ok_def bt_ok_insert entry_bytes_def [of k old])
  qed
qed

lemma drop_tombstones_ok [wf_intros]: "mt_ok m \<Longrightarrow> mt_ok (drop_tombstones m)"
  by (simp add: mt_ok_def drop_tombstones_def bt_ok_filter mem_bytes_def entry_bytes_def [abs_def] Let_def)

section \<open>Correctness\<close>

text \<open>On a well-formed memtable an insert never panics, binds exactly its key, keeps the memtable
  well-formed and changes the byte count by exactly the change of the entries' size.\<close>

theorem memtable_insert_correct:
  assumes "mt_ok m"
  shows "\<exists>m'. memtable_insert k v x m = Inr m' \<and> mt_ok m'
      \<and> (\<forall>j. memtable_get_entry m' j =
              (if j = k then Some \<lparr>me_value = Some v, me_expiry_ms = x\<rparr> else memtable_get_entry m j))
      \<and> mt_size_bytes m' + mem_bytes (mt_entries m) = mt_size_bytes m + mem_bytes (mt_entries m')"
  using memtable_insert_spec [OF assms, of k v x] by (auto simp: memtable_get_entry_def map_of_bt_insert)

theorem memtable_insert_correct_witness:
  "\<exists>m'. memtable_insert (lit ''k'') (lit ''v'') (Some 5) memtable_new = Inr m' \<and> mt_ok m'"
  using memtable_insert_correct [OF memtable_new_ok, of "lit ''k''" "lit ''v''" "Some 5"] by blast

text \<open>On a well-formed memtable a remove never panics and leaves a tombstone; the byte count stays
  an upper bound, but it is too high by the eight bytes of the removed entry's expiry, if it had one.\<close>

theorem memtable_remove_correct:
  assumes "mt_ok m"
  shows "\<exists>m'. memtable_remove k m = Inr m' \<and> mt_ok m'
      \<and> (\<forall>j. memtable_get_entry m' j =
              (if j = k then Some \<lparr>me_value = None, me_expiry_ms = None\<rparr> else memtable_get_entry m j))
      \<and> mt_size_bytes m' + mem_bytes (mt_entries m) = mt_size_bytes m + mem_bytes (mt_entries m')
          + (case memtable_get_entry m k of Some old \<Rightarrow> ttl_len old | None \<Rightarrow> 0)"
  using memtable_remove_spec [OF assms, of k] by (auto simp: memtable_get_entry_def map_of_bt_insert)

theorem memtable_remove_correct_witness:
  "\<exists>m m'. memtable_insert (lit ''k'') (lit ''v'') (Some 5) memtable_new = Inr m
      \<and> memtable_remove (lit ''k'') m = Inr m' \<and> mt_size_bytes m' = 9 \<and> mem_bytes (mt_entries m') = 1"
proof -
  let ?m = "\<lparr>mt_entries = [(lit ''k'', \<lparr>me_value = Some (lit ''v''), me_expiry_ms = Some 5\<rparr>)], mt_size_bytes = 10\<rparr>"
  have ins: "memtable_insert (lit ''k'') (lit ''v'') (Some 5) memtable_new = Inr ?m"
    by (simp add: memtable_insert_def memtable_new_def )
  have ok: "mt_ok ?m" by (simp add: mt_ok_def bt_ok_def )
  obtain m' where m': "memtable_remove (lit ''k'') ?m = Inr m'"
    and sz: "mt_size_bytes m' + mem_bytes (mt_entries ?m) = mt_size_bytes ?m + mem_bytes (mt_entries m') + 8"
    using memtable_remove_correct [OF ok, of "lit ''k''"] by (auto simp: memtable_get_entry_def ttl_len_def)
  have "mem_bytes (mt_entries m') = 1"
    using m' by (auto simp: memtable_remove_def value_len_def  checked_sub_def)
  with ins m' sz show ?thesis by auto
qed

end
