(* ===== verification/Data_Dir.thy ===== *)
theory Data_Dir
  imports Prelude "HOL-Library.AList" "HOL-Library.Sublist"
begin

text \<open>
  What the storage engines use of the standard library around files: string concatenation and splitting,
  decimal formatting and parsing of integers, and the data directory, an association list from file names to
  contents in the order in which \<open>read_dir\<close> lists it. The directory is one more \<open>map_ops\<close>.
\<close>

section \<open>Concatenation of strings\<close>

lemma utf8_valid_two:
  assumes "0xC2 \<le> a" and "a \<le> 0xDF"
  shows "utf8_valid (a # b # bs) \<longleftrightarrow> utf8_cont b \<and> utf8_valid bs"
proof -
  have "\<not> a < 0x80" using assms(1) by (simp add: word_le_nat_alt word_less_nat_alt)
  then show ?thesis using assms by (cases bs rule: utf8_valid.cases) simp_all
qed

lemma utf8_lead3_range: "utf8_lead3 a b \<Longrightarrow> \<not> a < 0x80 \<and> \<not> a \<le> 0xDF"
  unfolding utf8_lead3_def by (auto simp: not_less not_le word_le_nat_alt word_less_nat_alt)

lemma utf8_lead4_range: "utf8_lead4 a b \<Longrightarrow> \<not> a < 0x80 \<and> \<not> a \<le> 0xDF \<and> \<not> utf8_lead3 a c"
  unfolding utf8_lead4_def utf8_lead3_def by (auto simp: not_less not_le word_le_nat_alt word_less_nat_alt)

lemma utf8_valid_three: "utf8_lead3 a b \<Longrightarrow> utf8_valid (a # b # c # bs) \<longleftrightarrow> utf8_cont c \<and> utf8_valid bs"
  using utf8_lead3_range [of a b] by (cases bs rule: utf8_valid.cases) auto

lemma utf8_valid_four:
  "utf8_lead4 a b \<Longrightarrow> utf8_valid (a # b # c # d # bs) \<longleftrightarrow> utf8_cont c \<and> utf8_cont d \<and> utf8_valid bs"
  using utf8_lead4_range [of a b b] by simp

lemma utf8_valid_append: "utf8_valid xs \<Longrightarrow> utf8_valid ys \<Longrightarrow> utf8_valid (xs @ ys)"
proof (induction xs rule: utf8_valid.induct)
  case (2 a)
  then show ?case by (simp add: utf8_valid_ascii_Cons)
next
  case (3 a b)
  then show ?case
    by (cases "a < 0x80") (simp_all add: utf8_valid_ascii_Cons utf8_valid_two)
next
  case (4 a b c)
  then show ?case
    by (cases "a < 0x80"; cases "0xC2 \<le> a \<and> a \<le> 0xDF")
      (simp_all add: utf8_valid_ascii_Cons utf8_valid_two utf8_valid_three)
next
  case (5 a b c d es)
  then show ?case by (simp split: if_splits)
qed simp

lift_definition str_append :: "rstring \<Rightarrow> rstring \<Rightarrow> rstring" is "(@)"
  by (rule utf8_valid_append)

declare str_append.rep_eq [simp]

lemma mk_string_as_bytes [simp]: "mk_string (as_bytes s) = s"
  by (simp add: as_bytes_inject [symmetric] mk_string.rep_eq)

section \<open>Decimal numbers\<close>

text \<open>\<open>format!("{}", n)\<close> of an unsigned integer.\<close>

fun show_dec :: "nat \<Rightarrow> bytes" where
  "show_dec n = (if n < 10 then [48 + of_nat n] else show_dec (n div 10) @ [48 + of_nat (n mod 10)])"

declare show_dec.simps [simp del]

definition dec_string :: "nat \<Rightarrow> rstring" where
  "dec_string n = mk_string (show_dec n)"

text \<open>\<open>str::parse\<close> into an unsigned integer below \<open>limit\<close>: an optional plus sign, at least one digit, no overflow.\<close>

fun parse_digits :: "nat \<Rightarrow> nat \<Rightarrow> bytes \<Rightarrow> nat option" where
  "parse_digits limit acc [] = Some acc"
| "parse_digits limit acc (b # bs) =
     (if 48 \<le> b \<and> b \<le> 57 then
        let acc = acc * 10 + unat (b - 48)
        in if acc < limit then parse_digits limit acc bs else None
      else None)"

definition parse_uint :: "nat \<Rightarrow> bytes \<Rightarrow> nat option" where
  "parse_uint limit bs =
     (let digits = (case bs of b # rest \<Rightarrow> if b = 43 then rest else bs | [] \<Rightarrow> [])
      in if digits = [] then None else parse_digits limit 0 digits)"

lemma digit_byte:
  assumes "n < 10"
  shows "unat (48 + of_nat n :: byte) = 48 + n"
proof -
  have "unat (of_nat n :: byte) = n" using assms by (simp add: unat_of_nat)
  then show ?thesis using assms by (simp add: unat_word_ariths(1))
qed

lemma digit_simps:
  assumes "n < 10"
  shows "48 \<le> (48 + of_nat n :: byte)" "(48 + of_nat n :: byte) \<le> 57" "unat (of_nat n :: byte) = n"
  using assms digit_byte [OF assms] by (auto simp: word_le_nat_alt unat_of_nat)

lemma show_dec_set: "b \<in> set (show_dec n) \<Longrightarrow> 48 \<le> b \<and> b \<le> 57"
proof (induction n rule: show_dec.induct)
  case (1 n)
  then show ?case by (subst (asm) show_dec.simps) (auto simp: digit_simps split: if_splits)
qed

lemma show_dec_ascii: "utf8_valid (show_dec n)"
proof (rule utf8_valid_ascii)
  fix b assume "b \<in> set (show_dec n)"
  then have "b \<le> 57" using show_dec_set by blast
  then show "b < 0x80" by (simp add: word_le_nat_alt word_less_nat_alt)
qed

lemma as_bytes_dec_string [simp]: "as_bytes (dec_string n) = show_dec n"
  by (simp add: dec_string_def mk_string.rep_eq show_dec_ascii)

lemma show_dec_Nil [simp]: "show_dec n \<noteq> []"
  by (subst show_dec.simps) simp

lemma parse_digits_append:
  "parse_digits limit acc (xs @ ys) = Option.bind (parse_digits limit acc xs) (\<lambda>acc. parse_digits limit acc ys)"
  by (induction xs arbitrary: acc) (auto simp: Let_def)

lemma parse_digits_show_dec: "n < limit \<Longrightarrow> parse_digits limit 0 (show_dec n) = Some n"
proof (induction n rule: show_dec.induct)
  case (1 n)
  have "n mod 10 < 10" by simp
  note d = digit_simps [OF this]
  from 1 show ?case
    by (subst show_dec.simps) (auto simp: parse_digits_append d digit_simps Let_def)
qed

lemma parse_uint_show_dec [simp]: "n < limit \<Longrightarrow> parse_uint limit (show_dec n) = Some n"
proof -
  assume n: "n < limit"
  have "hd (show_dec n) \<noteq> 43" using show_dec_set [of "hd (show_dec n)" n] by (auto simp: word_le_nat_alt)
  then show ?thesis
    using n parse_digits_show_dec [OF n] show_dec_Nil [of n]
    by (cases "show_dec n") (simp_all add: parse_uint_def Let_def del: show_dec_Nil)
qed

section \<open>Splitting\<close>

definition strip_suffix :: "bytes \<Rightarrow> bytes \<Rightarrow> bytes option" where
  "strip_suffix suf bs = (if suffix suf bs then Some (take (length bs - length suf) bs) else None)"

text \<open>\<open>str::rsplit_once\<close>: split at the last occurrence of a non-empty pattern.\<close>

fun rsplit_once :: "bytes \<Rightarrow> bytes \<Rightarrow> (bytes \<times> bytes) option" where
  "rsplit_once pat [] = None"
| "rsplit_once pat (b # bs) =
     (case rsplit_once pat bs of
        Some (l, r) \<Rightarrow> Some (b # l, r)
      | None \<Rightarrow> if prefix pat (b # bs) then Some ([], drop (length pat) (b # bs)) else None)"

lemma strip_suffix_append [simp]: "strip_suffix suf (bs @ suf) = Some bs"
  by (simp add: strip_suffix_def suffix_def)

lemma rsplit_once_absent: "c \<notin> set bs \<Longrightarrow> rsplit_once (c # pat) bs = None"
  by (induction bs) auto

lemma rsplit_once_last:
  assumes "c \<notin> set pat" and "c \<notin> set ys"
  shows "rsplit_once (c # pat) (xs @ c # pat @ ys) = Some (xs, ys)"
  by (induction xs) (use rsplit_once_absent [of c "pat @ ys" pat] assms in auto)

section \<open>The data directory\<close>

type_synonym dir = "(rstring \<times> bytes) list"

definition open_read :: "rstring \<Rightarrow> dir \<Rightarrow> bytes res" where
  "open_read name d = (case map_of d name of Some bs \<Rightarrow> Inr bs | None \<Rightarrow> Inl (IoError NotFound OsError))"

text \<open>\<open>OpenOptions::create_new\<close> and \<open>create\<close> without truncation.\<close>

definition create_new :: "rstring \<Rightarrow> dir \<Rightarrow> dir res" where
  "create_new name d =
     (if map_of d name \<noteq> None then Inl (IoError AlreadyExists OsError) else Inr (AList.update name [] d))"

definition open_create :: "rstring \<Rightarrow> dir \<Rightarrow> dir" where
  "open_create name d = (if map_of d name \<noteq> None then d else AList.update name [] d)"

definition remove_file :: "rstring \<Rightarrow> dir \<Rightarrow> dir res" where
  "remove_file name d =
     (if map_of d name = None then Inl (IoError NotFound OsError) else Inr (AList.delete name d))"

definition file_len :: "rstring \<Rightarrow> dir \<Rightarrow> u64 res" where
  "file_len name d = and_then (open_read name d) (\<lambda>bs. Inr (of_nat (length bs)))"

interpretation dir: map_ops "[] :: dir" AList.update AList.delete map_of "\<lambda>_ :: dir. True"
  by unfold_locales (simp_all add: update_conv' delete_conv')

lemma map_of_dir [simp]:
  "map_of (AList.update n bs d) m = (if m = n then Some bs else map_of d m)"
  "map_of (AList.delete n d) m = (if m = n then None else map_of d m)"
  by (simp_all add: update_conv' delete_conv')

lemma open_read_update [simp]:
  "open_read m (AList.update n bs d) = (if m = n then Inr bs else open_read m d)"
  by (simp add: open_read_def)

lemma open_read_delete [simp]:
  "open_read m (AList.delete n d) = (if m = n then Inl (IoError NotFound OsError) else open_read m d)"
  by (simp add: open_read_def)

end
