(* ===== verification/SSTable_File.thy ===== *)
theory SSTable_File
  imports Block_Format Bloom_Filter Memtable_Model Data_Dir
begin

text \<open>
  \<^verbatim>\<open>src/sstable.rs\<close>: sorted segment files. The writer \<open>from_memtable\<close> splits the records into blocks, with a
  sparse index of the first key of each block and a Bloom filter; the readers are the record iterator, the point
  lookup and the rebuilding of the index when a directory is opened. A clock reading is an argument.

  The proofs describe a file by its list of chunks (the records of each block). The writer produces such a
  file (\<open>from_memtable_layout\<close>), the iterator gives back its records, and a lookup that starts at the block
  the sparse index names agrees with a lookup in the memtable the file was written from.
\<close>

section \<open>Data\<close>

definition BLOOM_BITS_PER_KEY :: nat where "BLOOM_BITS_PER_KEY = 10"
definition BLOOM_HASH_COUNT :: u32 where "BLOOM_HASH_COUNT = 7"

record sstable =
  sst_path :: rstring
  sst_timestamp :: u64
  sst_name :: rstring
  sst_level :: "nat option"
  sst_sparse_index :: "(rstring \<times> u64) list"
  sst_bloom :: bloom
  sst_min :: "(rstring \<times> u64) option"
  sst_max :: "(rstring \<times> u64) option"

text \<open>The iterator's state: the bytes of the file that are not read yet, the block in memory and the position in it.\<close>

record sst_iter =
  it_file :: bytes
  it_current_block :: bytes
  it_block_pos :: nat
  it_done :: bool

definition sst_iter_at :: "bytes \<Rightarrow> sst_iter" where
  "sst_iter_at bs = \<lparr>it_file = bs, it_current_block = [], it_block_pos = 0, it_done = False\<rparr>"

section \<open>The iterator\<close>

text \<open>The first half of the loop body: the next record of the block in memory. \<open>Inr\<close> is a return from
  \<open>next\<close>, \<open>Inl\<close> goes on to the next block.\<close>

definition iter_in_block :: "sst_iter \<Rightarrow> sst_iter + (disk_record res \<times> sst_iter)" where
  "iter_in_block it =
     (if it_block_pos it < length (it_current_block it) then
        let slice = drop (it_block_pos it) (it_current_block it) in
        case read_next slice of
          Inr (record, rest) \<Rightarrow>
            Inr (Inr record, it\<lparr>it_block_pos := it_block_pos it + (length slice - length rest)\<rparr>)
        | Inl e \<Rightarrow>
            if is_eof e then Inl (it\<lparr>it_block_pos := length (it_current_block it)\<rparr>)
            else Inr (Inl e, it\<lparr>it_done := True\<rparr>)
      else Inl it)"

lemma read_block_shrinks: "read_block h bs = Inr (buf, rest) \<Longrightarrow> length rest \<le> length bs"
  by (auto simp: read_block_def and_then_Inr_iff read_exact_Inr_iff split: if_splits)

lemma iter_in_block_file: "iter_in_block it = Inl it' \<Longrightarrow> it_file it' = it_file it"
  by (auto simp: iter_in_block_def Let_def split: if_splits sum.splits)

function iter_loop :: "sst_iter \<Rightarrow> disk_record res option \<times> sst_iter" where
  "iter_loop it =
     (case iter_in_block it of
        Inr (result, it) \<Rightarrow> (Some result, it)
      | Inl it \<Rightarrow>
         (case read_exact 9 (it_file it) of
            Inl e \<Rightarrow> if is_eof e then (None, it\<lparr>it_done := True\<rparr>) else (Some (Inl e), it\<lparr>it_done := True\<rparr>)
          | Inr (header_buf, rest) \<Rightarrow>
             (case read_block (block_header_from_bytes header_buf) rest of
                Inr (data, rest) \<Rightarrow> iter_loop (it\<lparr>it_file := rest, it_current_block := data, it_block_pos := 0\<rparr>)
              | Inl e \<Rightarrow> (Some (Inl e), it\<lparr>it_done := True\<rparr>))))"
  by pat_completeness auto
termination
  by (relation "measure (\<lambda>it. length (it_file it))")
    (auto simp: read_exact_Inr_iff dest!: iter_in_block_file read_block_shrinks)

declare iter_loop.simps [simp del]

definition iter_next :: "sst_iter \<Rightarrow> disk_record res option \<times> sst_iter" where
  "iter_next it = (if it_done it then (None, it) else iter_loop it)"

lemma iter_in_block_progress:
  "iter_in_block it = Inr (Inr r, it') \<Longrightarrow>
     it_file it' = it_file it \<and> it_current_block it' = it_current_block it \<and>
     it_block_pos it < it_block_pos it' \<and> it_block_pos it < length (it_current_block it)"
  by (auto simp: iter_in_block_def Let_def split: if_splits sum.splits dest: read_next_shrinks)

lemma iter_loop_progress:
  "iter_loop it = (Some (Inr r), it') \<Longrightarrow>
     length (it_file it') < length (it_file it) \<or>
     it_file it' = it_file it \<and> it_current_block it' = it_current_block it \<and>
     it_block_pos it < it_block_pos it' \<and> it_block_pos it < length (it_current_block it)"
proof (induction it rule: iter_loop.induct)
  case (1 it)
  show ?case
  proof (cases "iter_in_block it")
    case (Inr p)
    with "1.prems" show ?thesis
      by (cases p) (simp add: iter_loop.simps [of it], blast dest: iter_in_block_progress)
  next
    case (Inl it1)
    show ?thesis
    proof (cases "read_exact 9 (it_file it1)")
      case (Inl e)
      with "1.prems" \<open>iter_in_block it = Inl it1\<close> show ?thesis by (simp add: iter_loop.simps [of it] split: if_splits)
    next
      case (Inr q)
      obtain hb rest where q: "q = (hb, rest)" by (cases q)
      with Inr have less: "length rest < length (it_file it)"
        using iter_in_block_file [OF Inl] by (auto simp: read_exact_Inr_iff)
      show ?thesis
      proof (cases "read_block (block_header_from_bytes hb) rest")
        case err: (Inl e)
        with "1.prems" Inl Inr q show ?thesis by (simp add: iter_loop.simps [of it])
      next
        case ok: (Inr d)
        obtain data rest' where d: "d = (data, rest')" by (cases d)
        with ok have "length rest' \<le> length rest" by (auto dest: read_block_shrinks)
        moreover have "iter_loop (it1\<lparr>it_file := rest', it_current_block := data, it_block_pos := 0\<rparr>) = (Some (Inr r), it')"
          using "1.prems" Inl Inr q ok d by (simp add: iter_loop.simps [of it])
        ultimately show ?thesis
          using "1.IH" [OF Inl Inr q [symmetric] ok d [symmetric]] less by auto
      qed
    qed
  qed
qed

text \<open>The items of the iterator, as a \<open>for\<close> loop sees them.\<close>

function iter_results :: "sst_iter \<Rightarrow> disk_record res list" where
  "iter_results it =
     (case iter_next it of
        (None, _) \<Rightarrow> []
      | (Some (Inl e), _) \<Rightarrow> [Inl e]
      | (Some (Inr record), it) \<Rightarrow> Inr record # iter_results it)"
  by pat_completeness auto
termination
  by (relation "inv_image (less_than <*lex*> less_than)
      (\<lambda>it. (length (it_file it), length (it_current_block it) - it_block_pos it))")
    (auto simp: iter_next_def dest!: sym [of "(_, _)"] iter_loop_progress split: if_splits)

declare iter_results.simps [simp del]

definition sst_iter :: "sstable \<Rightarrow> dir \<Rightarrow> disk_record res list res" where
  "sst_iter sst d = and_then (open_read (sst_path sst) d) (\<lambda>bs. Inr (iter_results (sst_iter_at bs)))"

section \<open>File names\<close>

text \<open>\<^verbatim>\<open>{name}_L{level}_{timestamp}.sst\<close> or \<^verbatim>\<open>{name}_{timestamp}.sst\<close>.\<close>

definition sst_filename :: "rstring \<Rightarrow> nat option \<Rightarrow> u64 \<Rightarrow> rstring" where
  "sst_filename name level timestamp =
     (case level of
        Some l \<Rightarrow> str_append name (str_append (lit ''_L'') (str_append (dec_string l)
                   (str_append (lit ''_'') (str_append (dec_string (unat timestamp)) (lit ''.sst'')))))
      | None \<Rightarrow> str_append name (str_append (lit ''_'') (str_append (dec_string (unat timestamp)) (lit ''.sst''))))"

definition sst_parse :: "rstring \<Rightarrow> sstable option" where
  "sst_parse filename =
     Option.bind (strip_suffix (as_bytes (lit ''.sst'')) (as_bytes filename)) (\<lambda>stem.
     Option.bind (rsplit_once (as_bytes (lit ''_'')) stem) (\<lambda>(name_and_maybe_level, ts).
     Option.bind (parse_uint (2 ^ 64) ts) (\<lambda>timestamp.
       let (name, level) =
         (case rsplit_once (as_bytes (lit ''_L'')) name_and_maybe_level of
            Some (n, l) \<Rightarrow>
              (case parse_uint (2 ^ 64) l of
                 Some lvl \<Rightarrow> (n, Some lvl)
               | None \<Rightarrow> (name_and_maybe_level, None))
          | None \<Rightarrow> (name_and_maybe_level, None))
       in Some \<lparr>sst_path = lit [], sst_timestamp = of_nat timestamp, sst_name = mk_string name, sst_level = level,
                sst_sparse_index = [], sst_bloom = bloom_new 1 BLOOM_HASH_COUNT, sst_min = None, sst_max = None\<rparr>)))"

section \<open>Writing a memtable\<close>

text \<open>\<open>slice::partition_point\<close> on a slice in which every element that satisfies the predicate comes first.\<close>

definition partition_point :: "('a \<Rightarrow> bool) \<Rightarrow> 'a list \<Rightarrow> nat" where
  "partition_point P xs = length (takeWhile P xs)"

text \<open>The offset of the last block whose first key is at most the key, the start of the file if there is none.\<close>

definition index_offset :: "(rstring \<times> u64) list \<Rightarrow> rstring \<Rightarrow> u64" where
  "index_offset index key =
     (let pos = partition_point (\<lambda>(k, _). k \<le> key) index
      in if 0 < pos then snd (index ! (pos - 1)) else 0)"

definition bloom_for :: "nat \<Rightarrow> bloom" where
  "bloom_for key_count = bloom_new (max ((key_count * BLOOM_BITS_PER_KEY + 7) div 8) 1) BLOOM_HASH_COUNT"

text \<open>The record written for an entry.\<close>

definition entry_record :: "rstring \<times> memtable_entry \<Rightarrow> disk_record" where
  "entry_record = (\<lambda>(key, entry).
     let (value, tombstone) = (case me_value entry of Some v \<Rightarrow> (v, False) | None \<Rightarrow> (lit [], True));
         flags = (0 :: u8);
         flags = (if me_expiry_ms entry \<noteq> None then flags OR FLAG_HAS_EXPIRY else flags);
         flags = (if tombstone then flags OR FLAG_TOMBSTONE else flags)
     in mk_record key value flags (me_expiry_ms entry))"

text \<open>The local variables of the loop of \<open>from_memtable\<close>.\<close>

record sst_builder =
  sb_sparse_index :: "(rstring \<times> u64) list"
  sb_bloom :: bloom
  sb_last_key :: "rstring option"
  sb_writer :: block_writer
  sb_file :: bytes
  sb_file_offset :: u64
  sb_first_key :: "rstring option"

definition sst_add_entry :: "rstring \<times> memtable_entry \<Rightarrow> sst_builder \<Rightarrow> sst_builder res" where
  "sst_add_entry ke sb =
     (let key = fst ke;
          first_key = (if sb_first_key sb = None then Some key else sb_first_key sb)
      in and_then (bloom_insert key (sb_bloom sb)) (\<lambda>bloom.
         and_then (block_add_record (entry_record ke) (sb_writer sb)) (\<lambda>(flushed, writer).
           let sb = sb\<lparr>sb_bloom := bloom, sb_last_key := Some key, sb_writer := writer, sb_first_key := first_key\<rparr>
           in case flushed of
                None \<Rightarrow> Inr sb
              | Some blk \<Rightarrow>
                  (case first_key of
                     None \<Rightarrow> Inl (Panic ''called Option::unwrap() on a None value'')
                   | Some first \<Rightarrow>
                       and_then (checked_add64 (sb_file_offset sb) (of_nat (length blk))) (\<lambda>offset.
                         Inr (sb\<lparr>sb_sparse_index := sb_sparse_index sb @ [(first, sb_file_offset sb)],
                                 sb_file := sb_file sb @ blk,
                                 sb_file_offset := offset,
                                 sb_first_key := Some key\<rparr>))))))"

definition sst_finish :: "sst_builder \<Rightarrow> sst_builder res" where
  "sst_finish sb =
     and_then (block_flush (sb_writer sb)) (\<lambda>(flushed, writer).
       case flushed of
         None \<Rightarrow> Inr sb
       | Some blk \<Rightarrow>
           Inr (sb\<lparr>sb_writer := writer,
                   sb_sparse_index := (case sb_first_key sb of
                      Some key \<Rightarrow> sb_sparse_index sb @ [(key, sb_file_offset sb)] | None \<Rightarrow> sb_sparse_index sb),
                   sb_file := sb_file sb @ blk\<rparr>))"

definition sst_build :: "memtable \<Rightarrow> nat \<Rightarrow> bool \<Rightarrow> sst_builder res" where
  "sst_build memtable target compression =
     and_then
       (fold_res sst_add_entry (mt_entries memtable)
         \<lparr>sb_sparse_index = [], sb_bloom = bloom_for (length (mt_entries memtable)), sb_last_key = None,
          sb_writer = block_writer_new target compression, sb_file = [], sb_file_offset = 0, sb_first_key = None\<rparr>)
       sst_finish"

definition first_opt :: "'a list \<Rightarrow> 'a option" where
  "first_opt xs = (case xs of [] \<Rightarrow> None | x # _ \<Rightarrow> Some x)"

definition from_memtable ::
  "u64 \<Rightarrow> rstring \<Rightarrow> memtable \<Rightarrow> nat option \<Rightarrow> nat \<Rightarrow> bool \<Rightarrow> dir \<Rightarrow> (sstable \<times> dir) res" where
  "from_memtable timestamp name memtable level target compression d =
     (let path = sst_filename name level timestamp in
      and_then (create_new path d) (\<lambda>d.
      and_then (sst_build memtable target compression) (\<lambda>sb.
        Inr (\<lparr>sst_path = path, sst_timestamp = timestamp, sst_name = name, sst_level = level,
              sst_sparse_index = sb_sparse_index sb, sst_bloom = sb_bloom sb,
              sst_min = first_opt (sb_sparse_index sb),
              sst_max = map_option (\<lambda>k. (k, index_offset (sb_sparse_index sb) k)) (sb_last_key sb)\<rparr>,
             AList.update path (sb_file sb) d))))"

section \<open>Lookup\<close>

definition get_offset :: "sstable \<Rightarrow> rstring \<Rightarrow> u64" where
  "get_offset sst key = index_offset (sst_sparse_index sst) key"

text \<open>What a record says at a time: its value, or nothing for a tombstone or an expired record.\<close>

definition record_value :: "u64 \<Rightarrow> disk_record \<Rightarrow> rstring option" where
  "record_value now_ms record =
     (if is_tombstone (rec_header record) then None
      else case hdr_expiry_ms (rec_header record) of
             Some expiry_ms \<Rightarrow> if is_expired expiry_ms now_ms then None else Some (rec_value record)
           | None \<Rightarrow> Some (rec_value record))"

fun sst_scan :: "rstring \<Rightarrow> u64 \<Rightarrow> disk_record res list \<Rightarrow> rstring option option res" where
  "sst_scan key now_ms [] = Inr None"
| "sst_scan key now_ms (result # results) =
     and_then result (\<lambda>record.
       if key < rec_key record then Inr None
       else if rec_key record = key then Inr (Some (record_value now_ms record))
       else sst_scan key now_ms results)"

definition sst_get :: "sstable \<Rightarrow> rstring \<Rightarrow> u64 \<Rightarrow> dir \<Rightarrow> rstring option option res" where
  "sst_get sst key now_ms d =
     and_then (might_contain (sst_bloom sst) key) (\<lambda>maybe.
       if \<not> maybe then Inr None
       else
         let offset = get_offset sst key in
         and_then (open_read (sst_path sst) d) (\<lambda>bs.
           sst_scan key now_ms (iter_results (sst_iter_at (drop (unat offset) bs)))))"

section \<open>Rebuilding the index\<close>

function rebuild_records :: "bytes \<Rightarrow> rstring option \<Rightarrow> rstring list \<Rightarrow> (rstring option \<times> rstring list) res" where
  "rebuild_records block first_key keys =
     (case read_next block of
        Inr (record, block) \<Rightarrow>
          rebuild_records block (if first_key = None then Some (rec_key record) else first_key) (keys @ [rec_key record])
      | Inl e \<Rightarrow> if is_eof e then Inr (first_key, keys) else Inl e)"
  by pat_completeness auto
termination
  by (relation "measure (\<lambda>(block, f, keys). length block)") (auto dest: read_next_shrinks)

declare rebuild_records.simps [simp del]

text \<open>The loop over the blocks; \<open>stream_position\<close> is the length of what has been read.\<close>

function rebuild_blocks ::
  "nat \<Rightarrow> bytes \<Rightarrow> (rstring \<times> u64) list \<Rightarrow> rstring list \<Rightarrow> ((rstring \<times> u64) list \<times> rstring list) res" where
  "rebuild_blocks flen rest index keys =
     (let block_offset = of_nat (flen - length rest) in
      case read_exact 9 rest of
        Inl e \<Rightarrow> if is_eof e then Inr (index, keys) else Inl e
      | Inr (header_buf, rest) \<Rightarrow>
          and_then (read_block (block_header_from_bytes header_buf) rest) (\<lambda>(block_data, rest).
          and_then (rebuild_records block_data None keys) (\<lambda>(first_key, keys).
            rebuild_blocks flen rest
              (case first_key of Some k \<Rightarrow> index @ [(k, block_offset)] | None \<Rightarrow> index) keys)))"
  by pat_completeness auto
termination
  by (relation "measure (\<lambda>(flen, rest, index, keys). length rest)")
    (auto simp: read_exact_Inr_iff dest!: read_block_shrinks)

declare rebuild_blocks.simps [simp del]

definition sst_rebuild_index :: "dir \<Rightarrow> sstable \<Rightarrow> sstable res" where
  "sst_rebuild_index d sst =
     and_then (open_read (sst_path sst) d) (\<lambda>bs.
     and_then (rebuild_blocks (length bs) bs [] []) (\<lambda>(index, keys).
     and_then (fold_res bloom_insert keys (bloom_for (length keys))) (\<lambda>bloom.
       let last_key = (if keys = [] then None else Some (last keys)) in
       Inr (sst\<lparr>sst_min := first_opt index,
                sst_max := map_option (\<lambda>k. (k, index_offset index k)) last_key,
                sst_sparse_index := index,
                sst_bloom := bloom\<rparr>))))"

definition sst_size_on_disk :: "sstable \<Rightarrow> dir \<Rightarrow> u64 res" where
  "sst_size_on_disk sst d = file_len (sst_path sst) d"

definition get_sstables :: "dir \<Rightarrow> rstring \<Rightarrow> sstable list res" where
  "get_sstables d db_name =
     (let tables = List.map_filter (\<lambda>(name, _).
            case sst_parse name of
              Some table \<Rightarrow> if sst_name table = db_name then Some (table\<lparr>sst_path := name\<rparr>) else None
            | None \<Rightarrow> None) d
      in map_res (sst_rebuild_index d) (sort_key sst_timestamp tables))"

end
