(* ===== verification/SSTable_Correct.thy ===== *)
theory SSTable_Correct
  imports SSTable_File
begin

text \<open>
  Correctness of the SSTables of \<open>SSTable_File\<close>. \<open>sst_holds d sst es\<close> relates a table and the directory that
  holds its file to the sorted entries it stores; writing a memtable establishes it, rebuilding the index
  establishes it again after a restart, lookups and scans read it, and changes to other files preserve it.
\<close>

section \<open>The layout of a file: chunks of records\<close>

definition buf_of :: "disk_record list \<Rightarrow> bytes" where
  "buf_of c = concat (map record_bytes c)"

definition file_of :: "bool \<Rightarrow> disk_record list list \<Rightarrow> bytes" where
  "file_of cmp css = concat (map (\<lambda>c. block_bytes cmp (buf_of c)) css)"

fun index_of :: "bool \<Rightarrow> nat \<Rightarrow> disk_record list list \<Rightarrow> (rstring \<times> u64) list" where
  "index_of cmp off [] = []"
| "index_of cmp off (c # css) =
     (rec_key (hd c), of_nat off) # index_of cmp (off + length (block_bytes cmp (buf_of c))) css"

definition chunks_ok :: "disk_record list list \<Rightarrow> bool" where
  "chunks_ok css \<longleftrightarrow> (\<forall>c \<in> set css. c \<noteq> [] \<and> (\<forall>r \<in> set c. record_ok r) \<and> block_fits (buf_of c))"

lemma buf_of_simps [simp]: "buf_of [] = []" "buf_of (r # c) = record_bytes r @ buf_of c" "buf_of (c @ c') = buf_of c @ buf_of c'"
  by (simp_all add: buf_of_def)

lemma file_of_simps [simp]:
  "file_of cmp [] = []" "file_of cmp (c # css) = block_bytes cmp (buf_of c) @ file_of cmp css"
  "file_of cmp (css @ css') = file_of cmp css @ file_of cmp css'"
  by (simp_all add: file_of_def)

lemma chunks_ok_simps [simp]:
  "chunks_ok []" "chunks_ok (c # css) \<longleftrightarrow> c \<noteq> [] \<and> (\<forall>r \<in> set c. record_ok r) \<and> block_fits (buf_of c) \<and> chunks_ok css"
  "chunks_ok (css @ css') \<longleftrightarrow> chunks_ok css \<and> chunks_ok css'"
  by (auto simp: chunks_ok_def)

lemma index_of_append:
  "index_of cmp off (css @ css') = index_of cmp off css @ index_of cmp (off + length (file_of cmp css)) css'"
  by (induction css arbitrary: off) (auto simp: add.assoc)

lemma length_index_of [simp]: "length (index_of cmp off css) = length css"
  by (induction css arbitrary: off) auto

lemma index_of_nth:
  "i < length css \<Longrightarrow> index_of cmp off css ! i = (rec_key (hd (css ! i)), of_nat (off + length (file_of cmp (take i css))))"
  by (induction css arbitrary: off i) (auto simp: nth_Cons' take_Cons' add.assoc)

lemma read_next_Nil [simp]: "read_next [] = Inl (IoError UnexpectedEof OsError)"
  by (simp add: read_next_def read_header_def read_exact_def)

lemma drop_add_append: "drop n xs = ys @ zs \<Longrightarrow> drop (n + length ys) xs = zs"
  by (metis add.commute append_eq_conv_conj drop_drop)

section \<open>The iterator gives the records back\<close>

lemma iter_results_record:
  assumes "\<not> it_done it" and "drop (it_block_pos it) (it_current_block it) = record_bytes r @ rest" and "record_ok r"
  shows "iter_results it = Inr (stored r) # iter_results (it\<lparr>it_block_pos := it_block_pos it + length (record_bytes r)\<rparr>)"
proof -
  have pos: "it_block_pos it < length (it_current_block it)"
    using assms(2) rec.enc_nonempty [OF assms(3)] by (metis append_is_Nil_conv drop_all leI)
  have "iter_loop it = (Some (Inr (stored r)), it\<lparr>it_block_pos := it_block_pos it + length (record_bytes r)\<rparr>)"
    using pos by (subst iter_loop.simps)
      (simp add: iter_in_block_def assms(2) Let_def read_next_record_bytes [OF assms(3)])
  then show ?thesis using assms(1) by (subst iter_results.simps) (simp add: iter_next_def)
qed

lemma iter_results_next_block:
  assumes "\<not> it_done it" and "drop (it_block_pos it) (it_current_block it) = []"
    and "it_file it = block_bytes cmp buf @ rest" and "block_fits buf"
  shows "iter_results it = iter_results (it\<lparr>it_file := rest, it_current_block := buf, it_block_pos := 0\<rparr>)"
proof -
  obtain hb bs where rd: "read_exact 9 (it_file it) = Inr (hb, bs)" "read_block (block_header_from_bytes hb) bs = Inr (buf, rest)"
    using read_block_bytes [OF assms(4), of cmp rest] assms(3)
    by (auto simp: read_header_and_block_def and_then_Inr_iff)
  have "iter_loop it = iter_loop (it\<lparr>it_file := rest, it_current_block := buf, it_block_pos := 0\<rparr>)"
    using assms(2) rd by (subst iter_loop.simps) (simp add: iter_in_block_def)
  then show ?thesis using assms(1)
    by (subst iter_results.simps, subst (2) iter_results.simps) (simp add: iter_next_def)
qed

lemma iter_results_file:
  assumes "\<not> it_done it" and "drop (it_block_pos it) (it_current_block it) = buf_of c"
    and "\<forall>r \<in> set c. record_ok r" and "it_file it = file_of cmp css" and "chunks_ok css"
  shows "iter_results it = map (\<lambda>r. Inr (stored r)) (c @ concat css)"
  using assms
proof (induction css arbitrary: it c)
  case Nil
  from Nil.prems(1-4) show ?case
  proof (induction c arbitrary: it)
    case Nil
    then have "iter_loop it = (None, it\<lparr>it_done := True\<rparr>)"
      by (subst iter_loop.simps) (simp add: iter_in_block_def read_exact_def)
    then show ?case using Nil by (subst iter_results.simps) (simp add: iter_next_def)
  next
    case (Cons r c)
    have "drop (it_block_pos it + length (record_bytes r)) (it_current_block it) = buf_of c"
      using Cons.prems(2) by (simp add: drop_add_append)
    then show ?case
      using Cons.IH [of "it\<lparr>it_block_pos := it_block_pos it + length (record_bytes r)\<rparr>"] Cons.prems
        iter_results_record [of it r "buf_of c"] by simp
  qed
next
  case (Cons c' css)
  from Cons.prems(1-4) show ?case
  proof (induction c arbitrary: it)
    case Nil
    then show ?case
      using iter_results_next_block [of it cmp "buf_of c'" "file_of cmp css"] Cons.prems(5)
        Cons.IH [of "it\<lparr>it_file := file_of cmp css, it_current_block := buf_of c', it_block_pos := 0\<rparr>" c'] by simp
  next
    case (Cons r c)
    have "drop (it_block_pos it + length (record_bytes r)) (it_current_block it) = buf_of c"
      using Cons.prems(2) by (simp add: drop_add_append)
    then show ?case
      using Cons.IH [of "it\<lparr>it_block_pos := it_block_pos it + length (record_bytes r)\<rparr>"] Cons.prems
        iter_results_record [of it r "buf_of c"] by simp
  qed
qed

lemma iter_results_at:
  "chunks_ok css \<Longrightarrow> iter_results (sst_iter_at (file_of cmp css)) = map (\<lambda>r. Inr (stored r)) (concat css)"
  using iter_results_file [of "sst_iter_at (file_of cmp css)" "[]" cmp css] by (simp add: sst_iter_at_def)

section \<open>Rebuilding the index\<close>

lemma rebuild_records_buf:
  "\<forall>r \<in> set c. record_ok r \<Longrightarrow>
   rebuild_records (buf_of c) first keys =
     Inr (if first = None \<and> c \<noteq> [] then Some (rec_key (hd c)) else first, keys @ map rec_key c)"
proof (induction c arbitrary: first keys)
  case Nil
  then show ?case by (subst rebuild_records.simps) simp
next
  case (Cons r c)
  have "read_next (buf_of (r # c)) = Inr (stored r, buf_of c)" using Cons.prems read_next_record_bytes [of r] by simp
  then show ?case using Cons by (subst rebuild_records.simps) auto
qed

lemma rebuild_blocks_file:
  assumes "chunks_ok css"
  shows "rebuild_blocks (off + length (file_of cmp css)) (file_of cmp css) index keys =
           Inr (index @ index_of cmp off css, keys @ map rec_key (concat css))"
  using assms
proof (induction css arbitrary: off index keys)
  case Nil
  then show ?case by (subst rebuild_blocks.simps) (simp add: read_exact_def)
next
  case (Cons c css)
  obtain hb bs where rd: "read_exact 9 (file_of cmp (c # css)) = Inr (hb, bs)"
      "read_block (block_header_from_bytes hb) bs = Inr (buf_of c, file_of cmp css)"
    using read_block_bytes [of "buf_of c" cmp "file_of cmp css"] Cons.prems
    by (auto simp: read_header_and_block_def and_then_Inr_iff)
  show ?case
    using Cons.IH [of "off + length (block_bytes cmp (buf_of c))"] Cons.prems rd rebuild_records_buf [of c None keys]
    by (subst rebuild_blocks.simps) (simp add: Let_def add.assoc)
qed

section \<open>The writer\<close>

definition entry_fits :: "rstring \<times> memtable_entry \<Rightarrow> bool" where
  "entry_fits = (\<lambda>(k, e). len k \<le> MAX_KEY_SIZE \<and> (\<forall>v. me_value e = Some v \<longrightarrow> len v \<le> MAX_VALUE_SIZE))"

lemma entry_record_simps [simp]:
  "rec_key (entry_record (k, e)) = k"
  "hdr_expiry_ms (rec_header (entry_record (k, e))) = me_expiry_ms e"
  "is_tombstone (rec_header (entry_record (k, e))) \<longleftrightarrow> me_value e = None"
  by (auto simp: entry_record_def is_tombstone_def Let_def bit.conj_disj_distrib2 split: option.split)

lemma rec_key_entry_record: "rec_key (entry_record p) = fst p"
  by (cases p) simp

lemma rec_value_entry_record: "me_value e = Some v \<Longrightarrow> rec_value (entry_record (k, e)) = v"
  by (simp add: entry_record_def Let_def)

lemma entry_record_ok:
  assumes "entry_fits p"
  shows "record_ok (entry_record p)"
proof -
  obtain k e where p: "p = (k, e)" by (cases p)
  have "len (rec_key (entry_record p)) \<le> MAX_KEY_SIZE" "len (rec_value (entry_record p)) \<le> MAX_VALUE_SIZE"
    using assms by (auto simp: p entry_fits_def entry_record_def Let_def MAX_VALUE_SIZE_def split: option.split)
  moreover have "record_wf (entry_record p)"
    using assms by (auto simp: p entry_fits_def entry_record_def Let_def MAX_KEY_SIZE_def MAX_VALUE_SIZE_def
        intro!: record_wf_mk_record split: option.splits)
  ultimately show ?thesis by (simp add: record_fits_def)
qed

lemma record_bytes_bound: "record_fits r \<Longrightarrow> length (record_bytes r) \<le> 29 + 6 * 1048576"
  by (auto simp: length_record_bytes record_fits_def MAX_KEY_SIZE_def MAX_VALUE_SIZE_def)

lemma block_bytes_bound: "length (block_bytes cmp buf) \<le> 9 + 2 * length buf"
  using lz77.compress_ok [of buf] by (auto simp: block_bytes_def block_encode_def simp del: block_encode_bytes)

lemma file_of_bound:
  assumes "chunks_ok css"
  shows "length (file_of cmp css) \<le> length (concat css) * 2 ^ 24"
  using assms
proof (induction css)
  case (Cons c css)
  have "9 + 2 * length (buf_of c) \<le> length c * 2 ^ 24" if "c \<noteq> []" "\<forall>r \<in> set c. record_fits r" for c
    using that
  proof (induction c)
    case (Cons r c)
    have "length (record_bytes r) \<le> 29 + 6 * 1048576" using Cons.prems record_bytes_bound by simp
    then show ?case using Cons by (cases "c = []") auto
  qed simp
  from this [of c] Cons block_bytes_bound [of cmp "buf_of c"] show ?case by (simp add: add_mult_distrib)
qed simp

text \<open>The invariant of the writer's loop: full blocks are in the file and in the index, the current block is in the
  writer. Every block either respects the target size or holds a single record.\<close>

definition small_buf :: "nat \<Rightarrow> bytes \<Rightarrow> bool" where
  "small_buf target buf \<longleftrightarrow> length buf \<le> max target (29 + 6 * 1048576)"

definition sb_inv :: "bool \<Rightarrow> nat \<Rightarrow> disk_record list \<Rightarrow> disk_record list list \<Rightarrow> disk_record list \<Rightarrow> sst_builder \<Rightarrow> bool" where
  "sb_inv cmp target rs css cur sb \<longleftrightarrow>
     rs = concat css @ cur \<and> chunks_ok css \<and> (\<forall>r \<in> set cur. record_ok r) \<and> small_buf target (buf_of cur) \<and>
     sb_file sb = file_of cmp css \<and> sb_sparse_index sb = index_of cmp 0 css \<and>
     sb_file_offset sb = of_nat (length (file_of cmp css)) \<and>
     sb_writer sb = \<lparr>target_block_size = target, compression_enabled = cmp, bw_buffer = buf_of cur\<rparr> \<and>
     sb_first_key sb = map_option rec_key (first_opt cur) \<and>
     sb_last_key sb = (if rs = [] then None else Some (rec_key (last rs)))"

lemma small_buf_fits: "small_buf target buf \<Longrightarrow> target < 2 ^ 31 \<Longrightarrow> block_fits buf"
  by (auto simp: small_buf_def block_fits_def)

lemma buf_of_Nil_iff: "\<forall>r \<in> set c. record_ok r \<Longrightarrow> buf_of c = [] \<longleftrightarrow> c = []"
  using rec.enc_nonempty by (cases c) auto

lemma first_opt_simps [simp]: "first_opt [] = None" "first_opt (x # xs) = Some x"
  by (simp_all add: first_opt_def)

lemma first_opt_append: "xs \<noteq> [] \<Longrightarrow> first_opt (xs @ ys) = first_opt xs"
  by (cases xs) auto

lemma sst_add_entry_inv:
  assumes inv: "sb_inv cmp target rs css cur sb" and fits: "entry_fits p" and bl: "bloom_usable (sb_bloom sb)"
    and target: "target < 2 ^ 31" and n: "length rs < 2 ^ 40"
  shows "\<exists>sb' css' cur'. sst_add_entry p sb = Inr sb' \<and> sb_inv cmp target (rs @ [entry_record p]) css' cur' sb'
           \<and> cur' \<noteq> [] \<and> bloom_insert (fst p) (sb_bloom sb) = Inr (sb_bloom sb')"
proof -
  let ?r = "entry_record p" and ?w = "sb_writer sb"
  have r: "record_ok ?r" "length (record_bytes ?r) \<le> 29 + 6 * 1048576"
    using entry_record_ok [OF fits] record_bytes_bound by auto
  have key: "rec_key ?r = fst p" by (rule rec_key_entry_record)
  obtain bloom where bloom: "bloom_insert (fst p) (sb_bloom sb) = Inr bloom"
    using bloom.insert_total [OF bl] by blast
  have inv': "rs = concat css @ cur" "chunks_ok css" "\<forall>r \<in> set cur. record_ok r" "small_buf target (buf_of cur)"
    "sb_file sb = file_of cmp css" "sb_sparse_index sb = index_of cmp 0 css"
    "sb_file_offset sb = of_nat (length (file_of cmp css))"
    "?w = \<lparr>target_block_size = target, compression_enabled = cmp, bw_buffer = buf_of cur\<rparr>"
    "sb_first_key sb = map_option rec_key (first_opt cur)"
    using inv by (auto simp: sb_inv_def)
  note nil = buf_of_Nil_iff [OF inv'(3)]
  show ?thesis
  proof (cases "target < length (record_bytes ?r) + length (buf_of cur) \<and> cur \<noteq> []")
    case False
    then have add: "block_add_record ?r ?w = Inr (None, ?w\<lparr>bw_buffer := buf_of (cur @ [?r])\<rparr>)"
      using nil by (auto simp: block_add_record_def inv'(8) block_flush_def Let_def)
    have "small_buf target (buf_of (cur @ [?r]))" using False r by (auto simp: small_buf_def)
    then have "sb_inv cmp target (rs @ [?r]) css (cur @ [?r])
        (sb\<lparr>sb_bloom := bloom, sb_last_key := Some (fst p), sb_writer := ?w\<lparr>bw_buffer := buf_of (cur @ [?r])\<rparr>,
            sb_first_key := (if sb_first_key sb = None then Some (fst p) else sb_first_key sb)\<rparr>)"
      using inv' r key by (cases cur) (auto simp: sb_inv_def first_opt_append)
    then show ?thesis using bloom add by (intro exI conjI) (auto simp: sst_add_entry_def Let_def)
  next
    case True
    let ?blk = "block_bytes cmp (buf_of cur)"
    have add: "block_add_record ?r ?w = Inr (Some ?blk, ?w\<lparr>bw_buffer := buf_of [?r]\<rparr>)"
      using True nil by (auto simp: block_add_record_def inv'(8) block_flush_def Let_def)
    have ok: "chunks_ok (css @ [cur])" using inv' True small_buf_fits target by auto
    have "length (file_of cmp css) + length ?blk \<le> length rs * 2 ^ 24"
      using file_of_bound [OF ok, of cmp] inv'(1) by simp
    also have "\<dots> < 2 ^ 40 * 2 ^ 24" using n by simp
    finally have "length (file_of cmp css) + length ?blk < 2 ^ 64" by simp
    then have off: "checked_add64 (sb_file_offset sb) (of_nat (length ?blk)) = Inr (of_nat (length (file_of cmp (css @ [cur]))))"
      unfolding inv'(7) by simp
    have first: "(if sb_first_key sb = None then Some (fst p) else sb_first_key sb) = Some (rec_key (hd cur))"
      using True inv'(9) by (cases cur) auto
    have "sb_inv cmp target (rs @ [?r]) (css @ [cur]) [?r]
        (sb\<lparr>sb_bloom := bloom, sb_last_key := Some (fst p), sb_writer := ?w\<lparr>bw_buffer := buf_of [?r]\<rparr>,
            sb_sparse_index := sb_sparse_index sb @ [(rec_key (hd cur), sb_file_offset sb)],
            sb_file := sb_file sb @ ?blk, sb_file_offset := of_nat (length (file_of cmp (css @ [cur]))),
            sb_first_key := Some (fst p)\<rparr>)"
      using inv' r key ok by (auto simp: sb_inv_def index_of_append small_buf_def)
    then show ?thesis
      using bloom add off by (intro exI conjI) (auto simp: sst_add_entry_def Let_def first)
  qed
qed

lemma sst_add_all_inv:
  assumes "sb_inv cmp target rs css cur sb" and "\<forall>p \<in> set es. entry_fits p" and "bloom_usable (sb_bloom sb)"
    and "target < 2 ^ 31" and "length rs + length es < 2 ^ 40" and "rs \<noteq> [] \<longrightarrow> cur \<noteq> []"
  shows "\<exists>sb' css' cur'. fold_res sst_add_entry es sb = Inr sb' \<and>
           sb_inv cmp target (rs @ map entry_record es) css' cur' sb' \<and> (rs @ map entry_record es \<noteq> [] \<longrightarrow> cur' \<noteq> [])
           \<and> fold_res bloom_insert (map fst es) (sb_bloom sb) = Inr (sb_bloom sb')"
  using assms
proof (induction es arbitrary: rs css cur sb)
  case (Cons p es)
  have "\<exists>sb' css' cur'. sst_add_entry p sb = Inr sb' \<and> sb_inv cmp target (rs @ [entry_record p]) css' cur' sb'
           \<and> cur' \<noteq> [] \<and> bloom_insert (fst p) (sb_bloom sb) = Inr (sb_bloom sb')"
    using Cons.prems by (intro sst_add_entry_inv) auto
  then obtain sb1 css1 cur1 where 1: "sst_add_entry p sb = Inr sb1" "cur1 \<noteq> []"
      "sb_inv cmp target (rs @ [entry_record p]) css1 cur1 sb1" "bloom_insert (fst p) (sb_bloom sb) = Inr (sb_bloom sb1)"
    by blast
  moreover have "bloom_usable (sb_bloom sb1)" using bloom.insert_total [OF Cons.prems(3), of "fst p"] 1(4) by auto
  ultimately show ?case using Cons.IH [OF 1(3)] Cons.prems by simp
qed auto

lemma sst_finish_inv:
  assumes "sb_inv cmp target rs css cur sb" and "rs \<noteq> [] \<longrightarrow> cur \<noteq> []" and "target < 2 ^ 31"
  shows "\<exists>sb' css'. sst_finish sb = Inr sb' \<and> rs = concat css' \<and> chunks_ok css' \<and> sb_file sb' = file_of cmp css' \<and>
           sb_sparse_index sb' = index_of cmp 0 css' \<and> sb_bloom sb' = sb_bloom sb \<and>
           sb_last_key sb' = (if rs = [] then None else Some (rec_key (last rs)))"
proof (cases "cur = []")
  case True
  then show ?thesis using assms by (auto simp: sb_inv_def sst_finish_def block_flush_def)
next
  case False
  with assms have buf: "buf_of cur \<noteq> []" using buf_of_Nil_iff [of cur] by (auto simp: sb_inv_def)
  have "first_opt cur = Some (hd cur)" using False by (cases cur) auto
  with assms False buf small_buf_fits show ?thesis
    by (intro exI [of _ _] exI [of _ "css @ [cur]"])
      (auto simp: sb_inv_def sst_finish_def block_flush_def index_of_append)
qed

section \<open>What a table holds\<close>

definition sst_holds :: "dir \<Rightarrow> sstable \<Rightarrow> (rstring \<times> memtable_entry) list \<Rightarrow> bool" where
  "sst_holds d sst es \<longleftrightarrow>
     bt_ok es \<and> (\<forall>p \<in> set es. entry_fits p) \<and>
     (\<exists>cmp css. map_of d (sst_path sst) = Some (file_of cmp css) \<and> length (file_of cmp css) < 2 ^ 64 \<and> chunks_ok css \<and>
        concat css = map entry_record es \<and> sst_sparse_index sst = index_of cmp 0 css) \<and>
     bloom_usable (sst_bloom sst) \<and> (\<forall>k \<in> fst ` set es. might_contain (sst_bloom sst) k = Inr True) \<and>
     map_option fst (sst_min sst) = map_option fst (first_opt es) \<and>
     map_option fst (sst_max sst) = (if es = [] then None else Some (fst (last es)))"

lemma sst_holds_frame:
  "sst_holds d sst es \<Longrightarrow> map_of d' (sst_path sst) = map_of d (sst_path sst) \<Longrightarrow> sst_holds d' sst es"
  by (simp add: sst_holds_def)

lemma bloom_for_usable [simp]: "bloom_usable (bloom_for n)"
  by (simp add: bloom_for_def)

lemma first_opt_index:
  assumes "chunks_ok css" and "concat css = map entry_record es"
  shows "map_option fst (first_opt (index_of cmp 0 css)) = map_option fst (first_opt es)"
proof (cases css)
  case Nil
  then show ?thesis using assms by simp
next
  case (Cons c css')
  then obtain r c' where c: "c = r # c'" using assms(1) by (cases c) auto
  then obtain p es' where "es = p # es'" using assms(2) Cons by (cases es) auto
  then show ?thesis using assms(2) Cons c by (simp add: rec_key_entry_record)
qed

lemma last_entry_record: "es \<noteq> [] \<Longrightarrow> rec_key (last (map entry_record es)) = fst (last es)"
  by (simp add: last_map rec_key_entry_record)

text \<open>The table for a layout holds its entries, whichever way index and filter were obtained.\<close>

lemma sst_holds_layout:
  assumes "bt_ok es" and "\<forall>p \<in> set es. entry_fits p" and "length es < 2 ^ 40"
    and "concat css = map entry_record es" and "chunks_ok css"
    and "map_of d (sst_path sst) = Some (file_of cmp css)" and "sst_sparse_index sst = index_of cmp 0 css"
    and "fold_res bloom_insert (map fst es) (bloom_for (length es)) = Inr (sst_bloom sst)"
    and "sst_min sst = first_opt (index_of cmp 0 css)"
    and "sst_max sst = map_option (\<lambda>k. (k, index_offset (index_of cmp 0 css) k)) (if es = [] then None else Some (fst (last es)))"
  shows "sst_holds d sst es"
proof -
  have "length (file_of cmp css) \<le> length es * 2 ^ 24" using file_of_bound [OF assms(5), of cmp] assms(4) by simp
  also have "\<dots> < 2 ^ 64" using assms(3) by simp
  finally have "length (file_of cmp css) < 2 ^ 64" .
  moreover have "bloom_usable (sst_bloom sst)"
    using bloom.insert_all_total [of "bloom_for (length es)" "map fst es"] assms(8) by auto
  moreover have "might_contain (sst_bloom sst) k = Inr True" if "k \<in> fst ` set es" for k
    using bloom.no_false_negative [OF _ assms(8), of k] that by auto
  moreover have "map_option fst (sst_max sst) = (if es = [] then None else Some (fst (last es)))"
    unfolding assms(10) by simp
  moreover note first_opt_index [OF assms(5,4), of cmp] assms(1,2,4-7)
  ultimately show ?thesis unfolding sst_holds_def assms(9) by blast
qed

lemma from_memtable_holds:
  assumes "bt_ok (mt_entries m)" and "\<forall>p \<in> set (mt_entries m). entry_fits p" and "length (mt_entries m) < 2 ^ 40"
    and "target < 2 ^ 31" and "map_of d (sst_filename name level ts) = None"
  shows "\<exists>sst d'. from_memtable ts name m level target compression d = Inr (sst, d') \<and> sst_holds d' sst (mt_entries m)
           \<and> sst_path sst = sst_filename name level ts \<and> sst_timestamp sst = ts \<and> sst_name sst = name \<and> sst_level sst = level
           \<and> (\<forall>n. n \<noteq> sst_path sst \<longrightarrow> map_of d' n = map_of d n)"
proof -
  let ?es = "mt_entries m"
  let ?sb = "\<lparr>sb_sparse_index = [], sb_bloom = bloom_for (length ?es), sb_last_key = None,
          sb_writer = block_writer_new target compression, sb_file = [], sb_file_offset = 0, sb_first_key = None\<rparr>"
  have "sb_inv compression target [] [] [] ?sb"
    by (simp add: sb_inv_def block_writer_new_def small_buf_def)
  from sst_add_all_inv [OF this assms(2) _ assms(4)] assms(3)
  obtain sb css cur where sb: "fold_res sst_add_entry ?es ?sb = Inr sb"
    and inv: "sb_inv compression target (map entry_record ?es) css cur sb" "map entry_record ?es \<noteq> [] \<longrightarrow> cur \<noteq> []"
    and bloom: "fold_res bloom_insert (map fst ?es) (bloom_for (length ?es)) = Inr (sb_bloom sb)"
    by auto
  from sst_finish_inv [OF inv assms(4)]
  obtain sb' css' where sb': "sst_finish sb = Inr sb'" "map entry_record ?es = concat css'" "chunks_ok css'"
      "sb_file sb' = file_of compression css'" "sb_sparse_index sb' = index_of compression 0 css'"
      "sb_bloom sb' = sb_bloom sb"
      "sb_last_key sb' = (if map entry_record ?es = [] then None else Some (rec_key (last (map entry_record ?es))))" by blast
  have build: "sst_build m target compression = Inr sb'" using sb sb'(1) by (simp add: sst_build_def)
  have lk: "sb_last_key sb' = (if ?es = [] then None else Some (fst (last ?es)))"
    using sb'(7) last_entry_record by auto
  define sst where "sst = \<lparr>sst_path = sst_filename name level ts, sst_timestamp = ts, sst_name = name, sst_level = level,
      sst_sparse_index = sb_sparse_index sb', sst_bloom = sb_bloom sb', sst_min = first_opt (sb_sparse_index sb'),
      sst_max = map_option (\<lambda>k. (k, index_offset (sb_sparse_index sb') k)) (sb_last_key sb')\<rparr>"
  define d' where "d' = AList.update (sst_filename name level ts) (sb_file sb') (AList.update (sst_filename name level ts) [] d)"
  have "from_memtable ts name m level target compression d = Inr (sst, d')"
    using assms(5) build by (simp add: from_memtable_def create_new_def sst_def d'_def Let_def)
  moreover have "sst_holds d' sst ?es"
    by (rule sst_holds_layout [OF assms(1-3) sb'(2) [symmetric] sb'(3)])
      (simp_all add: sst_def d'_def sb'(4,5,6) bloom lk)
  ultimately show ?thesis by (auto simp: sst_def d'_def)
qed

lemma sst_rebuild_holds:
  assumes "sst_holds d sst es" and "sst_path t = sst_path sst" and "length es < 2 ^ 40"
  shows "\<exists>t'. sst_rebuild_index d t = Inr t' \<and> sst_holds d t' es \<and> sst_path t' = sst_path t
           \<and> sst_timestamp t' = sst_timestamp t \<and> sst_name t' = sst_name t \<and> sst_level t' = sst_level t"
proof -
  from assms(1) obtain cmp css where css: "map_of d (sst_path sst) = Some (file_of cmp css)" "chunks_ok css"
      "concat css = map entry_record es" and es: "bt_ok es" "\<forall>p \<in> set es. entry_fits p"
    unfolding sst_holds_def by blast
  have keys: "map rec_key (concat css) = map fst es" using css(3) by (simp add: rec_key_entry_record comp_def)
  obtain bloom where bloom: "fold_res bloom_insert (map fst es) (bloom_for (length es)) = Inr bloom"
    using bloom.insert_all_total [of "bloom_for (length es)" "map fst es"] by auto
  define t' where "t' = t\<lparr>sst_min := first_opt (index_of cmp 0 css),
      sst_max := map_option (\<lambda>k. (k, index_offset (index_of cmp 0 css) k)) (if es = [] then None else Some (fst (last es))),
      sst_sparse_index := index_of cmp 0 css, sst_bloom := bloom\<rparr>"
  have "sst_rebuild_index d t = Inr t'"
    using css(1) assms(2) rebuild_blocks_file [OF css(2), of 0 cmp "[]" "[]"] bloom
    by (simp add: sst_rebuild_index_def open_read_def keys Let_def t'_def last_map)
  moreover have "sst_holds d t' es"
    by (rule sst_holds_layout [OF es assms(3) css(3,2)]) (simp_all add: t'_def assms(2) css(1) bloom)
  ultimately show ?thesis by (auto simp: t'_def)
qed

section \<open>Reading a table\<close>

lemma record_value_entry [simp]: "record_value now (stored (entry_record (k, e))) = entry_value now e"
  by (cases "me_value e") (auto simp: record_value_def entry_value_def rec_value_entry_record split: option.split)

lemma sst_iter_holds:
  "sst_holds d sst es \<Longrightarrow> sst_iter sst d = Inr (map (\<lambda>p. Inr (stored (entry_record p))) es)"
  unfolding sst_holds_def sst_iter_def by (auto simp: open_read_def iter_results_at)

lemma sst_scan_sorted:
  "bt_ok es \<Longrightarrow> sst_scan key now (map (\<lambda>p. Inr (stored (entry_record p))) es) = Inr (map_option (entry_value now) (map_of es key))"
proof (induction es)
  case (Cons p es)
  obtain k e where p: "p = (k, e)" by (cases p)
  have "map_of es key = None" if "key < k"
    using Cons.prems that by (auto simp: p bt_ok_Cons map_of_eq_None_iff)
  then show ?case using Cons by (auto simp: p bt_ok_Cons)
qed simp

lemma index_offset_split:
  assumes "chunks_ok css" and "sorted_wrt (<) (map rec_key (concat css))"
  shows "\<exists>pre suf. css = pre @ suf \<and> index_offset (index_of cmp 0 css) key = of_nat (length (file_of cmp pre)) \<and>
           (\<forall>r \<in> set (concat pre). rec_key r < key)"
proof -
  let ?P = "\<lambda>(k :: rstring, _ :: u64). k \<le> key" and ?ix = "index_of cmp 0 css"
  define pos where "pos = partition_point ?P ?ix"
  show ?thesis
  proof (cases "pos = 0")
    case True
    then show ?thesis by (intro exI [of _ "[]"] exI [of _ css]) (simp add: index_offset_def pos_def [symmetric])
  next
    case False
    let ?i = "pos - 1"
    have "pos \<le> length css"
      using length_takeWhile_le [of ?P ?ix] by (simp only: pos_def partition_point_def length_index_of)
    moreover have "pos = length (takeWhile ?P ?ix)" by (simp only: pos_def partition_point_def)
    ultimately have i: "?i < length css" "?i < length (takeWhile ?P ?ix)" using False by linarith+
    then have "?P (?ix ! ?i)" using nth_mem [OF i(2)] by (metis set_takeWhileD takeWhile_nth)
    then have le: "rec_key (hd (css ! ?i)) \<le> key" using i by (simp add: index_of_nth)
    let ?c = "css ! ?i"
    have css: "css = take ?i css @ ?c # drop (Suc ?i) css" using i(1) by (rule id_take_nth_drop)
    then have "?c \<noteq> []" using assms(1) by (metis chunks_ok_simps(2,3))
    then have "hd ?c \<in> set (concat (?c # drop (Suc ?i) css))" by simp
    moreover have "sorted_wrt (<) (map rec_key (concat (take ?i css)) @ map rec_key (concat (?c # drop (Suc ?i) css)))"
      using assms(2) css by (metis concat_append map_append)
    ultimately have "rec_key r < key" if "r \<in> set (concat (take ?i css))" for r
      using that le unfolding sorted_wrt_append by (metis (no_types, lifting) image_eqI less_le_trans list.set_map)
    moreover have "index_offset ?ix key = of_nat (length (file_of cmp (take ?i css)))"
      using False i(1) by (simp add: index_offset_def pos_def [symmetric] index_of_nth)
    ultimately show ?thesis by (metis append_take_drop_id)
  qed
qed

lemma sst_get_holds:
  assumes "sst_holds d sst es"
  shows "sst_get sst key now d = Inr (map_option (entry_value now) (map_of es key))"
proof -
  from assms obtain cmp css where css: "map_of d (sst_path sst) = Some (file_of cmp css)" "length (file_of cmp css) < 2 ^ 64"
      "chunks_ok css" "concat css = map entry_record es" "sst_sparse_index sst = index_of cmp 0 css"
    and es: "bt_ok es" unfolding sst_holds_def by blast
  obtain maybe where maybe: "might_contain (sst_bloom sst) key = Inr maybe"
    using bloom.member_total [of "sst_bloom sst" key] assms unfolding sst_holds_def by metis
  show ?thesis
  proof (cases maybe)
    case False
    then have "key \<notin> fst ` set es" using assms maybe unfolding sst_holds_def by auto
    then have "map_of es key = None" by (simp add: map_of_eq_None_iff)
    then show ?thesis using False maybe by (simp add: sst_get_def)
  next
    case True
    have "map rec_key (concat css) = map fst es" by (simp add: css(4) rec_key_entry_record comp_def)
    then have "sorted_wrt (<) (map rec_key (concat css))" using es by (simp add: bt_ok_def)
    from index_offset_split [OF css(3) this, of cmp key]
    obtain pre suf where split: "css = pre @ suf" "get_offset sst key = of_nat (length (file_of cmp pre))"
      "\<forall>r \<in> set (concat pre). rec_key r < key" by (auto simp: get_offset_def css(5))
    have "unat (get_offset sst key) = length (file_of cmp pre)"
      using css(2) split(1) by (simp add: split(2) unat_of_nat)
    then have "drop (unat (get_offset sst key)) (file_of cmp css) = file_of cmp suf" using split(1) by simp
    moreover obtain es1 es2 where e: "es = es1 @ es2" "concat pre = map entry_record es1" "concat suf = map entry_record es2"
      using css(4) split(1) by (auto simp: append_eq_map_conv)
    moreover have "map_of es1 key = None"
      using split(3) unfolding e(2) by (auto simp: map_of_eq_None_iff rec_key_entry_record)
    moreover have "chunks_ok suf" "bt_ok es2" using css(3) split(1) es e(1) by (auto simp: bt_ok_append)
    ultimately show ?thesis
      using True maybe css(1) sst_scan_sorted [of es2 key now]
      by (simp add: sst_get_def open_read_def iter_results_at map_add_def comp_def)
  qed
qed

section \<open>File names and reopening\<close>

lemma underscore_not_digit: "95 \<notin> set (show_dec n)" "76 \<notin> set (show_dec n)"
  using show_dec_set [of 95 n] show_dec_set [of 76 n] by auto

lemma lit_bytes:
  "as_bytes (lit ''_'') = [95]" "as_bytes (lit ''_L'') = [95, 76]"
  by (simp_all add: of_char_def)

lemma sst_parse_level:
  "l < 2 ^ 64 \<Longrightarrow> sst_parse (sst_filename name (Some l) ts) =
     Some \<lparr>sst_path = lit [], sst_timestamp = ts, sst_name = name, sst_level = Some l,
       sst_sparse_index = [], sst_bloom = bloom_new 1 BLOOM_HASH_COUNT, sst_min = None, sst_max = None\<rparr>"
  using rsplit_once_last [of 95 "[]" "show_dec (unat ts)" "as_bytes name @ [95, 76] @ show_dec l"]
    rsplit_once_last [of 95 "[76]" "show_dec l" "as_bytes name"]
    strip_suffix_append [of "as_bytes (lit ''.sst'')" "as_bytes name @ [95, 76] @ show_dec l @ [95] @ show_dec (unat ts)"]
    unsigned_less [of ts, where ?'a = nat]
  by (simp add: sst_parse_def sst_filename_def lit_bytes underscore_not_digit del: lit.rep_eq strip_suffix_append)

lemma sst_parse_plain:
  assumes "rsplit_once [95, 76] (as_bytes name) = None"
  shows "sst_parse (sst_filename name None ts) =
     Some \<lparr>sst_path = lit [], sst_timestamp = ts, sst_name = name, sst_level = None,
       sst_sparse_index = [], sst_bloom = bloom_new 1 BLOOM_HASH_COUNT, sst_min = None, sst_max = None\<rparr>"
  using rsplit_once_last [of 95 "[]" "show_dec (unat ts)" "as_bytes name"] assms
    strip_suffix_append [of "as_bytes (lit ''.sst'')" "as_bytes name @ [95] @ show_dec (unat ts)"]
    unsigned_less [of ts, where ?'a = nat]
  by (simp add: sst_parse_def sst_filename_def lit_bytes underscore_not_digit del: lit.rep_eq strip_suffix_append)

lemma sst_filename_inj:
  assumes "rsplit_once [95, 76] (as_bytes name) = None" and "sst_filename name None ts = sst_filename name None ts'"
  shows "ts = ts'"
proof -
  have "sst_parse (sst_filename name None ts) = sst_parse (sst_filename name None ts')" using assms(2) by simp
  then show ?thesis by (simp add: sst_parse_plain [OF assms(1)])
qed

lemma sst_filename_level_neq:
  assumes "rsplit_once [95, 76] (as_bytes name) = None" and "l < 2 ^ 64"
  shows "sst_filename name (Some l) ts \<noteq> sst_filename name None ts'"
proof
  assume "sst_filename name (Some l) ts = sst_filename name None ts'"
  then have "sst_parse (sst_filename name (Some l) ts) = sst_parse (sst_filename name None ts')" by simp
  then show False by (simp add: sst_parse_plain [OF assms(1)] sst_parse_level [OF assms(2)])
qed

lemma no_level_in_db: "rsplit_once [95, 76] (as_bytes (lit ''db'')) = None"
  by (simp add: of_char_def)

section \<open>Correctness\<close>

text \<open>C15. Writing a memtable to an SSTable and looking a key up in the file gives what the memtable says of that key at that
  time: absent, a tombstone (also for an expired value), or its value. This holds for any block size below two
  gigabytes, compressed or not, and spans the block writer, the sparse index, the Bloom filter, the file
  and the iterator. No other file of the directory changes.\<close>

theorem sstable_get_correct:
  assumes "mt_ok m" and "\<forall>p \<in> set (mt_entries m). entry_fits p" and "length (mt_entries m) < 2 ^ 40"
    and "target < 2 ^ 31" and "map_of d (sst_filename name level ts) = None"
  shows "\<exists>sst d'. from_memtable ts name m level target compression d = Inr (sst, d') \<and>
           (\<forall>key now. sst_get sst key now d' = Inr (map_option (entry_value now) (memtable_get_entry m key))) \<and>
           (\<forall>n. n \<noteq> sst_path sst \<longrightarrow> map_of d' n = map_of d n)"
proof -
  have ok: "bt_ok (mt_entries m)" using assms(1) by (simp add: mt_ok_def)
  from from_memtable_holds [OF ok assms(2-5), of compression]
  obtain sst d' where "from_memtable ts name m level target compression d = Inr (sst, d')"
    and "sst_holds d' sst (mt_entries m)" and "\<forall>n. n \<noteq> sst_path sst \<longrightarrow> map_of d' n = map_of d n" by blast
  then show ?thesis using sst_get_holds [of d' sst "mt_entries m"] by (auto simp: memtable_get_entry_def)
qed

theorem sstable_get_correct_witness:
  "\<exists>sst d'. from_memtable 7 (lit ''db'')
        \<lparr>mt_entries = [(lit ''a'', \<lparr>me_value = Some (lit ''1''), me_expiry_ms = None\<rparr>)], mt_size_bytes = 2\<rparr> None 4096 True []
      = Inr (sst, d') \<and>
    sst_get sst (lit ''a'') 0 d' = Inr (Some (Some (lit ''1''))) \<and> sst_get sst (lit ''b'') 0 d' = Inr None"
proof -
  let ?m = "\<lparr>mt_entries = [(lit ''a'', \<lparr>me_value = Some (lit ''1''), me_expiry_ms = None\<rparr>)], mt_size_bytes = 2\<rparr>"
  have "mt_ok ?m" by (simp add: mt_ok_def bt_ok_def)
  moreover have "\<forall>p \<in> set (mt_entries ?m). entry_fits p"
    by (simp add: entry_fits_def MAX_KEY_SIZE_def MAX_VALUE_SIZE_def)
  ultimately obtain sst d' where "from_memtable 7 (lit ''db'') ?m None 4096 True [] = Inr (sst, d')"
    and "\<forall>key now. sst_get sst key now d' = Inr (map_option (entry_value now) (memtable_get_entry ?m key))"
    using sstable_get_correct [of ?m 4096 "[]" "lit ''db''" None 7 True] by auto
  moreover have "lit ''a'' \<noteq> lit ''b''" by (simp add: as_bytes_inject [symmetric])
  ultimately show ?thesis by (auto simp: memtable_get_entry_def entry_value_def)
qed

text \<open>A restart finds the same tables: from the name of a file that was written for a leveled table, \<open>parse\<close> recovers the
  database name, the level and the timestamp, and \<open>rebuild_index\<close> on the file then gives a table with the same answer to
  every lookup, and with the same records in the same order.\<close>

theorem sstable_reopen_correct:
  assumes "mt_ok m" and "\<forall>p \<in> set (mt_entries m). entry_fits p" and "length (mt_entries m) < 2 ^ 40"
    and "target < 2 ^ 31" and "map_of d (sst_filename name (Some l) ts) = None" and "l < 2 ^ 64"
  shows "\<exists>sst d' stub t. from_memtable ts name m (Some l) target compression d = Inr (sst, d') \<and>
           sst_parse (sst_path sst) = Some stub \<and> sst_rebuild_index d' (stub\<lparr>sst_path := sst_path sst\<rparr>) = Inr t \<and>
           sst_name t = name \<and> sst_level t = Some l \<and> sst_timestamp t = ts \<and>
           (\<forall>key now. sst_get t key now d' = sst_get sst key now d') \<and> sst_iter t d' = sst_iter sst d'"
proof -
  let ?es = "mt_entries m"
  have ok: "bt_ok ?es" using assms(1) by (simp add: mt_ok_def)
  from from_memtable_holds [OF ok assms(2-5), of compression]
  obtain sst d' where w: "from_memtable ts name m (Some l) target compression d = Inr (sst, d')"
    and h: "sst_holds d' sst ?es" and path: "sst_path sst = sst_filename name (Some l) ts" by blast
  obtain stub where stub: "sst_parse (sst_path sst) = Some stub" "sst_name stub = name" "sst_level stub = Some l" "sst_timestamp stub = ts"
    using sst_parse_level [OF assms(6), of name ts] path by auto
  from sst_rebuild_holds [OF h _ assms(3), of "stub\<lparr>sst_path := sst_path sst\<rparr>"]
  obtain t where t: "sst_rebuild_index d' (stub\<lparr>sst_path := sst_path sst\<rparr>) = Inr t" "sst_holds d' t ?es"
    "sst_name t = name" "sst_level t = Some l" "sst_timestamp t = ts" using stub by auto
  have "(\<forall>key now. sst_get t key now d' = sst_get sst key now d') \<and> sst_iter t d' = sst_iter sst d'"
    using sst_get_holds [OF h] sst_get_holds [OF t(2)] sst_iter_holds [OF h] sst_iter_holds [OF t(2)] by simp
  then show ?thesis using w stub(1) t by blast
qed

theorem sstable_reopen_correct_witness:
  "\<exists>sst d' stub t. from_memtable 7 (lit ''db'') memtable_new (Some 2) 4096 False [] = Inr (sst, d') \<and>
     sst_parse (sst_path sst) = Some stub \<and> sst_rebuild_index d' (stub\<lparr>sst_path := sst_path sst\<rparr>) = Inr t \<and> sst_level t = Some 2"
  using sstable_reopen_correct [of memtable_new 4096 "[]" "lit ''db''" 2 7 False] memtable_new_ok
  by (auto simp: memtable_new_def)

end
