(* ===== verification/Storage_Strategy.thy ===== *)
theory Storage_Strategy
  imports SSTable_Correct
begin

text \<open>
  \<^verbatim>\<open>src/storage_strategy.rs\<close>: what the LSM engine asks of a collection of SSTables, and the merging of tables
  that both strategies share. The trait is the locale \<open>storage_strategy\<close>; \<open>newest_first\<close> adds what a reader
  relies on, that a flushed table takes precedence over the older ones. The size-tiered and the leveled strategy are
  interpretations, in their own theories.

  A list of tables is described by the list of the entries it holds (\<open>tables_hold\<close>); the first table that has a key
  decides, so that a lookup is \<open>map_of\<close> of the concatenation.
\<close>

section \<open>Looking a key up in a list of tables\<close>

text \<open>The loop over the segments of \<open>lookup\<close> in \<^verbatim>\<open>lsmengine.rs\<close>. Every call of \<open>SSTable::get\<close> reads the clock
  once: \<open>clk i\<close> is the reading of the \<open>i\<close>-th call.\<close>

fun lookup_segments :: "(nat \<Rightarrow> u64) \<Rightarrow> nat \<Rightarrow> dir \<Rightarrow> rstring \<Rightarrow> sstable list \<Rightarrow> rstring option res" where
  "lookup_segments clk i d key [] = Inr None"
| "lookup_segments clk i d key (segment # segments) =
     and_then (sst_get segment key (clk i) d) (\<lambda>r.
       case r of
         Some (Some v) \<Rightarrow> Inr (Some v)
       | Some None \<Rightarrow> Inr None
       | None \<Rightarrow> lookup_segments clk (i + 1) d key segments)"

text \<open>An iterator filtered by the Bloom filters.\<close>

fun filter_bloom :: "rstring \<Rightarrow> sstable list \<Rightarrow> sstable list res" where
  "filter_bloom key [] = Inr []"
| "filter_bloom key (sst # ssts) =
     and_then (might_contain (sst_bloom sst) key) (\<lambda>b.
     and_then (filter_bloom key ssts) (\<lambda>rest. Inr (if b then sst # rest else rest)))"

text \<open>The files whose key range meets a range; tables without records are skipped. Both strategies have the same loop.\<close>

definition files_for_range :: "rstring \<Rightarrow> rstring \<Rightarrow> sstable list \<Rightarrow> sstable list" where
  "files_for_range start end_key ssts =
     filter (\<lambda>sst.
       case (sst_min sst, sst_max sst) of
         (Some (mn, _), Some (mx, _)) \<Rightarrow> \<not> (mx < start \<or> end_key < mn)
       | _ \<Rightarrow> False) ssts"

section \<open>Merging tables\<close>

definition record_dead :: "u64 \<Rightarrow> disk_record \<Rightarrow> bool" where
  "record_dead now_ms record \<longleftrightarrow>
     is_tombstone (rec_header record) \<or>
     (case hdr_expiry_ms (rec_header record) of Some e \<Rightarrow> is_expired e now_ms | None \<Rightarrow> False)"

text \<open>One record merged into the memtable, first seen wins. At a terminal level (\<open>drop_dead\<close>) a tombstone or an expired
  record is skipped, otherwise it becomes a tombstone.\<close>

definition merge_record :: "bool \<Rightarrow> u64 \<Rightarrow> disk_record \<Rightarrow> memtable \<Rightarrow> memtable res" where
  "merge_record drop_dead now_ms record m =
     (if memtable_get_entry m (rec_key record) \<noteq> None then Inr m
      else if record_dead now_ms record then
        (if drop_dead then Inr m else memtable_remove (rec_key record) m)
      else memtable_insert (rec_key record) (rec_value record) (hdr_expiry_ms (rec_header record)) m)"

definition merge_table :: "bool \<Rightarrow> u64 \<Rightarrow> dir \<Rightarrow> sstable \<Rightarrow> memtable \<Rightarrow> memtable res" where
  "merge_table drop_dead now_ms d sst m =
     and_then (sst_iter sst d) (\<lambda>results.
       fold_res (\<lambda>result m. and_then result (\<lambda>record. merge_record drop_dead now_ms record m)) results m)"

text \<open>Merging tables and removing each file once it is read.\<close>

fun merge_and_remove :: "bool \<Rightarrow> u64 \<Rightarrow> sstable list \<Rightarrow> memtable \<times> dir \<Rightarrow> (memtable \<times> dir) res" where
  "merge_and_remove drop_dead now_ms [] md = Inr md"
| "merge_and_remove drop_dead now_ms (sst # ssts) (m, d) =
     and_then (merge_table drop_dead now_ms d sst m) (\<lambda>m.
     and_then (remove_file (sst_path sst) d) (\<lambda>d.
       merge_and_remove drop_dead now_ms ssts (m, d)))"

section \<open>Tables and what they hold\<close>

type_synonym entries = "(rstring \<times> memtable_entry) list"

definition tables_hold :: "dir \<Rightarrow> sstable list \<Rightarrow> entries list \<Rightarrow> bool" where
  "tables_hold d ssts ess \<longleftrightarrow> list_all2 (sst_holds d) ssts ess"

lemma tables_hold_Nil [simp]: "tables_hold d [] ess \<longleftrightarrow> ess = []" "tables_hold d ssts [] \<longleftrightarrow> ssts = []"
  by (simp_all add: tables_hold_def)

lemma tables_hold_Cons [simp]:
  "tables_hold d (sst # ssts) (es # ess) \<longleftrightarrow> sst_holds d sst es \<and> tables_hold d ssts ess"
  by (simp add: tables_hold_def)

lemma tables_hold_append:
  "length ssts = length ess \<Longrightarrow>
     tables_hold d (ssts @ ssts') (ess @ ess') \<longleftrightarrow> tables_hold d ssts ess \<and> tables_hold d ssts' ess'"
  by (simp add: tables_hold_def list_all2_append)

lemma tables_hold_appendI:
  "tables_hold d ssts ess \<Longrightarrow> tables_hold d ssts' ess' \<Longrightarrow> tables_hold d (ssts @ ssts') (ess @ ess')"
  by (simp add: tables_hold_def list_all2_appendI)

lemma tables_hold_rev: "tables_hold d (rev ssts) (rev ess) \<longleftrightarrow> tables_hold d ssts ess"
  by (simp add: tables_hold_def)

lemma tables_hold_length: "tables_hold d ssts ess \<Longrightarrow> length ssts = length ess"
  by (simp add: tables_hold_def list_all2_lengthD)

lemma tables_hold_frame:
  assumes "tables_hold d ssts ess" and "\<forall>sst \<in> set ssts. map_of d' (sst_path sst) = map_of d (sst_path sst)"
  shows "tables_hold d' ssts ess"
  using assms unfolding tables_hold_def
  by (induction rule: list_all2_induct) (auto intro: sst_holds_frame)

lemma tables_hold_fits:
  "tables_hold d ssts ess \<Longrightarrow> \<forall>p \<in> set (concat ess). entry_fits p"
  unfolding tables_hold_def by (induction rule: list_all2_induct) (auto simp: sst_holds_def)

text \<open>A lookup in a list of tables finds the first entry for the key.\<close>

lemma lookup_segments_hold:
  assumes "tables_hold d ssts ess"
  shows "\<exists>t \<in> range clk. lookup_segments clk i d key ssts =
           Inr (Option.bind (map_of (concat ess) key) (entry_value t))"
  using assms unfolding tables_hold_def
proof (induction arbitrary: i rule: list_all2_induct)
  case (Cons sst ssts es ess)
  show ?case
  proof (cases "map_of es key")
    case None
    with Cons show ?thesis by (simp add: sst_get_holds map_add_def)
  next
    case (Some e)
    then have "lookup_segments clk i d key (sst # ssts) = Inr (entry_value (clk i) e)"
      using Cons.hyps(1) by (cases "entry_value (clk i) e") (simp_all add: sst_get_holds)
    with Some show ?thesis by (intro bexI [of _ "clk i"]) (auto simp: map_add_def)
  qed
qed auto

lemma lookup_segments_const:
  "tables_hold d ssts ess \<Longrightarrow>
     lookup_segments (\<lambda>_. t) i d key ssts = Inr (Option.bind (map_of (concat ess) key) (entry_value t))"
  using lookup_segments_hold [of d ssts ess "\<lambda>_. t" i key] by auto

text \<open>Skipping the tables whose filter excludes the key changes nothing.\<close>

lemma filter_bloom_hold:
  assumes "tables_hold d ssts ess"
  shows "\<exists>ssts' ess'. filter_bloom key ssts = Inr ssts' \<and> tables_hold d ssts' ess' \<and>
           map_of (concat ess') key = map_of (concat ess) key \<and> set ssts' \<subseteq> set ssts"
  using assms unfolding tables_hold_def
proof (induction rule: list_all2_induct)
  case (Cons sst ssts es ess)
  then obtain ssts' ess' where IH: "filter_bloom key ssts = Inr ssts'" "list_all2 (sst_holds d) ssts' ess'"
    "map_of (concat ess') key = map_of (concat ess) key" "set ssts' \<subseteq> set ssts" by blast
  obtain b where b: "might_contain (sst_bloom sst) key = Inr b"
    using Cons.hyps(1) bloom.member_total [of "sst_bloom sst" key] unfolding sst_holds_def by metis
  show ?case
  proof (cases b)
    case True
    with IH b Cons.hyps(1) show ?thesis
      by (intro exI [of _ "sst # ssts'"] exI [of _ "es # ess'"]) (auto simp: map_add_def split: option.split)
  next
    case False
    then have "key \<notin> fst ` set es" using Cons.hyps(1) b unfolding sst_holds_def by auto
    then have "map_of es key = None" by (simp add: map_of_eq_None_iff)
    with False IH b show ?thesis by (intro exI [of _ ssts'] exI [of _ ess']) (auto simp: map_add_def)
  qed
qed auto

section \<open>What a merge computes\<close>

definition norm_entry :: "u64 \<Rightarrow> memtable_entry \<Rightarrow> memtable_entry" where
  "norm_entry now e = (if entry_value now e = None then tombstone_entry else e)"

text \<open>The entries a merge keeps of a list: all, dead ones as tombstones, or only the live ones.\<close>

definition merged :: "bool \<Rightarrow> u64 \<Rightarrow> entries \<Rightarrow> entries" where
  "merged drop_dead now es =
     map (\<lambda>(k, e). (k, norm_entry now e)) (if drop_dead then filter (\<lambda>(k, e). entry_value now e \<noteq> None) es else es)"

lemma merged_simps:
  "merged dd now [] = []"
  "merged dd now ((k, e) # es) = (if dd \<and> entry_value now e = None then merged dd now es else (k, norm_entry now e) # merged dd now es)"
  "merged dd now (es @ es') = merged dd now es @ merged dd now es'"
  by (auto simp: merged_def)

lemma length_merged: "length (merged dd now es) \<le> length es"
  by (induction es) (auto simp: merged_simps)

lemma record_dead_entry [simp]: "record_dead now (stored (entry_record (k, e))) \<longleftrightarrow> entry_value now e = None"
  by (cases "me_value e") (auto simp: record_dead_def entry_value_def split: option.split)

lemma length_bt_insert: "length (bt_insert k v ps) \<le> Suc (length ps)"
  by (induction k v ps rule: bt_insert.induct) auto

lemma live_entry: "entry_value now e \<noteq> None \<Longrightarrow> \<exists>v. e = \<lparr>me_value = Some v, me_expiry_ms = me_expiry_ms e\<rparr>"
  by (cases e, cases "me_value e") (auto simp: entry_value_def split: option.splits if_splits)

text \<open>A memtable that holds a list of entries, the first for a key deciding.\<close>

definition mt_holds :: "memtable \<Rightarrow> entries \<Rightarrow> bool" where
  "mt_holds m es \<longleftrightarrow>
     mt_ok m \<and> map_of (mt_entries m) = map_of es \<and> (\<forall>p \<in> set (mt_entries m). entry_fits p) \<and> length (mt_entries m) \<le> length es"

lemma mt_holds_new [simp]: "mt_holds memtable_new []"
  using memtable_new_ok by (simp add: mt_holds_def memtable_new_def)

lemma mt_holds_insert:
  assumes "mt_holds m es" and "mt_entries m' = bt_insert k e (mt_entries m)" and "mt_ok m'" and "map_of es k = None" and "entry_fits (k, e)"
  shows "mt_holds m' (es @ [(k, e)])"
proof -
  have "map_of (mt_entries m') = map_of (es @ [(k, e)])"
    using assms(1,4) by (auto simp: assms(2) map_of_bt_insert mt_holds_def map_add_def split: option.split)
  moreover have "length (mt_entries m') \<le> length (es @ [(k, e)])"
    using assms(1) length_bt_insert [of k e "mt_entries m"] by (simp add: assms(2) mt_holds_def)
  moreover have "\<forall>p \<in> set (mt_entries m'). entry_fits p"
    using assms(1,5) set_bt_insert_sub [of k e "mt_entries m"] by (auto simp: assms(2) mt_holds_def)
  ultimately show ?thesis using assms(3) by (simp add: mt_holds_def)
qed

lemma mt_holds_shadowed:
  assumes "mt_holds m es" and "map_of es k \<noteq> None"
  shows "mt_holds m (es @ [(k, e)])"
  using assms by (auto simp: mt_holds_def map_add_def fun_eq_iff split: option.split)

lemma merge_record_holds:
  assumes "mt_holds m es" and "entry_fits (k, e)"
  shows "\<exists>m'. merge_record dd now (stored (entry_record (k, e))) m = Inr m' \<and> mt_holds m' (es @ merged dd now [(k, e)])"
proof -
  have ok: "mt_ok m" and mo: "map_of (mt_entries m) k = map_of es k" using assms(1) by (auto simp: mt_holds_def)
  show ?thesis
  proof (cases "map_of es k = None")
    case False
    then show ?thesis using assms(1) mt_holds_shadowed [OF assms(1) False] mo
      by (auto simp: merge_record_def memtable_get_entry_def merged_simps)
  next
    case new: True
    show ?thesis
    proof (cases "entry_value now e = None")
      case True
      obtain m' where m': "memtable_remove k m = Inr m'" "mt_ok m'" "mt_entries m' = bt_insert k tombstone_entry (mt_entries m)"
        using memtable_remove_spec [OF ok, of k] by blast
      have "entry_fits (k, tombstone_entry)" using assms(2) by (simp add: entry_fits_def)
      from mt_holds_insert [OF assms(1) m'(3,2) new this] True m'(1) new mo assms(1) show ?thesis
        by (auto simp: merge_record_def memtable_get_entry_def merged_simps norm_entry_def)
    next
      case False
      then obtain v where e: "e = \<lparr>me_value = Some v, me_expiry_ms = me_expiry_ms e\<rparr>" using live_entry by blast
      then have v: "me_value e = Some v" by (metis memtable_entry.select_convs(1))
      obtain m' where m': "memtable_insert k v (me_expiry_ms e) m = Inr m'" "mt_ok m'" "mt_entries m' = bt_insert k e (mt_entries m)"
        using memtable_insert_spec [OF ok, of k v "me_expiry_ms e"] e by auto
      from mt_holds_insert [OF assms(1) m'(3,2) new assms(2)] False m'(1) new mo show ?thesis
        by (auto simp: merge_record_def memtable_get_entry_def merged_simps norm_entry_def rec_value_entry_record [OF v])
    qed
  qed
qed

lemma merge_entries_holds:
  assumes "mt_holds m es0" and "\<forall>p \<in> set es. entry_fits p"
  shows "\<exists>m'. fold_res (\<lambda>result m. and_then result (\<lambda>record. merge_record dd now record m))
             (map (\<lambda>p. Inr (stored (entry_record p))) es) m = Inr m' \<and> mt_holds m' (es0 @ merged dd now es)"
  using assms
proof (induction es arbitrary: m es0)
  case (Cons p es)
  obtain k e where p: "p = (k, e)" by (cases p)
  from merge_record_holds [OF Cons.prems(1), of k e dd now] Cons.prems(2) p
  obtain m1 where m1: "merge_record dd now (stored (entry_record p)) m = Inr m1"
    and h: "mt_holds m1 (es0 @ merged dd now [(k, e)])" by auto
  have "es0 @ merged dd now (p # es) = (es0 @ merged dd now [(k, e)]) @ merged dd now es"
    by (simp add: p merged_simps)
  then show ?case using Cons.IH [OF h] Cons.prems(2) m1 by auto
qed (simp add: merged_simps)

lemma merge_table_holds:
  assumes "mt_holds m es0" and "sst_holds d sst es"
  shows "\<exists>m'. merge_table dd now d sst m = Inr m' \<and> mt_holds m' (es0 @ merged dd now es)"
  using merge_entries_holds [OF assms(1), of es dd now] assms(2)
  by (simp add: merge_table_def sst_iter_holds) (simp add: sst_holds_def)

lemma merge_tables_holds:
  assumes "tables_hold d ssts ess" and "mt_holds m es0"
  shows "\<exists>m'. fold_res (merge_table dd now d) ssts m = Inr m' \<and> mt_holds m' (es0 @ merged dd now (concat ess))"
  using assms unfolding tables_hold_def
proof (induction arbitrary: m es0 rule: list_all2_induct)
  case (Cons sst ssts es ess)
  from merge_table_holds [OF Cons.prems Cons.hyps(1), of dd now]
  obtain m1 where m1: "merge_table dd now d sst m = Inr m1" "mt_holds m1 (es0 @ merged dd now es)" by blast
  have "es0 @ merged dd now (concat (es # ess)) = (es0 @ merged dd now es) @ merged dd now (concat ess)"
    by (simp add: merged_simps)
  then show ?case using Cons.IH [OF m1(2)] m1(1) by auto
qed (simp add: merged_simps)

text \<open>Removing the files along the way does not disturb the tables still to be read, as no two tables share a file.\<close>

lemma merge_and_remove_holds:
  assumes "tables_hold d ssts ess" and "mt_holds m es0" and "distinct (map sst_path ssts)"
  shows "\<exists>m' d'. merge_and_remove dd now ssts (m, d) = Inr (m', d') \<and> mt_holds m' (es0 @ merged dd now (concat ess)) \<and>
           (\<forall>n. map_of d' n = (if n \<in> sst_path ` set ssts then None else map_of d n))"
  using assms
proof (induction ssts arbitrary: ess m es0 d)
  case (Cons sst ssts)
  obtain es ess' where ess: "ess = es # ess'" using Cons.prems(1) by (cases ess) auto
  with Cons.prems(1) have h: "sst_holds d sst es" "tables_hold d ssts ess'" by auto
  from merge_table_holds [OF Cons.prems(2) h(1), of dd now]
  obtain m1 where m1: "merge_table dd now d sst m = Inr m1" "mt_holds m1 (es0 @ merged dd now es)" by blast
  let ?d = "AList.delete (sst_path sst) d"
  have rm: "remove_file (sst_path sst) d = Inr ?d"
    using h(1) by (auto simp: remove_file_def sst_holds_def)
  have "sst_path x \<noteq> sst_path sst" if "x \<in> set ssts" for x
    using Cons.prems(3) that by (auto simp: image_iff)
  then have "tables_hold ?d ssts ess'" by (intro tables_hold_frame [OF h(2)]) simp
  from Cons.IH [OF this m1(2)] Cons.prems(3)
  obtain m' d' where "merge_and_remove dd now ssts (m1, ?d) = Inr (m', d')"
    "mt_holds m' ((es0 @ merged dd now es) @ merged dd now (concat ess'))"
    "\<forall>n. map_of d' n = (if n \<in> sst_path ` set ssts then None else map_of ?d n)" by auto
  then show ?case using m1(1) rm by (auto simp: ess merged_simps)
qed (auto simp: merged_simps)

section \<open>Values over time\<close>

text \<open>The value of a key at a time, in a list of entries in which the first one decides.\<close>

definition value_at :: "u64 \<Rightarrow> entries \<Rightarrow> rstring \<Rightarrow> rstring option" where
  "value_at t es k = Option.bind (map_of es k) (entry_value t)"

lemma entry_value_mono: "entry_value now e = None \<Longrightarrow> now \<le> t \<Longrightarrow> entry_value t e = None"
  by (auto simp: entry_value_def is_expired_def split: option.splits if_splits)

lemma entry_value_norm: "now \<le> t \<Longrightarrow> entry_value t (norm_entry now e) = entry_value t e"
  using entry_value_mono [of now e t] by (auto simp: norm_entry_def entry_value_def [of t tombstone_entry])

lemma map_of_merged_keep: "map_of (merged False now es) k = map_option (norm_entry now) (map_of es k)"
  by (induction es) (auto simp: merged_simps)

lemma map_of_merged_drop:
  "map_of (merged True now es) k = map_of (filter (\<lambda>(k, e). entry_value now e \<noteq> None) es) k"
  by (induction es) (auto simp: merged_simps norm_entry_def)

lemma value_at_merged_keep: "now \<le> t \<Longrightarrow> value_at t (merged False now es) k = value_at t es k"
  by (cases "map_of es k") (simp_all add: value_at_def map_of_merged_keep entry_value_norm)

lemma value_at_append:
  "value_at t (es @ es') k = (if map_of es k = None then value_at t es' k else value_at t es k)"
  by (auto simp: value_at_def map_add_def)

lemma value_at_cong: "map_of es k = map_of es' k \<Longrightarrow> value_at t es k = value_at t es' k"
  by (simp add: value_at_def)

section \<open>A directory with two tables for one key\<close>

lemma two_tables:
  assumes "entry_fits (k, e1)" and "entry_fits (k, e2)"
  shows "\<exists>a b d. tables_hold d [a, b] [[(k, e1)], [(k, e2)]] \<and> distinct (map sst_path [a, b]) \<and>
           map_of d (sst_filename (lit ''db'') None 3) = None \<and> map_of d (sst_filename (lit ''db'') (Some 1) 3) = None"
proof -
  let ?fn = "sst_filename (lit ''db'') None" and ?m = "\<lambda>e. \<lparr>mt_entries = [(k, e)], mt_size_bytes = 0\<rparr>"
  have inj: "?fn ts = ?fn ts' \<longleftrightarrow> ts = ts'" for ts ts' using sst_filename_inj [OF no_level_in_db] by blast
  have "\<exists>sst d'. from_memtable ts (lit ''db'') (?m e) None 4096 False d = Inr (sst, d') \<and> sst_holds d' sst [(k, e)]
      \<and> sst_path sst = ?fn ts \<and> (\<forall>n. n \<noteq> ?fn ts \<longrightarrow> map_of d' n = map_of d n)"
    if "entry_fits (k, e)" "map_of d (?fn ts) = None" for e ts d
    using from_memtable_holds [of "?m e" 4096 d "lit ''db''" None ts False] that by (auto simp: bt_ok_def)
  note w = this
  obtain a d1 where a: "sst_holds d1 a [(k, e1)]" "sst_path a = ?fn 1" "\<forall>n. n \<noteq> ?fn 1 \<longrightarrow> map_of d1 n = None"
    using w [OF assms(1), of "[]" 1] by auto
  then have "map_of d1 (?fn 2) = None" by (simp add: inj)
  from w [OF assms(2) this] obtain b d2 where b: "sst_holds d2 b [(k, e2)]" "sst_path b = ?fn 2"
    "\<forall>n. n \<noteq> ?fn 2 \<longrightarrow> map_of d2 n = map_of d1 n" by auto
  have "sst_holds d2 a [(k, e1)]" using sst_holds_frame [OF a(1), of d2] a(2) b(3) by (simp add: inj)
  moreover have "sst_filename (lit ''db'') (Some 1) 3 \<noteq> ?fn ts" for ts
    by (rule sst_filename_level_neq [OF no_level_in_db]) simp
  ultimately show ?thesis using a b by (intro exI [of _ a] exI [of _ b] exI [of _ d2]) (auto simp: inj)
qed

abbreviation plain_entry :: "string \<Rightarrow> memtable_entry" where
  "plain_entry v \<equiv> \<lparr>me_value = Some (lit v), me_expiry_ms = None\<rparr>"

lemma plain_entry_simps [simp]:
  "entry_value t (plain_entry v) = Some (lit v)" "entry_value t tombstone_entry = None"
  by (simp_all add: entry_value_def)

lemma small_entries_fit [simp]:
  "length k \<le> 1000 \<Longrightarrow> length v \<le> 1000 \<Longrightarrow> entry_fits (lit k, plain_entry v)"
  "length k \<le> 1000 \<Longrightarrow> entry_fits (lit k, tombstone_entry)"
  by (simp_all add: entry_fits_def MAX_KEY_SIZE_def MAX_VALUE_SIZE_def)

section \<open>The interface of a strategy\<close>

locale storage_strategy =
  fixes add_table :: "sstable \<Rightarrow> dir \<Rightarrow> 's \<Rightarrow> 's res"
    and all_tables :: "'s \<Rightarrow> sstable list"
    and for_key :: "rstring \<Rightarrow> 's \<Rightarrow> sstable list res"
    and for_range :: "rstring \<Rightarrow> rstring \<Rightarrow> 's \<Rightarrow> sstable list"
    and table_count :: "'s \<Rightarrow> nat"
  assumes add_tables: "add_table sst d s = Inr s' \<Longrightarrow> \<exists>xs ys. all_tables s = xs @ ys \<and> all_tables s' = xs @ sst # ys"
    and for_key_eq: "for_key k s = filter_bloom k (all_tables s)"
    and for_range_eq: "for_range a b s = files_for_range a b (all_tables s)"
    and count_eq: "table_count s = length (all_tables s)"
begin

text \<open>A lookup through the filtered iterator answers from the first table that has the key.\<close>

lemma lookup_key:
  assumes "tables_hold d (all_tables s) ess"
  shows "\<exists>t \<in> range clk. and_then (for_key k s) (lookup_segments clk 0 d k) = Inr (value_at t (concat ess) k)"
proof -
  from filter_bloom_hold [OF assms, of k]
  obtain ssts ess' where "filter_bloom k (all_tables s) = Inr ssts" and h: "tables_hold d ssts ess'"
    and eq: "map_of (concat ess') k = map_of (concat ess) k" by blast
  then show ?thesis
    using lookup_segments_hold [OF h, of clk 0 k] by (auto simp: for_key_eq value_at_def eq)
qed

lemma lookup_key_const:
  "tables_hold d (all_tables s) ess \<Longrightarrow>
     and_then (for_key k s) (lookup_segments (\<lambda>_. t) 0 d k) = Inr (value_at t (concat ess) k)"
  using lookup_key [of d s ess "\<lambda>_. t" k] by auto

lemma add_count: "add_table sst d s = Inr s' \<Longrightarrow> table_count s' = Suc (table_count s)"
  by (drule add_tables) (auto simp: count_eq)

end

text \<open>What readers rely on: a flushed table comes before every older one.\<close>

locale newest_first = storage_strategy +
  assumes add_newest: "add_table sst d s = Inr s' \<Longrightarrow> all_tables s' = sst # all_tables s"
begin

lemma add_value:
  assumes "add_table sst d s = Inr s'" and "tables_hold d (all_tables s) ess" and "sst_holds d sst es"
  shows "tables_hold d (all_tables s') (es # ess) \<and>
     value_at t (concat (es # ess)) k = (if map_of es k = None then value_at t (concat ess) k else value_at t es k)"
  using assms add_newest [OF assms(1)] by (simp add: value_at_append)

end

end
