(* ===== verification/Size_Tiered.thy ===== *)
theory Size_Tiered
  imports Storage_Strategy Complex_Main
begin

text \<open>
  \<^verbatim>\<open>src/size_tiered.rs\<close>: buckets of tables of similar size. The choice of a bucket uses floating-point
  arithmetic, which is an argument of the model (\<open>f64\<close>), so that every result holds whatever it rounds to. The strategy is
  a \<open>storage_strategy\<close> but not \<open>newest_first\<close>: a new table joins the bucket of its size, which need not be the
  last one, and a read takes the last one first. A full compaction answers every read as before; the compaction of one bucket keeps, for
  every key, the entry of its oldest table.
\<close>

section \<open>Data\<close>

text \<open>The operations on \<open>f64\<close> that the strategy uses.\<close>

record 'f f64 =
  f_of_u64 :: "u64 \<Rightarrow> 'f"
  f_of_usize :: "nat \<Rightarrow> 'f"
  f_div :: "'f \<Rightarrow> 'f \<Rightarrow> 'f"
  f_sub :: "'f \<Rightarrow> 'f \<Rightarrow> 'f"
  f_abs :: "'f \<Rightarrow> 'f"
  f_lt :: "'f \<Rightarrow> 'f \<Rightarrow> bool"
  f_le :: "'f \<Rightarrow> 'f \<Rightarrow> bool"
  f_eq :: "'f \<Rightarrow> 'f \<Rightarrow> bool"
  f_zero :: 'f
  f_MAX :: 'f
  MIN_TIER_COEFFICIENT :: 'f
  MAX_TIER_COEFFICIENT :: 'f

text \<open>Exact rational arithmetic is one such arithmetic.\<close>

definition exact_f64 :: "rat f64" where
  "exact_f64 = \<lparr>f_of_u64 = (\<lambda>w. of_nat (unat w)), f_of_usize = of_nat, f_div = (/), f_sub = (-), f_abs = abs,
     f_lt = (<), f_le = (\<le>), f_eq = (=), f_zero = 0, f_MAX = of_nat (2 ^ 1024 - 2 ^ 970),
     MIN_TIER_COEFFICIENT = 1 / 2, MAX_TIER_COEFFICIENT = 3 / 2\<rparr>"

record size_tiered =
  st_sstables :: "sstable list list"
  st_min_threshold :: nat
  st_max_threshold :: nat
  st_block_size_bytes :: nat
  st_block_compression :: bool

definition size_tiered_new :: "nat \<Rightarrow> nat \<Rightarrow> nat \<Rightarrow> bool \<Rightarrow> size_tiered" where
  "size_tiered_new min_threshold max_threshold block_size compression =
     \<lparr>st_sstables = [], st_min_threshold = min_threshold, st_max_threshold = max_threshold,
      st_block_size_bytes = block_size, st_block_compression = compression\<rparr>"

section \<open>Operations\<close>

definition bucket_total :: "dir \<Rightarrow> sstable list \<Rightarrow> u64 res" where
  "bucket_total d bucket =
     fold_res (\<lambda>table acc. and_then (sst_size_on_disk table d) (\<lambda>s. checked_add64 acc s)) bucket 0"

text \<open>The loop over the buckets: the index of the best bucket so far and its distance.\<close>

fun st_choose :: "'f f64 \<Rightarrow> dir \<Rightarrow> 'f \<Rightarrow> nat \<Rightarrow> sstable list list \<Rightarrow> nat option \<Rightarrow> 'f \<Rightarrow> nat option res" where
  "st_choose F d new_size i [] target_idx best = Inr target_idx"
| "st_choose F d new_size i (bucket # buckets) target_idx best =
     and_then (bucket_total d bucket) (\<lambda>total_bytes.
       let avg = (if bucket \<noteq> [] then f_div F (f_of_u64 F total_bytes) (f_of_usize F (length bucket)) else f_zero F);
           ratio = (if \<not> f_eq F new_size (f_zero F) then f_div F new_size avg else f_zero F)
       in if f_le F (MIN_TIER_COEFFICIENT F) ratio \<and> f_le F ratio (MAX_TIER_COEFFICIENT F) then
            let ratio_diff = f_abs F (f_sub F avg new_size)
            in if f_lt F ratio_diff best
               then st_choose F d new_size (i + 1) buckets (Some i) ratio_diff
               else st_choose F d new_size (i + 1) buckets target_idx best
          else st_choose F d new_size (i + 1) buckets target_idx best)"

definition st_add_sstable :: "'f f64 \<Rightarrow> sstable \<Rightarrow> dir \<Rightarrow> size_tiered \<Rightarrow> size_tiered res" where
  "st_add_sstable F sst d s =
     and_then (sst_size_on_disk sst d) (\<lambda>new_size.
     and_then (st_choose F d (f_of_u64 F new_size) 0 (st_sstables s) None (f_MAX F)) (\<lambda>target_idx.
       case target_idx of
         Some i \<Rightarrow>
           and_then (idx (st_sstables s) i) (\<lambda>bucket.
             Inr (s\<lparr>st_sstables := (st_sstables s)[i := bucket @ [sst]]\<rparr>))
       | None \<Rightarrow> Inr (s\<lparr>st_sstables := st_sstables s @ [[sst]]\<rparr>)))"

definition st_load_from_dir ::
  "'f f64 \<Rightarrow> dir \<Rightarrow> rstring \<Rightarrow> nat \<Rightarrow> nat \<Rightarrow> nat \<Rightarrow> bool \<Rightarrow> size_tiered res" where
  "st_load_from_dir F d db_name min_threshold max_threshold block_size compression =
     and_then (get_sstables d db_name) (\<lambda>ssts.
       fold_res (\<lambda>sst s. and_then (sst_rebuild_index d sst) (\<lambda>sst. st_add_sstable F sst d s)) ssts
         (size_tiered_new min_threshold max_threshold block_size compression))"

text \<open>One step of compaction: the first bucket that has reached a threshold. \<open>now_ms\<close> and \<open>timestamp\<close> are the
  two clock readings.\<close>

fun st_compact_buckets ::
  "u64 \<Rightarrow> u64 \<Rightarrow> rstring \<Rightarrow> size_tiered \<Rightarrow> sstable list list \<Rightarrow> dir \<Rightarrow> (bool \<times> sstable list list \<times> dir) res" where
  "st_compact_buckets now_ms timestamp db_name s [] d = Inr (False, [], d)"
| "st_compact_buckets now_ms timestamp db_name s (bucket # buckets) d =
     (if length bucket < st_min_threshold s \<and> length bucket < st_max_threshold s then
        and_then (st_compact_buckets now_ms timestamp db_name s buckets d) (\<lambda>(ran, buckets, d).
          Inr (ran, bucket # buckets, d))
      else
        and_then (merge_and_remove False now_ms bucket (memtable_new, d)) (\<lambda>(memtable, d).
        and_then (from_memtable timestamp db_name memtable None (st_block_size_bytes s) (st_block_compression s) d)
          (\<lambda>(new_sst, d). Inr (True, [new_sst] # buckets, d))))"

definition st_compact_if_needed ::
  "u64 \<Rightarrow> u64 \<Rightarrow> rstring \<Rightarrow> dir \<Rightarrow> size_tiered \<Rightarrow> (bool \<times> size_tiered \<times> dir) res" where
  "st_compact_if_needed now_ms timestamp db_name d s =
     and_then (st_compact_buckets now_ms timestamp db_name s (st_sstables s) d) (\<lambda>(ran, buckets, d).
       Inr (ran, s\<lparr>st_sstables := buckets\<rparr>, d))"

definition st_iter_all :: "size_tiered \<Rightarrow> sstable list" where
  "st_iter_all s = rev (concat (st_sstables s))"

definition st_compact_all :: "u64 \<Rightarrow> u64 \<Rightarrow> rstring \<Rightarrow> dir \<Rightarrow> size_tiered \<Rightarrow> (size_tiered \<times> dir) res" where
  "st_compact_all now_ms timestamp db_name d s =
     and_then (merge_and_remove False now_ms (st_iter_all s) (memtable_new, d)) (\<lambda>(memtable, d).
     and_then (from_memtable timestamp db_name (drop_tombstones memtable) None (st_block_size_bytes s) (st_block_compression s) d)
       (\<lambda>(sst, d). Inr (s\<lparr>st_sstables := [[sst]]\<rparr>, d)))"

definition st_iter_for_key :: "rstring \<Rightarrow> size_tiered \<Rightarrow> sstable list res" where
  "st_iter_for_key key s = filter_bloom key (rev (concat (st_sstables s)))"

definition st_iter_files_for_range :: "rstring \<Rightarrow> rstring \<Rightarrow> size_tiered \<Rightarrow> sstable list" where
  "st_iter_files_for_range start end_key s = files_for_range start end_key (st_iter_all s)"

definition st_segment_count :: "size_tiered \<Rightarrow> nat" where
  "st_segment_count s = length (concat (st_sstables s))"

section \<open>The strategy interface\<close>

lemma concat_update_snoc:
  "i < length xss \<Longrightarrow> \<exists>ys zs. concat xss = ys @ zs \<and> concat (xss[i := xss ! i @ [x]]) = ys @ x # zs"
proof -
  assume i: "i < length xss"
  then have "concat xss = (concat (take i xss) @ xss ! i) @ concat (drop (Suc i) xss)"
    by (metis append_assoc concat.simps(2) concat_append id_take_nth_drop)
  moreover have "concat (xss[i := xss ! i @ [x]]) = (concat (take i xss) @ xss ! i) @ x # concat (drop (Suc i) xss)"
    using i by (simp add: upd_conv_take_nth_drop)
  ultimately show ?thesis by blast
qed

interpretation st: storage_strategy "st_add_sstable F" st_iter_all st_iter_for_key st_iter_files_for_range st_segment_count for F
proof
  fix sst d s s'
  assume add: "st_add_sstable F sst d s = Inr s'"
  then consider "s' = s\<lparr>st_sstables := st_sstables s @ [[sst]]\<rparr>"
    | i where "i < length (st_sstables s)" "s' = s\<lparr>st_sstables := (st_sstables s)[i := st_sstables s ! i @ [sst]]\<rparr>"
    by (auto simp: st_add_sstable_def and_then_Inr_iff idx_def split: option.splits if_splits)
  then have "\<exists>ys zs. concat (st_sstables s) = ys @ zs \<and> concat (st_sstables s') = ys @ sst # zs"
  proof cases
    case 1
    then show ?thesis by (intro exI [of _ "concat (st_sstables s)"] exI [of _ "[]"]) simp
  next
    case (2 i)
    then show ?thesis using concat_update_snoc [OF 2(1), of sst] by simp
  qed
  then obtain ys zs where "concat (st_sstables s) = ys @ zs" "concat (st_sstables s') = ys @ sst # zs" by blast
  then show "\<exists>xs ys. st_iter_all s = xs @ ys \<and> st_iter_all s' = xs @ sst # ys"
    by (intro exI [of _ "rev zs"] exI [of _ "rev ys"]) (simp add: st_iter_all_def)
qed (simp_all add: st_iter_for_key_def st_iter_all_def st_iter_files_for_range_def st_segment_count_def)

text \<open>Reads can be stale: when a new table joins a bucket and one of the tables of the later buckets has the key, a read of
  the key is answered from there, whatever the new table has. The comment on the iterator says \<open>newest-to-oldest\<close>.\<close>

theorem size_tiered_reads_stale:
  assumes "st_add_sstable F sst d s = Inr s'" and "st_sstables s' = pre @ (bucket @ [sst]) # post"
    and "tables_hold d (rev (concat post)) later" and "tables_hold d (sst # rev (concat (pre @ [bucket]))) earlier"
    and "map_of (concat later) k = Some e"
  shows "and_then (st_iter_for_key k s') (lookup_segments (\<lambda>_. t) 0 d k) = Inr (entry_value t e)"
proof -
  have "tables_hold d (st_iter_all s') (later @ earlier)"
    using tables_hold_appendI [OF assms(3,4)] by (simp add: st_iter_all_def assms(2))
  from st.lookup_key_const [OF this, of k t] show ?thesis using assms(5) by (simp add: value_at_def)
qed

section \<open>Full compaction\<close>

lemma map_of_filter_value:
  "distinct (map fst es) \<Longrightarrow>
     map_of (filter (\<lambda>(_, e). P e) es) k = (case map_of es k of Some e \<Rightarrow> if P e then Some e else None | None \<Rightarrow> None)"
proof (induction es)
  case (Cons p es)
  then have "map_of es (fst p) = None" by (simp add: map_of_eq_None_iff)
  with Cons show ?case by (cases p) auto
qed simp

lemma drop_tombstones_value:
  assumes "mt_ok m"
  shows "value_at t (mt_entries (drop_tombstones m)) k = value_at t (mt_entries m) k"
proof -
  have "distinct (map fst (mt_entries m))" using assms by (simp add: mt_ok_def bt_ok_distinct)
  note flt = map_of_filter_value [OF this, of "\<lambda>e. me_value e \<noteq> None" k]
  have dead: "me_value e = None \<Longrightarrow> entry_value t e = None" for e
    by (simp add: entry_value_def split: option.split)
  show ?thesis
    using flt dead by (cases "map_of (mt_entries m) k") (simp_all add: drop_tombstones_def value_at_def Let_def)
qed

lemma st_compact_all_holds:
  assumes "tables_hold d (st_iter_all s) ess" and "distinct (map sst_path (st_iter_all s))"
    and "length (concat ess) < 2 ^ 40" and "st_block_size_bytes s < 2 ^ 31" and "map_of d (sst_filename db_name None ts) = None"
  shows "\<exists>s' d' es. st_compact_all now ts db_name d s = Inr (s', d') \<and> tables_hold d' (st_iter_all s') [es] \<and>
           (\<forall>t k. now \<le> t \<longrightarrow> value_at t es k = value_at t (concat ess) k)"
proof -
  from merge_and_remove_holds [OF assms(1) mt_holds_new assms(2), of False now]
  obtain m d1 where m: "merge_and_remove False now (st_iter_all s) (memtable_new, d) = Inr (m, d1)"
    and mh: "mt_holds m (merged False now (concat ess))"
    and d1: "\<forall>n. map_of d1 n = (if n \<in> sst_path ` set (st_iter_all s) then None else map_of d n)" by auto
  let ?m = "drop_tombstones m"
  have sub: "set (mt_entries ?m) \<subseteq> set (mt_entries m)" "length (mt_entries ?m) \<le> length (mt_entries m)"
    by (auto simp: drop_tombstones_def Let_def)
  have ok: "bt_ok (mt_entries ?m)" using mh drop_tombstones_ok by (auto simp: mt_holds_def mt_ok_def)
  have fits: "\<forall>p \<in> set (mt_entries ?m). entry_fits p" using mh sub(1) by (auto simp: mt_holds_def)
  have "length (mt_entries ?m) < 2 ^ 40" using mh sub(2) assms(3) by (simp add: mt_holds_def merged_def)
  moreover have "map_of d1 (sst_filename db_name None ts) = None" using d1 assms(5) by simp
  ultimately obtain sst d' where w: "from_memtable ts db_name ?m None (st_block_size_bytes s) (st_block_compression s) d1 = Inr (sst, d')"
    and h: "sst_holds d' sst (mt_entries ?m)"
    using from_memtable_holds [OF ok fits _ assms(4)] by blast
  have "value_at t (mt_entries ?m) k = value_at t (concat ess) k" if "now \<le> t" for t k
  proof -
    have "value_at t (mt_entries ?m) k = value_at t (mt_entries m) k"
      using mh by (simp add: drop_tombstones_value mt_holds_def)
    also have "\<dots> = value_at t (merged False now (concat ess)) k" using mh by (simp add: value_at_def mt_holds_def)
    also have "\<dots> = value_at t (concat ess) k" using that by (rule value_at_merged_keep)
    finally show ?thesis .
  qed
  then show ?thesis using m w h by (auto simp: st_compact_all_def st_iter_all_def)
qed

text \<open>C22. A full compaction of the size-tiered strategy changes no answer: it returns, and at every later time every
  key reads as it did before, through the same Bloom-filtered iterator.\<close>

theorem size_tiered_compact_all_correct:
  assumes "tables_hold d (st_iter_all s) ess" and "distinct (map sst_path (st_iter_all s))"
    and "length (concat ess) < 2 ^ 40" and "st_block_size_bytes s < 2 ^ 31" and "map_of d (sst_filename db_name None ts) = None"
  shows "\<exists>s' d'. st_compact_all now ts db_name d s = Inr (s', d') \<and> st_segment_count s' = 1 \<and>
           (\<forall>t k. now \<le> t \<longrightarrow>
              and_then (st_iter_for_key k s') (lookup_segments (\<lambda>_. t) 0 d' k) =
              and_then (st_iter_for_key k s) (lookup_segments (\<lambda>_. t) 0 d k))"
proof -
  from st_compact_all_holds [OF assms, of now]
  obtain s' d' es where r: "st_compact_all now ts db_name d s = Inr (s', d')" "tables_hold d' (st_iter_all s') [es]"
    and v: "\<forall>t k. now \<le> t \<longrightarrow> value_at t es k = value_at t (concat ess) k" by blast
  have "st_segment_count s' = 1"
    using tables_hold_length [OF r(2)] by (simp add: st_segment_count_def st_iter_all_def)
  then show ?thesis
    using r(1) v st.lookup_key_const [OF r(2)] st.lookup_key_const [OF assms(1)] by simp
qed

theorem size_tiered_compact_all_correct_witness:
  "\<exists>s d s' d'. st_segment_count s = 2 \<and> st_compact_all 5 3 (lit ''db'') d s = Inr (s', d') \<and> st_segment_count s' = 1 \<and>
     and_then (st_iter_for_key (lit ''k'') s') (lookup_segments (\<lambda>_. 9) 0 d' (lit ''k'')) = Inr (Some (lit ''2''))"
proof -
  obtain a b d where h: "tables_hold d [a, b] [[(lit ''k'', plain_entry ''1'')], [(lit ''k'', plain_entry ''2'')]]"
    and p: "distinct (map sst_path [a, b])" and f: "map_of d (sst_filename (lit ''db'') None 3) = None"
    using two_tables [of "lit ''k''" "plain_entry ''1''" "plain_entry ''2''"] by auto
  let ?s = "\<lparr>st_sstables = [[a, b]], st_min_threshold = 2, st_max_threshold = 4, st_block_size_bytes = 4096, st_block_compression = True\<rparr>"
  let ?ess = "[[(lit ''k'', plain_entry ''2'')], [(lit ''k'', plain_entry ''1'')]]"
  have h': "tables_hold d (st_iter_all ?s) ?ess" using h by (simp add: st_iter_all_def)
  have p': "distinct (map sst_path (st_iter_all ?s))" using p by (auto simp: st_iter_all_def)
  from size_tiered_compact_all_correct [OF h' p', of "lit ''db''" 3 5] f
  obtain s' d' where r: "st_compact_all 5 3 (lit ''db'') d ?s = Inr (s', d')" "st_segment_count s' = 1"
    and v: "\<forall>t k. 5 \<le> t \<longrightarrow> and_then (st_iter_for_key k s') (lookup_segments (\<lambda>_. t) 0 d' k) =
              and_then (st_iter_for_key k ?s) (lookup_segments (\<lambda>_. t) 0 d k)" by auto
  have "and_then (st_iter_for_key (lit ''k'') ?s) (lookup_segments (\<lambda>_. 9) 0 d (lit ''k'')) = Inr (Some (lit ''2''))"
    using st.lookup_key_const [OF h', of "lit ''k''" 9] by (simp add: value_at_def)
  moreover have "st_segment_count ?s = 2" by (simp add: st_segment_count_def)
  ultimately show ?thesis using r v by (intro exI [of _ ?s] exI [of _ d] exI [of _ s'] exI [of _ d']) simp
qed

section \<open>Compaction of a bucket\<close>

lemma st_compact_buckets_skip:
  assumes "\<forall>b \<in> set pre. length b < st_min_threshold s \<and> length b < st_max_threshold s"
  shows "st_compact_buckets now ts db_name s (pre @ bs) d =
           and_then (st_compact_buckets now ts db_name s bs d) (\<lambda>(ran, bs, d). Inr (ran, pre @ bs, d))"
  using assms
proof (induction pre)
  case Nil
  then show ?case by (cases "st_compact_buckets now ts db_name s bs d") auto
next
  case (Cons b pre)
  then show ?case by (cases "st_compact_buckets now ts db_name s bs d") auto
qed

text \<open>What the compaction of a bucket really keeps: for every key, the entry of the first table of the bucket that has it,
  which is the oldest one, while reads take the last one. All tables before the bucket and after it stay.\<close>

theorem size_tiered_bucket_keeps_oldest:
  assumes "st_sstables s = pre @ bucket # post"
    and "\<forall>b \<in> set pre. length b < st_min_threshold s \<and> length b < st_max_threshold s"
    and "st_min_threshold s \<le> length bucket \<or> st_max_threshold s \<le> length bucket"
    and "tables_hold d bucket ess" and "distinct (map sst_path bucket)" and "length (concat ess) < 2 ^ 40"
    and "st_block_size_bytes s < 2 ^ 31" and "map_of d (sst_filename db_name None ts) = None"
  shows "\<exists>s' d' sst. st_compact_if_needed now ts db_name d s = Inr (True, s', d') \<and>
           st_sstables s' = pre @ [sst] # post \<and>
           (\<forall>t k. now \<le> t \<longrightarrow>
              lookup_segments (\<lambda>_. t) 0 d' k [sst] = lookup_segments (\<lambda>_. t) 0 d k bucket \<and>
              lookup_segments (\<lambda>_. t) 0 d k (rev bucket) = Inr (value_at t (concat (rev ess)) k))"
proof -
  from merge_and_remove_holds [OF assms(4) mt_holds_new assms(5), of False now]
  obtain m d1 where m: "merge_and_remove False now bucket (memtable_new, d) = Inr (m, d1)"
    and mh: "mt_holds m (merged False now (concat ess))"
    and d1: "\<forall>n. map_of d1 n = (if n \<in> sst_path ` set bucket then None else map_of d n)" by auto
  have ok: "bt_ok (mt_entries m)" "\<forall>p \<in> set (mt_entries m). entry_fits p" "length (mt_entries m) < 2 ^ 40"
    using mh assms(6) by (auto simp: mt_holds_def mt_ok_def merged_def)
  have "map_of d1 (sst_filename db_name None ts) = None" using d1 assms(8) by simp
  from from_memtable_holds [OF ok assms(7) this, of "st_block_compression s"]
  obtain sst d' where w: "from_memtable ts db_name m None (st_block_size_bytes s) (st_block_compression s) d1 = Inr (sst, d')"
    and h: "sst_holds d' sst (mt_entries m)" by blast
  have run: "st_compact_if_needed now ts db_name d s = Inr (True, s\<lparr>st_sstables := pre @ [sst] # post\<rparr>, d')"
    using assms(3) m w by (auto simp: st_compact_if_needed_def assms(1) st_compact_buckets_skip [OF assms(2)])
  have "lookup_segments (\<lambda>_. t) 0 d' k [sst] = lookup_segments (\<lambda>_. t) 0 d k bucket" if "now \<le> t" for t k
  proof -
    have "value_at t (mt_entries m) k = value_at t (concat ess) k"
      using mh value_at_merged_keep [OF that, of "concat ess" k] by (simp add: value_at_def mt_holds_def)
    then show ?thesis
      using lookup_segments_const [of d' "[sst]" "[mt_entries m]" t 0 k] lookup_segments_const [OF assms(4), of t 0 k] h
      by (simp add: value_at_def)
  qed
  moreover have "lookup_segments (\<lambda>_. t) 0 d k (rev bucket) = Inr (value_at t (concat (rev ess)) k)" for t k
    using lookup_segments_const [of d "rev bucket" "rev ess" t 0 k] assms(4) by (simp add: tables_hold_rev value_at_def)
  ultimately show ?thesis using run by fastforce
qed

theorem size_tiered_bucket_keeps_oldest_witness:
  "\<exists>s d s' d' sst. st_compact_if_needed 5 3 (lit ''db'') d s = Inr (True, s', d') \<and> st_sstables s' = [[sst]] \<and>
     lookup_segments (\<lambda>_. 9) 0 d (lit ''k'') (st_iter_all s) = Inr (Some (lit ''2'')) \<and>
     lookup_segments (\<lambda>_. 9) 0 d' (lit ''k'') (st_iter_all s') = Inr (Some (lit ''1''))"
proof -
  let ?ess = "[[(lit ''k'', plain_entry ''1'')], [(lit ''k'', plain_entry ''2'')]]"
  obtain a b d where h: "tables_hold d [a, b] ?ess"
    and p: "distinct (map sst_path [a, b])" and f: "map_of d (sst_filename (lit ''db'') None 3) = None"
    using two_tables [of "lit ''k''" "plain_entry ''1''" "plain_entry ''2''"] by auto
  let ?s = "\<lparr>st_sstables = [[a, b]], st_min_threshold = 2, st_max_threshold = 4, st_block_size_bytes = 4096, st_block_compression = True\<rparr>"
  from size_tiered_bucket_keeps_oldest [of ?s "[]" "[a, b]" "[]", OF _ _ _ h p, of "lit ''db''" 3 5] f
  obtain s' d' sst where r: "st_compact_if_needed 5 3 (lit ''db'') d ?s = Inr (True, s', d')" "st_sstables s' = [[sst]]"
    and v: "lookup_segments (\<lambda>_. 9) 0 d' (lit ''k'') [sst] = lookup_segments (\<lambda>_. 9) 0 d (lit ''k'') [a, b]"
      "lookup_segments (\<lambda>_. 9) 0 d (lit ''k'') (rev [a, b]) = Inr (value_at 9 (concat (rev ?ess)) (lit ''k''))" by auto
  have "lookup_segments (\<lambda>_. 9) 0 d (lit ''k'') [a, b] = Inr (Some (lit ''1''))"
    using lookup_segments_const [OF h, of 9 0 "lit ''k''"] by simp
  moreover have "st_iter_all ?s = rev [a, b]" "st_iter_all s' = [sst]" using r(2) by (simp_all add: st_iter_all_def)
  moreover have "value_at 9 (concat (rev ?ess)) (lit ''k'') = Some (lit ''2'')" by (simp add: value_at_def)
  ultimately show ?thesis
    using r v by (intro exI [of _ ?s] exI [of _ d] exI [of _ s'] exI [of _ d'] exI [of _ sst]) (simp only:)
qed

end
