(* ===== verification/Leveled_Store.thy ===== *)
theory Leveled_Store
  imports Storage_Strategy "HOL-Library.Multiset"
begin

text \<open>
  \<^verbatim>\<open>src/leveled.rs\<close>: levels of tables, flushed tables at level 0. The strategy is \<open>newest_first\<close>. Merging a
  level into the next one keeps every answer as long as no dropped tombstone hides a live record below it (a target that
  is not terminal drops none), and keeps the tables of the target disjoint.
\<close>

section \<open>Levels\<close>

record level =
  lv_sstables :: "sstable list"
  lv_level_num :: nat
  lv_max_bytes :: u64
  lv_l0_threshold :: nat
  lv_is_terminal :: bool

definition level_append :: "sstable \<Rightarrow> level \<Rightarrow> level" where
  "level_append sst l = l\<lparr>lv_sstables := lv_sstables l @ [sst]\<rparr>"

definition level_total_bytes :: "dir \<Rightarrow> level \<Rightarrow> u64 res" where
  "level_total_bytes d l =
     fold_res (\<lambda>sst acc. and_then (sst_size_on_disk sst d) (\<lambda>s. checked_add64 acc s)) (lv_sstables l) 0"

definition needs_compaction :: "dir \<Rightarrow> level \<Rightarrow> bool res" where
  "needs_compaction d l =
     (if lv_level_num l = 0 then Inr (length (lv_sstables l) = lv_l0_threshold l)
      else and_then (level_total_bytes d l) (\<lambda>b. Inr (lv_max_bytes l \<le> b)))"

definition overlaps :: "rstring \<Rightarrow> rstring \<Rightarrow> sstable \<Rightarrow> bool" where
  "overlaps min_key max_key sst =
     (case sst_min sst of
        None \<Rightarrow> False
      | Some (file_min, _) \<Rightarrow>
          (case sst_max sst of
             None \<Rightarrow> False
           | Some (file_max, _) \<Rightarrow> min_key \<le> file_max \<and> file_min \<le> max_key))"

definition overlapping_files :: "rstring \<Rightarrow> rstring \<Rightarrow> level \<Rightarrow> sstable list" where
  "overlapping_files min_key max_key l = filter (overlaps min_key max_key) (lv_sstables l)"

text \<open>\<open>Iterator::min\<close> and \<open>max\<close> of the bounds that are there.\<close>

definition key_range :: "level \<Rightarrow> (rstring \<times> rstring) option" where
  "key_range l =
     (let mins = map fst (List.map_filter sst_min (lv_sstables l));
          maxs = map fst (List.map_filter sst_max (lv_sstables l))
      in if mins = [] then None
         else if maxs = [] then None
         else Some (Min (set mins), Max (set maxs)))"

definition level_iter :: "level \<Rightarrow> sstable list" where
  "level_iter l = rev (lv_sstables l)"

definition level_squash ::
  "u64 \<Rightarrow> u64 \<Rightarrow> rstring \<Rightarrow> nat \<Rightarrow> bool \<Rightarrow> level \<Rightarrow> dir \<Rightarrow> (sstable option \<times> level \<times> dir) res" where
  "level_squash now_ms timestamp db_name block_size compression l d =
     (if lv_sstables l = [] then Inr (None, l, d)
      else
        and_then (merge_and_remove (lv_is_terminal l) now_ms (level_iter l) (memtable_new, d)) (\<lambda>(memtable, d).
        and_then (from_memtable timestamp db_name memtable (Some (lv_level_num l)) block_size compression d)
          (\<lambda>(sst, d). Inr (Some sst, l\<lparr>lv_sstables := []\<rparr>, d))))"

section \<open>The strategy\<close>

record leveled =
  lvl_levels :: "level list"
  lvl_block_size_bytes :: nat
  lvl_block_compression :: bool

text \<open>The capacity of level \<open>i\<close>; power and product overflow with a panic.\<close>

definition level_max_bytes :: "u64 \<Rightarrow> nat \<Rightarrow> u64 res" where
  "level_max_bytes l1_max_bytes i =
     (let p = (10 :: nat) ^ (i - 1) in
      if 2 ^ 64 \<le> p \<or> 2 ^ 64 \<le> unat l1_max_bytes * p then Inl (Panic ''attempt to multiply with overflow'')
      else Inr (of_nat (unat l1_max_bytes * p)))"

definition leveled_new :: "nat \<Rightarrow> nat \<Rightarrow> u64 \<Rightarrow> nat \<Rightarrow> bool \<Rightarrow> leveled res" where
  "leveled_new num_levels l0_threshold l1_max_bytes block_size compression =
     and_then
       (map_res (\<lambda>i. and_then (level_max_bytes l1_max_bytes i) (\<lambda>mb.
            Inr \<lparr>lv_sstables = [], lv_level_num = i, lv_max_bytes = mb, lv_l0_threshold = l0_threshold,
                 lv_is_terminal = (i = num_levels - 1)\<rparr>)) [0..<num_levels])
       (\<lambda>levels. Inr \<lparr>lvl_levels = levels, lvl_block_size_bytes = block_size, lvl_block_compression = compression\<rparr>)"

definition leveled_load_from_dir :: "dir \<Rightarrow> rstring \<Rightarrow> nat \<Rightarrow> nat \<Rightarrow> u64 \<Rightarrow> nat \<Rightarrow> bool \<Rightarrow> leveled res" where
  "leveled_load_from_dir d db_name num_levels l0_threshold l1_max_bytes block_size compression =
     and_then (get_sstables d db_name) (\<lambda>ssts.
     and_then (leveled_new num_levels l0_threshold l1_max_bytes block_size compression) (\<lambda>s.
       fold_res (\<lambda>sst s.
         and_then (sst_rebuild_index d sst) (\<lambda>sst.
           let level = (case sst_level sst of Some l \<Rightarrow> l | None \<Rightarrow> 0);
               n = length (lvl_levels s)
           in if level < n then Inr (s\<lparr>lvl_levels := (lvl_levels s)[level := level_append sst (lvl_levels s ! level)]\<rparr>)
              else if n = 0 then Inl (Panic ''called Option::unwrap() on a None value'')
              else Inr (s\<lparr>lvl_levels := (lvl_levels s)[n - 1 := level_append sst (lvl_levels s ! (n - 1))]\<rparr>)))
         ssts s))"

definition compact_levels ::
  "u64 \<Rightarrow> u64 \<Rightarrow> nat \<times> nat \<Rightarrow> rstring \<Rightarrow> dir \<Rightarrow> leveled \<Rightarrow> (leveled \<times> dir) res" where
  "compact_levels now_ms timestamp level_ids db_name d s =
     (let (source_id, target_id) = level_ids;
          n = length (lvl_levels s)
      in if n \<le> source_id \<or> n \<le> target_id then
           (if n = 0 then Inl (Panic ''attempt to subtract with overflow'')
            else Inl (IoError InvalidInput (Message ''level index out of bounds'')))
         else if target_id \<le> source_id then
           Inl (IoError InvalidInput (Message ''source level must be less than target level''))
         else
           let source = lvl_levels s ! source_id;
               target = lvl_levels s ! target_id
           in case key_range source of
                None \<Rightarrow> Inr (s, d)
              | Some (start, end_key) \<Rightarrow>
                  let overlap = overlapping_files start end_key target;
                      overlap_paths = remdups (map sst_path overlap)
                  in and_then (fold_res (merge_table (lv_is_terminal target) now_ms d) (level_iter source) memtable_new) (\<lambda>memtable.
                     and_then (fold_res (merge_table (lv_is_terminal target) now_ms d) overlap memtable) (\<lambda>memtable.
                     and_then (from_memtable timestamp db_name memtable (Some (lv_level_num target))
                                 (lvl_block_size_bytes s) (lvl_block_compression s) d) (\<lambda>(sstable, d).
                       let target = level_append sstable
                             (target\<lparr>lv_sstables := filter (\<lambda>sst. sst_path sst \<notin> set overlap_paths) (lv_sstables target)\<rparr>)
                       in and_then (fold_res remove_file overlap_paths d) (\<lambda>d.
                          and_then (fold_res remove_file (map sst_path (level_iter source)) d) (\<lambda>d.
                            Inr (s\<lparr>lvl_levels := (lvl_levels s)[target_id := target,
                                     source_id := source\<lparr>lv_sstables := []\<rparr>]\<rparr>, d)))))))"

definition leveled_add_sstable :: "sstable \<Rightarrow> dir \<Rightarrow> leveled \<Rightarrow> leveled res" where
  "leveled_add_sstable sst d s =
     (case lvl_levels s of
        [] \<Rightarrow> Inl (IoError OtherError (Message ''Leveled storage strategy levels not allocated''))
      | l0 # ls \<Rightarrow> Inr (s\<lparr>lvl_levels := level_append sst l0 # ls\<rparr>))"

text \<open>The work on one level, the same in both kinds of compaction.\<close>

definition compact_level :: "u64 \<Rightarrow> u64 \<Rightarrow> rstring \<Rightarrow> nat \<Rightarrow> leveled \<times> dir \<Rightarrow> (leveled \<times> dir) res" where
  "compact_level now_ms timestamp db_name i = (\<lambda>(s, d).
     and_then (idx (lvl_levels s) i) (\<lambda>l.
       if lv_is_terminal l then
         and_then (level_squash now_ms timestamp db_name (lvl_block_size_bytes s) (lvl_block_compression s) l d)
           (\<lambda>(sst, l, d).
              Inr (s\<lparr>lvl_levels := (lvl_levels s)[i := (case sst of Some sst \<Rightarrow> level_append sst l | None \<Rightarrow> l)]\<rparr>, d))
       else compact_levels now_ms timestamp (i, i + 1) db_name d s))"

fun leveled_compact_from :: "u64 \<Rightarrow> u64 \<Rightarrow> rstring \<Rightarrow> nat list \<Rightarrow> leveled \<times> dir \<Rightarrow> (bool \<times> leveled \<times> dir) res" where
  "leveled_compact_from now_ms timestamp db_name [] (s, d) = Inr (False, s, d)"
| "leveled_compact_from now_ms timestamp db_name (i # levels) (s, d) =
     and_then (idx (lvl_levels s) i) (\<lambda>l.
     and_then (needs_compaction d l) (\<lambda>needed.
       if needed then and_then (compact_level now_ms timestamp db_name i (s, d)) (\<lambda>(s, d). Inr (True, s, d))
       else leveled_compact_from now_ms timestamp db_name levels (s, d)))"

definition leveled_compact_if_needed :: "u64 \<Rightarrow> u64 \<Rightarrow> rstring \<Rightarrow> dir \<Rightarrow> leveled \<Rightarrow> (bool \<times> leveled \<times> dir) res" where
  "leveled_compact_if_needed now_ms timestamp db_name d s =
     leveled_compact_from now_ms timestamp db_name [0..<length (lvl_levels s)] (s, d)"

text \<open>\<open>clk i\<close> holds the two clock readings of the work on level \<open>i\<close>.\<close>

definition leveled_compact_all :: "(nat \<Rightarrow> u64 \<times> u64) \<Rightarrow> rstring \<Rightarrow> dir \<Rightarrow> leveled \<Rightarrow> (leveled \<times> dir) res" where
  "leveled_compact_all clk db_name d s =
     fold_res (\<lambda>i sd. compact_level (fst (clk i)) (snd (clk i)) db_name i sd) [0..<length (lvl_levels s)] (s, d)"

definition leveled_iter_all :: "leveled \<Rightarrow> sstable list" where
  "leveled_iter_all s = concat (map level_iter (lvl_levels s))"

definition leveled_iter_for_key :: "rstring \<Rightarrow> leveled \<Rightarrow> sstable list res" where
  "leveled_iter_for_key key s = filter_bloom key (concat (map level_iter (lvl_levels s)))"

definition leveled_iter_files_for_range :: "rstring \<Rightarrow> rstring \<Rightarrow> leveled \<Rightarrow> sstable list" where
  "leveled_iter_files_for_range start end_key s = files_for_range start end_key (leveled_iter_all s)"

definition leveled_segment_count :: "leveled \<Rightarrow> nat" where
  "leveled_segment_count s = length (concat (map level_iter (lvl_levels s)))"

interpretation lvl: newest_first leveled_add_sstable leveled_iter_all leveled_iter_for_key
    leveled_iter_files_for_range leveled_segment_count
proof
  fix sst d s s'
  assume "leveled_add_sstable sst d s = Inr s'"
  then have new: "leveled_iter_all s' = sst # leveled_iter_all s"
    by (auto simp: leveled_add_sstable_def leveled_iter_all_def level_iter_def level_append_def split: list.splits)
  then show "leveled_iter_all s' = sst # leveled_iter_all s"
    and "\<exists>xs ys. leveled_iter_all s = xs @ ys \<and> leveled_iter_all s' = xs @ sst # ys"
    by (auto intro: exI [of _ "[]"])
qed (simp_all add: leveled_iter_for_key_def leveled_iter_all_def leveled_iter_files_for_range_def leveled_segment_count_def)

section \<open>Merging a level into the next\<close>

text \<open>No dead entry that decides hides a live one further down.\<close>

definition no_shadow :: "u64 \<Rightarrow> entries \<Rightarrow> bool" where
  "no_shadow now es \<longleftrightarrow>
     (\<forall>k e. map_of es k = Some e \<longrightarrow> entry_value now e = None \<longrightarrow> (\<forall>e'. (k, e') \<in> set es \<longrightarrow> entry_value now e' = None))"

lemma value_at_merged_drop:
  assumes "no_shadow now es" and "now \<le> t"
  shows "value_at t (merged True now es) k = value_at t es k"
proof (cases "map_of es k")
  case None
  then have "k \<notin> fst ` set es" by (simp add: map_of_eq_None_iff)
  then have "map_of (filter (\<lambda>(k, e). entry_value now e \<noteq> None) es) k = None" by (auto simp: map_of_eq_None_iff)
  with None show ?thesis by (simp add: value_at_def map_of_merged_drop)
next
  case (Some e)
  show ?thesis
  proof (cases "entry_value now e = None")
    case True
    then have "k \<notin> fst ` set (filter (\<lambda>(k, e). entry_value now e \<noteq> None) es)"
      using assms(1) Some by (force simp: no_shadow_def)
    then have "map_of (filter (\<lambda>(k, e). entry_value now e \<noteq> None) es) k = None" by (simp add: map_of_eq_None_iff)
    then show ?thesis using Some entry_value_mono [OF True assms(2)] by (simp add: value_at_def map_of_merged_drop)
  next
    case False
    have "map_of (filter (\<lambda>(k, e). entry_value now e \<noteq> None) es) k = Some e"
      using Some False by (induction es) (auto split: if_splits)
    then show ?thesis using Some by (simp add: value_at_def map_of_merged_drop)
  qed
qed

lemma value_at_merged:
  assumes "dd \<longrightarrow> no_shadow now es" and "now \<le> t"
  shows "value_at t (merged dd now es) k = value_at t es k"
  using assms by (cases dd) (simp_all add: value_at_merged_keep value_at_merged_drop)

lemma merged_keys: "fst ` set (merged dd now es) \<subseteq> fst ` set es"
  by (auto simp: merged_def split: if_splits) force+

lemma merged_keys_keep: "fst ` set (merged False now es) = fst ` set es"
proof (induction es)
  case (Cons p es)
  then show ?case by (cases p) (simp add: merged_simps)
qed (simp add: merged_simps)

text \<open>The target level is split by the overlap test; with distinct keys the order of its tables does not matter.\<close>

lemma tables_hold_filter:
  assumes "tables_hold d ssts ess"
  shows "\<exists>os rs. tables_hold d (filter P ssts) os \<and> tables_hold d (filter (\<lambda>x. \<not> P x) ssts) rs \<and>
           mset (concat ess) = mset (concat os) + mset (concat rs) \<and> ((\<forall>x \<in> set ssts. P x) \<longrightarrow> os = ess \<and> rs = [])"
  using assms unfolding tables_hold_def
proof (induction rule: list_all2_induct)
  case (Cons sst ssts es ess)
  then obtain os rs where h: "list_all2 (sst_holds d) (filter P ssts) os" "list_all2 (sst_holds d) (filter (\<lambda>x. \<not> P x) ssts) rs"
    "mset (concat ess) = mset (concat os) + mset (concat rs)" "(\<forall>x \<in> set ssts. P x) \<longrightarrow> os = ess \<and> rs = []" by blast
  show ?case
  proof (cases "P sst")
    case True
    then show ?thesis using h Cons.hyps(1) by (intro exI [of _ "es # os"] exI [of _ rs]) simp
  next
    case False
    then show ?thesis using h Cons.hyps(1) by (intro exI [of _ os] exI [of _ "es # rs"]) simp
  qed
qed auto

lemma distinct_keys_mset: "mset xs = mset ys \<Longrightarrow> distinct (map fst xs) = distinct (map fst ys)"
  by (metis mset_map mset_eq_imp_distinct_iff)

text \<open>The key range of a level covers its keys, and a table outside the overlap has none of them.\<close>

lemma sst_bounds:
  assumes "sst_holds d sst es" and "(k, e) \<in> set es"
  shows "\<exists>mn o1 mx o2. sst_min sst = Some (mn, o1) \<and> sst_max sst = Some (mx, o2) \<and> mn \<le> k \<and> k \<le> mx"
proof -
  have es: "es \<noteq> []" "bt_ok es" using assms by (auto simp: sst_holds_def)
  from es(1) assms(2) have "fst (hd es) \<le> k \<and> k \<le> fst (last es)" using es(2)
  proof (induction es)
    case (Cons p es)
    then show ?case by (cases p; cases "es = []") (auto simp: bt_ok_Cons less_imp_le dest: last_in_set)
  qed simp
  moreover have "first_opt es = Some (hd es)" using es(1) by (cases es) auto
  ultimately show ?thesis using assms(1) es(1) by (fastforce simp: sst_holds_def)
qed

lemma tables_hold_nth:
  assumes "tables_hold d ssts ess" and "p \<in> set (concat ess)"
  shows "\<exists>sst es. sst \<in> set ssts \<and> sst_holds d sst es \<and> p \<in> set es"
  using assms unfolding tables_hold_def by (induction rule: list_all2_induct) auto

lemma key_range_covers:
  assumes "key_range l = Some (a, b)" and "tables_hold d (level_iter l) ess" and "(k, e) \<in> set (concat ess)"
  shows "a \<le> k \<and> k \<le> b"
proof -
  from tables_hold_nth [OF assms(2,3)] obtain sst es where sst: "sst \<in> set (lv_sstables l)" "sst_holds d sst es" "(k, e) \<in> set es"
    by (auto simp: level_iter_def)
  from sst_bounds [OF sst(2,3)] obtain mn o1 mx o2 where b: "sst_min sst = Some (mn, o1)" "sst_max sst = Some (mx, o2)" "mn \<le> k" "k \<le> mx"
    by blast
  let ?mins = "map fst (List.map_filter sst_min (lv_sstables l))" and ?maxs = "map fst (List.map_filter sst_max (lv_sstables l))"
  have "mn \<in> set ?mins" "mx \<in> set ?maxs" using sst(1) b by (force simp: map_filter_def)+
  then have "Min (set ?mins) \<le> mn" "mx \<le> Max (set ?maxs)" by simp_all
  moreover have "a = Min (set ?mins)" "b = Max (set ?maxs)" using assms(1) by (auto simp: key_range_def Let_def split: if_splits)
  ultimately show ?thesis using b(3,4) by auto
qed

lemma not_overlapping:
  assumes "\<not> overlaps a b sst" and "sst_holds d sst es" and "(k, e) \<in> set es"
  shows "\<not> (a \<le> k \<and> k \<le> b)"
  using sst_bounds [OF assms(2,3)] assms(1) by (auto simp: overlaps_def)

lemma fold_remove_files:
  assumes "distinct ns" and "\<forall>n \<in> set ns. map_of d n \<noteq> None"
  shows "\<exists>d'. fold_res remove_file ns d = Inr d' \<and> (\<forall>n. map_of d' n = (if n \<in> set ns then None else map_of d n))"
  using assms
proof (induction ns arbitrary: d)
  case (Cons n ns)
  have "remove_file n d = Inr (AList.delete n d)" using Cons.prems(2) by (simp add: remove_file_def)
  moreover have "\<forall>m \<in> set ns. map_of (AList.delete n d) m \<noteq> None" using Cons.prems by auto
  ultimately show ?case using Cons.IH [of "AList.delete n d"] Cons.prems(1) by fastforce
qed simp

lemma tables_hold_files: "tables_hold d ssts ess \<Longrightarrow> sst \<in> set ssts \<Longrightarrow> map_of d (sst_path sst) \<noteq> None"
  unfolding tables_hold_def by (induction rule: list_all2_induct) (auto simp: sst_holds_def)

lemma tables_hold_paths_disjoint:
  "distinct (map sst_path (xs @ ys)) \<Longrightarrow> x \<in> set xs \<Longrightarrow> y \<in> set ys \<Longrightarrow> sst_path x \<noteq> sst_path y"
  by (auto simp: image_iff)

lemma distinct_middle:
  assumes "distinct (map f (xs @ ys @ zs))" and "x \<in> set (xs @ zs)" and "y \<in> set ys"
  shows "f x \<noteq> f y"
proof -
  have "f ` set ys \<inter> (f ` set xs \<union> f ` set zs) = {}" using assms(1) by auto
  then show ?thesis using assms(2,3) by fastforce
qed

lemma merge_value:
  assumes "distinct (map fst (concat Ts))" and "mset (concat Ts) = mset (concat Os) + mset (concat Rs)"
    and "map_of N = map_of (merged dd now (S @ concat Os))" and "dd \<longrightarrow> no_shadow now (S @ concat Ts)"
    and "fst ` set (S @ concat Os) \<inter> fst ` set (concat Rs) = {}" and "now \<le> t"
  shows "value_at t (N @ concat (rev Rs)) k = value_at t (S @ concat (rev Ts)) k"
proof -
  let ?O = "concat Os" and ?R = "concat Rs"
  have dOR: "distinct (map fst (?O @ ?R))" and sOR: "set (concat Ts) = set (?O @ ?R)"
    using assms(1,2) distinct_keys_mset [of "concat Ts" "?O @ ?R"] mset_eq_setD [of "concat Ts" "?O @ ?R"] by auto
  have revs: "mset (concat (rev Ts)) = mset (concat Ts)" "mset (concat (rev Rs)) = mset ?R"
    by (simp_all add: mset_concat rev_map [symmetric] sum_list_rev)
  have T: "map_of (concat (rev Ts)) = map_of (?O @ ?R)"
    by (rule map_of_perm) (use distinct_keys_mset [OF revs(1)] mset_eq_setD [OF revs(1)] assms(1) dOR sOR in simp_all)
  have "distinct (map fst ?R)" using dOR by simp
  then have R: "map_of (concat (rev Rs)) = map_of ?R"
    by (intro map_of_perm) (use distinct_keys_mset [OF revs(2)] mset_eq_setD [OF revs(2)] in simp_all)
  have ns: "dd \<longrightarrow> no_shadow now (S @ ?O)"
  proof
    assume dd
    with assms(4) have ns: "no_shadow now (S @ concat Ts)" by simp
    have "map_of (concat Ts) = map_of (?O @ ?R)" using assms(1) dOR sOR by (rule map_of_perm)
    then have "map_of (S @ concat Ts) j = Some e" if "map_of (S @ ?O) j = Some e" for j e
      using that by (auto simp: map_add_def split: option.splits)
    then show "no_shadow now (S @ ?O)" using ns sOR unfolding no_shadow_def by (metis Un_iff set_append)
  qed
  have N: "value_at t N k = value_at t (S @ ?O) k"
    using value_at_merged [OF ns assms(6), of k] assms(3) by (simp add: value_at_def)
  have RHS: "value_at t (S @ concat (rev Ts)) k = value_at t ((S @ ?O) @ ?R) k"
    by (rule value_at_cong) (simp add: T map_add_def)
  have LHS: "value_at t (N @ concat (rev Rs)) k = value_at t (N @ ?R) k"
    by (rule value_at_cong) (simp add: R map_add_def)
  show ?thesis
  proof (cases "map_of (S @ ?O) k = None")
    case True
    then have "k \<notin> fst ` set (merged dd now (S @ ?O))" using merged_keys [of dd now "S @ ?O"] by (auto simp: map_of_eq_None_iff)
    then have "map_of N k = None" by (simp add: assms(3) map_of_eq_None_iff)
    with True show ?thesis unfolding LHS RHS by (simp add: value_at_append)
  next
    case False
    then have "k \<in> fst ` set (S @ ?O)" by (metis map_of_eq_None_iff)
    then have "map_of ?R k = None" using assms(5) by (auto simp: map_of_eq_None_iff)
    then have "value_at t (N @ ?R) k = value_at t N k" by (cases "map_of N k") (auto simp: value_at_def map_add_def)
    with False N show ?thesis unfolding LHS RHS by (simp only: value_at_append if_False)
  qed
qed

text \<open>The state of the two levels after the merge, in terms of the entries they hold.\<close>

lemma compact_levels_holds:
  fixes s :: leveled
  defines "ls \<equiv> lvl_levels s"
  assumes i: "i + 1 < length ls"
    and src: "tables_hold d (level_iter (ls ! i)) Ss"
    and tgt: "tables_hold d (lv_sstables (ls ! (i + 1))) Ts"
    and dk: "distinct (map fst (concat Ts))"
    and paths: "distinct (map sst_path (lv_sstables (ls ! i) @ lv_sstables (ls ! (i + 1))))"
    and n: "length (concat Ss) + length (concat Ts) < 2 ^ 40" and bs: "lvl_block_size_bytes s < 2 ^ 31"
    and fresh: "map_of d (sst_filename db_name (Some (lv_level_num (ls ! (i + 1)))) ts) = None"
    and range: "key_range (ls ! i) = Some (a, b)"
  shows "\<exists>d' src' tgt' Ts'.
      compact_levels now ts (i, i + 1) db_name d s = Inr (s\<lparr>lvl_levels := ls[i + 1 := tgt', i := src']\<rparr>, d') \<and>
      lv_sstables src' = [] \<and> tables_hold d' (lv_sstables tgt') Ts' \<and> distinct (map fst (concat Ts')) \<and>
      ((lv_is_terminal (ls ! (i + 1)) \<longrightarrow> no_shadow now (concat Ss @ concat Ts)) \<longrightarrow>
         (\<forall>t k. now \<le> t \<longrightarrow> value_at t (concat (rev Ts')) k = value_at t (concat Ss @ concat (rev Ts)) k)) \<and>
      ((\<forall>x \<in> set (lv_sstables (ls ! (i + 1))). overlaps a b x) \<longrightarrow>
         map_of (concat Ts') = map_of (merged (lv_is_terminal (ls ! (i + 1))) now (concat Ss @ concat Ts))) \<and>
      (\<not> lv_is_terminal (ls ! (i + 1)) \<longrightarrow> fst ` set (concat Ts') = fst ` set (concat Ss @ concat Ts)) \<and>
      (\<forall>n. n \<notin> sst_path ` set (lv_sstables (ls ! i) @ lv_sstables (ls ! (i + 1))) \<longrightarrow>
         n \<noteq> sst_filename db_name (Some (lv_level_num (ls ! (i + 1)))) ts \<longrightarrow> map_of d' n = map_of d n) \<and>
      fst ` set (concat Ts') \<subseteq> fst ` set (concat Ss @ concat Ts) \<and> distinct (map sst_path (lv_sstables tgt')) \<and>
      sst_path ` set (lv_sstables tgt') \<subseteq>
        insert (sst_filename db_name (Some (lv_level_num (ls ! (i + 1)))) ts) (sst_path ` set (lv_sstables (ls ! (i + 1)))) \<and>
      src' = (ls ! i)\<lparr>lv_sstables := []\<rparr> \<and> lv_level_num tgt' = lv_level_num (ls ! (i + 1)) \<and> lv_is_terminal tgt' = lv_is_terminal (ls ! (i + 1)) \<and>
      sst_filename db_name (Some (lv_level_num (ls ! (i + 1)))) ts \<in> sst_path ` set (lv_sstables tgt')"
proof -
  let ?src = "ls ! i" and ?tgt = "ls ! (i + 1)" and ?P = "overlaps a b"
  let ?dd = "lv_is_terminal ?tgt" and ?O = "overlapping_files a b ?tgt"
  from tables_hold_filter [OF tgt, of ?P] obtain Os Rs where Os: "tables_hold d ?O Os"
    and Rs: "tables_hold d (filter (\<lambda>x. \<not> ?P x) (lv_sstables ?tgt)) Rs"
    and ms: "mset (concat Ts) = mset (concat Os) + mset (concat Rs)"
    and full: "(\<forall>x \<in> set (lv_sstables ?tgt). ?P x) \<longrightarrow> Os = Ts \<and> Rs = []" unfolding overlapping_files_def by blast
  have dist: "distinct (map fst (concat Os @ concat Rs))" using distinct_keys_mset [of "concat Ts" "concat Os @ concat Rs"] ms dk by simp
  let ?es = "concat Ss @ concat Os"
  from merge_tables_holds [OF src mt_holds_new, of ?dd now]
  obtain m1 where m1: "fold_res (merge_table ?dd now d) (level_iter ?src) memtable_new = Inr m1" "mt_holds m1 (merged ?dd now (concat Ss))" by auto
  from merge_tables_holds [OF Os m1(2), of ?dd now]
  obtain m where m: "fold_res (merge_table ?dd now d) ?O m1 = Inr m" "mt_holds m (merged ?dd now ?es)" by (auto simp: merged_simps)
  have "length (merged ?dd now ?es) \<le> length ?es" by (rule length_merged)
  moreover have "length (concat Os) \<le> length (concat Ts)" using ms by (metis le_add1 size_mset size_union)
  ultimately have ok: "bt_ok (mt_entries m)" "\<forall>p \<in> set (mt_entries m). entry_fits p" "length (mt_entries m) < 2 ^ 40"
    using m(2) n by (auto simp: mt_holds_def mt_ok_def)
  from from_memtable_holds [OF ok bs fresh, of "lvl_block_compression s"]
  obtain sst d1 where w: "from_memtable ts db_name m (Some (lv_level_num ?tgt)) (lvl_block_size_bytes s) (lvl_block_compression s) d = Inr (sst, d1)"
    and h: "sst_holds d1 sst (mt_entries m)" and path: "sst_path sst = sst_filename db_name (Some (lv_level_num ?tgt)) ts"
    and d1: "\<forall>n. n \<noteq> sst_path sst \<longrightarrow> map_of d1 n = map_of d n" by blast
  have new: "sst_path sst \<noteq> sst_path x" if "x \<in> set (lv_sstables ?src @ lv_sstables ?tgt)" for x
    using that fresh path tables_hold_files [OF tgt, of x] tables_hold_files [OF src, of x] by (auto simp: level_iter_def)
  have old: "map_of d1 (sst_path x) = map_of d (sst_path x)" if "x \<in> set (lv_sstables ?src @ lv_sstables ?tgt)" for x
    using d1 new [OF that] by metis
  have dp: "distinct (map sst_path ?O)" using paths by (auto simp: overlapping_files_def distinct_map_filter)
  then have rd: "remdups (map sst_path ?O) = map sst_path ?O" by (simp add: distinct_remdups_id)
  have "\<forall>n \<in> set (map sst_path ?O). map_of d1 n \<noteq> None"
    using old tables_hold_files [OF tgt] by (auto simp: overlapping_files_def)
  from fold_remove_files [OF dp this] obtain d2 where d2: "fold_res remove_file (map sst_path ?O) d1 = Inr d2"
    "\<forall>n. map_of d2 n = (if n \<in> set (map sst_path ?O) then None else map_of d1 n)" by blast
  have sp: "sst_path x \<notin> set (map sst_path ?O)" if "x \<in> set (lv_sstables ?src)" for x
    using tables_hold_paths_disjoint [OF paths that] by (auto simp: overlapping_files_def)
  have ds: "distinct (map sst_path (level_iter ?src))" using paths by (simp add: level_iter_def flip: rev_map)
  have "\<forall>n \<in> set (map sst_path (level_iter ?src)). map_of d2 n \<noteq> None"
    using d2(2) sp old tables_hold_files [OF src] by (auto simp: level_iter_def)
  from fold_remove_files [OF ds this] obtain d' where d': "fold_res remove_file (map sst_path (level_iter ?src)) d2 = Inr d'"
    "\<forall>n. map_of d' n = (if n \<in> set (map sst_path (level_iter ?src)) then None else map_of d2 n)" by blast
  have ret: "filter (\<lambda>x. sst_path x \<notin> set (map sst_path ?O)) (lv_sstables ?tgt) = filter (\<lambda>x. \<not> ?P x) (lv_sstables ?tgt)"
  proof (rule filter_cong [OF refl])
    fix x assume x: "x \<in> set (lv_sstables ?tgt)"
    have "inj_on sst_path (set (lv_sstables ?tgt))" using paths by (simp add: distinct_map)
    then show "(sst_path x \<notin> set (map sst_path ?O)) = (\<not> ?P x)"
      using x by (auto simp: overlapping_files_def dest: inj_onD)
  qed
  define tgt' where "tgt' = level_append sst (?tgt\<lparr>lv_sstables := filter (\<lambda>x. \<not> ?P x) (lv_sstables ?tgt)\<rparr>)"
  have run: "compact_levels now ts (i, i + 1) db_name d s = Inr (s\<lparr>lvl_levels := ls[i + 1 := tgt', i := ?src\<lparr>lv_sstables := []\<rparr>]\<rparr>, d')"
    using i range m1(1) m(1) w d2(1) d'(1) unfolding compact_levels_def ls_def [symmetric] rd ret tgt'_def
    by (simp add: Let_def rd [unfolded Suc_eq_plus1 [symmetric]] ret [simplified])
  have keep: "map_of d' (sst_path x) = map_of d (sst_path x)" if "x \<in> set (lv_sstables ?tgt)" "\<not> ?P x" for x
  proof -
    have "x \<in> set (filter (\<lambda>x. sst_path x \<notin> set (map sst_path ?O)) (lv_sstables ?tgt))" unfolding ret using that by simp
    then have "sst_path x \<notin> set (map sst_path ?O)" by simp
    moreover have "sst_path x \<notin> set (map sst_path (level_iter ?src))"
      using tables_hold_paths_disjoint [OF paths _ that(1)] by (fastforce simp: level_iter_def)
    ultimately show ?thesis using d'(2) d2(2) old [of x] that(1) by simp
  qed
  have "map_of d' (sst_path sst) = map_of d1 (sst_path sst)"
    using d'(2) d2(2) new by (auto simp: level_iter_def overlapping_files_def)
  then have "sst_holds d' sst (mt_entries m)" by (rule sst_holds_frame [OF h])
  moreover have "tables_hold d' (filter (\<lambda>x. \<not> ?P x) (lv_sstables ?tgt)) Rs" by (rule tables_hold_frame [OF Rs]) (use keep in auto)
  ultimately have hold: "tables_hold d' (lv_sstables tgt') (Rs @ [mt_entries m])"
    by (simp add: tgt'_def level_append_def tables_hold_append tables_hold_length)
  have mo: "map_of (mt_entries m) = map_of (merged ?dd now ?es)" using m(2) by (simp add: mt_holds_def)
  then have keys: "fst ` set (mt_entries m) \<subseteq> fst ` set ?es" using merged_keys [of ?dd now ?es] by (metis dom_map_of_conv_image_fst)
  have disj: "fst ` set ?es \<inter> fst ` set (concat Rs) = {}"
  proof -
    have "k \<notin> fst ` set (concat Rs)" if k: "k \<in> fst ` set (concat Ss)" for k
    proof
      assume "k \<in> fst ` set (concat Rs)"
      then obtain e where "(k, e) \<in> set (concat Rs)" by (metis imageE prod.collapse)
      from tables_hold_nth [OF Rs this] obtain x es where "\<not> ?P x" "sst_holds d x es" "(k, e) \<in> set es" by auto
      then have "\<not> (a \<le> k \<and> k \<le> b)" by (rule not_overlapping)
      moreover obtain e' where "(k, e') \<in> set (concat Ss)" using k by (metis imageE prod.collapse)
      ultimately show False using key_range_covers [OF range src] by blast
    qed
    moreover have "k \<notin> fst ` set (concat Rs)" if "k \<in> fst ` set (concat Os)" for k using dist that by auto
    ultimately show ?thesis unfolding set_append image_Un by blast
  qed
  then have "fst ` set (mt_entries m) \<inter> fst ` set (concat Rs) = {}" using keys by blast
  then have dk': "distinct (map fst (concat (Rs @ [mt_entries m])))"
    using dist ok(1) bt_ok_distinct by (auto simp: Int_commute)
  have val: "value_at t (concat (rev (Rs @ [mt_entries m]))) k = value_at t (concat Ss @ concat (rev Ts)) k"
    if "?dd \<longrightarrow> no_shadow now (concat Ss @ concat Ts)" "now \<le> t" for t k
    using merge_value [OF dk ms mo that(1) disj that(2)] by simp
  have whole: "map_of (concat (Rs @ [mt_entries m])) = map_of (merged ?dd now (concat Ss @ concat Ts))"
    if "\<forall>x \<in> set (lv_sstables ?tgt). ?P x" using full that mo by simp
  have dom: "fst ` set (concat (Rs @ [mt_entries m])) = fst ` set (concat Ss @ concat Ts)" if "\<not> ?dd"
  proof -
    have "fst ` set (mt_entries m) = fst ` set (merged False now ?es)" using mo that by (metis dom_map_of_conv_image_fst)
    also have "\<dots> = fst ` set ?es" by (rule merged_keys_keep)
    finally have N: "fst ` set (mt_entries m) = fst ` set (concat Ss) \<union> fst ` set (concat Os)" by (simp only: set_append image_Un)
    have "set (concat Ts) = set (concat Os) \<union> set (concat Rs)"
      using mset_eq_setD [of "concat Ts" "concat Os @ concat Rs"] ms by simp
    then have T: "fst ` set (concat Ts) = fst ` set (concat Os) \<union> fst ` set (concat Rs)" by (simp only: image_Un)
    have "concat (Rs @ [mt_entries m]) = concat Rs @ mt_entries m" by simp
    then show ?thesis by (simp only: set_append image_Un N T Un_ac)
  qed
  have sub: "fst ` set (concat (Rs @ [mt_entries m])) \<subseteq> fst ` set (concat Ss @ concat Ts)"
  proof -
    have T: "set (concat Ts) = set (concat Os) \<union> set (concat Rs)"
      using mset_eq_setD [of "concat Ts" "concat Os @ concat Rs"] ms by simp
    have "concat (Rs @ [mt_entries m]) = concat Rs @ mt_entries m" by simp
    then show ?thesis using keys by (simp only: set_append image_Un T) blast
  qed
  have tp: "distinct (map sst_path (lv_sstables tgt'))"
    using paths new by (fastforce simp: tgt'_def level_append_def distinct_map_filter)
  show ?thesis
    using run hold dk' val whole dom d1 d2(2) d'(2) path sub tp
    by (intro exI [of _ d'] exI [of _ "?src\<lparr>lv_sstables := []\<rparr>"] exI [of _ tgt'] exI [of _ "Rs @ [mt_entries m]"])
      (auto simp: tgt'_def level_append_def level_iter_def overlapping_files_def)
qed

lemma levels_split:
  assumes "i + 1 < length ls"
  shows "concat (map f (ls[i + 1 := y, i := x])) = concat (map f (take i ls)) @ f x @ f y @ concat (map f (drop (i + 2) ls))"
    and "concat (map f ls) = concat (map f (take i ls)) @ f (ls ! i) @ f (ls ! (i + 1)) @ concat (map f (drop (i + 2) ls))"
proof -
  have split: "ls = take i ls @ ls ! i # ls ! (i + 1) # drop (i + 2) ls"
    using assms by (metis Suc_eq_plus1 add_2_eq_Suc' add_lessD1 id_take_nth_drop Cons_nth_drop_Suc)
  then show "concat (map f ls) = concat (map f (take i ls)) @ f (ls ! i) @ f (ls ! (i + 1)) @ concat (map f (drop (i + 2) ls))"
    by (metis append.assoc concat.simps(2) concat_append list.simps(9) map_append)
  have "ls[i + 1 := y, i := x] = take i ls @ x # y # drop (i + 2) ls"
    using assms by (subst split) (simp add: list_update_append)
  then show "concat (map f (ls[i + 1 := y, i := x])) = concat (map f (take i ls)) @ f x @ f y @ concat (map f (drop (i + 2) ls))"
    by simp
qed

text \<open>C21. Merging a level into the next one changes no answer: provided the tables of the target have no key in common
  and, at a terminal target, no dead record of the merged levels hides a live one, \<open>compact_levels\<close> returns and every
  key reads at every later time as before, through all levels. The tables of the target have no key in common afterwards.\<close>

theorem leveled_compact_levels_correct:
  fixes s :: leveled
  defines "ls \<equiv> lvl_levels s"
  assumes "i + 1 < length ls"
    and "tables_hold d (concat (map level_iter (take i ls))) Ps" and "tables_hold d (level_iter (ls ! i)) Ss"
    and "tables_hold d (lv_sstables (ls ! (i + 1))) Ts" and "tables_hold d (concat (map level_iter (drop (i + 2) ls))) Qs"
    and "distinct (map sst_path (leveled_iter_all s))" and "distinct (map fst (concat Ts))"
    and "length (concat Ss) + length (concat Ts) < 2 ^ 40" and "lvl_block_size_bytes s < 2 ^ 31"
    and "map_of d (sst_filename db_name (Some (lv_level_num (ls ! (i + 1)))) ts) = None"
    and "lv_is_terminal (ls ! (i + 1)) \<longrightarrow> no_shadow now (concat Ss @ concat Ts)"
    and "lv_is_terminal (ls ! (i + 1)) \<longrightarrow> i + 2 = length ls"
  shows "\<exists>s' d' Ts'. compact_levels now ts (i, i + 1) db_name d s = Inr (s', d') \<and>
           tables_hold d' (lv_sstables (lvl_levels s' ! (i + 1))) Ts' \<and> distinct (map fst (concat Ts')) \<and>
           (\<forall>t k. now \<le> t \<longrightarrow>
              and_then (leveled_iter_for_key k s') (lookup_segments (\<lambda>_. t) 0 d' k) =
              and_then (leveled_iter_for_key k s) (lookup_segments (\<lambda>_. t) 0 d k))"
proof (cases "key_range (ls ! i)")
  case None
  then have "compact_levels now ts (i, i + 1) db_name d s = Inr (s, d)" using assms(2) by (simp add: compact_levels_def ls_def)
  then show ?thesis using assms(5,8) by (auto simp: ls_def)
next
  case (Some r)
  obtain a b where ab: "key_range (ls ! i) = Some (a, b)" using Some by (cases r) auto
  let ?pre = "concat (map level_iter (take i ls))" and ?post = "concat (map level_iter (drop (i + 2) ls))"
  have all: "leveled_iter_all s = ?pre @ level_iter (ls ! i) @ level_iter (ls ! (i + 1)) @ ?post"
    unfolding leveled_iter_all_def ls_def by (rule levels_split(2)) (use assms(2) ls_def in simp)
  have dp: "distinct (map sst_path (lv_sstables (ls ! i) @ lv_sstables (ls ! (i + 1))))"
    using assms(7) unfolding all by (auto simp: level_iter_def simp flip: rev_map)
  from compact_levels_holds [OF assms(2) [unfolded ls_def] assms(4) [unfolded ls_def] assms(5) [unfolded ls_def] assms(8)
      dp [unfolded ls_def] assms(9,10) assms(11) [unfolded ls_def] ab [unfolded ls_def], of now, folded ls_def] assms(12)
  obtain d' src' tgt' Ts' where run: "compact_levels now ts (i, i + 1) db_name d s = Inr (s\<lparr>lvl_levels := ls[i + 1 := tgt', i := src']\<rparr>, d')"
    and src': "lv_sstables src' = []" and tgt': "tables_hold d' (lv_sstables tgt') Ts'" and dk: "distinct (map fst (concat Ts'))"
    and val: "(lv_is_terminal (ls ! (i + 1)) \<longrightarrow> no_shadow now (concat Ss @ concat Ts)) \<longrightarrow>
         (\<forall>t k. now \<le> t \<longrightarrow> value_at t (concat (rev Ts')) k = value_at t (concat Ss @ concat (rev Ts)) k)"
    and dom: "\<not> lv_is_terminal (ls ! (i + 1)) \<longrightarrow> fst ` set (concat Ts') = fst ` set (concat Ss @ concat Ts)"
    and frame: "\<forall>n. n \<notin> sst_path ` set (lv_sstables (ls ! i) @ lv_sstables (ls ! (i + 1))) \<longrightarrow>
         n \<noteq> sst_filename db_name (Some (lv_level_num (ls ! (i + 1)))) ts \<longrightarrow> map_of d' n = map_of d n"
    by (elim exE conjE) (rule that)
  let ?s = "s\<lparr>lvl_levels := ls[i + 1 := tgt', i := src']\<rparr>"
  have all': "leveled_iter_all ?s = ?pre @ rev (lv_sstables tgt') @ ?post"
    using levels_split(1) [OF assms(2), of level_iter tgt' src'] src' by (simp add: leveled_iter_all_def level_iter_def)
  have keep: "map_of d' (sst_path x) = map_of d (sst_path x)" if "x \<in> set (?pre @ ?post)" for x
  proof -
    have "sst_path x \<noteq> sst_path y" if "y \<in> set (level_iter (ls ! i) @ level_iter (ls ! (i + 1)))" for y
      using distinct_middle [of sst_path ?pre "level_iter (ls ! i) @ level_iter (ls ! (i + 1))" ?post] assms(7) that \<open>x \<in> _\<close>
      unfolding all by simp
    then have "sst_path x \<notin> sst_path ` set (lv_sstables (ls ! i) @ lv_sstables (ls ! (i + 1)))"
      by (auto simp: level_iter_def)
    moreover have "map_of d (sst_path x) \<noteq> None"
      using that tables_hold_files [OF assms(3), of x] tables_hold_files [OF assms(6), of x] by auto
    moreover have "sst_path x \<noteq> sst_filename db_name (Some (lv_level_num (ls ! (i + 1)))) ts"
      using \<open>map_of d (sst_path x) \<noteq> None\<close> assms(11) by auto
    ultimately show ?thesis using frame by blast
  qed
  have pre: "tables_hold d' ?pre Ps" and post: "tables_hold d' ?post Qs"
    by (intro tables_hold_frame [OF assms(3)] tables_hold_frame [OF assms(6)] ballI keep; simp)+
  have "tables_hold d' (leveled_iter_all ?s) (Ps @ rev Ts' @ Qs)"
    unfolding all' using pre post tgt' by (intro tables_hold_appendI) (simp_all add: tables_hold_rev)
  note lookup' = lvl.lookup_key_const [OF this]
  have "tables_hold d (leveled_iter_all s) (Ps @ Ss @ rev Ts @ Qs)"
    unfolding all using assms(3-6)
    by (intro tables_hold_appendI) (simp_all add: level_iter_def tables_hold_rev)
  note lookup = lvl.lookup_key_const [OF this]
  have "value_at t (concat (Ps @ rev Ts' @ Qs)) k = value_at t (concat (Ps @ Ss @ rev Ts @ Qs)) k" if "now \<le> t" for t k
  proof -
    let ?A = "concat (rev Ts')" and ?B = "concat Ss @ concat (rev Ts)"
    have AB: "value_at t ?A k = value_at t ?B k" using val assms(12) that by blast
    have "value_at t (?A @ concat Qs) k = value_at t (?B @ concat Qs) k"
    proof (cases "lv_is_terminal (ls ! (i + 1))")
      case True
      then have "Qs = []" using assms(6,13) by (simp add: tables_hold_def)
      with AB show ?thesis by simp
    next
      case False
      with dom have "map_of ?A k = None \<longleftrightarrow> map_of ?B k = None" unfolding map_of_eq_None_iff by auto
      with AB show ?thesis by (simp only: value_at_append)
    qed
    then show ?thesis by (simp only: concat_append append_assoc value_at_append [of t "concat Ps"])
  qed
  then show ?thesis using run tgt' dk lookup lookup' assms(2) by (intro exI [of _ ?s] exI [of _ d'] exI [of _ Ts']) simp
qed

section \<open>Two levels, one key\<close>

text \<open>A store with a newer table at level 0 and an older one at a level 1 that is terminal or not.\<close>

definition two_level_store :: "bool \<Rightarrow> sstable \<Rightarrow> sstable \<Rightarrow> leveled" where
  "two_level_store terminal older newer =
     \<lparr>lvl_levels =
        [\<lparr>lv_sstables = [newer], lv_level_num = 0, lv_max_bytes = 1000, lv_l0_threshold = 1, lv_is_terminal = False\<rparr>,
         \<lparr>lv_sstables = [older], lv_level_num = 1, lv_max_bytes = 1000, lv_l0_threshold = 1, lv_is_terminal = terminal\<rparr>],
      lvl_block_size_bytes = 4096, lvl_block_compression = False\<rparr>"

lemma single_table_bounds:
  assumes "sst_holds d sst [(k, e)]"
  shows "map_option fst (sst_min sst) = Some k \<and> map_option fst (sst_max sst) = Some k"
  using assms by (simp add: sst_holds_def)

theorem leveled_compact_levels_correct_witness:
  "\<exists>s d s' d'. compact_levels 5 3 (0, 1) (lit ''db'') d s = Inr (s', d') \<and>
     and_then (leveled_iter_for_key (lit ''k'') s) (lookup_segments (\<lambda>_. 9) 0 d (lit ''k'')) = Inr (Some (lit ''2'')) \<and>
     and_then (leveled_iter_for_key (lit ''k'') s') (lookup_segments (\<lambda>_. 9) 0 d' (lit ''k'')) = Inr (Some (lit ''2''))"
proof -
  let ?k = "lit ''k''"
  obtain a b d where h: "tables_hold d [a, b] [[(?k, plain_entry ''1'')], [(?k, plain_entry ''2'')]]"
    and p: "distinct (map sst_path [a, b])" and f: "map_of d (sst_filename (lit ''db'') (Some 1) 3) = None"
    using two_tables [of ?k "plain_entry ''1''" "plain_entry ''2''"] by auto
  let ?s = "two_level_store True a b"
  have "tables_hold d (leveled_iter_all ?s) [[(?k, plain_entry ''2'')], [(?k, plain_entry ''1'')]]"
    using h by (simp add: two_level_store_def leveled_iter_all_def level_iter_def)
  from lvl.lookup_key_const [OF this, of ?k 9]
  have before: "and_then (leveled_iter_for_key ?k ?s) (lookup_segments (\<lambda>_. 9) 0 d ?k) = Inr (Some (lit ''2''))"
    by (simp add: value_at_def)
  have "\<exists>s' d' Ts'. compact_levels 5 3 (0, 0 + 1) (lit ''db'') d ?s = Inr (s', d') \<and>
           tables_hold d' (lv_sstables (lvl_levels s' ! (0 + 1))) Ts' \<and> distinct (map fst (concat Ts')) \<and>
           (\<forall>t k. 5 \<le> t \<longrightarrow>
              and_then (leveled_iter_for_key k s') (lookup_segments (\<lambda>_. t) 0 d' k) =
              and_then (leveled_iter_for_key k ?s) (lookup_segments (\<lambda>_. t) 0 d k))"
    by (rule leveled_compact_levels_correct [where Ps = "[]" and Qs = "[]" and Ss = "[[(?k, plain_entry ''2'')]]" and Ts = "[[(?k, plain_entry ''1'')]]"])
      (use h p f in \<open>auto simp: two_level_store_def leveled_iter_all_def level_iter_def no_shadow_def split: if_splits\<close>)
  then obtain s' d' where "compact_levels 5 3 (0, 1) (lit ''db'') d ?s = Inr (s', d')"
    and "\<forall>t k. 5 \<le> t \<longrightarrow> and_then (leveled_iter_for_key k s') (lookup_segments (\<lambda>_. t) 0 d' k) =
              and_then (leveled_iter_for_key k ?s) (lookup_segments (\<lambda>_. t) 0 d k)" by auto
  moreover have "(5 :: u64) \<le> 9" by simp
  ultimately show ?thesis using before by (intro exI [of _ ?s] exI [of _ d] exI [of _ s'] exI [of _ d']) simp
qed

text \<open>A deleted key comes back: there is a store in which a key was written, merged into the terminal level and
  deleted, so that it reads as absent, and after the deletion is merged into the terminal level the old value is read
  again. The tombstone is dropped without remembering its key, so the older record is taken for the
  newest one.\<close>

theorem leveled_terminal_resurrects:
  "\<exists>s d s' d'.
     and_then (leveled_iter_for_key (lit ''k'') s) (lookup_segments (\<lambda>_. 9) 0 d (lit ''k'')) = Inr None \<and>
     compact_levels 5 3 (0, 1) (lit ''db'') d s = Inr (s', d') \<and>
     and_then (leveled_iter_for_key (lit ''k'') s') (lookup_segments (\<lambda>_. 9) 0 d' (lit ''k'')) = Inr (Some (lit ''1''))"
proof -
  let ?k = "lit ''k''"
  obtain a b d where h: "tables_hold d [a, b] [[(?k, plain_entry ''1'')], [(?k, tombstone_entry)]]"
    and p: "distinct (map sst_path [a, b])" and f: "map_of d (sst_filename (lit ''db'') (Some 1) 3) = None"
    using two_tables [of ?k "plain_entry ''1''" tombstone_entry] by auto
  let ?s = "two_level_store True a b"
  have "tables_hold d (leveled_iter_all ?s) [[(?k, tombstone_entry)], [(?k, plain_entry ''1'')]]"
    using h by (simp add: two_level_store_def leveled_iter_all_def level_iter_def)
  from lvl.lookup_key_const [OF this, of ?k 9]
  have before: "and_then (leveled_iter_for_key ?k ?s) (lookup_segments (\<lambda>_. 9) 0 d ?k) = Inr None"
    by (simp add: value_at_def)
  have bounds: "\<exists>o1 o2. sst_min x = Some (?k, o1) \<and> sst_max x = Some (?k, o2)" if "x = a \<or> x = b" for x
    using that single_table_bounds [of d x ?k] h by auto
  have range: "key_range (lvl_levels ?s ! 0) = Some (?k, ?k)"
    using bounds [of b] by (auto simp: two_level_store_def key_range_def map_filter_def)
  have over: "overlaps ?k ?k a" using bounds [of a] by (auto simp: overlaps_def)
  obtain d' src' tgt' Ts' where run: "compact_levels 5 3 (0, 1) (lit ''db'') d ?s = Inr (?s\<lparr>lvl_levels := (lvl_levels ?s)[0 + 1 := tgt', 0 := src']\<rparr>, d')"
    and src': "lv_sstables src' = []" and tgt': "tables_hold d' (lv_sstables tgt') Ts'" and dk: "distinct (map fst (concat Ts'))"
    and m: "map_of (concat Ts') = map_of (merged True 5 (concat [[(?k, tombstone_entry)]] @ concat [[(?k, plain_entry ''1'')]]))"
    using compact_levels_holds [where s = ?s and i = 0 and Ss = "[[(?k, tombstone_entry)]]" and Ts = "[[(?k, plain_entry ''1'')]]"
        and a = ?k and b = ?k and d = d and db_name = "lit ''db''" and ts = 3 and now = 5] h p f range over
    by (auto simp: two_level_store_def level_iter_def)
  let ?s' = "?s\<lparr>lvl_levels := (lvl_levels ?s)[0 + 1 := tgt', 0 := src']\<rparr>"
  have "tables_hold d' (leveled_iter_all ?s') (rev Ts')"
    using tgt' src' by (simp add: two_level_store_def leveled_iter_all_def level_iter_def tables_hold_rev)
  note after = lvl.lookup_key_const [OF this, of ?k 9]
  have revs: "mset (concat (rev Ts')) = mset (concat Ts')" by (simp add: mset_concat rev_map [symmetric] sum_list_rev)
  have "map_of (concat (rev Ts')) = map_of (concat Ts')"
    using distinct_keys_mset [OF revs] dk mset_eq_setD [OF revs] by (intro map_of_perm) simp_all
  then have "value_at 9 (concat (rev Ts')) ?k = Some (lit ''1'')" using m by (simp add: value_at_def merged_simps norm_entry_def)
  then show ?thesis using before run after by (intro exI [of _ ?s] exI [of _ d] exI [of _ ?s'] exI [of _ d']) simp
qed

end
