(* ===== verification/Wal_Log.thy ===== *)
theory Wal_Log
  imports Memtable_Model
begin

text \<open>
  \<^verbatim>\<open>src/wal.rs\<close>: the write-ahead log, a file of records. Its state is the bytes of the file.
  \<open>wal_replay_parse\<close> reads the replay loop as a fold over the records that parse; the recovery theorem
  then follows from the record codec's laws on streams.
\<close>

section \<open>Operations\<close>

definition wal_flags :: "bool \<Rightarrow> u64 option \<Rightarrow> u8" where
  "wal_flags tombstone expiry_ms =
     (let flags = 0;
          flags = (if tombstone then flags OR FLAG_TOMBSTONE else flags);
          flags = (if expiry_ms \<noteq> None then flags OR FLAG_HAS_EXPIRY else flags)
      in flags)"

definition wal_append :: "rstring \<Rightarrow> rstring \<Rightarrow> bool \<Rightarrow> u64 option \<Rightarrow> bytes \<Rightarrow> u64 \<times> bytes" where
  "wal_append key value tombstone expiry_ms file =
     record_append (mk_record key value (wal_flags tombstone expiry_ms) expiry_ms) file"

text \<open>One record of the log applied to the memtable.\<close>

definition replay_record :: "disk_record \<Rightarrow> memtable \<Rightarrow> memtable res" where
  "replay_record r m =
     (if is_tombstone (rec_header r) then memtable_remove (rec_key r) m
      else memtable_insert (rec_key r) (rec_value r) (hdr_expiry_ms (rec_header r)) m)"

function wal_replay_loop :: "bytes \<Rightarrow> memtable \<Rightarrow> memtable res" where
  "wal_replay_loop bs m =
     (if bs = [] then Inr m
      else case read_next bs of
        Inr (r, rest) \<Rightarrow> and_then (replay_record r m) (wal_replay_loop rest)
      | Inl (IoError k p) \<Rightarrow> if k = UnexpectedEof \<or> k = InvalidData then Inr m else Inl (IoError k p)
      | Inl (Panic s) \<Rightarrow> Inl (Panic s))"
  by pat_completeness auto
termination
  by (relation "measure (\<lambda>(bs, m). length bs)") (auto dest: read_next_shrinks)

declare wal_replay_loop.simps [simp del]

definition wal_replay :: "bytes \<Rightarrow> memtable res" where
  "wal_replay file = wal_replay_loop file memtable_new"

definition wal_reset :: "bytes \<Rightarrow> bytes" where
  "wal_reset file = take 0 file"

section \<open>Replay as a fold over the records\<close>

definition replay_stop :: "failure option \<Rightarrow> memtable \<Rightarrow> memtable res" where
  "replay_stop e m =
     (case e of
        None \<Rightarrow> Inr m
      | Some (IoError k p) \<Rightarrow> if k = UnexpectedEof \<or> k = InvalidData then Inr m else Inl (IoError k p)
      | Some (Panic s) \<Rightarrow> Inl (Panic s))"

lemma wal_replay_loop_parse:
  "wal_replay_loop bs m =
     (case parse_all read_next bs of (rs, e) \<Rightarrow> and_then (fold_res replay_record rs m) (replay_stop e))"
proof (induction bs m rule: wal_replay_loop.induct)
  case (1 bs m)
  show ?case
  proof (cases "bs = []")
    case True
    then show ?thesis by (simp add: wal_replay_loop.simps replay_stop_def)
  next
    case False
    show ?thesis
    proof (cases "read_next bs")
      case (Inl f)
      with False show ?thesis
        by (simp add: wal_replay_loop.simps parse_all.simps replay_stop_def split: failure.splits)
    next
      case (Inr p)
      obtain r rest where p: "p = (r, rest)" by (cases p)
      with Inr have dec: "read_next bs = Inr (r, rest)" by simp
      then have shrink: "length rest < length bs" by (rule read_next_shrinks)
      show ?thesis
        using False dec shrink "1.IH" [OF False dec]
        by (cases "replay_record r m")
          (auto simp: wal_replay_loop.simps [of bs m] parse_all.simps [of read_next bs] and_then_assoc
            split: prod.split)
    qed
  qed
qed

lemma replay_record_ok:
  assumes "mt_ok m"
  shows "\<exists>m'. replay_record r m = Inr m' \<and> mt_ok m' \<and>
     mt_entries m' = bt_insert (rec_key r)
       (if is_tombstone (rec_header r) then \<lparr>me_value = None, me_expiry_ms = None\<rparr>
        else \<lparr>me_value = Some (rec_value r), me_expiry_ms = hdr_expiry_ms (rec_header r)\<rparr>) (mt_entries m)"
  using memtable_remove_spec [OF assms, of "rec_key r"]
    memtable_insert_spec [OF assms, of "rec_key r" "rec_value r" "hdr_expiry_ms (rec_header r)"]
  by (auto simp: replay_record_def)

text \<open>What a record of the log means: an entry of the memtable.\<close>

definition logged_entry :: "disk_record \<Rightarrow> memtable_entry" where
  "logged_entry r =
     (if is_tombstone (rec_header r) then \<lparr>me_value = None, me_expiry_ms = None\<rparr>
      else \<lparr>me_value = Some (rec_value r), me_expiry_ms = hdr_expiry_ms (rec_header r)\<rparr>)"

lemma logged_entry_stored [simp]: "logged_entry (stored r) = logged_entry r"
  by (simp add: logged_entry_def)

lemma fold_replay_ok:
  "mt_ok m \<Longrightarrow> \<exists>m'. fold_res replay_record rs m = Inr m' \<and> mt_ok m' \<and>
     mt_entries m' = fold (\<lambda>r. bt_insert (rec_key r) (logged_entry r)) rs (mt_entries m)"
proof (induction rs arbitrary: m)
  case (Cons r rs)
  from replay_record_ok [OF Cons.prems, of r] obtain m1 where m1: "replay_record r m = Inr m1" "mt_ok m1"
    "mt_entries m1 = bt_insert (rec_key r) (logged_entry r) (mt_entries m)"
    by (auto simp: logged_entry_def)
  with Cons.IH [OF m1(2)] show ?case by auto
qed simp

lemma fold_log_lookup:
  "bt_ok es \<Longrightarrow> map_of (fold (\<lambda>r. bt_insert (rec_key r) (logged_entry r)) rs es) k =
     (case map_of (rev (map (\<lambda>r. (rec_key r, logged_entry r)) rs)) k of
        Some e \<Rightarrow> Some e | None \<Rightarrow> map_of es k)"
  by (induction rs arbitrary: es rule: rev_induct) (auto simp: map_of_bt_insert split: option.splits)

section \<open>Recovery\<close>

text \<open>A log operation: the key, the value, whether it is a tombstone, the expiry; what \<open>Wal::append\<close>
  is called with.\<close>

type_synonym wal_op = "rstring \<times> rstring \<times> bool \<times> u64 option"

definition op_record :: "wal_op \<Rightarrow> disk_record" where
  "op_record = (\<lambda>(k, v, t, x). mk_record k v (wal_flags t x) x)"

definition op_fits :: "wal_op \<Rightarrow> bool" where
  "op_fits = (\<lambda>(k, v, t, x). len k \<le> MAX_KEY_SIZE \<and> len v \<le> MAX_VALUE_SIZE)"

definition op_entry :: "wal_op \<Rightarrow> rstring \<times> memtable_entry" where
  "op_entry = (\<lambda>(k, v, t, x). (k, if t then \<lparr>me_value = None, me_expiry_ms = None\<rparr>
                                   else \<lparr>me_value = Some v, me_expiry_ms = x\<rparr>))"

text \<open>The log after a sequence of appends.\<close>

definition wal_of :: "wal_op list \<Rightarrow> bytes" where
  "wal_of ops = fold (\<lambda>(k, v, t, x) file. snd (wal_append k v t x file)) ops []"

lemma wal_flags_expiry: "wal_flags t x AND FLAG_HAS_EXPIRY = 0 \<longleftrightarrow> x = None"
  by (simp add: wal_flags_def)

lemma wal_flags_tombstone: "wal_flags t x AND FLAG_TOMBSTONE = 0 \<longleftrightarrow> \<not> t"
  by (simp add: wal_flags_def)

lemma op_record_ok: "op_fits opn \<Longrightarrow> record_ok (op_record opn)"
  by (cases opn)
    (auto simp: op_fits_def op_record_def record_fits_def MAX_KEY_SIZE_def MAX_VALUE_SIZE_def
      wal_flags_expiry intro!: record_wf_mk_record)

lemma op_record_entry: "(rec_key (op_record opn), logged_entry (op_record opn)) = op_entry opn"
  by (cases opn) (auto simp: op_record_def op_entry_def logged_entry_def is_tombstone_def wal_flags_tombstone)

lemma wal_of_concat: "wal_of ops = concat (map (\<lambda>opn. record_bytes (op_record opn)) ops)"
proof -
  have "fold (\<lambda>(k, v, t, x) file. snd (wal_append k v t x file)) ops f
      = f @ concat (map (\<lambda>opn. record_bytes (op_record opn)) ops)" for f
    by (induction ops arbitrary: f)
      (auto simp: wal_append_def record_append_def op_record_def)
  then show ?thesis by (simp add: wal_of_def)
qed

lemma wal_replay_clean:
  assumes "\<forall>opn \<in> set ops. op_fits opn"
    and "parse_all read_next tail = ([], e)" and "replay_stop e = Inr"
  shows "\<exists>m. wal_replay (wal_of ops @ tail) = Inr m \<and> mt_ok m
     \<and> (\<forall>k. memtable_get_entry m k = map_of (rev (map op_entry ops)) k)"
proof -
  let ?rs = "map op_record ops"
  have "\<forall>r \<in> set ?rs. record_ok r" using assms(1) op_record_ok by auto
  then have "parse_all read_next (wal_of ops @ tail) = (map stored ?rs, e)"
    using rec.parse_all_append [of ?rs tail] assms(2) by (simp add: wal_of_concat comp_def)
  moreover obtain m where m: "fold_res replay_record (map stored ?rs) memtable_new = Inr m" "mt_ok m"
    "mt_entries m = fold (\<lambda>r. bt_insert (rec_key r) (logged_entry r)) (map stored ?rs) []"
    using fold_replay_ok [OF memtable_new_ok, of "map stored ?rs"] by (auto simp: memtable_new_def)
  moreover have "map (\<lambda>r. (rec_key r, logged_entry r)) (map stored ?rs) = map op_entry ops"
    using op_record_entry by simp
  then have "memtable_get_entry m k = map_of (rev (map op_entry ops)) k" for k
    unfolding memtable_get_entry_def m(3) by (simp only: fold_log_lookup bt_ok_Nil) (simp split: option.split)
  ultimately show ?thesis
    using assms(3) by (simp add: wal_replay_def wal_replay_loop_parse)
qed

lemma wal_replay_torn:
  assumes "\<forall>opn \<in> set ops. op_fits opn" and "op_fits torn" and "n < length (record_bytes (op_record torn))"
  shows "\<exists>m. wal_replay (wal_of ops @ take n (record_bytes (op_record torn))) = Inr m \<and> mt_ok m
     \<and> (\<forall>k. memtable_get_entry m k = map_of (rev (map op_entry ops)) k)"
proof (cases "n = 0")
  case True
  then show ?thesis
    using wal_replay_clean [OF assms(1), of "[]" None] by (simp add: replay_stop_def fun_eq_iff)
next
  case False
  with rec.parse_all_torn [of "[]" "op_record torn" n] op_record_ok [OF assms(2)] assms(3)
  have "parse_all read_next (take n (record_bytes (op_record torn))) = ([], Some (IoError UnexpectedEof OsError))"
    by simp
  from wal_replay_clean [OF assms(1) this] show ?thesis by (simp add: replay_stop_def fun_eq_iff)
qed

text \<open>C17. crash recovery. Replaying a log that holds any sequence of appends followed by a torn last
  record (a proper prefix of a record, as a crash in the middle of an append leaves it) rebuilds the
  memtable in which every key has the entry of the last completed append for it.\<close>

theorem wal_replay_recovers:
  assumes "\<forall>opn \<in> set ops. op_fits opn" and "op_fits torn" and "n < length (record_bytes (op_record torn))"
  shows "\<exists>m. wal_replay (wal_of ops @ take n (record_bytes (op_record torn))) = Inr m \<and> mt_ok m
     \<and> (\<forall>k. memtable_get_entry m k = map_of (rev (map op_entry ops)) k)"
  using assms by (rule wal_replay_torn)

theorem wal_replay_recovers_witness:
  "\<exists>m. wal_replay (wal_of [(lit ''k'', lit ''v'', False, None)] @ take 7 (record_bytes (op_record (lit ''k'', lit [], True, None)))) = Inr m
     \<and> memtable_get_entry m (lit ''k'') = Some \<lparr>me_value = Some (lit ''v''), me_expiry_ms = None\<rparr>"
proof -
  let ?op = "(lit ''k'', lit ''v'', False, None)"
  let ?torn = "(lit ''k'', lit [], True, None)"
  have fits: "\<forall>opn \<in> set [?op]. op_fits opn" "op_fits ?torn"
    by (simp_all add: op_fits_def  MAX_KEY_SIZE_def MAX_VALUE_SIZE_def)
  have "7 < length (record_bytes (op_record ?torn))" by (simp add: length_record_bytes)
  from wal_replay_recovers [OF fits this] show ?thesis by (auto simp: op_entry_def)
qed

end
