(* ===== verification/Engine_Api.thy ===== *)
theory Engine_Api
  imports Prelude
begin

text \<open>
  What the two storage engines share of src/src/engine.rs: the outcome of a change of expiry, and the contract a client of
  either engine relies on, stated once as the locale \<open>kv_store\<close>.
\<close>

datatype ttl_outcome = TtlSet | TtlPersisted | TtlNotFound

text \<open>The contract, for the states that satisfy \<open>inv\<close>: \<open>val t s k\<close> is the value of \<open>k\<close> at time \<open>t\<close>. A write may need
  \<open>room\<close> in the state; it binds its key until the expiry and changes no other key. A delete unbinds its key.\<close>

locale kv_store =
  fixes inv :: "'s \<Rightarrow> bool"
    and room :: "u64 \<Rightarrow> 's \<Rightarrow> bool"
    and val :: "u64 \<Rightarrow> 's \<Rightarrow> rstring \<Rightarrow> rstring option"
    and fits :: "rstring \<Rightarrow> rstring \<Rightarrow> bool"
    and get :: "u64 \<Rightarrow> rstring \<Rightarrow> 's \<Rightarrow> (rstring \<times> rstring) option res"
    and set :: "u64 \<Rightarrow> rstring \<Rightarrow> rstring \<Rightarrow> u64 option \<Rightarrow> 's \<Rightarrow> 's res"
    and delete :: "u64 \<Rightarrow> u64 \<Rightarrow> rstring \<Rightarrow> 's \<Rightarrow> (unit option \<times> 's) res"
  assumes get_val: "inv s \<Longrightarrow> get t k s = Inr (map_option (Pair k) (val t s k))"
    and set_law: "inv s \<Longrightarrow> room ts s \<Longrightarrow> fits k v \<Longrightarrow>
      \<exists>s'. set ts k v x s = Inr s' \<and> inv s' \<and>
        (\<forall>t j. val t s' j = (if j = k then (if (\<exists>e. x = Some e \<and> e \<le> t) then None else Some v) else val t s j))"
    and delete_law: "inv s \<Longrightarrow> room ts s \<Longrightarrow> fits k v \<Longrightarrow>
      \<exists>r s'. delete ts now k s = Inr (r, s') \<and> inv s' \<and> (\<forall>t j. val t s' j = (if j = k then None else val t s j))"
begin

lemma read_your_write:
  assumes "inv s" and "room ts s" and "fits k v"
  shows "\<exists>s'. set ts k v None s = Inr s' \<and> (\<forall>t. get t k s' = Inr (Some (k, v)))"
  using set_law [OF assms, of None] get_val by fastforce

lemma delete_after_set:
  assumes "inv s" and "room ts s" and "fits k v" and "\<And>s'. set ts k v x s = Inr s' \<Longrightarrow> room ts' s'"
  shows "\<exists>s' r s''. set ts k v x s = Inr s' \<and> delete ts' now k s' = Inr (r, s'') \<and> (\<forall>t. get t k s'' = Inr None)"
proof -
  from set_law [OF assms(1-3), of x] obtain s' where s': "set ts k v x s = Inr s'" "inv s'" by blast
  from delete_law [OF s'(2) assms(4) [OF s'(1)] assms(3), of now] obtain r s'' where
    "delete ts' now k s' = Inr (r, s'')" "inv s''" "\<forall>t j. val t s'' j = (if j = k then None else val t s' j)" by blast
  with s' get_val show ?thesis by auto
qed

end

end
