(* ===== verification/Lsm_Engine.thy ===== *)
theory Lsm_Engine
  imports Size_Tiered Leveled_Store Wal_Log Engine_Api
begin

text \<open>
  \<^verbatim>\<open>src/lsmengine.rs\<close>: the LSM engine. Its state is a record with the active and the immutable memtable, the
  write-ahead log, the strategy with its tables, the data directory and the phase of the background flush thread; a
  clock reading is an argument. An operation is one step, also where the source takes its locks one after the other: a
  write releases the log and the memtable before it starts a flush, a deletion and a change of expiry read before they lock
  for the write, so that two clients on different workers can interleave there, which is not modelled. The
  background thread moves in the steps of \<open>flush_step\<close> between the operations, and a join runs the steps that are left. The
  two operations whose lock sections matter most are split in other theories: \<open>compact\<close> and \<open>list_keys\<close>, with the races
  that lose data (\<open>lsm_compact_loses_flush\<close>, \<open>lsm_list_keys_race\<close>).
  After an error the model gives no state.
\<close>

section \<open>The strategy as a trait object\<close>

datatype strategy = SizeTieredS size_tiered | LeveledS leveled

fun str_add_sstable :: "'f f64 \<Rightarrow> sstable \<Rightarrow> dir \<Rightarrow> strategy \<Rightarrow> strategy res" where
  "str_add_sstable F sst d (SizeTieredS s) = and_then (st_add_sstable F sst d s) (\<lambda>s. Inr (SizeTieredS s))"
| "str_add_sstable F sst d (LeveledS s) = and_then (leveled_add_sstable sst d s) (\<lambda>s. Inr (LeveledS s))"

text \<open>\<open>clk i\<close> holds the clock readings of the work on level \<open>i\<close>; the size-tiered strategy works once.\<close>

fun str_compact_if_needed ::
  "(nat \<Rightarrow> u64 \<times> u64) \<Rightarrow> rstring \<Rightarrow> dir \<Rightarrow> strategy \<Rightarrow> (bool \<times> strategy \<times> dir) res" where
  "str_compact_if_needed clk db_name d (SizeTieredS s) =
     and_then (st_compact_if_needed (fst (clk 0)) (snd (clk 0)) db_name d s) (\<lambda>(b, s, d). Inr (b, SizeTieredS s, d))"
| "str_compact_if_needed clk db_name d (LeveledS s) =
     and_then (leveled_compact_if_needed (fst (clk 0)) (snd (clk 0)) db_name d s) (\<lambda>(b, s, d). Inr (b, LeveledS s, d))"

fun str_compact_all :: "(nat \<Rightarrow> u64 \<times> u64) \<Rightarrow> rstring \<Rightarrow> dir \<Rightarrow> strategy \<Rightarrow> (strategy \<times> dir) res" where
  "str_compact_all clk db_name d (SizeTieredS s) =
     and_then (st_compact_all (fst (clk 0)) (snd (clk 0)) db_name d s) (\<lambda>(s, d). Inr (SizeTieredS s, d))"
| "str_compact_all clk db_name d (LeveledS s) =
     and_then (leveled_compact_all clk db_name d s) (\<lambda>(s, d). Inr (LeveledS s, d))"

fun str_iter_for_key :: "rstring \<Rightarrow> strategy \<Rightarrow> sstable list res" where
  "str_iter_for_key key (SizeTieredS s) = st_iter_for_key key s"
| "str_iter_for_key key (LeveledS s) = leveled_iter_for_key key s"

fun str_iter_files_for_range :: "rstring \<Rightarrow> rstring \<Rightarrow> strategy \<Rightarrow> sstable list" where
  "str_iter_files_for_range start end_key (SizeTieredS s) = st_iter_files_for_range start end_key s"
| "str_iter_files_for_range start end_key (LeveledS s) = leveled_iter_files_for_range start end_key s"

fun str_iter_all :: "strategy \<Rightarrow> sstable list" where
  "str_iter_all (SizeTieredS s) = st_iter_all s"
| "str_iter_all (LeveledS s) = leveled_iter_all s"

fun str_segment_count :: "strategy \<Rightarrow> nat" where
  "str_segment_count (SizeTieredS s) = st_segment_count s"
| "str_segment_count (LeveledS s) = leveled_segment_count s"

interpretation str: storage_strategy "str_add_sstable F" str_iter_all str_iter_for_key str_iter_files_for_range str_segment_count for F
proof
  fix sst d s s' k a b
  show "str_add_sstable F sst d s = Inr s' \<Longrightarrow> \<exists>xs ys. str_iter_all s = xs @ ys \<and> str_iter_all s' = xs @ sst # ys"
    by (cases s) (auto simp: and_then_Inr_iff dest: st.add_tables lvl.add_tables)
  show "str_iter_for_key k s = filter_bloom k (str_iter_all s)"
    by (cases s) (simp_all add: st.for_key_eq lvl.for_key_eq)
  show "str_iter_files_for_range a b s = files_for_range a b (str_iter_all s)"
    by (cases s) (simp_all add: st.for_range_eq lvl.for_range_eq)
  show "str_segment_count s = length (str_iter_all s)"
    by (cases s) (simp_all add: st.count_eq lvl.count_eq)
qed

section \<open>State\<close>

text \<open>The background flush thread: writing the table, adding it, dropping the immutable memtable, done.\<close>

datatype flush_phase = FlushWrite | FlushAdd sstable | FlushClear | FlushDone

record lsm =
  lsm_active :: memtable
  lsm_immutable :: "memtable option"
  lsm_flush_handle :: "flush_phase option"
  lsm_db_name :: rstring
  lsm_max_memtable_bytes :: nat
  lsm_wal :: bytes
  lsm_strategy :: strategy
  lsm_block_size_bytes :: nat
  lsm_block_compression :: bool
  lsm_dir :: dir



section \<open>Reading\<close>

text \<open>What a memtable entry says: the match on its value and its expiry.\<close>

definition memtable_value :: "u64 \<Rightarrow> memtable_entry \<Rightarrow> rstring option" where
  "memtable_value now_ms entry =
     (case (me_value entry, me_expiry_ms entry) of
        (Some v, Some ms) \<Rightarrow> if is_expired ms now_ms then None else Some v
      | (Some v, None) \<Rightarrow> Some v
      | (None, _) \<Rightarrow> None)"

definition lookup ::
  "memtable \<Rightarrow> memtable option \<Rightarrow> strategy \<Rightarrow> dir \<Rightarrow> rstring \<Rightarrow> u64 \<Rightarrow> (nat \<Rightarrow> u64) \<Rightarrow> rstring option res" where
  "lookup active immutable strat d key now_ms clk =
     (case memtable_get_entry active key of
        Some entry \<Rightarrow> Inr (memtable_value now_ms entry)
      | None \<Rightarrow>
         (case Option.bind immutable (\<lambda>m. memtable_get_entry m key) of
            Some entry \<Rightarrow> Inr (memtable_value now_ms entry)
          | None \<Rightarrow> and_then (str_iter_for_key key strat) (lookup_segments clk 0 d key)))"

definition lsm_get :: "u64 \<Rightarrow> (nat \<Rightarrow> u64) \<Rightarrow> rstring \<Rightarrow> lsm \<Rightarrow> (rstring \<times> rstring) option res" where
  "lsm_get now clk key s =
     and_then (lookup (lsm_active s) (lsm_immutable s) (lsm_strategy s) (lsm_dir s) key now clk) (\<lambda>r.
       case r of Some v \<Rightarrow> Inr (Some (key, v)) | None \<Rightarrow> Inr None)"

definition lsm_exists :: "u64 \<Rightarrow> (nat \<Rightarrow> u64) \<Rightarrow> rstring \<Rightarrow> lsm \<Rightarrow> bool res" where
  "lsm_exists now clk key s =
     (case lsm_get now clk key s of
        Inr v \<Rightarrow> Inr (v \<noteq> None)
      | Inl (IoError _ _) \<Rightarrow> Inr False
      | Inl (Panic m) \<Rightarrow> Inl (Panic m))"

text \<open>\<open>now\<close> and \<open>clk\<close> of the \<open>i\<close>-th key.\<close>

fun lsm_mget :: "(nat \<Rightarrow> u64 \<times> (nat \<Rightarrow> u64)) \<Rightarrow> nat \<Rightarrow> rstring list \<Rightarrow> lsm \<Rightarrow> (rstring \<times> rstring option) list res" where
  "lsm_mget clks i [] s = Inr []"
| "lsm_mget clks i (key # keys) s =
     and_then (lsm_get (fst (clks i)) (snd (clks i)) key s) (\<lambda>r.
     and_then (lsm_mget clks (i + 1) keys s) (\<lambda>res.
       Inr ((case r of Some (k, v) \<Rightarrow> (k, Some v) | None \<Rightarrow> (key, None)) # res)))"

section \<open>Writing\<close>

definition apply_write ::
  "bytes \<Rightarrow> memtable \<Rightarrow> rstring \<Rightarrow> rstring option \<Rightarrow> u64 option \<Rightarrow> (bytes \<times> memtable \<times> nat) res" where
  "apply_write wal active key v expiry_ms =
     (case v of
        Some v \<Rightarrow>
          (let (_, wal) = wal_append key v False expiry_ms wal
           in and_then (memtable_insert key v expiry_ms active) (\<lambda>active. Inr (wal, active, mt_size_bytes active)))
      | None \<Rightarrow>
          (let (_, wal) = wal_append key (lit []) True None wal
           in and_then (memtable_remove key active) (\<lambda>active. Inr (wal, active, mt_size_bytes active))))"

text \<open>One step of the background thread; an error in it is a panic of the thread, which reaches the joining thread.\<close>

definition flush_step :: "'f f64 \<Rightarrow> u64 \<Rightarrow> lsm \<Rightarrow> lsm res" where
  "flush_step F timestamp s =
     (case lsm_flush_handle s of
        None \<Rightarrow> Inr s
      | Some FlushWrite \<Rightarrow>
         (case lsm_immutable s of
            None \<Rightarrow> Inr (s\<lparr>lsm_flush_handle := Some FlushClear\<rparr>)
          | Some memtable \<Rightarrow>
             (case from_memtable timestamp (lsm_db_name s) memtable None (lsm_block_size_bytes s) (lsm_block_compression s) (lsm_dir s) of
                Inr (sst, d) \<Rightarrow> Inr (s\<lparr>lsm_dir := d, lsm_flush_handle := Some (FlushAdd sst)\<rparr>)
              | Inl _ \<Rightarrow> Inl (Panic ''flush_memtable_async: SSTable write failed'')))
      | Some (FlushAdd sst) \<Rightarrow>
         (case str_add_sstable F sst (lsm_dir s) (lsm_strategy s) of
            Inr st \<Rightarrow> Inr (s\<lparr>lsm_strategy := st, lsm_flush_handle := Some FlushClear\<rparr>)
          | Inl _ \<Rightarrow> Inl (Panic ''flush_memtable_async: add_sstable failed''))
      | Some FlushClear \<Rightarrow> Inr (s\<lparr>lsm_immutable := None, lsm_flush_handle := Some FlushDone\<rparr>)
      | Some FlushDone \<Rightarrow> Inr s)"

text \<open>Taking the handle and joining the thread: at most three steps are left.\<close>

definition flush_join :: "'f f64 \<Rightarrow> u64 \<Rightarrow> lsm \<Rightarrow> lsm res" where
  "flush_join F timestamp s =
     (if lsm_flush_handle s = None then Inr s
      else
        and_then (flush_step F timestamp s) (\<lambda>s.
        and_then (flush_step F timestamp s) (\<lambda>s.
        and_then (flush_step F timestamp s) (\<lambda>s. Inr (s\<lparr>lsm_flush_handle := None\<rparr>)))))"

definition flush_memtable_async :: "'f f64 \<Rightarrow> u64 \<Rightarrow> lsm \<Rightarrow> lsm res" where
  "flush_memtable_async F timestamp s =
     and_then (flush_join F timestamp s) (\<lambda>s.
       Inr (s\<lparr>lsm_active := memtable_new, lsm_immutable := Some (lsm_active s), lsm_wal := wal_reset (lsm_wal s),
              lsm_flush_handle := Some FlushWrite\<rparr>))"

text \<open>The two parts every writing operation ends with: the write under the locks and the check for a flush.\<close>

definition lsm_write :: "'f f64 \<Rightarrow> u64 \<Rightarrow> rstring \<Rightarrow> rstring option \<Rightarrow> u64 option \<Rightarrow> lsm \<Rightarrow> lsm res" where
  "lsm_write F timestamp key v expiry_ms s =
     and_then (apply_write (lsm_wal s) (lsm_active s) key v expiry_ms) (\<lambda>(wal, active, memtable_size).
       let s = s\<lparr>lsm_wal := wal, lsm_active := active\<rparr>
       in if lsm_max_memtable_bytes s \<le> memtable_size then flush_memtable_async F timestamp s else Inr s)"

definition lsm_set :: "'f f64 \<Rightarrow> u64 \<Rightarrow> rstring \<Rightarrow> rstring \<Rightarrow> lsm \<Rightarrow> lsm res" where
  "lsm_set F timestamp key v s = lsm_write F timestamp key (Some v) None s"

definition lsm_set_with_ttl :: "'f f64 \<Rightarrow> u64 \<Rightarrow> rstring \<Rightarrow> rstring \<Rightarrow> u64 option \<Rightarrow> lsm \<Rightarrow> lsm res" where
  "lsm_set_with_ttl F timestamp key v expiry_ms s = lsm_write F timestamp key (Some v) expiry_ms s"

definition lsm_delete :: "'f f64 \<Rightarrow> u64 \<Rightarrow> u64 \<Rightarrow> (nat \<Rightarrow> u64) \<Rightarrow> rstring \<Rightarrow> lsm \<Rightarrow> (unit option \<times> lsm) res" where
  "lsm_delete F timestamp now clk key s =
     and_then (lsm_get now clk key s) (\<lambda>r.
     and_then (lsm_write F timestamp key None None s) (\<lambda>s.
       Inr (if r \<noteq> None then Some () else None, s)))"

definition lsm_ttl :: "'f f64 \<Rightarrow> u64 \<Rightarrow> u64 \<Rightarrow> (nat \<Rightarrow> u64) \<Rightarrow> rstring \<Rightarrow> u64 option \<Rightarrow> lsm \<Rightarrow> (ttl_outcome \<times> lsm) res" where
  "lsm_ttl F timestamp now clk key expiry_ms s =
     and_then (lookup (lsm_active s) (lsm_immutable s) (lsm_strategy s) (lsm_dir s) key now clk) (\<lambda>r.
       case r of
         None \<Rightarrow> Inr (TtlNotFound, s)
       | Some v \<Rightarrow>
           and_then (lsm_write F timestamp key (Some v) expiry_ms s) (\<lambda>s.
             Inr (if expiry_ms \<noteq> None then TtlSet else TtlPersisted, s)))"

text \<open>The loops set one item after the other; \<open>ts i\<close> is the clock reading of the \<open>i\<close>-th one.\<close>

fun lsm_mset_with_ttl ::
  "'f f64 \<Rightarrow> (nat \<Rightarrow> u64) \<Rightarrow> nat \<Rightarrow> (rstring \<times> rstring \<times> u64 option) list \<Rightarrow> lsm \<Rightarrow> lsm res" where
  "lsm_mset_with_ttl F ts i [] s = Inr s"
| "lsm_mset_with_ttl F ts i ((k, v, expiry_ms) # items) s =
     and_then (lsm_set_with_ttl F (ts i) k v expiry_ms s) (lsm_mset_with_ttl F ts (i + 1) items)"

fun lsm_mset :: "'f f64 \<Rightarrow> (nat \<Rightarrow> u64) \<Rightarrow> nat \<Rightarrow> (rstring \<times> rstring) list \<Rightarrow> lsm \<Rightarrow> lsm res" where
  "lsm_mset F ts i [] s = Inr s"
| "lsm_mset F ts i ((k, v) # items) s = and_then (lsm_set F (ts i) k v s) (lsm_mset F ts (i + 1) items)"

section \<open>Compaction, opening, closing\<close>

text \<open>The three sections of \<open>compact\<close>, each under its locks: the join of the flush thread, the flush of the active memtable
  in place, and the compaction of the tables. Other operations can run in between; \<open>lsm_compact\<close> is the uninterrupted run.\<close>

definition lsm_inline_flush :: "'f f64 \<Rightarrow> u64 \<Rightarrow> lsm \<Rightarrow> lsm res" where
  "lsm_inline_flush F timestamp s =
     and_then (from_memtable timestamp (lsm_db_name s) (lsm_active s) None (lsm_block_size_bytes s) (lsm_block_compression s) (lsm_dir s))
       (\<lambda>(sst, d).
     and_then (str_add_sstable F sst d (lsm_strategy s)) (\<lambda>st.
       Inr (s\<lparr>lsm_active := memtable_new, lsm_immutable := None, lsm_wal := wal_reset (lsm_wal s),
              lsm_strategy := st, lsm_dir := d\<rparr>)))"

definition lsm_compact_tables :: "(nat \<Rightarrow> u64 \<times> u64) \<Rightarrow> lsm \<Rightarrow> lsm res" where
  "lsm_compact_tables clk s =
     and_then (str_compact_all clk (lsm_db_name s) (lsm_dir s) (lsm_strategy s)) (\<lambda>(st, d).
       Inr (s\<lparr>lsm_strategy := st, lsm_dir := d\<rparr>))"

definition lsm_compact :: "'f f64 \<Rightarrow> u64 \<Rightarrow> u64 \<Rightarrow> (nat \<Rightarrow> u64 \<times> u64) \<Rightarrow> lsm \<Rightarrow> lsm res" where
  "lsm_compact F join_timestamp timestamp clk s =
     and_then (flush_join F join_timestamp s) (\<lambda>s.
     and_then (lsm_inline_flush F timestamp s) (lsm_compact_tables clk))"

definition lsm_compact_step :: "(nat \<Rightarrow> u64 \<times> u64) \<Rightarrow> lsm \<Rightarrow> (bool \<times> lsm) res" where
  "lsm_compact_step clk s =
     and_then (str_compact_if_needed clk (lsm_db_name s) (lsm_dir s) (lsm_strategy s)) (\<lambda>(ran, st, d).
       Inr (ran, s\<lparr>lsm_strategy := st, lsm_dir := d\<rparr>))"

definition lsm_segment_count :: "lsm \<Rightarrow> nat" where
  "lsm_segment_count s = str_segment_count (lsm_strategy s)"

definition lsm_new :: "rstring \<Rightarrow> nat \<Rightarrow> strategy \<Rightarrow> nat \<Rightarrow> bool \<Rightarrow> bytes \<Rightarrow> dir \<Rightarrow> lsm" where
  "lsm_new db_name max_memtable_bytes strat block_size compression wal d =
     \<lparr>lsm_active = memtable_new, lsm_immutable = None, lsm_flush_handle = None, lsm_db_name = db_name,
      lsm_max_memtable_bytes = max_memtable_bytes, lsm_wal = wal, lsm_strategy = strat,
      lsm_block_size_bytes = block_size, lsm_block_compression = compression, lsm_dir = d\<rparr>"

definition lsm_from_dir :: "rstring \<Rightarrow> nat \<Rightarrow> strategy \<Rightarrow> nat \<Rightarrow> bool \<Rightarrow> bytes \<Rightarrow> dir \<Rightarrow> lsm res" where
  "lsm_from_dir db_name max_memtable_bytes strat block_size compression wal d =
     and_then (wal_replay wal) (\<lambda>memtable.
       Inr ((lsm_new db_name max_memtable_bytes strat block_size compression wal d)\<lparr>lsm_active := memtable\<rparr>))"

text \<open>Dropping the engine joins the flush thread and ignores how it ended.\<close>

definition lsm_drop :: "'f f64 \<Rightarrow> u64 \<Rightarrow> lsm \<Rightarrow> lsm option" where
  "lsm_drop F timestamp s = (case flush_join F timestamp s of Inr s \<Rightarrow> Some s | Inl _ \<Rightarrow> None)"

section \<open>Listing and scanning\<close>

definition list_record :: "u64 \<Rightarrow> disk_record \<Rightarrow> rstring set \<Rightarrow> rstring set" where
  "list_record now_ms record keys =
     (if is_tombstone (rec_header record) then keys - {rec_key record}
      else if (case hdr_expiry_ms (rec_header record) of Some e \<Rightarrow> is_expired e now_ms | None \<Rightarrow> False)
           then keys - {rec_key record}
      else insert (rec_key record) keys)"

definition list_table :: "u64 \<Rightarrow> dir \<Rightarrow> sstable \<Rightarrow> rstring set \<Rightarrow> rstring set res" where
  "list_table now_ms d sst keys =
     and_then (sst_iter sst d) (\<lambda>results.
       fold_res (\<lambda>result keys. and_then result (\<lambda>record. Inr (list_record now_ms record keys))) results keys)"

definition list_memtable :: "u64 \<Rightarrow> memtable \<Rightarrow> rstring set \<Rightarrow> rstring set" where
  "list_memtable now_ms m keys =
     fold (\<lambda>(key, entry) keys. if memtable_value now_ms entry \<noteq> None then insert key keys else keys - {key})
       (mt_entries m) keys"

text \<open>The keys as a set: the order of the result is that of a \<open>HashSet\<close>. The three locks are taken and released one after
  the other, so the tables, the immutable and the active memtable may belong to three different states.\<close>

definition lsm_list_keys :: "u64 \<Rightarrow> lsm \<Rightarrow> lsm \<Rightarrow> lsm \<Rightarrow> rstring set res" where
  "lsm_list_keys now_ms s1 s2 s3 =
     and_then (fold_res (list_table now_ms (lsm_dir s1)) (str_iter_all (lsm_strategy s1)) {}) (\<lambda>keys.
       let keys = (case lsm_immutable s2 of Some m \<Rightarrow> list_memtable now_ms m keys | None \<Rightarrow> keys)
       in Inr (list_memtable now_ms (lsm_active s3) keys))"

definition range_record ::
  "rstring \<Rightarrow> rstring \<Rightarrow> u64 \<Rightarrow> disk_record \<Rightarrow> (rstring \<times> rstring) list \<Rightarrow> (rstring \<times> rstring) list" where
  "range_record start end_key now_ms record b_map =
     (if rec_key record < start \<or> end_key < rec_key record then b_map
      else if (case hdr_expiry_ms (rec_header record) of Some e \<Rightarrow> is_expired e now_ms | None \<Rightarrow> False)
           then bt_remove (rec_key record) b_map
      else if is_tombstone (rec_header record) then bt_remove (rec_key record) b_map
      else bt_insert (rec_key record) (rec_value record) b_map)"

definition range_table ::
  "rstring \<Rightarrow> rstring \<Rightarrow> u64 \<Rightarrow> dir \<Rightarrow> sstable \<Rightarrow> (rstring \<times> rstring) list \<Rightarrow> (rstring \<times> rstring) list res" where
  "range_table start end_key now_ms d sst b_map =
     and_then (sst_iter sst d) (\<lambda>results.
       fold_res (\<lambda>result b_map. and_then result (\<lambda>record. Inr (range_record start end_key now_ms record b_map))) results b_map)"

definition range_memtable ::
  "rstring \<Rightarrow> rstring \<Rightarrow> u64 \<Rightarrow> memtable \<Rightarrow> (rstring \<times> rstring) list \<Rightarrow> (rstring \<times> rstring) list" where
  "range_memtable start end_key now_ms m b_map =
     fold (\<lambda>(k, entry) b_map.
         case memtable_value now_ms entry of Some v \<Rightarrow> bt_insert k v b_map | None \<Rightarrow> bt_remove k b_map)
       (filter (\<lambda>(k, _). start \<le> k \<and> k \<le> end_key) (mt_entries m)) b_map"

definition lsm_range :: "rstring \<Rightarrow> rstring \<Rightarrow> u64 \<Rightarrow> lsm \<Rightarrow> lsm \<Rightarrow> lsm \<Rightarrow> (rstring \<times> rstring) list res" where
  "lsm_range start end_key now_ms s1 s2 s3 =
     (if end_key < start then Inr []
      else
        and_then (fold_res (range_table start end_key now_ms (lsm_dir s1))
            (str_iter_files_for_range start end_key (lsm_strategy s1)) []) (\<lambda>b_map.
          let b_map = (case lsm_immutable s2 of Some m \<Rightarrow> range_memtable start end_key now_ms m b_map | None \<Rightarrow> b_map)
          in Inr (range_memtable start end_key now_ms (lsm_active s3) b_map)))"

section \<open>The engine as a map\<close>

lemma memtable_value_entry [simp]: "memtable_value = entry_value"
  by (intro ext) (auto simp: memtable_value_def entry_value_def split: option.splits)

text \<open>The entries in the order in which a read consults them, for tables that hold \<open>ess\<close>.\<close>

definition lsm_view :: "lsm \<Rightarrow> entries list \<Rightarrow> entries" where
  "lsm_view s ess = mt_entries (lsm_active s) @ (case lsm_immutable s of Some m \<Rightarrow> mt_entries m | None \<Rightarrow> []) @ concat ess"

abbreviation lsm_tables :: "lsm \<Rightarrow> sstable list" where
  "lsm_tables s \<equiv> str_iter_all (lsm_strategy s)"

lemma lookup_view:
  assumes "tables_hold (lsm_dir s) (lsm_tables s) ess"
  shows "\<exists>t \<in> insert now (range clk).
     lookup (lsm_active s) (lsm_immutable s) (lsm_strategy s) (lsm_dir s) key now clk = Inr (value_at t (lsm_view s ess) key)"
  using str.lookup_key [OF assms, of clk key]
  by (cases "map_of (mt_entries (lsm_active s)) key"; cases "lsm_immutable s")
    (auto simp: lookup_def lsm_view_def value_at_def memtable_get_entry_def map_add_def split: option.split)

text \<open>A read consults the active memtable, the immutable one and the tables in this order, and the first entry for the
  key decides: with one clock reading, \<open>get\<close> returns the live value of that entry, and nothing for a tombstone, an
  expired entry or an unknown key.\<close>

theorem lsm_get_correct:
  assumes "tables_hold (lsm_dir s) (str_iter_all (lsm_strategy s)) ess"
  shows "lsm_get t (\<lambda>_. t) key s = Inr (map_option (\<lambda>v. (key, v)) (value_at t (lsm_view s ess) key))"
  using lookup_view [OF assms, of t "\<lambda>_. t" key] by (auto simp: lsm_get_def split: option.split)

theorem lsm_get_correct_witness:
  "lsm_get 9 (\<lambda>_. 9) (lit ''k'')
     (lsm_new (lit ''db'') 100 (SizeTieredS (size_tiered_new 4 8 4096 False)) 4096 False [] []) = Inr None"
  using lsm_get_correct [of "lsm_new (lit ''db'') 100 (SizeTieredS (size_tiered_new 4 8 4096 False)) 4096 False [] []" "[]" 9 "lit ''k''"]
  by (simp add: lsm_new_def size_tiered_new_def st_iter_all_def lsm_view_def value_at_def memtable_new_def)

end
