(* ===== verification/Lsm_History.thy ===== *)
theory Lsm_History
  imports Lsm_Engine
begin

text \<open>
  The LSM engine over time, with the leveled strategy: writes interleaved with the steps of the background flush.
  \<open>lsm_inv\<close> is the invariant; every writing operation returns and updates the view of the engine like a map, every step
  of the flush leaves it alone, the log always rebuilds the active memtable. \<open>lsm_run\<close> is the step relation.
\<close>

section \<open>The invariant\<close>

definition wal_matches :: "bytes \<Rightarrow> memtable \<Rightarrow> bool" where
  "wal_matches wal m \<longleftrightarrow>
     (\<exists>ops. wal = wal_of ops \<and> (\<forall>opn \<in> set ops. op_fits opn) \<and> map_of (mt_entries m) = map_of (rev (map op_entry ops)))"

definition mt_good :: "nat \<Rightarrow> memtable \<Rightarrow> bool" where
  "mt_good n m \<longleftrightarrow> mt_ok m \<and> (\<forall>p \<in> set (mt_entries m). entry_fits p) \<and> length (mt_entries m) \<le> n"

text \<open>What each phase of the flush thread guarantees.\<close>

definition phase_inv :: "nat \<Rightarrow> lsm \<Rightarrow> entries list \<Rightarrow> bool" where
  "phase_inv n s ess =
     (case lsm_flush_handle s of
        None \<Rightarrow> lsm_immutable s = None
      | Some FlushDone \<Rightarrow> lsm_immutable s = None
      | Some FlushWrite \<Rightarrow> (\<exists>m. lsm_immutable s = Some m \<and> mt_good n m)
      | Some (FlushAdd sst) \<Rightarrow> (\<exists>m. lsm_immutable s = Some m \<and> mt_good n m \<and> sst_holds (lsm_dir s) sst (mt_entries m))
      | Some FlushClear \<Rightarrow> (\<exists>m. lsm_immutable s = Some m \<and> mt_good n m \<and> map_of (mt_entries m @ concat ess) = map_of (concat ess)))"

definition lsm_inv :: "nat \<Rightarrow> lsm \<Rightarrow> entries list \<Rightarrow> bool" where
  "lsm_inv n s ess \<longleftrightarrow>
     (\<exists>lv. lsm_strategy s = LeveledS lv \<and> lvl_levels lv \<noteq> []) \<and> tables_hold (lsm_dir s) (lsm_tables s) ess \<and>
     mt_good n (lsm_active s) \<and> phase_inv n s ess \<and> wal_matches (lsm_wal s) (lsm_active s) \<and> lsm_block_size_bytes s < 2 ^ 31"

definition fresh_name :: "u64 \<Rightarrow> lsm \<Rightarrow> bool" where
  "fresh_name ts s \<longleftrightarrow> map_of (lsm_dir s) (sst_filename (lsm_db_name s) None ts) = None"

lemma mt_good_new [simp]: "mt_good n memtable_new"
  using memtable_new_ok by (simp add: mt_good_def memtable_new_def)

lemma wal_matches_new [simp]: "wal_matches [] memtable_new"
  by (auto simp: wal_matches_def wal_of_def memtable_new_def intro!: exI [of _ "[]"])

lemma lsm_inv_mono: "lsm_inv n s ess \<Longrightarrow> n \<le> n' \<Longrightarrow> lsm_inv n' s ess"
  unfolding lsm_inv_def phase_inv_def mt_good_def
  by (auto split: option.splits flush_phase.splits intro: order.trans)

lemma phase_inv_write [simp]: "phase_inv n (s\<lparr>lsm_wal := w, lsm_active := m\<rparr>) ess = phase_inv n s ess"
  by (auto simp: phase_inv_def split: option.split flush_phase.split)

lemma map_add_twice [simp]: "m ++ n ++ n = m ++ n"
  by (rule ext) (simp add: map_add_def split: option.split)

section \<open>The flush thread\<close>

fun phase_rank :: "flush_phase option \<Rightarrow> nat" where
  "phase_rank (Some FlushWrite) = 3"
| "phase_rank (Some (FlushAdd sst)) = 2"
| "phase_rank (Some FlushClear) = 1"
| "phase_rank _ = 0"

text \<open>A step returns, keeps the invariant and every key's entry, and moves the thread on.\<close>

lemma flush_step_inv:
  assumes inv: "lsm_inv n s ess" and n: "n < 2 ^ 40" and fresh: "lsm_flush_handle s = Some FlushWrite \<Longrightarrow> fresh_name ts s"
  shows "\<exists>s' ess'. flush_step F ts s = Inr s' \<and> lsm_inv n s' ess' \<and> map_of (lsm_view s' ess') = map_of (lsm_view s ess) \<and>
           lsm_active s' = lsm_active s \<and> lsm_wal s' = lsm_wal s \<and> lsm_db_name s' = lsm_db_name s \<and>
           phase_rank (lsm_flush_handle s') = phase_rank (lsm_flush_handle s) - 1 \<and>
           (lsm_flush_handle s = None \<longleftrightarrow> lsm_flush_handle s' = None)"
proof -
  obtain lv where lv: "lsm_strategy s = LeveledS lv" "lvl_levels lv \<noteq> []" using inv by (auto simp: lsm_inv_def)
  have tabs: "tables_hold (lsm_dir s) (lsm_tables s) ess" and ph: "phase_inv n s ess" using inv by (auto simp: lsm_inv_def)
  consider "lsm_flush_handle s = None \<or> lsm_flush_handle s = Some FlushDone" | "lsm_flush_handle s = Some FlushWrite"
    | sst where "lsm_flush_handle s = Some (FlushAdd sst)" | "lsm_flush_handle s = Some FlushClear"
    by (metis flush_phase.exhaust option.exhaust)
  then show ?thesis
  proof cases
    case 1
    then show ?thesis using inv by (auto simp: flush_step_def)
  next
    case 2
    then obtain m where m: "lsm_immutable s = Some m" "mt_good n m" using ph by (auto simp: phase_inv_def)
    then have ok: "bt_ok (mt_entries m)" "\<forall>p \<in> set (mt_entries m). entry_fits p" "length (mt_entries m) < 2 ^ 40"
      using n by (auto simp: mt_good_def mt_ok_def)
    have bs: "lsm_block_size_bytes s < 2 ^ 31" using inv by (simp add: lsm_inv_def)
    have new: "map_of (lsm_dir s) (sst_filename (lsm_db_name s) None ts) = None" using fresh [OF 2] by (simp add: fresh_name_def)
    from from_memtable_holds [OF ok bs new, of "lsm_block_compression s"]
    obtain sst d' where w: "from_memtable ts (lsm_db_name s) m None (lsm_block_size_bytes s) (lsm_block_compression s) (lsm_dir s) = Inr (sst, d')"
      "sst_holds d' sst (mt_entries m)" "sst_path sst = sst_filename (lsm_db_name s) None ts"
      "\<forall>n. n \<noteq> sst_path sst \<longrightarrow> map_of d' n = map_of (lsm_dir s) n" by blast
    have "tables_hold d' (lsm_tables s) ess"
    proof (rule tables_hold_frame [OF tabs], rule ballI)
      fix x assume "x \<in> set (lsm_tables s)"
      then have "map_of (lsm_dir s) (sst_path x) \<noteq> None" by (rule tables_hold_files [OF tabs])
      then show "map_of d' (sst_path x) = map_of (lsm_dir s) (sst_path x)" using w(3,4) new by metis
    qed
    then show ?thesis
      using 2 m w(1,2) inv
      by (intro exI [of _ "s\<lparr>lsm_dir := d', lsm_flush_handle := Some (FlushAdd sst)\<rparr>"] exI [of _ ess])
        (auto simp: flush_step_def lsm_inv_def phase_inv_def lsm_view_def)
  next
    case (3 sst)
    then obtain m where m: "lsm_immutable s = Some m" "sst_holds (lsm_dir s) sst (mt_entries m)" "mt_good n m"
      using ph by (auto simp: phase_inv_def)
    obtain lv' where add: "leveled_add_sstable sst (lsm_dir s) lv = Inr lv'" "lvl_levels lv' \<noteq> []"
      using lv(2) by (cases "lvl_levels lv") (auto simp: leveled_add_sstable_def)
    have hold: "tables_hold (lsm_dir s) (leveled_iter_all lv') (mt_entries m # ess)"
      using lvl.add_value [OF add(1) _ m(2), of ess] tabs lv(1) by simp
    let ?s = "s\<lparr>lsm_strategy := LeveledS lv', lsm_flush_handle := Some FlushClear\<rparr>"
    have "lsm_inv n ?s (mt_entries m # ess)"
      using inv hold add(2) m(1,3) by (simp add: lsm_inv_def phase_inv_def map_add_assoc)
    moreover have "map_of (lsm_view ?s (mt_entries m # ess)) = map_of (lsm_view s ess)"
      by (simp add: lsm_view_def m(1) map_add_assoc)
    moreover have "flush_step F ts s = Inr ?s" using 3 add(1) lv(1) by (simp add: flush_step_def)
    ultimately show ?thesis using 3 by (intro exI [of _ ?s] exI [of _ "mt_entries m # ess"]) simp
  next
    case 4
    then obtain m where m: "lsm_immutable s = Some m" "map_of (mt_entries m @ concat ess) = map_of (concat ess)"
      using ph by (auto simp: phase_inv_def)
    then show ?thesis
      using 4 inv
      by (intro exI [of _ "s\<lparr>lsm_immutable := None, lsm_flush_handle := Some FlushDone\<rparr>"] exI [of _ ess])
        (auto simp: flush_step_def lsm_inv_def phase_inv_def lsm_view_def)
  qed
qed

lemma phase_rank_0: "phase_rank h = 0 \<longleftrightarrow> h = None \<or> h = Some FlushDone"
  by (cases h rule: phase_rank.cases) auto

lemma phase_rank_3: "phase_rank h = 3 \<longleftrightarrow> h = Some FlushWrite"
  by (cases h rule: phase_rank.cases) auto

lemma phase_rank_le: "phase_rank h \<le> 3"
  by (cases h rule: phase_rank.cases) auto

lemma flush_join_inv:
  assumes inv: "lsm_inv n s ess" and n: "n < 2 ^ 40" and fresh: "fresh_name ts s"
  shows "\<exists>s' ess'. flush_join F ts s = Inr s' \<and> lsm_inv n s' ess' \<and> map_of (lsm_view s' ess') = map_of (lsm_view s ess) \<and>
           lsm_active s' = lsm_active s \<and> lsm_wal s' = lsm_wal s \<and> lsm_immutable s' = None \<and> lsm_flush_handle s' = None"
proof (cases "lsm_flush_handle s = None")
  case True
  then show ?thesis using inv by (auto simp: flush_join_def lsm_inv_def phase_inv_def)
next
  case False
  from flush_step_inv [OF inv n fresh, of F] obtain s1 e1 where 1: "flush_step F ts s = Inr s1" "lsm_inv n s1 e1"
    "map_of (lsm_view s1 e1) = map_of (lsm_view s ess)" "lsm_active s1 = lsm_active s" "lsm_wal s1 = lsm_wal s"
    "phase_rank (lsm_flush_handle s1) = phase_rank (lsm_flush_handle s) - 1" by blast
  have r1: "phase_rank (lsm_flush_handle s1) \<le> 2" using 1(6) phase_rank_le [of "lsm_flush_handle s"] by simp
  then have "lsm_flush_handle s1 \<noteq> Some FlushWrite" by auto
  from flush_step_inv [OF 1(2) n, of ts F] this obtain s2 e2 where 2: "flush_step F ts s1 = Inr s2" "lsm_inv n s2 e2"
    "map_of (lsm_view s2 e2) = map_of (lsm_view s1 e1)" "lsm_active s2 = lsm_active s1" "lsm_wal s2 = lsm_wal s1"
    "phase_rank (lsm_flush_handle s2) = phase_rank (lsm_flush_handle s1) - 1" by blast
  have r2: "phase_rank (lsm_flush_handle s2) \<le> 1" using 2(6) r1 by simp
  then have "lsm_flush_handle s2 \<noteq> Some FlushWrite" by auto
  from flush_step_inv [OF 2(2) n, of ts F] this obtain s3 e3 where 3: "flush_step F ts s2 = Inr s3" "lsm_inv n s3 e3"
    "map_of (lsm_view s3 e3) = map_of (lsm_view s2 e2)" "lsm_active s3 = lsm_active s2" "lsm_wal s3 = lsm_wal s2"
    "phase_rank (lsm_flush_handle s3) = phase_rank (lsm_flush_handle s2) - 1" by blast
  have "phase_rank (lsm_flush_handle s3) = 0" using 3(6) r2 by simp
  then have "lsm_flush_handle s3 = None \<or> lsm_flush_handle s3 = Some FlushDone" by (simp only: phase_rank_0)
  then have imm: "lsm_immutable s3 = None" using 3(2) by (auto simp: lsm_inv_def phase_inv_def)
  let ?s = "s3\<lparr>lsm_flush_handle := None\<rparr>"
  have "lsm_inv n ?s e3" using 3(2) imm by (simp add: lsm_inv_def phase_inv_def)
  moreover have "lsm_view ?s e3 = lsm_view s3 e3" by (simp add: lsm_view_def)
  ultimately show ?thesis
    using False 1 2 3 imm by (intro exI [of _ ?s] exI [of _ e3]) (auto simp: flush_join_def)
qed

section \<open>Writes\<close>

text \<open>The entry a write leaves: the value with its expiry, or a tombstone.\<close>

definition write_entry :: "rstring option \<Rightarrow> u64 option \<Rightarrow> memtable_entry" where
  "write_entry v x = (case v of Some v \<Rightarrow> \<lparr>me_value = Some v, me_expiry_ms = x\<rparr> | None \<Rightarrow> tombstone_entry)"

lemma wal_matches_append:
  assumes "wal_matches wal m" and "op_fits (k, v, t, x)" and "mt_entries m' = bt_insert k e (mt_entries m)" and "op_entry (k, v, t, x) = (k, e)"
  shows "wal_matches (snd (wal_append k v t x wal)) m'"
proof -
  from assms(1) obtain ops where "wal = wal_of ops" "\<forall>opn \<in> set ops. op_fits opn" "map_of (mt_entries m) = map_of (rev (map op_entry ops))"
    by (auto simp: wal_matches_def)
  then show ?thesis using assms(2-4)
    by (auto simp: wal_matches_def wal_of_def map_of_bt_insert fun_eq_iff intro!: exI [of _ "ops @ [(k, v, t, x)]"])
qed

lemma apply_write_inv:
  assumes "mt_good n m" and "wal_matches wal m" and "entry_fits (k, write_entry v x)"
  shows "\<exists>wal' m' sz. apply_write wal m k v x = Inr (wal', m', sz) \<and> mt_good (Suc n) m' \<and> wal_matches wal' m' \<and>
           map_of (mt_entries m') = (map_of (mt_entries m))(k \<mapsto> write_entry v x)"
proof -
  have ok: "mt_ok m" using assms(1) by (simp add: mt_good_def)
  have good: "mt_good (Suc n) m'" "map_of (mt_entries m') = (map_of (mt_entries m))(k \<mapsto> e)"
    if "mt_ok m'" "mt_entries m' = bt_insert k e (mt_entries m)" "entry_fits (k, e)" for m' e
    using that assms(1) set_bt_insert_sub [of k e "mt_entries m"] length_bt_insert [of k e "mt_entries m"]
    by (auto simp: mt_good_def map_of_bt_insert fun_eq_iff)
  show ?thesis
  proof (cases v)
    case None
    obtain m' where m': "memtable_remove k m = Inr m'" "mt_ok m'" "mt_entries m' = bt_insert k tombstone_entry (mt_entries m)"
      using memtable_remove_spec [OF ok, of k] by blast
    have "wal_matches (snd (wal_append k (lit []) True None wal)) m'"
      using wal_matches_append [OF assms(2) _ m'(3), of "lit []" True None] assms(3) None
      by (simp add: op_fits_def op_entry_def entry_fits_def MAX_VALUE_SIZE_def)
    then show ?thesis
      using None m'(1) good [OF m'(2,3)] assms(3) by (simp add: apply_write_def write_entry_def case_prod_beta)
  next
    case (Some v')
    let ?e = "\<lparr>me_value = Some v', me_expiry_ms = x\<rparr>"
    obtain m' where m': "memtable_insert k v' x m = Inr m'" "mt_ok m'" "mt_entries m' = bt_insert k ?e (mt_entries m)"
      using memtable_insert_spec [OF ok, of k v' x] by blast
    have "wal_matches (snd (wal_append k v' False x wal)) m'"
      using wal_matches_append [OF assms(2) _ m'(3), of v' False x] assms(3) Some
      by (simp add: op_fits_def op_entry_def entry_fits_def write_entry_def)
    then show ?thesis
      using Some m'(1) good [OF m'(2,3)] assms(3) by (simp add: apply_write_def write_entry_def case_prod_beta)
  qed
qed

lemma lsm_write_inv:
  assumes inv: "lsm_inv n s ess" and n: "Suc n < 2 ^ 40" and fresh: "fresh_name ts s" and fits: "entry_fits (k, write_entry v x)"
  shows "\<exists>s' ess'. lsm_write F ts k v x s = Inr s' \<and> lsm_inv (Suc n) s' ess' \<and>
           map_of (lsm_view s' ess') = (map_of (lsm_view s ess))(k \<mapsto> write_entry v x)"
proof -
  from inv have "mt_good n (lsm_active s)" "wal_matches (lsm_wal s) (lsm_active s)" by (auto simp: lsm_inv_def)
  from apply_write_inv [OF this fits] obtain wal' m' sz where w: "apply_write (lsm_wal s) (lsm_active s) k v x = Inr (wal', m', sz)"
    "mt_good (Suc n) m'" "wal_matches wal' m'" "map_of (mt_entries m') = (map_of (mt_entries (lsm_active s)))(k \<mapsto> write_entry v x)" by blast
  let ?s = "s\<lparr>lsm_wal := wal', lsm_active := m'\<rparr>"
  have inv1: "lsm_inv (Suc n) ?s ess"
    using lsm_inv_mono [OF inv, of "Suc n"] w(2,3) by (simp add: lsm_inv_def)
  have view1: "map_of (lsm_view ?s ess) = (map_of (lsm_view s ess))(k \<mapsto> write_entry v x)" by (simp add: lsm_view_def w(4))
  show ?thesis
  proof (cases "lsm_max_memtable_bytes s \<le> sz")
    case False
    then show ?thesis using w(1) inv1 view1 by (auto simp: lsm_write_def)
  next
    case True
    have "fresh_name ts ?s" using fresh by (simp add: fresh_name_def)
    from flush_join_inv [OF inv1 n this, of F] obtain s2 ess2 where j: "flush_join F ts ?s = Inr s2" "lsm_inv (Suc n) s2 ess2"
      "map_of (lsm_view s2 ess2) = map_of (lsm_view ?s ess)" "lsm_active s2 = m'" "lsm_immutable s2 = None" "lsm_flush_handle s2 = None"
      by auto
    let ?t = "s2\<lparr>lsm_active := memtable_new, lsm_immutable := Some m', lsm_wal := wal_reset (lsm_wal s2), lsm_flush_handle := Some FlushWrite\<rparr>"
    have "lsm_write F ts k v x s = Inr ?t" using w(1) True j(1,4) by (simp add: lsm_write_def flush_memtable_async_def)
    moreover have "lsm_inv (Suc n) ?t ess2" using j(2) w(2) by (simp add: lsm_inv_def phase_inv_def wal_reset_def)
    moreover have "map_of (lsm_view ?t ess2) = map_of (lsm_view s2 ess2)" using j(4,5) by (simp add: lsm_view_def memtable_new_def)
    ultimately show ?thesis using j(3) view1 by metis
  qed
qed

lemma lsm_inv_get:
  "lsm_inv n s ess \<Longrightarrow> lsm_get t (\<lambda>_. t) k s = Inr (map_option (\<lambda>v. (k, v)) (value_at t (lsm_view s ess) k))"
  using lookup_view [of s ess t "\<lambda>_. t" k] by (auto simp: lsm_inv_def lsm_get_def split: option.split)

lemma lsm_inv_fits:
  assumes "lsm_inv n s ess" and "value_at t (lsm_view s ess) k = Some v"
  shows "entry_fits (k, \<lparr>me_value = Some v, me_expiry_ms = x\<rparr>)"
proof -
  from assms(2) obtain e where e: "map_of (lsm_view s ess) k = Some e" "entry_value t e = Some v"
    by (auto simp: value_at_def bind_eq_Some_conv)
  have "\<forall>p \<in> set (lsm_view s ess). entry_fits p"
    using assms(1) tables_hold_fits [of "lsm_dir s" "lsm_tables s" ess]
    by (auto simp: lsm_inv_def lsm_view_def phase_inv_def mt_good_def split: option.splits flush_phase.splits)
  then have "entry_fits (k, e)" using map_of_SomeD [OF e(1)] by blast
  then show ?thesis using e(2) by (auto simp: entry_fits_def entry_value_def split: option.splits if_splits)
qed

lemma leveled_new_tables:
  assumes "leveled_new num_levels l0_threshold l1_max_bytes bs compression = Inr lv"
  shows "length (lvl_levels lv) = num_levels" and "leveled_iter_all lv = []"
proof -
  from assms obtain ls where ls: "map_res (\<lambda>i. and_then (level_max_bytes l1_max_bytes i) (\<lambda>mb.
          Inr \<lparr>lv_sstables = [], lv_level_num = i, lv_max_bytes = mb, lv_l0_threshold = l0_threshold,
               lv_is_terminal = (i = num_levels - 1)\<rparr>)) [0..<num_levels] = Inr ls" "lvl_levels lv = ls"
    by (auto simp: leveled_new_def and_then_Inr_iff)
  have "length ls = length xs \<and> (\<forall>l \<in> set ls. lv_sstables l = [])"
    if "map_res (\<lambda>i. and_then (level_max_bytes l1_max_bytes i) (\<lambda>mb.
          Inr \<lparr>lv_sstables = [], lv_level_num = i, lv_max_bytes = mb, lv_l0_threshold = l0_threshold,
               lv_is_terminal = (i = num_levels - 1)\<rparr>)) xs = Inr ls" for xs ls
    using that by (induction xs arbitrary: ls) (auto simp: and_then_Inr_iff)
  from this [OF ls(1)] ls(2) show "length (lvl_levels lv) = num_levels" "leveled_iter_all lv = []"
    by (auto simp: leveled_iter_all_def level_iter_def)
qed

lemma lsm_inv_new:
  assumes "leveled_new num_levels l0_threshold l1_max_bytes bs compression = Inr lv" and "0 < num_levels" and "block_size < 2 ^ 31"
  shows "lsm_inv 0 (lsm_new name max_bytes (LeveledS lv) block_size compression' [] d) []"
  using leveled_new_tables [OF assms(1)] assms(2,3) by (auto simp: lsm_inv_def lsm_new_def phase_inv_def)

section \<open>Operations as updates of a map\<close>

text \<open>\<open>set_with_ttl\<close> on a leveled engine returns, even when it has to wait for a flush and start another; afterwards the
  key reads as the new value until its expiry, and every other key reads as before, at every time.\<close>

theorem lsm_set_get:
  assumes "lsm_inv n s ess" and "Suc n < 2 ^ 40" and "fresh_name ts s" and "len k \<le> MAX_KEY_SIZE" and "len v \<le> MAX_VALUE_SIZE"
  shows "\<exists>s' ess'. lsm_set_with_ttl F ts k v x s = Inr s' \<and> lsm_inv (Suc n) s' ess' \<and>
           (\<forall>t j. lsm_get t (\<lambda>_. t) j s' =
              (if j = k then Inr (if \<exists>e. x = Some e \<and> is_expired e t then None else Some (k, v))
               else lsm_get t (\<lambda>_. t) j s))"
proof -
  have "entry_fits (k, write_entry (Some v) x)" using assms(4,5) by (simp add: entry_fits_def write_entry_def)
  from lsm_write_inv [OF assms(1-3) this, of F] obtain s' ess' where w: "lsm_write F ts k (Some v) x s = Inr s'" "lsm_inv (Suc n) s' ess'"
    "map_of (lsm_view s' ess') = (map_of (lsm_view s ess))(k \<mapsto> write_entry (Some v) x)" by blast
  have "value_at t (lsm_view s' ess') j = (if j = k then entry_value t (write_entry (Some v) x) else value_at t (lsm_view s ess) j)" for t j
    by (simp add: value_at_def w(3))
  then show ?thesis
    using w(1,2) lsm_inv_get [OF assms(1)] lsm_inv_get [OF w(2)]
    by (intro exI [of _ s'] exI [of _ ess']) (auto simp: lsm_set_with_ttl_def write_entry_def entry_value_def split: option.splits)
qed

text \<open>A small engine: three levels, a memtable limit of eight bytes.\<close>

definition small_engine :: lsm where
  "small_engine =
     lsm_new (lit ''db'') 8
       (LeveledS \<lparr>lvl_levels = [\<lparr>lv_sstables = [], lv_level_num = 0, lv_max_bytes = 1000, lv_l0_threshold = 4, lv_is_terminal = False\<rparr>,
                            \<lparr>lv_sstables = [], lv_level_num = 1, lv_max_bytes = 1000, lv_l0_threshold = 4, lv_is_terminal = False\<rparr>,
                            \<lparr>lv_sstables = [], lv_level_num = 2, lv_max_bytes = 10000, lv_l0_threshold = 4, lv_is_terminal = True\<rparr>],
                  lvl_block_size_bytes = 4096, lvl_block_compression = False\<rparr>)
       4096 False [] []"

lemma small_engine_inv: "lsm_inv 0 small_engine []"
proof -
  have "leveled_new 3 4 1000 4096 False = Inr
     \<lparr>lvl_levels = [\<lparr>lv_sstables = [], lv_level_num = 0, lv_max_bytes = 1000, lv_l0_threshold = 4, lv_is_terminal = False\<rparr>,
                    \<lparr>lv_sstables = [], lv_level_num = 1, lv_max_bytes = 1000, lv_l0_threshold = 4, lv_is_terminal = False\<rparr>,
                    \<lparr>lv_sstables = [], lv_level_num = 2, lv_max_bytes = 10000, lv_l0_threshold = 4, lv_is_terminal = True\<rparr>],
                  lvl_block_size_bytes = 4096, lvl_block_compression = False\<rparr>"
    by (simp add: leveled_new_def level_max_bytes_def upt_rec)
  from lsm_inv_new [OF this] show ?thesis unfolding small_engine_def by simp
qed

lemma small_engine_fresh: "fresh_name ts small_engine"
  by (simp add: fresh_name_def small_engine_def lsm_new_def)

theorem lsm_set_get_witness:
  "\<exists>s'. lsm_set_with_ttl exact_f64 1 (lit ''k'') (lit ''long value'') (Some 50) small_engine = Inr s' \<and>
     lsm_get 49 (\<lambda>_. 49) (lit ''k'') s' = Inr (Some (lit ''k'', lit ''long value'')) \<and> lsm_get 50 (\<lambda>_. 50) (lit ''k'') s' = Inr None"
proof -
  have "len (lit ''k'') \<le> MAX_KEY_SIZE" "len (lit ''long value'') \<le> MAX_VALUE_SIZE" by (simp_all add: MAX_KEY_SIZE_def MAX_VALUE_SIZE_def)
  from lsm_set_get [OF small_engine_inv _ small_engine_fresh this, where ts = 1 and F = exact_f64 and x = "Some 50"] show ?thesis
    by (auto simp: is_expired_def)
qed

text \<open>\<open>delete\<close> on a leveled engine returns, reports whether the key was there, hides it at every later read and leaves
  every other key alone.\<close>

theorem lsm_delete_get:
  assumes "lsm_inv n s ess" and "Suc n < 2 ^ 40" and "fresh_name ts s" and "len k \<le> MAX_KEY_SIZE"
  shows "\<exists>s' ess' r. lsm_delete F ts now (\<lambda>_. now) k s = Inr (r, s') \<and> lsm_inv (Suc n) s' ess' \<and>
           (r = None \<longleftrightarrow> lsm_get now (\<lambda>_. now) k s = Inr None) \<and>
           (\<forall>t j. lsm_get t (\<lambda>_. t) j s' = (if j = k then Inr None else lsm_get t (\<lambda>_. t) j s))"
proof -
  have "entry_fits (k, write_entry None None)" using assms(4) by (simp add: entry_fits_def write_entry_def)
  from lsm_write_inv [OF assms(1-3) this, of F] obtain s' ess' where w: "lsm_write F ts k None None s = Inr s'" "lsm_inv (Suc n) s' ess'"
    "map_of (lsm_view s' ess') = (map_of (lsm_view s ess))(k \<mapsto> tombstone_entry)" by (auto simp: write_entry_def)
  have "value_at t (lsm_view s' ess') j = (if j = k then None else value_at t (lsm_view s ess) j)" for t j
    by (simp add: value_at_def w(3))
  then show ?thesis
    using w(1,2) lsm_inv_get [OF assms(1)] lsm_inv_get [OF w(2)]
    by (intro exI [of _ s'] exI [of _ ess']) (auto simp: lsm_delete_def)
qed

theorem lsm_delete_get_witness:
  "\<exists>s' r. lsm_delete exact_f64 1 7 (\<lambda>_. 7) (lit ''k'') small_engine = Inr (r, s') \<and> r = None \<and>
     lsm_get 9 (\<lambda>_. 9) (lit ''k'') s' = Inr None"
proof -
  have "len (lit ''k'') \<le> MAX_KEY_SIZE" by (simp add: MAX_KEY_SIZE_def)
  moreover have "lsm_get 7 (\<lambda>_. 7) (lit ''k'') small_engine = Inr None"
    using lsm_inv_get [OF small_engine_inv, of 7 "lit ''k''"]
    by (simp add: lsm_view_def small_engine_def lsm_new_def memtable_new_def value_at_def)
  ultimately show ?thesis using lsm_delete_get [OF small_engine_inv _ small_engine_fresh, where k = "lit ''k''" and ts = 1 and F = exact_f64 and now = 7] by auto
qed

section \<open>Histories\<close>

inductive lsm_run :: "'f f64 \<Rightarrow> lsm \<Rightarrow> (rstring \<times> memtable_entry) list \<Rightarrow> lsm \<Rightarrow> bool" for F s0 where
  run_init: "lsm_run F s0 [] s0"
| run_set: "lsm_run F s0 ws s \<Longrightarrow> fresh_name ts s \<Longrightarrow> len k \<le> MAX_KEY_SIZE \<Longrightarrow> len v \<le> MAX_VALUE_SIZE \<Longrightarrow>
    lsm_set_with_ttl F ts k v x s = Inr s' \<Longrightarrow> lsm_run F s0 (ws @ [(k, \<lparr>me_value = Some v, me_expiry_ms = x\<rparr>)]) s'"
| run_delete: "lsm_run F s0 ws s \<Longrightarrow> fresh_name ts s \<Longrightarrow> len k \<le> MAX_KEY_SIZE \<Longrightarrow>
    lsm_delete F ts now (\<lambda>_. now) k s = Inr (r, s') \<Longrightarrow> lsm_run F s0 (ws @ [(k, tombstone_entry)]) s'"
| run_ttl: "lsm_run F s0 ws s \<Longrightarrow> fresh_name ts s \<Longrightarrow> lsm_get now (\<lambda>_. now) k s = Inr (Some (k, v)) \<Longrightarrow>
    lsm_ttl F ts now (\<lambda>_. now) k x s = Inr (out, s') \<Longrightarrow> lsm_run F s0 (ws @ [(k, \<lparr>me_value = Some v, me_expiry_ms = x\<rparr>)]) s'"
| run_flush: "lsm_run F s0 ws s \<Longrightarrow> fresh_name ts s \<Longrightarrow> flush_step F ts s = Inr s' \<Longrightarrow> lsm_run F s0 ws s'"

lemma write_entry_simps:
  "write_entry (Some v) x = \<lparr>me_value = Some v, me_expiry_ms = x\<rparr>" "write_entry None x = tombstone_entry"
  by (simp_all add: write_entry_def)

lemma history_step:
  assumes "lsm_inv (length ws) s ess" and "map_of (lsm_view s ess) = M ++ map_of (rev ws)" and "fresh_name ts s"
    and "entry_fits (k, write_entry v x)" and "lsm_write F ts k v x s = Inr s'" and "Suc (length (ws @ [(k, write_entry v x)])) < 2 ^ 40"
  shows "\<exists>ess. lsm_inv (length (ws @ [(k, write_entry v x)])) s' ess \<and>
           map_of (lsm_view s' ess) = M ++ map_of (rev (ws @ [(k, write_entry v x)]))"
proof -
  from lsm_write_inv [OF assms(1) _ assms(3,4), of F] assms(5,6)
  obtain ess' where "lsm_inv (Suc (length ws)) s' ess'" "map_of (lsm_view s' ess') = (map_of (lsm_view s ess))(k \<mapsto> write_entry v x)" by auto
  then show ?thesis using assms(2) by (intro exI [of _ ess']) (simp add: map_add_upd)
qed

lemma lsm_run_inv:
  assumes "lsm_run F s0 ws s" and "lsm_inv 0 s0 ess0" and "Suc (length ws) < 2 ^ 40"
  shows "\<exists>ess. lsm_inv (length ws) s ess \<and> map_of (lsm_view s ess) = map_of (lsm_view s0 ess0) ++ map_of (rev ws)"
  using assms(1,3)
proof (induction rule: lsm_run.induct)
  case run_init
  then show ?case using assms(2) by auto
next
  case (run_set ws s ts k v x s')
  then obtain ess where IH: "lsm_inv (length ws) s ess" "map_of (lsm_view s ess) = map_of (lsm_view s0 ess0) ++ map_of (rev ws)" by auto
  have fits: "entry_fits (k, write_entry (Some v) x)" using run_set.hyps by (simp add: entry_fits_def write_entry_def)
  have w: "lsm_write F ts k (Some v) x s = Inr s'" using run_set.hyps(5) by (simp only: lsm_set_with_ttl_def)
  show ?case using history_step [OF IH run_set.hyps(2) fits w, unfolded write_entry_simps] run_set.prems by blast
next
  case (run_delete ws s ts k now r s')
  then obtain ess where IH: "lsm_inv (length ws) s ess" "map_of (lsm_view s ess) = map_of (lsm_view s0 ess0) ++ map_of (rev ws)" by auto
  have fits: "entry_fits (k, write_entry None None)" using run_delete.hyps by (simp add: entry_fits_def write_entry_def)
  have w: "lsm_write F ts k None None s = Inr s'" using run_delete.hyps(4) by (auto simp: lsm_delete_def and_then_Inr_iff)
  show ?case using history_step [OF IH run_delete.hyps(2) fits w, unfolded write_entry_simps] run_delete.prems by blast
next
  case (run_ttl ws s ts now k v x out s')
  then obtain ess where IH: "lsm_inv (length ws) s ess" "map_of (lsm_view s ess) = map_of (lsm_view s0 ess0) ++ map_of (rev ws)" by auto
  have val: "value_at now (lsm_view s ess) k = Some v" using run_ttl.hyps(3) lsm_inv_get [OF IH(1), of now k] by auto
  then have fits: "entry_fits (k, write_entry (Some v) x)" using lsm_inv_fits [OF IH(1)] by (simp add: write_entry_def)
  have "lookup (lsm_active s) (lsm_immutable s) (lsm_strategy s) (lsm_dir s) k now (\<lambda>_. now) = Inr (Some v)"
    using lookup_view [of s ess now "\<lambda>_. now" k] IH(1) val by (auto simp: lsm_inv_def)
  then have w: "lsm_write F ts k (Some v) x s = Inr s'" using run_ttl.hyps(4) by (auto simp: lsm_ttl_def and_then_Inr_iff)
  show ?case using history_step [OF IH run_ttl.hyps(2) fits w, unfolded write_entry_simps] run_ttl.prems by blast
next
  case (run_flush ws s ts s')
  then obtain ess where IH: "lsm_inv (length ws) s ess" "map_of (lsm_view s ess) = map_of (lsm_view s0 ess0) ++ map_of (rev ws)" by auto
  have "length ws < 2 ^ 40" using run_flush.prems by simp
  from flush_step_inv [OF IH(1) this run_flush.hyps(2), of F] run_flush.hyps(3) IH(2) show ?case by auto
qed

text \<open>C1. Reads return the last write, whatever the background flush does: after any interleaving of writes, deletions,
  TTL changes and steps of the flush thread on a new engine with the leveled strategy, without a compaction, \<open>get\<close> answers for
  every key from the last write to it, at every time. (With the size-tiered strategy it does not: \<open>size_tiered_reads_stale\<close>.)\<close>

theorem lsm_reads_last_write:
  assumes "lsm_run F (lsm_new db_name max_bytes (LeveledS lv) block_size compression [] d) ws s"
    and "leveled_new num_levels l0_threshold l1_max_bytes block_size compression = Inr lv" and "0 < num_levels"
    and "block_size < 2 ^ 31" and "Suc (length ws) < 2 ^ 40"
  shows "lsm_get t (\<lambda>_. t) k s = Inr (map_option (\<lambda>v. (k, v)) (Option.bind (map_of (rev ws) k) (entry_value t)))"
proof -
  let ?s0 = "lsm_new db_name max_bytes (LeveledS lv) block_size compression [] d"
  from lsm_run_inv [OF assms(1) lsm_inv_new [OF assms(2-4)] assms(5)] obtain ess where inv: "lsm_inv (length ws) s ess"
    and view: "map_of (lsm_view s ess) = map_of (lsm_view ?s0 []) ++ map_of (rev ws)" by blast
  have "lsm_view ?s0 [] = []" by (simp add: lsm_view_def lsm_new_def memtable_new_def)
  then show ?thesis using lsm_inv_get [OF inv, of t k] by (simp add: value_at_def view)
qed

theorem lsm_reads_last_write_witness:
  "\<exists>lv s. leveled_new 3 4 1000 4096 False = Inr lv \<and>
     lsm_run exact_f64 (lsm_new (lit ''db'') 8 (LeveledS lv) 4096 False [] []) [(lit ''k'', \<lparr>me_value = Some (lit ''long value''), me_expiry_ms = None\<rparr>)] s \<and>
     lsm_get 9 (\<lambda>_. 9) (lit ''k'') s = Inr (Some (lit ''k'', lit ''long value''))"
proof -
  let ?lv = "\<lparr>lvl_levels = [\<lparr>lv_sstables = [], lv_level_num = 0, lv_max_bytes = 1000, lv_l0_threshold = 4, lv_is_terminal = False\<rparr>,
                    \<lparr>lv_sstables = [], lv_level_num = 1, lv_max_bytes = 1000, lv_l0_threshold = 4, lv_is_terminal = False\<rparr>,
                    \<lparr>lv_sstables = [], lv_level_num = 2, lv_max_bytes = 10000, lv_l0_threshold = 4, lv_is_terminal = True\<rparr>],
                  lvl_block_size_bytes = 4096, lvl_block_compression = False\<rparr>"
  let ?s0 = "lsm_new (lit ''db'') 8 (LeveledS ?lv) 4096 False [] []"
  let ?e = "\<lparr>me_value = Some (lit ''long value''), me_expiry_ms = None\<rparr>"
  have lv: "leveled_new 3 4 1000 4096 False = Inr ?lv" by (simp add: leveled_new_def level_max_bytes_def upt_rec)
  have inv: "lsm_inv 0 ?s0 []" using lsm_inv_new [OF lv] by simp
  have fresh: "fresh_name 1 ?s0" by (simp add: fresh_name_def lsm_new_def)
  have sz: "len (lit ''k'') \<le> MAX_KEY_SIZE" "len (lit ''long value'') \<le> MAX_VALUE_SIZE" by (simp_all add: MAX_KEY_SIZE_def MAX_VALUE_SIZE_def)
  then have "entry_fits (lit ''k'', write_entry (Some (lit ''long value'')) None)" by (simp add: entry_fits_def write_entry_def)
  from lsm_write_inv [OF inv _ fresh this, of exact_f64]
  obtain s where s: "lsm_set_with_ttl exact_f64 1 (lit ''k'') (lit ''long value'') None ?s0 = Inr s" by (auto simp: lsm_set_with_ttl_def)
  from run_set [OF run_init fresh sz s] have run: "lsm_run exact_f64 ?s0 [(lit ''k'', ?e)] s" by simp
  from lsm_reads_last_write [OF run lv, of 9 "lit ''k''"] have "lsm_get 9 (\<lambda>_. 9) (lit ''k'') s = Inr (Some (lit ''k'', lit ''long value''))"
    by (simp add: entry_value_def)
  then show ?thesis using lv run by blast
qed

end
