(* ===== verification/Lsm_Queries.thy ===== *)
theory Lsm_Queries
  imports Lsm_History
begin

text \<open>
  Recovery of the LSM engine, its key listing and its range scan. Both scans walk the tables from the newest to the
  oldest and let the last record of a key win; the theorems say what they return, and the witnesses show the difference
  from \<open>get\<close>.
\<close>

section \<open>Recovery\<close>

lemma recovery_value:
  assumes "wal_matches wal m" and "op_fits torn" and "n < length (record_bytes (op_record torn))"
  shows "\<exists>m'. wal_replay (wal @ take n (record_bytes (op_record torn))) = Inr m' \<and> map_of (mt_entries m') = map_of (mt_entries m)"
proof -
  from assms(1) obtain ops where "wal = wal_of ops" "\<forall>opn \<in> set ops. op_fits opn" "map_of (mt_entries m) = map_of (rev (map op_entry ops))"
    by (auto simp: wal_matches_def)
  with wal_replay_torn [OF this(2) assms(2,3)] show ?thesis by (auto simp: memtable_get_entry_def fun_eq_iff)
qed

text \<open>Crash recovery of a leveled engine while nothing is being flushed: when the process stops, also in the middle of an
  append to the log, replaying its log over the same tables gives an engine that answers every read as before the
  interrupted write.\<close>

theorem lsm_from_dir_recovers:
  assumes "lsm_inv n s ess" and "lsm_flush_handle s = None \<or> lsm_flush_handle s = Some FlushDone"
    and "tables_hold (lsm_dir s) (str_iter_all st) ess" and "op_fits torn" and "i < length (record_bytes (op_record torn))"
  shows "\<exists>s'. lsm_from_dir (lsm_db_name s) max_bytes st block_size compression
                (lsm_wal s @ take i (record_bytes (op_record torn))) (lsm_dir s) = Inr s' \<and>
           (\<forall>t k. lsm_get t (\<lambda>_. t) k s' = lsm_get t (\<lambda>_. t) k s)"
proof -
  have "wal_matches (lsm_wal s) (lsm_active s)" using assms(1) by (simp add: lsm_inv_def)
  from recovery_value [OF this assms(4,5)] obtain m where m: "wal_replay (lsm_wal s @ take i (record_bytes (op_record torn))) = Inr m"
    "map_of (mt_entries m) = map_of (mt_entries (lsm_active s))" by blast
  have imm: "lsm_immutable s = None" using assms(1,2) by (auto simp: lsm_inv_def phase_inv_def)
  let ?s = "(lsm_new (lsm_db_name s) max_bytes st block_size compression (lsm_wal s @ take i (record_bytes (op_record torn))) (lsm_dir s))\<lparr>lsm_active := m\<rparr>"
  have "lsm_get t (\<lambda>_. t) k ?s = Inr (map_option (\<lambda>v. (k, v)) (value_at t (lsm_view ?s ess) k))" for t k
    using lookup_view [of ?s ess t "\<lambda>_. t" k] assms(3) by (auto simp: lsm_get_def lsm_new_def split: option.split)
  moreover have "value_at t (lsm_view ?s ess) k = value_at t (lsm_view s ess) k" for t k
    by (rule value_at_cong) (simp add: lsm_view_def imm lsm_new_def m(2) map_add_def)
  ultimately show ?thesis using m(1) lsm_inv_get [OF assms(1)] by (simp add: lsm_from_dir_def)
qed

theorem lsm_from_dir_recovers_example:
  "\<exists>s'. lsm_from_dir (lit ''db'') 8 (lsm_strategy small_engine) 4096 False
       ([] @ take 5 (record_bytes (op_record (lit ''k'', lit ''v'', False, None)))) [] = Inr s' \<and>
     lsm_get 9 (\<lambda>_. 9) (lit ''k'') s' = lsm_get 9 (\<lambda>_. 9) (lit ''k'') small_engine"
proof -
  let ?op = "(lit ''k'', lit ''v'', False, None)"
  have "tables_hold (lsm_dir small_engine) (lsm_tables small_engine) []" using small_engine_inv by (auto simp: lsm_inv_def)
  moreover have "op_fits ?op" "5 < length (record_bytes (op_record ?op))"
    by (simp_all add: op_fits_def MAX_KEY_SIZE_def MAX_VALUE_SIZE_def length_record_bytes)
  ultimately show ?thesis
    using lsm_from_dir_recovers [OF small_engine_inv, of "lsm_strategy small_engine" ?op 5 8 4096 False]
    by (simp add: small_engine_def lsm_new_def) blast
qed

text \<open>The state of the small engine right after a write that has started a flush.\<close>

lemma small_engine_set:
  obtains s ess where "lsm_set exact_f64 1 (lit ''k'') (lit ''long value'') small_engine = Inr s" "lsm_tables s = []" "lsm_dir s = []"
    "lsm_wal s = []" "lsm_get 9 (\<lambda>_. 9) (lit ''k'') s = Inr (Some (lit ''k'', lit ''long value''))"
    "lsm_inv 1 s ess" "lsm_active s = memtable_new" "lsm_strategy s = lsm_strategy small_engine" "lsm_db_name s = lsm_db_name small_engine"
    "lsm_block_size_bytes s = lsm_block_size_bytes small_engine" "lsm_block_compression s = lsm_block_compression small_engine"
proof -
  let ?k = "lit ''k''" and ?v = "lit ''long value''"
  have fits: "entry_fits (?k, write_entry (Some ?v) None)" by (simp add: write_entry_simps)
  obtain wal m sz where w: "apply_write [] memtable_new ?k (Some ?v) None = Inr (wal, m, sz)" "8 \<le> sz"
    using apply_write_inv [OF mt_good_new wal_matches_new fits, of 0]
    by (auto simp: apply_write_def memtable_insert_def memtable_new_def wal_append_def record_append_def)
  define s where "s = small_engine\<lparr>lsm_active := memtable_new, lsm_immutable := Some m, lsm_wal := [], lsm_flush_handle := Some FlushWrite\<rparr>"
  have wr: "lsm_write exact_f64 1 ?k (Some ?v) None small_engine = Inr s"
    using w by (simp add: lsm_write_def small_engine_def lsm_new_def flush_memtable_async_def flush_join_def wal_reset_def s_def)
  then have set: "lsm_set exact_f64 1 ?k ?v small_engine = Inr s" by (simp add: lsm_set_def)
  from lsm_write_inv [OF small_engine_inv _ small_engine_fresh fits, of exact_f64 1] wr
  obtain ess where ess: "lsm_inv 1 s ess" "map_of (lsm_view s ess) ?k = Some (write_entry (Some ?v) None)" by auto
  have get: "lsm_get 9 (\<lambda>_. 9) ?k s = Inr (Some (?k, ?v))"
    using lsm_inv_get [OF ess(1), of 9 ?k] ess(2) by (simp add: value_at_def write_entry_simps entry_value_def)
  show ?thesis
    by (rule that [OF set _ _ _ get ess(1)])
      (simp_all add: s_def small_engine_def lsm_new_def leveled_iter_all_def level_iter_def)
qed

section \<open>Listing the keys\<close>

definition list_entry :: "u64 \<Rightarrow> rstring \<times> memtable_entry \<Rightarrow> rstring set \<Rightarrow> rstring set" where
  "list_entry now = (\<lambda>(k, e) keys. if entry_value now e \<noteq> None then insert k keys else keys - {k})"

lemma list_record_entry [simp]: "list_record now (stored (entry_record p)) = list_entry now p"
  by (cases p, intro ext) (auto simp: list_record_def list_entry_def entry_value_def split: option.splits)

lemma fold_results:
  "fold_res (\<lambda>result x. and_then result (\<lambda>record. Inr (f record x))) (map (\<lambda>p. Inr (stored (entry_record p))) es) x =
     Inr (fold (\<lambda>p. f (stored (entry_record p))) es x)"
  by (induction es arbitrary: x) auto

lemma list_tables_hold:
  "tables_hold d ssts ess \<Longrightarrow> fold_res (list_table now d) ssts keys = Inr (fold (list_entry now) (concat ess) keys)"
  unfolding tables_hold_def
  by (induction arbitrary: keys rule: list_all2_induct) (simp_all add: list_table_def sst_iter_holds fold_results)

lemma fold_list_entry:
  "k \<in> fold (list_entry now) es keys \<longleftrightarrow>
     (case map_of (rev es) k of Some e \<Rightarrow> entry_value now e \<noteq> None | None \<Rightarrow> k \<in> keys)"
proof (induction es rule: rev_induct)
  case (snoc p es)
  then show ?case
    by (cases p; cases "fst p = k") (auto simp: list_entry_def)
qed simp

lemma list_memtable_fold: "list_memtable now m keys = fold (list_entry now) (mt_entries m) keys"
  by (simp add: list_memtable_def list_entry_def)

lemma map_of_rev_concat:
  "\<forall>es \<in> set ess. distinct (map fst es) \<Longrightarrow> map_of (rev (concat ess)) = map_of (concat (rev ess))"
  by (induction ess) (auto simp: map_of_rev_distinct)

lemma tables_hold_distinct: "tables_hold d ssts ess \<Longrightarrow> \<forall>es \<in> set ess. distinct (map fst es)"
  unfolding tables_hold_def by (induction rule: list_all2_induct) (auto simp: sst_holds_def bt_ok_distinct)

definition lsm_scan_view :: "lsm \<Rightarrow> entries list \<Rightarrow> entries" where
  "lsm_scan_view s ess =
     mt_entries (lsm_active s) @ (case lsm_immutable s of Some m \<Rightarrow> mt_entries m | None \<Rightarrow> []) @ concat (rev ess)"

definition mems_ok :: "lsm \<Rightarrow> bool" where
  "mems_ok s \<longleftrightarrow> mt_ok (lsm_active s) \<and> (\<forall>m. lsm_immutable s = Some m \<longrightarrow> mt_ok m)"

lemma mems_ok_rev:
  assumes "mems_ok s"
  shows "map_of (rev (mt_entries (lsm_active s))) = map_of (mt_entries (lsm_active s))"
    and "lsm_immutable s = Some m \<Longrightarrow> map_of (rev (mt_entries m)) = map_of (mt_entries m)"
  using assms by (auto simp: mems_ok_def mt_ok_def bt_ok_distinct map_of_rev_distinct)

lemma list_keys_value:
  assumes "tables_hold (lsm_dir s) (lsm_tables s) ess" and "mems_ok s"
  shows "lsm_list_keys now s s s = Inr {k. value_at now (lsm_scan_view s ess) k \<noteq> None}"
proof -
  have tab: "k \<in> fold (list_entry now) (concat ess) {} \<longleftrightarrow> value_at now (concat (rev ess)) k \<noteq> None" for k
    using map_of_rev_concat [OF tables_hold_distinct [OF assms(1)]]
    by (simp add: fold_list_entry value_at_def split: option.split)
  show ?thesis
    using mems_ok_rev [OF assms(2)] tab
    by (cases "lsm_immutable s")
      (auto simp: lsm_list_keys_def list_tables_hold [OF assms(1)] list_memtable_fold fold_list_entry
        lsm_scan_view_def value_at_append value_at_def [of now "mt_entries _"] split: option.split)
qed

text \<open>C25. What \<open>list_keys\<close> returns, with no operation in between: exactly the keys that are live in the view in which the
  memtables come first, as for a read, but the oldest table comes before the newer ones.\<close>

theorem lsm_list_keys_correct:
  assumes "tables_hold (lsm_dir s) (str_iter_all (lsm_strategy s)) ess" and "mems_ok s"
  shows "lsm_list_keys now s s s = Inr {k. value_at now (lsm_scan_view s ess) k \<noteq> None}"
  using assms by (rule list_keys_value)

theorem lsm_list_keys_correct_witness:
  "\<exists>s. lsm_get 9 (\<lambda>_. 9) (lit ''k'') s = Inr None \<and> lsm_list_keys 9 s s s = Inr {lit ''k''}"
proof -
  let ?k = "lit ''k''"
  obtain a b d where h: "tables_hold d [a, b] [[(?k, plain_entry ''1'')], [(?k, tombstone_entry)]]"
    using two_tables [of ?k "plain_entry ''1''" tombstone_entry] by auto
  let ?s = "lsm_new (lit ''db'') 8 (LeveledS (two_level_store True a b)) 4096 False [] d"
  let ?ess = "[[(?k, tombstone_entry)], [(?k, plain_entry ''1'')]]"
  have hold: "tables_hold (lsm_dir ?s) (lsm_tables ?s) ?ess"
    using h by (simp add: lsm_new_def two_level_store_def leveled_iter_all_def level_iter_def)
  have "lsm_get 9 (\<lambda>_. 9) ?k ?s = Inr None"
    using lookup_view [OF hold, of 9 "\<lambda>_. 9" ?k] by (auto simp: lsm_get_def lsm_view_def lsm_new_def memtable_new_def value_at_def)
  moreover have "mems_ok ?s" using memtable_new_ok by (simp add: mems_ok_def lsm_new_def)
  from lsm_list_keys_correct [OF hold this, of 9] have "lsm_list_keys 9 ?s ?s ?s = Inr {?k}"
    by (auto simp: lsm_scan_view_def lsm_new_def memtable_new_def value_at_def)
  ultimately show ?thesis by blast
qed

text \<open>A key can be missing from \<open>list_keys\<close> although every read finds it: the tables are read while the flush of its
  memtable is still running, and the memtables after it has finished.\<close>

theorem lsm_list_keys_race:
  "\<exists>s s'. lsm_set exact_f64 1 (lit ''k'') (lit ''long value'') small_engine = Inr s \<and> flush_join exact_f64 1 s = Inr s' \<and>
     lsm_get 9 (\<lambda>_. 9) (lit ''k'') s = Inr (Some (lit ''k'', lit ''long value'')) \<and>
     lsm_get 9 (\<lambda>_. 9) (lit ''k'') s' = Inr (Some (lit ''k'', lit ''long value'')) \<and>
     lsm_list_keys 9 s s' s' = Inr {}"
proof -
  let ?k = "lit ''k''"
  obtain s ess where s: "lsm_set exact_f64 1 ?k (lit ''long value'') small_engine = Inr s" "lsm_tables s = []" "lsm_dir s = []"
    "lsm_get 9 (\<lambda>_. 9) ?k s = Inr (Some (?k, lit ''long value''))" "lsm_inv 1 s ess" "lsm_active s = memtable_new"
    by (rule small_engine_set)
  have "fresh_name 1 s" by (simp add: fresh_name_def s(3))
  from flush_join_inv [OF s(5) _ this, of exact_f64] obtain s' ess' where s': "flush_join exact_f64 1 s = Inr s'" "lsm_inv 1 s' ess'"
    "map_of (lsm_view s' ess') = map_of (lsm_view s ess)" "lsm_active s' = memtable_new" "lsm_immutable s' = None"
    using s(6) by auto
  have "lsm_get 9 (\<lambda>_. 9) ?k s' = lsm_get 9 (\<lambda>_. 9) ?k s"
    by (simp add: lsm_inv_get [OF s(5)] lsm_inv_get [OF s'(2)] value_at_cong [OF fun_cong [OF s'(3)]])
  moreover have "lsm_list_keys 9 s s' s' = Inr {}"
    by (simp add: lsm_list_keys_def s(2) s'(4,5) list_memtable_def memtable_new_def)
  ultimately show ?thesis using s(1,4) s'(1) by auto
qed

section \<open>Range scans\<close>

definition range_entry ::
  "rstring \<Rightarrow> rstring \<Rightarrow> u64 \<Rightarrow> rstring \<times> memtable_entry \<Rightarrow> (rstring \<times> rstring) list \<Rightarrow> (rstring \<times> rstring) list" where
  "range_entry a b now = (\<lambda>(k, e) m.
     if a \<le> k \<and> k \<le> b then (case entry_value now e of Some v \<Rightarrow> bt_insert k v m | None \<Rightarrow> bt_remove k m) else m)"

lemma range_record_entry [simp]: "range_record a b now (stored (entry_record p)) = range_entry a b now p"
proof (cases p, intro ext)
  fix k e m assume p: "p = (k, e)"
  show "range_record a b now (stored (entry_record p)) m = range_entry a b now p m"
    by (cases "me_value e"; cases "me_expiry_ms e")
      (auto simp: p range_record_def range_entry_def entry_value_def rec_value_entry_record not_less)
qed

lemma range_tables_hold:
  "tables_hold d ssts ess \<Longrightarrow> fold_res (range_table a b now d) ssts m = Inr (fold (range_entry a b now) (concat ess) m)"
  unfolding tables_hold_def
  by (induction arbitrary: m rule: list_all2_induct) (simp_all add: range_table_def sst_iter_holds fold_results)

lemma range_memtable_fold: "range_memtable a b now mt m = fold (range_entry a b now) (mt_entries mt) m"
proof -
  have "fold (\<lambda>(k, entry) m. case memtable_value now entry of Some v \<Rightarrow> bt_insert k v m | None \<Rightarrow> bt_remove k m)
      (filter (\<lambda>(k, _). a \<le> k \<and> k \<le> b) es) m = fold (range_entry a b now) es m" for es m
  proof (induction es arbitrary: m)
    case (Cons p es)
    then show ?case by (cases p) (auto simp: range_entry_def)
  qed simp
  then show ?thesis by (simp add: range_memtable_def)
qed

lemma fold_range_entry:
  "bt_ok m \<Longrightarrow> bt_ok (fold (range_entry a b now) es m) \<and>
     map_of (fold (range_entry a b now) es m) k =
       (if a \<le> k \<and> k \<le> b then (case map_of (rev es) k of Some e \<Rightarrow> entry_value now e | None \<Rightarrow> map_of m k) else map_of m k)"
proof (induction es rule: rev_induct)
  case (snoc p es)
  then show ?case
    by (cases p) (auto simp: range_entry_def bt_ok_insert bt_ok_remove map_of_bt_insert map_of_bt_remove split: option.splits)
qed simp

lemma files_for_range_hold:
  assumes "tables_hold d ssts ess"
  shows "\<exists>os. tables_hold d (files_for_range a b ssts) os \<and>
           (\<forall>k. a \<le> k \<and> k \<le> b \<longrightarrow> map_of (concat (rev os)) k = map_of (concat (rev ess)) k)"
  using assms unfolding tables_hold_def
proof (induction rule: list_all2_induct)
  case Nil
  then show ?case by (simp add: files_for_range_def)
next
  case (Cons sst ssts es ess)
  then obtain os where os: "list_all2 (sst_holds d) (files_for_range a b ssts) os"
    "\<forall>k. a \<le> k \<and> k \<le> b \<longrightarrow> map_of (concat (rev os)) k = map_of (concat (rev ess)) k" by blast
  show ?case
  proof (cases "files_for_range a b [sst] = []")
    case True
    then have "files_for_range a b (sst # ssts) = files_for_range a b ssts" by (auto simp: files_for_range_def split: if_splits)
    moreover have "map_of es k = None" if k: "a \<le> k \<and> k \<le> b" for k
    proof (rule ccontr)
      assume "map_of es k \<noteq> None"
      then obtain e where "(k, e) \<in> set es" by (meson map_of_SomeD not_None_eq)
      from sst_bounds [OF Cons.hyps(1) this] True k show False
        by (auto simp: files_for_range_def split: if_splits)
    qed
    ultimately show ?thesis using os by (intro exI [of _ os]) (simp add: map_add_def split: option.split)
  next
    case False
    then have "files_for_range a b (sst # ssts) = sst # files_for_range a b ssts" by (auto simp: files_for_range_def split: if_splits)
    then show ?thesis using os Cons.hyps(1) by (intro exI [of _ "es # os"]) (simp add: map_add_def split: option.split)
  qed
qed

lemma range_value:
  assumes "tables_hold (lsm_dir s) (lsm_tables s) ess" and "mems_ok s" and "a \<le> b"
  shows "\<exists>r. lsm_range a b now s s s = Inr r \<and> bt_ok r \<and>
           (\<forall>k. map_of r k = (if a \<le> k \<and> k \<le> b then value_at now (lsm_scan_view s ess) k else None))"
proof -
  from files_for_range_hold [OF assms(1), of a b] obtain os where os: "tables_hold (lsm_dir s) (files_for_range a b (lsm_tables s)) os"
    "\<forall>k. a \<le> k \<and> k \<le> b \<longrightarrow> map_of (concat (rev os)) k = map_of (concat (rev ess)) k" by blast
  let ?t = "fold (range_entry a b now) (concat os) []"
  let ?i = "case lsm_immutable s of Some m \<Rightarrow> fold (range_entry a b now) (mt_entries m) ?t | None \<Rightarrow> ?t"
  let ?r = "fold (range_entry a b now) (mt_entries (lsm_active s)) ?i"
  have run: "lsm_range a b now s s s = Inr ?r"
    using assms(3) range_tables_hold [OF os(1), of a b now "[]"]
    by (auto simp: lsm_range_def str.for_range_eq range_memtable_fold split: option.split)
  have t: "bt_ok ?t" "map_of ?t k = (if a \<le> k \<and> k \<le> b then value_at now (concat (rev ess)) k else None)" for k
    using fold_range_entry [of "[]" a b now "concat os" k] os(2) map_of_rev_concat [OF tables_hold_distinct [OF os(1)]]
    by (auto simp: value_at_def split: option.split)
  have i: "bt_ok ?i" "map_of ?i k = (if a \<le> k \<and> k \<le> b then
      value_at now ((case lsm_immutable s of Some m \<Rightarrow> mt_entries m | None \<Rightarrow> []) @ concat (rev ess)) k else None)" for k
    using fold_range_entry [OF t(1), of a b now] t mems_ok_rev(2) [OF assms(2)]
    by (auto simp: value_at_append value_at_def [of now "mt_entries _"] split: option.split)
  have "bt_ok ?r \<and> map_of ?r k = (if a \<le> k \<and> k \<le> b then value_at now (lsm_scan_view s ess) k else None)" for k
    using fold_range_entry [OF i(1), of a b now "mt_entries (lsm_active s)" k] i(2) [of k] mems_ok_rev(1) [OF assms(2)]
    by (auto simp: lsm_scan_view_def value_at_append [of now "mt_entries (lsm_active s)"] value_at_def [of now "mt_entries (lsm_active s)"] split: option.split)
  with run show ?thesis by blast
qed

text \<open>C26. What \<open>range\<close> returns, with no operation in between: the keys of the range in ascending order, each once, with their
  values in the view in which the memtables come first but the oldest table comes before the newer ones; an empty list
  for an empty range.\<close>

theorem lsm_range_correct:
  assumes "tables_hold (lsm_dir s) (str_iter_all (lsm_strategy s)) ess" and "mems_ok s"
  shows "\<exists>r. lsm_range a b now s s s = Inr r \<and> sorted_wrt (<) (map fst r) \<and>
           (\<forall>k. map_of r k = (if a \<le> k \<and> k \<le> b then value_at now (lsm_scan_view s ess) k else None))"
proof (cases "a \<le> b")
  case True
  then show ?thesis using range_value [OF assms] by (auto simp: bt_ok_def)
next
  case False
  then have "\<not> (a \<le> k \<and> k \<le> b)" and "b < a" for k by (auto dest: order.trans)
  then show ?thesis by (auto simp: lsm_range_def)
qed

theorem lsm_range_correct_witness:
  "\<exists>s r. lsm_get 9 (\<lambda>_. 9) (lit ''k'') s = Inr (Some (lit ''k'', lit ''2'')) \<and>
     lsm_range (lit ''a'') (lit ''z'') 9 s s s = Inr r \<and> map_of r (lit ''k'') = Some (lit ''1'')"
proof -
  let ?k = "lit ''k''"
  obtain a b d where h: "tables_hold d [a, b] [[(?k, plain_entry ''1'')], [(?k, plain_entry ''2'')]]"
    using two_tables [of ?k "plain_entry ''1''" "plain_entry ''2''"] by auto
  let ?s = "lsm_new (lit ''db'') 8 (LeveledS (two_level_store True a b)) 4096 False [] d"
  have hold: "tables_hold (lsm_dir ?s) (lsm_tables ?s) [[(?k, plain_entry ''2'')], [(?k, plain_entry ''1'')]]"
    using h by (simp add: lsm_new_def two_level_store_def leveled_iter_all_def level_iter_def)
  have "lsm_get 9 (\<lambda>_. 9) ?k ?s = Inr (Some (?k, lit ''2''))"
    using lookup_view [OF hold, of 9 "\<lambda>_. 9" ?k] by (auto simp: lsm_get_def lsm_view_def lsm_new_def memtable_new_def value_at_def)
  moreover have "mems_ok ?s" using memtable_new_ok by (simp add: mems_ok_def lsm_new_def)
  from lsm_range_correct [OF hold this, of "lit ''a''" "lit ''z''" 9]
  obtain r where "lsm_range (lit ''a'') (lit ''z'') 9 ?s ?s ?s = Inr r" "map_of r ?k = Some (lit ''1'')"
    by (auto simp: lsm_scan_view_def lsm_new_def memtable_new_def value_at_def less_eq_rstring_def of_char_def)
  ultimately show ?thesis by blast
qed

end
