(* ===== verification/Leveled_Compaction.thy ===== *)
theory Leveled_Compaction
  imports Leveled_Store
begin

text \<open>
  A full compaction of the leveled strategy (\<open>compact_all\<close> of src/src/leveled.rs): the levels are merged downwards one after
  the other, and the last one is squashed into one table. A dead record, that is a tombstone or an expired one, can bring
  older records back at the last level, so the result is about stores in which every record is permanent: written without
  a time to live, and not deleted. For these, a full compaction returns and changes no answer.
\<close>

section \<open>Permanent entries\<close>

definition permanent :: "entries \<Rightarrow> bool" where
  "permanent es \<longleftrightarrow> (\<forall>p \<in> set es. \<forall>t. entry_value t (snd p) \<noteq> None)"

lemma permanent_simps [simp]:
  "permanent []" "permanent (as @ bs) \<longleftrightarrow> permanent as \<and> permanent bs"
  by (auto simp: permanent_def)

lemma permanent_rev: "permanent (concat (rev L)) \<longleftrightarrow> permanent (concat L)"
  by (simp add: permanent_def)

lemma permanentD: "permanent es \<Longrightarrow> (k, e) \<in> set es \<Longrightarrow> entry_value t e \<noteq> None"
  unfolding permanent_def by (metis snd_conv)

lemma permanent_no_shadow: "permanent es \<Longrightarrow> no_shadow now es"
  using permanentD [OF _ map_of_SomeD, of es _ _ now] by (fastforce simp: no_shadow_def)

lemma live_value: "entry_value t e \<noteq> None \<Longrightarrow> entry_value t e = me_value e"
  by (auto simp: entry_value_def split: option.splits if_splits)

lemma permanent_value: "permanent es \<Longrightarrow> value_at t es k = Option.bind (map_of es k) me_value"
proof (cases "map_of es k")
  case (Some e)
  assume "permanent es"
  with map_of_SomeD [OF Some] have "entry_value t e \<noteq> None" by (force simp: permanent_def)
  then show ?thesis using Some live_value by (simp add: value_at_def)
qed (simp add: value_at_def)

lemma permanent_value_None: "permanent es \<Longrightarrow> value_at t es k = None \<longleftrightarrow> map_of es k = None"
  by (cases "map_of es k") (force simp: value_at_def permanent_def dest: map_of_SomeD)+

lemma permanent_entry:
  assumes "permanent es" and "(k, e) \<in> set es"
  shows "\<exists>v. e = \<lparr>me_value = Some v, me_expiry_ms = None\<rparr>"
proof -
  have "entry_value (- 1) e \<noteq> None" by (rule permanentD [OF assms])
  then show ?thesis by (cases e) (auto simp: entry_value_def is_expired_def word_order.extremum split: option.splits if_splits)
qed

lemma permanent_map_of:
  assumes "permanent as" and "permanent bs" and "\<forall>k. value_at t as k = value_at t bs k"
  shows "map_of as = map_of bs"
proof
  fix k
  have "map_of as k = None \<longleftrightarrow> map_of bs k = None"
    using assms(3) permanent_value_None [OF assms(1), of t k] permanent_value_None [OF assms(2), of t k] by metis
  moreover have "e = e'" if e: "map_of as k = Some e" "map_of bs k = Some e'" for e e'
  proof -
    obtain v v' where v: "e = \<lparr>me_value = Some v, me_expiry_ms = None\<rparr>" "e' = \<lparr>me_value = Some v', me_expiry_ms = None\<rparr>"
      using permanent_entry [OF assms(1) map_of_SomeD [OF e(1)]] permanent_entry [OF assms(2) map_of_SomeD [OF e(2)]] by blast
    have "value_at t as k = value_at t bs k" using assms(3) by blast
    then have "me_value e = me_value e'" by (simp only: permanent_value [OF assms(1)] permanent_value [OF assms(2)] e bind.simps)
    then show ?thesis by (simp add: v)
  qed
  ultimately show "map_of as k = map_of bs k" by (metis not_None_eq)
qed

lemma permanent_append_cong:
  assumes "permanent as" and "permanent bs" and "value_at t as k = value_at t bs k"
  shows "value_at t (as @ cs) k = value_at t (bs @ cs) k"
  using assms permanent_value_None [of as t k] permanent_value_None [of bs t k] by (simp add: value_at_append)

text \<open>A list with distinct keys that reads like a permanent one is permanent.\<close>

lemma permanent_transfer:
  assumes "permanent old" and "distinct (map fst new)" and "fst ` set new \<subseteq> fst ` set old"
    and "\<forall>t k. now \<le> t \<longrightarrow> value_at t new k = value_at t old k"
  shows "permanent new"
  unfolding permanent_def
proof (intro ballI allI)
  fix p t assume p: "p \<in> set new"
  let ?k = "fst p"
  have "?k \<in> fst ` set old" using p assms(3) by auto
  then have "value_at t' old ?k \<noteq> None" for t'
    using permanent_value_None [OF assms(1)] by (simp add: map_of_eq_None_iff)
  then have "value_at (max now t) new ?k \<noteq> None" using assms(4) by simp
  moreover have "map_of new ?k = Some (snd p)" using assms(2) p by (simp add: map_of_is_SomeI)
  ultimately have "entry_value (max now t) (snd p) \<noteq> None" by (simp add: value_at_def)
  then show "entry_value t (snd p) \<noteq> None" using entry_value_mono [of t "snd p" "max now t"] max.cobounded2 [of t now] by metis
qed

section \<open>The state of the levels\<close>

text \<open>\<open>LL ! i\<close> are the entries of the tables of level \<open>i\<close>, the newest table first. Level 0 may hold a key twice.\<close>

definition level_entries :: "entries list list \<Rightarrow> entries" where
  "level_entries LL = concat (map concat LL)"

definition levels_hold :: "dir \<Rightarrow> level list \<Rightarrow> entries list list \<Rightarrow> bool" where
  "levels_hold d ls LL \<longleftrightarrow> list_all2 (\<lambda>l. tables_hold d (level_iter l)) ls LL"

definition lvl_holds :: "dir \<Rightarrow> leveled \<Rightarrow> entries list list \<Rightarrow> bool" where
  "lvl_holds d s LL \<longleftrightarrow>
     levels_hold d (lvl_levels s) LL \<and> distinct (map sst_path (leveled_iter_all s)) \<and>
     (\<forall>L \<in> set (tl LL). distinct (map fst (concat L))) \<and>
     permanent (level_entries LL) \<and> length (level_entries LL) < 2 ^ 40 \<and> lvl_block_size_bytes s < 2 ^ 31 \<and>
     map lv_level_num (lvl_levels s) = [0..<length (lvl_levels s)] \<and>
     map lv_is_terminal (lvl_levels s) = map (\<lambda>i. i + 1 = length (lvl_levels s)) [0..<length (lvl_levels s)]"

lemma level_entries_simps [simp]:
  "level_entries [] = []" "level_entries (L # LL) = concat L @ level_entries LL"
  "level_entries (LA @ LB) = level_entries LA @ level_entries LB"
  by (simp_all add: level_entries_def)

lemma level_entries_concat: "level_entries LL = concat (concat LL)"
  by (induction LL) simp_all

lemma levels_hold_append:
  "length ls = length LL \<Longrightarrow> levels_hold d (ls @ ls') (LL @ LL') \<longleftrightarrow> levels_hold d ls LL \<and> levels_hold d ls' LL'"
  by (simp add: levels_hold_def list_all2_append)

lemma levels_hold_simps [simp]:
  "levels_hold d [] LL \<longleftrightarrow> LL = []"
  "levels_hold d (l # ls) (L # LL) \<longleftrightarrow> tables_hold d (level_iter l) L \<and> levels_hold d ls LL"
  by (simp_all add: levels_hold_def)

lemma levels_tables: "levels_hold d ls LL \<Longrightarrow> tables_hold d (concat (map level_iter ls)) (concat LL)"
  unfolding levels_hold_def by (induction rule: list_all2_induct) (simp_all add: tables_hold_appendI)

lemma levels_hold_frame:
  assumes "levels_hold d ls LL" and "\<forall>x \<in> set (concat (map level_iter ls)). map_of d' (sst_path x) = map_of d (sst_path x)"
  shows "levels_hold d' ls LL"
  using assms unfolding levels_hold_def
  by (induction rule: list_all2_induct) (auto intro: tables_hold_frame)

lemma levels_hold_split:
  assumes "levels_hold d (A @ M @ B) LL"
  shows "\<exists>LA LM LB. LL = LA @ LM @ LB \<and> length A = length LA \<and> length M = length LM \<and>
           levels_hold d A LA \<and> levels_hold d M LM \<and> levels_hold d B LB"
  using assms unfolding levels_hold_def list_all2_append1 by (metis list_all2_lengthD)

lemma length_le_keys:
  assumes "distinct (map fst new)" and "fst ` set new \<subseteq> fst ` set old"
  shows "length new \<le> length old"
proof -
  have "length new = card (fst ` set new)" using distinct_card [OF assms(1)] by simp
  also have "\<dots> \<le> card (fst ` set old)" using assms(2) by (intro card_mono) auto
  also have "\<dots> \<le> length old" by (metis card_length length_map list.set_map)
  finally show ?thesis .
qed

lemma distinct_keys_levels: "distinct (map fst (level_entries LL)) \<Longrightarrow> L \<in> set LL \<Longrightarrow> distinct (map fst (concat L))"
  by (induction LL) auto

lemma value_replaced:
  assumes "permanent as" and "permanent bs" and "value_at t as k = value_at t bs k"
  shows "value_at t (ps @ as @ qs) k = value_at t (ps @ bs @ qs) k"
  using permanent_append_cong [OF assms, of qs] by (simp only: value_at_append [of t ps])

lemma set_tl_sub: "x \<in> set (tl xs) \<Longrightarrow> x \<in> set xs"
  by (cases xs) auto

text \<open>Replacing some adjacent levels by ones that read the same.\<close>

lemma lvl_replace:
  fixes s :: leveled
  assumes h: "lvl_holds d s (LA @ LM @ LB)" and ls: "lvl_levels s = A @ M @ B" and len: "length A = length LA" "length M = length LM"
    and "LM \<noteq> []" and M': "levels_hold d' M' LM'" and "length M' = length M"
    and dp: "distinct (map sst_path (concat (map level_iter M')))"
    and sub: "sst_path ` set (concat (map level_iter M')) \<subseteq> insert fn (sst_path ` set (concat (map level_iter M)))"
    and frame: "\<forall>n. n \<notin> sst_path ` set (concat (map level_iter M)) \<longrightarrow> n \<noteq> fn \<longrightarrow> map_of d' n = map_of d n"
    and fresh: "map_of d fn = None \<or> fn \<in> sst_path ` set (concat (map level_iter M))"
    and keys: "fst ` set (level_entries LM') \<subseteq> fst ` set (level_entries LM)" "distinct (map fst (level_entries LM'))"
    and val: "\<forall>t k. now \<le> t \<longrightarrow> value_at t (level_entries LM') k = value_at t (level_entries LM) k"
    and meta: "map lv_level_num M' = map lv_level_num M" "map lv_is_terminal M' = map lv_is_terminal M"
  shows "lvl_holds d' (s\<lparr>lvl_levels := A @ M' @ B\<rparr>) (LA @ LM' @ LB)"
    and "value_at t (level_entries (LA @ LM' @ LB)) k = value_at t (level_entries (LA @ LM @ LB)) k"
    and "length (level_entries (LA @ LM' @ LB)) \<le> length (level_entries (LA @ LM @ LB))"
proof -
  let ?ps = "\<lambda>ls. sst_path ` set (concat (map level_iter ls))"
  have hold: "levels_hold d A LA" "levels_hold d M LM" "levels_hold d B LB"
    using h ls len by (simp_all add: lvl_holds_def levels_hold_append)
  have perm: "permanent (level_entries LA)" "permanent (level_entries LM)" "permanent (level_entries LB)"
    using h by (simp_all add: lvl_holds_def)
  have perm': "permanent (level_entries LM')" by (rule permanent_transfer [OF perm(2) keys(2,1) val])
  have paths: "distinct (map sst_path (concat (map level_iter A) @ concat (map level_iter M) @ concat (map level_iter B)))"
    using h ls by (simp add: lvl_holds_def leveled_iter_all_def)
  have apart: "sst_path x \<notin> ?ps M" "sst_path x \<noteq> fn" if x: "x \<in> set (concat (map level_iter A) @ concat (map level_iter B))" for x
  proof -
    show *: "sst_path x \<notin> ?ps M" using distinct_middle [OF paths x] by (metis imageE)
    have "map_of d (sst_path x) \<noteq> None"
      using x tables_hold_files [OF levels_tables [OF hold(1)], of x] tables_hold_files [OF levels_tables [OF hold(3)], of x]
      by auto
    then show "sst_path x \<noteq> fn" using fresh * by auto
  qed
  have keep: "map_of d' (sst_path x) = map_of d (sst_path x)" if "x \<in> set (concat (map level_iter A) @ concat (map level_iter B))" for x
    using apart [OF that] frame by blast
  have hold': "levels_hold d' A LA" "levels_hold d' B LB"
    by (intro levels_hold_frame [OF hold(1)] levels_hold_frame [OF hold(3)] ballI keep; simp)+
  have len': "length M' = length LM'" using M' by (simp add: levels_hold_def list_all2_lengthD)
  have "?ps M' \<inter> ?ps ls = {}" if "ls = A \<or> ls = B" for ls
  proof -
    have "n \<notin> ?ps M'" if "n \<in> ?ps ls" for n
    proof -
      from that obtain x where "n = sst_path x" "x \<in> set (concat (map level_iter ls))" by (rule imageE)
      from this(2) \<open>ls = A \<or> ls = B\<close> have "x \<in> set (concat (map level_iter A) @ concat (map level_iter B))" by auto
      then have "n \<notin> insert fn (?ps M)" using apart [of x] \<open>n = sst_path x\<close> by (simp only: insert_iff simp_thms)
      then show ?thesis by (rule contra_subsetD [OF sub])
    qed
    then show ?thesis by blast
  qed
  then have "?ps M' \<inter> ?ps A = {}" "?ps M' \<inter> ?ps B = {}" by blast+
  then have "distinct (map sst_path (concat (map level_iter A) @ concat (map level_iter M') @ concat (map level_iter B)))"
    using paths dp unfolding map_append distinct_append set_append set_map by blast
  moreover have "distinct (map fst (concat L))" if "L \<in> set (tl (LA @ LM' @ LB))" for L
  proof -
    have "L \<in> set LM' \<or> L \<in> set (tl (LA @ LM @ LB))"
      using that \<open>LM \<noteq> []\<close> by (cases LA; cases LM'; cases LM) (auto dest: set_tl_sub)
    then show ?thesis using h distinct_keys_levels [OF keys(2)] by (auto simp: lvl_holds_def)
  qed
  moreover have shorter: "length (level_entries LM') \<le> length (level_entries LM)" by (rule length_le_keys [OF keys(2,1)])
  ultimately show "lvl_holds d' (s\<lparr>lvl_levels := A @ M' @ B\<rparr>) (LA @ LM' @ LB)"
    using h ls hold' M' perm perm' len len' meta \<open>length M' = length M\<close>
    by (simp add: lvl_holds_def levels_hold_append leveled_iter_all_def)
  have "value_at t (level_entries LM') k = value_at t (level_entries LM) k"
    using val permanent_value [OF perm', of t k] permanent_value [OF perm', of "max now t" k]
      permanent_value [OF perm(2), of t k] permanent_value [OF perm(2), of "max now t" k] by simp
  from value_replaced [OF perm' perm(2) this]
  show "value_at t (level_entries (LA @ LM' @ LB)) k = value_at t (level_entries (LA @ LM @ LB)) k" by simp
  show "length (level_entries (LA @ LM' @ LB)) \<le> length (level_entries (LA @ LM @ LB))" using shorter by simp
qed

section \<open>One level after the other\<close>

text \<open>The file a step of the full compaction writes: the table of the next level, or at the last level the squashed one.\<close>

definition step_file :: "nat \<Rightarrow> (nat \<Rightarrow> u64 \<times> u64) \<Rightarrow> rstring \<Rightarrow> nat \<Rightarrow> rstring" where
  "step_file n clk db_name i = sst_filename db_name (Some (if i + 1 < n then i + 1 else i)) (snd (clk i))"

lemma lvl_holds_meta:
  assumes "lvl_holds d s LL" and "i < length (lvl_levels s)"
  shows "lv_level_num (lvl_levels s ! i) = i" and "lv_is_terminal (lvl_levels s ! i) \<longleftrightarrow> i + 1 = length (lvl_levels s)"
proof -
  have meta: "map lv_level_num (lvl_levels s) = [0..<length (lvl_levels s)] \<and>
      map lv_is_terminal (lvl_levels s) = map (\<lambda>i. i + 1 = length (lvl_levels s)) [0..<length (lvl_levels s)]"
    using assms(1) by (simp only: lvl_holds_def)
  have "map lv_level_num (lvl_levels s) ! i = i" "map lv_is_terminal (lvl_levels s) ! i = (i + 1 = length (lvl_levels s))"
    using assms(2) arg_cong [OF conjunct1 [OF meta], of "\<lambda>xs. xs ! i"] arg_cong [OF conjunct2 [OF meta], of "\<lambda>xs. xs ! i"] by simp_all
  then show "lv_level_num (lvl_levels s ! i) = i" and "lv_is_terminal (lvl_levels s ! i) \<longleftrightarrow> i + 1 = length (lvl_levels s)"
    using assms(2) by simp_all
qed

lemma rev_level: "tables_hold d (lv_sstables l) (rev L) \<longleftrightarrow> tables_hold d (level_iter l) L"
  using tables_hold_rev [of d "lv_sstables l" "rev L"] by (simp add: level_iter_def)

lemma distinct_concat_rev: "distinct (map fst (concat (rev L))) \<longleftrightarrow> distinct (map fst (concat L))"
  by (rule distinct_keys_mset) (simp add: mset_concat rev_map [symmetric] sum_list_rev)

lemma set_concat_rev [simp]: "set (concat (rev L)) = set (concat L)"
  by simp

text \<open>The outcome of a step that works on the levels from \<open>i\<close> on.\<close>

definition step_done :: "dir \<Rightarrow> leveled \<Rightarrow> entries list list \<Rightarrow> rstring \<Rightarrow> nat \<Rightarrow> leveled \<times> dir \<Rightarrow> bool" where
  "step_done d s LL fn j sd \<longleftrightarrow>
     (\<exists>s' d' LL'. sd = (s', d') \<and> lvl_holds d' s' LL' \<and> length (lvl_levels s') = length (lvl_levels s) \<and>
        (\<forall>t k. value_at t (level_entries LL') k = value_at t (level_entries LL) k) \<and>
        length (level_entries LL') \<le> length (level_entries LL) \<and>
        (\<forall>n. n \<noteq> fn \<longrightarrow> map_of d' n \<noteq> None \<longrightarrow> map_of d n \<noteq> None) \<and>
        (map_of d' fn \<noteq> None \<longrightarrow> fn \<in> sst_path ` set (lv_sstables (lvl_levels s' ! j))) \<and>
        sst_path ` set (leveled_iter_all s') \<subseteq> insert fn (sst_path ` set (leveled_iter_all s)) \<and>
        (\<forall>n. n \<notin> sst_path ` set (leveled_iter_all s) \<longrightarrow> n \<noteq> fn \<longrightarrow> map_of d' n = map_of d n))"

lemma step_doneI:
  assumes "lvl_holds d' s' LL'" and "length (lvl_levels s') = length (lvl_levels s)"
    and "(\<forall>t k. value_at t (level_entries LL') k = value_at t (level_entries LL) k) \<and> length (level_entries LL') \<le> length (level_entries LL)"
    and "\<And>n. n \<noteq> fn \<Longrightarrow> map_of d' n \<noteq> None \<Longrightarrow> map_of d n \<noteq> None"
    and "map_of d' fn \<noteq> None \<longrightarrow> fn \<in> sst_path ` set (lv_sstables (lvl_levels s' ! j))"
    and "sst_path ` set (leveled_iter_all s') \<subseteq> insert fn (sst_path ` set (leveled_iter_all s))"
    and "\<forall>n. n \<notin> sst_path ` set (leveled_iter_all s) \<longrightarrow> n \<noteq> fn \<longrightarrow> map_of d' n = map_of d n"
  shows "step_done d s LL fn j (s', d')"
  unfolding step_done_def using assms by blast

lemma replaced_paths:
  fixes s :: leveled
  assumes "lvl_levels s = A @ M @ B"
  shows "sst_path ` set (concat (map level_iter M')) \<subseteq> insert fn (sst_path ` set (concat (map level_iter M))) \<Longrightarrow>
      sst_path ` set (leveled_iter_all (s\<lparr>lvl_levels := A @ M' @ B\<rparr>)) \<subseteq> insert fn (sst_path ` set (leveled_iter_all s))"
    and "sst_path ` set (concat (map level_iter M)) \<subseteq> sst_path ` set (leveled_iter_all s)"
  using assms unfolding leveled_iter_all_def by (simp_all add: image_Un del: set_concat) blast+

lemma merge_step:
  assumes h: "lvl_holds d s LL" and i: "i + 1 < length (lvl_levels s)"
    and fresh: "map_of d (sst_filename db_name (Some (i + 1)) ts) = None"
  shows "\<exists>sd. compact_level now ts db_name i (s, d) = Inr sd \<and> step_done d s LL (sst_filename db_name (Some (i + 1)) ts) (i + 1) sd"
proof -
  let ?ls = "lvl_levels s" and ?fn = "sst_filename db_name (Some (i + 1)) ts"
  have run: "compact_level now ts db_name i (s, d) = compact_levels now ts (i, i + 1) db_name d s"
    using lvl_holds_meta(2) [OF h, of i] i by (simp add: compact_level_def idx_def)
  define A B where "A = take i ?ls" and "B = drop (i + 2) ?ls"
  have ls: "?ls = A @ [?ls ! i, ?ls ! (i + 1)] @ B"
    using i unfolding A_def B_def by (simp add: Cons_nth_drop_Suc)
  have A: "length A = i" using i by (simp add: A_def)
  have "levels_hold d (A @ [?ls ! i, ?ls ! (i + 1)] @ B) LL" using h ls by (simp add: lvl_holds_def)
  from levels_hold_split [OF this] obtain LA LM LB where LL': "LL = LA @ LM @ LB" "length A = length LA" "length LM = 2"
    "levels_hold d [?ls ! i, ?ls ! (i + 1)] LM" by (auto simp del: levels_hold_simps)
  obtain S T where LM: "LM = [S, T]" using LL'(3) by (auto simp: numeral_2_eq_2 length_Suc_conv)
  have ST: "tables_hold d (level_iter (?ls ! i)) S" "tables_hold d (lv_sstables (?ls ! (i + 1))) (rev T)"
    using LL'(4) by (simp_all add: LM rev_level)
  show ?thesis
  proof (cases "key_range (?ls ! i)")
    case None
    then have "compact_levels now ts (i, i + 1) db_name d s = Inr (s, d)" using i by (simp add: compact_levels_def)
    then show ?thesis using run h fresh by (auto simp: step_done_def)
  next
    case (Some r)
    obtain a b where ab: "key_range (?ls ! i) = Some (a, b)" using Some by (cases r) auto
    have T: "distinct (map fst (concat (rev T)))"
      using h unfolding lvl_holds_def LL'(1) LM distinct_concat_rev by (cases LA) auto
    have "distinct (map sst_path (concat (map level_iter (A @ [?ls ! i, ?ls ! (i + 1)] @ B))))"
      using h ls by (simp add: lvl_holds_def leveled_iter_all_def)
    then have dp: "distinct (map sst_path (lv_sstables (?ls ! i) @ lv_sstables (?ls ! (i + 1))))"
      by (auto simp: level_iter_def simp flip: rev_map)
    have n: "length (concat S) + length (concat (rev T)) < 2 ^ 40" "lvl_block_size_bytes s < 2 ^ 31"
      using h by (simp_all add: lvl_holds_def LL'(1) LM length_concat rev_map [symmetric] sum_list_rev)
    have num: "lv_level_num (?ls ! (i + 1)) = i + 1" using lvl_holds_meta(1) [OF h, of "i + 1"] i by simp
    from compact_levels_holds [OF i ST T dp n, unfolded num, OF fresh ab, of now]
    obtain d' src' tgt' Ts' where r: "compact_levels now ts (i, i + 1) db_name d s = Inr (s\<lparr>lvl_levels := ?ls[i + 1 := tgt', i := src']\<rparr>, d')"
      and t': "tables_hold d' (lv_sstables tgt') Ts'" and dk: "distinct (map fst (concat Ts'))"
      and val: "(lv_is_terminal (?ls ! (i + 1)) \<longrightarrow> no_shadow now (concat S @ concat (rev T))) \<longrightarrow>
         (\<forall>t k. now \<le> t \<longrightarrow> value_at t (concat (rev Ts')) k = value_at t (concat S @ concat (rev (rev T))) k)"
      and frame: "\<forall>n. n \<notin> sst_path ` set (lv_sstables (?ls ! i) @ lv_sstables (?ls ! (i + 1))) \<longrightarrow> n \<noteq> ?fn \<longrightarrow> map_of d' n = map_of d n"
      and sub: "fst ` set (concat Ts') \<subseteq> fst ` set (concat S @ concat (rev T))" and tp: "distinct (map sst_path (lv_sstables tgt'))"
      and tsub: "sst_path ` set (lv_sstables tgt') \<subseteq> insert ?fn (sst_path ` set (lv_sstables (?ls ! (i + 1))))"
      and src': "src' = (?ls ! i)\<lparr>lv_sstables := []\<rparr>" and meta: "lv_level_num tgt' = i + 1" "lv_is_terminal tgt' = lv_is_terminal (?ls ! (i + 1))"
      and new: "?fn \<in> sst_path ` set (lv_sstables tgt')"
      by (elim exE conjE) (rule that)
    have upd: "?ls[i + 1 := tgt', i := src'] = A @ [src', tgt'] @ B"
      using A by (subst ls) (simp add: list_update_append)
    have perm: "permanent (concat S @ concat (rev T))" using h by (simp add: lvl_holds_def LL'(1) LM permanent_rev)
    note val = val [rule_format, OF permanent_no_shadow [OF perm]]
    have "levels_hold d' [src', tgt'] [[], rev Ts']" using t' by (simp add: src' level_iter_def tables_hold_rev)
    note rep = lvl_replace [OF h [unfolded LL'(1)] ls LL'(2), where M' = "[src', tgt']" and LM' = "[[], rev Ts']" and d' = d' and fn = ?fn and now = now,
        OF _ _ this]
    have ok: "lvl_holds d' (s\<lparr>lvl_levels := A @ [src', tgt'] @ B\<rparr>) (LA @ [[], rev Ts'] @ LB) \<and>
        (\<forall>t k. value_at t (level_entries (LA @ [[], rev Ts'] @ LB)) k = value_at t (level_entries (LA @ LM @ LB)) k) \<and>
        length (level_entries (LA @ [[], rev Ts'] @ LB)) \<le> length (level_entries (LA @ LM @ LB))"
      by (intro conjI allI rep)
        (use LM fresh dk val frame sub tp tsub src' meta num in \<open>auto simp: level_iter_def distinct_concat_rev simp flip: rev_map\<close>)
    have "map_of d n \<noteq> None" if "n \<noteq> ?fn" "map_of d' n \<noteq> None" for n
    proof (cases "n \<in> sst_path ` set (lv_sstables (?ls ! i) @ lv_sstables (?ls ! (i + 1)))")
      case True
      then show ?thesis using tables_hold_files [OF ST(1)] tables_hold_files [OF ST(2)] by (auto simp: level_iter_def)
    qed (use that frame in metis)
    moreover have "sst_path ` set (leveled_iter_all (s\<lparr>lvl_levels := A @ [src', tgt'] @ B\<rparr>)) \<subseteq> insert ?fn (sst_path ` set (leveled_iter_all s))"
      by (rule replaced_paths(1) [OF ls]) (use tsub in \<open>auto simp: src' level_iter_def\<close>)
    moreover have "sst_path ` set (lv_sstables (?ls ! i) @ lv_sstables (?ls ! (i + 1))) \<subseteq> sst_path ` set (leveled_iter_all s)"
      using replaced_paths(2) [OF ls] by (simp add: level_iter_def)
    then have "\<forall>n. n \<notin> sst_path ` set (leveled_iter_all s) \<longrightarrow> n \<noteq> ?fn \<longrightarrow> map_of d' n = map_of d n" using frame by blast
    ultimately have "step_done d s LL ?fn (i + 1) (s\<lparr>lvl_levels := A @ [src', tgt'] @ B\<rparr>, d')"
      using new A arg_cong [OF ls, of length] unfolding LL'(1)
      by (intro step_doneI [OF conjunct1 [OF ok] _ conjunct2 [OF ok]]) (simp_all add: nth_append)
    then show ?thesis using run r unfolding upd by simp
  qed
qed

lemma squash_step:
  assumes h: "lvl_holds d s LL" and i: "i + 1 = length (lvl_levels s)" and fn: "fn = sst_filename db_name (Some i) ts"
    and fresh: "map_of d fn \<noteq> None \<longrightarrow> fn \<in> sst_path ` set (lv_sstables (lvl_levels s ! i))"
  shows "\<exists>sd. compact_level now ts db_name i (s, d) = Inr sd \<and> step_done d s LL fn i sd"
proof -
  let ?l = "lvl_levels s ! i"
  have l: "lv_is_terminal ?l" "lv_level_num ?l = i" using lvl_holds_meta [OF h, of i] i by simp_all
  define A where "A = take i (lvl_levels s)"
  have ls: "lvl_levels s = A @ [?l] @ []" using i by (simp add: A_def flip: take_Suc_conv_app_nth)
  have A: "length A = i" using i by (simp add: A_def)
  have "levels_hold d (A @ [?l] @ []) LL" using h ls by (simp add: lvl_holds_def)
  from levels_hold_split [OF this] obtain LA LM LB where LL: "LL = LA @ LM @ LB" "length A = length LA" "length [?l] = length LM"
    "levels_hold d [?l] LM" "levels_hold d [] LB" by (elim exE conjE) (rule that)
  obtain L where LM: "LM = [L]" and LB: "LB = []" using LL(3,5) by (cases LM) auto
  have L: "tables_hold d (level_iter ?l) L" using LL(4) by (simp add: LM)
  have "distinct (map sst_path (concat (map level_iter (A @ [?l] @ []))))"
    using h ls by (simp add: lvl_holds_def leveled_iter_all_def)
  then have dp: "distinct (map sst_path (level_iter ?l))" by simp
  have perm: "permanent (concat L)" and n: "length (concat L) < 2 ^ 40" and bs: "lvl_block_size_bytes s < 2 ^ 31"
    using h by (simp_all add: lvl_holds_def LL(1) LM)
  show ?thesis
  proof (cases "lv_sstables ?l = []")
    case True
    then show ?thesis using h i l fresh by (auto simp: compact_level_def idx_def level_squash_def step_done_def)
  next
    case False
    from merge_and_remove_holds [OF L mt_holds_new dp, of True now]
    obtain m d1 where m: "merge_and_remove True now (level_iter ?l) (memtable_new, d) = Inr (m, d1)" "mt_holds m (merged True now (concat L))"
      and d1: "\<forall>n. map_of d1 n = (if n \<in> sst_path ` set (level_iter ?l) then None else map_of d n)" by auto
    have ok: "bt_ok (mt_entries m)" "\<forall>p \<in> set (mt_entries m). entry_fits p" "length (mt_entries m) < 2 ^ 40"
      using m(2) n length_merged [of True now "concat L"] by (auto simp: mt_holds_def mt_ok_def)
    have new: "map_of d1 fn = None" using d1 fresh by (auto simp: level_iter_def)
    from from_memtable_holds [OF ok bs new [unfolded fn], of "lvl_block_compression s"]
    obtain sst d' where w: "from_memtable ts db_name m (Some i) (lvl_block_size_bytes s) (lvl_block_compression s) d1 = Inr (sst, d')"
      and hs: "sst_holds d' sst (mt_entries m)" and path: "sst_path sst = fn"
      and d': "\<forall>n. n \<noteq> sst_path sst \<longrightarrow> map_of d' n = map_of d1 n" unfolding fn by blast
    define l' where "l' = level_append sst (?l\<lparr>lv_sstables := []\<rparr>)"
    have "(lvl_levels s)[i := l'] = A @ [l'] @ []" using A by (subst ls) (simp add: list_update_append)
    then have run: "compact_level now ts db_name i (s, d) = Inr (s\<lparr>lvl_levels := A @ [l'] @ []\<rparr>, d')"
      using i l False m(1) w by (simp add: compact_level_def idx_def level_squash_def l'_def)
    have mo: "map_of (mt_entries m) = map_of (merged True now (concat L))" using m(2) by (simp add: mt_holds_def)
    have keys: "fst ` set (mt_entries m) \<subseteq> fst ` set (concat L)"
      using merged_keys [of True now "concat L"] mo by (metis dom_map_of_conv_image_fst)
    have val: "value_at t (mt_entries m) k = value_at t (concat L) k" if "now \<le> t" for t k
      using value_at_merged [of True now "concat L" t k] permanent_no_shadow [OF perm] that mo by (simp add: value_at_def)
    have "levels_hold d' [l'] [[mt_entries m]]" using hs by (simp add: l'_def level_append_def level_iter_def)
    note rep = lvl_replace [OF h [unfolded LL(1)] ls LL(2,3), where M' = "[l']" and LM' = "[[mt_entries m]]" and d' = d' and fn = fn and now = now,
        OF _ this]
    have ok: "lvl_holds d' (s\<lparr>lvl_levels := A @ [l'] @ []\<rparr>) (LA @ [[mt_entries m]] @ LB) \<and>
        (\<forall>t k. value_at t (level_entries (LA @ [[mt_entries m]] @ LB)) k = value_at t (level_entries (LA @ LM @ LB)) k) \<and>
        length (level_entries (LA @ [[mt_entries m]] @ LB)) \<le> length (level_entries (LA @ LM @ LB))"
      by (intro conjI allI rep)
        (use LM fresh d1 d' path keys val ok(1) bt_ok_distinct in \<open>auto simp: l'_def level_append_def level_iter_def\<close>)
    have "step_done d s LL fn i (s\<lparr>lvl_levels := A @ [l'] @ []\<rparr>, d')"
      using d1 d' path A i replaced_paths(1) [OF ls, of "[l']" fn] replaced_paths(2) [OF ls] unfolding LL(1)
      by (intro step_doneI [OF conjunct1 [OF ok] _ conjunct2 [OF ok]]) (auto simp: l'_def level_append_def level_iter_def split: if_splits)
    then show ?thesis using run by simp
  qed
qed

section \<open>The full compaction\<close>

lemma sst_filename_level_inj:
  assumes "l < 2 ^ 64" and "l' < 2 ^ 64" and "sst_filename db_name (Some l) ts = sst_filename db_name (Some l') ts'"
  shows "l = l'"
proof -
  have "sst_parse (sst_filename db_name (Some l) ts) = sst_parse (sst_filename db_name (Some l') ts')" using assms(3) by simp
  then show ?thesis by (simp add: sst_parse_level [OF assms(1)] sst_parse_level [OF assms(2)])
qed

lemma step_file_inj:
  assumes "n \<le> 2 ^ 64" and "j < i" and "i < n" and "step_file n clk db_name i = step_file n clk db_name j"
  shows "i + 1 = n \<and> j + 1 = i"
proof -
  let ?l = "\<lambda>i. if i + 1 < n then i + 1 else i"
  have "?l i = ?l j" using assms by (intro sst_filename_level_inj [of _ _ db_name "snd (clk i)" "snd (clk j)"]) (auto simp: step_file_def)
  then show ?thesis using assms(2,3) by (auto split: if_splits)
qed

text \<open>The state after the first \<open>m\<close> steps.\<close>

definition steps_done :: "(nat \<Rightarrow> u64 \<times> u64) \<Rightarrow> rstring \<Rightarrow> dir \<Rightarrow> leveled \<Rightarrow> entries list list \<Rightarrow> nat \<Rightarrow> leveled \<times> dir \<Rightarrow> bool" where
  "steps_done clk db_name d s LL m sd \<longleftrightarrow>
     (\<exists>s' d' LL'. sd = (s', d') \<and> lvl_holds d' s' LL' \<and> length (lvl_levels s') = length (lvl_levels s) \<and>
        (\<forall>t k. value_at t (level_entries LL') k = value_at t (level_entries LL) k) \<and>
        length (level_entries LL') \<le> length (level_entries LL) \<and>
        (\<forall>n. map_of d' n \<noteq> None \<longrightarrow> map_of d n \<noteq> None \<or> (\<exists>j < m. n = step_file (length (lvl_levels s)) clk db_name j)) \<and>
        (\<forall>j. m = j + 1 \<longrightarrow> m < length (lvl_levels s) \<longrightarrow> map_of d' (step_file (length (lvl_levels s)) clk db_name j) \<noteq> None \<longrightarrow>
             step_file (length (lvl_levels s)) clk db_name j \<in> sst_path ` set (lv_sstables (lvl_levels s' ! m))) \<and>
        sst_path ` set (leveled_iter_all s') \<subseteq> sst_path ` set (leveled_iter_all s) \<union> step_file (length (lvl_levels s)) clk db_name ` {..<m} \<and>
        (\<forall>n. n \<notin> sst_path ` set (leveled_iter_all s) \<longrightarrow> n \<notin> step_file (length (lvl_levels s)) clk db_name ` {..<m} \<longrightarrow> map_of d' n = map_of d n))"

lemma compact_all_steps:
  fixes s :: leveled
  defines "n \<equiv> length (lvl_levels s)"
  assumes h: "lvl_holds d s LL" and "n \<le> 2 ^ 64" and fresh: "\<forall>i < n. map_of d (step_file n clk db_name i) = None" and "m \<le> n"
  shows "\<exists>sd. fold_res (\<lambda>i sd. compact_level (fst (clk i)) (snd (clk i)) db_name i sd) [0..<m] (s, d) = Inr sd \<and>
           steps_done clk db_name d s LL m sd"
  using \<open>m \<le> n\<close>
proof (induction m)
  case 0
  show ?case using h by (auto simp: steps_done_def)
next
  case (Suc m)
  let ?F = "step_file n clk db_name"
  from Suc obtain s1 d1 LL1 where run: "fold_res (\<lambda>i sd. compact_level (fst (clk i)) (snd (clk i)) db_name i sd) [0..<m] (s, d) = Inr (s1, d1)"
    and h1: "lvl_holds d1 s1 LL1" and len: "length (lvl_levels s1) = n"
    and val: "\<forall>t k. value_at t (level_entries LL1) k = value_at t (level_entries LL) k" "length (level_entries LL1) \<le> length (level_entries LL)"
    and old: "\<forall>n. map_of d1 n \<noteq> None \<longrightarrow> map_of d n \<noteq> None \<or> (\<exists>j < m. n = ?F j)"
    and prev: "\<forall>j. m = j + 1 \<longrightarrow> m < n \<longrightarrow> map_of d1 (?F j) \<noteq> None \<longrightarrow> ?F j \<in> sst_path ` set (lv_sstables (lvl_levels s1 ! m))"
    and sub1: "sst_path ` set (leveled_iter_all s1) \<subseteq> sst_path ` set (leveled_iter_all s) \<union> ?F ` {..<m}"
    and frame1: "\<forall>n. n \<notin> sst_path ` set (leveled_iter_all s) \<longrightarrow> n \<notin> ?F ` {..<m} \<longrightarrow> map_of d1 n = map_of d n"
    by (fastforce simp: steps_done_def n_def)
  have F: "map_of d1 (?F m) \<noteq> None \<longrightarrow> m + 1 = n \<and> ?F m \<in> sst_path ` set (lv_sstables (lvl_levels s1 ! m))"
  proof
    assume m: "map_of d1 (?F m) \<noteq> None"
    then obtain j where j: "j < m" "?F m = ?F j" using old fresh Suc.prems by fastforce
    from step_file_inj [OF \<open>n \<le> 2 ^ 64\<close> this(1) _ this(2)] Suc.prems have "m + 1 = n" "j + 1 = m" by auto
    then show "m + 1 = n \<and> ?F m \<in> sst_path ` set (lv_sstables (lvl_levels s1 ! m))" using prev m j(2) by auto
  qed
  have "\<exists>sd. compact_level (fst (clk m)) (snd (clk m)) db_name m (s1, d1) = Inr sd \<and>
      step_done d1 s1 LL1 (?F m) (if m + 1 < n then m + 1 else m) sd"
  proof (cases "m + 1 < n")
    case True
    then show ?thesis
      using merge_step [OF h1, of m db_name "snd (clk m)" "fst (clk m)"] F by (simp add: len step_file_def)
  next
    case False
    then have "m + 1 = n" using Suc.prems by simp
    then show ?thesis
      using squash_step [OF h1, of m "?F m" db_name "snd (clk m)" "fst (clk m)"] F by (simp add: len step_file_def)
  qed
  then obtain sd where "compact_level (fst (clk m)) (snd (clk m)) db_name m (s1, d1) = Inr sd"
    and stepped: "step_done d1 s1 LL1 (?F m) (if m + 1 < n then m + 1 else m) sd" by blast
  from stepped obtain s2 d2 LL2 where "sd = (s2, d2)"
    and h2: "lvl_holds d2 s2 LL2" "length (lvl_levels s2) = n" "\<forall>t k. value_at t (level_entries LL2) k = value_at t (level_entries LL1) k"
      "length (level_entries LL2) \<le> length (level_entries LL1)"
    and f: "\<forall>n. n \<noteq> ?F m \<longrightarrow> map_of d2 n \<noteq> None \<longrightarrow> map_of d1 n \<noteq> None"
      "map_of d2 (?F m) \<noteq> None \<longrightarrow> ?F m \<in> sst_path ` set (lv_sstables (lvl_levels s2 ! (if m + 1 < n then m + 1 else m)))"
    and sub2: "sst_path ` set (leveled_iter_all s2) \<subseteq> insert (?F m) (sst_path ` set (leveled_iter_all s1))"
    and frame2: "\<forall>n. n \<notin> sst_path ` set (leveled_iter_all s1) \<longrightarrow> n \<noteq> ?F m \<longrightarrow> map_of d2 n = map_of d1 n"
    unfolding step_done_def len by (elim exE conjE) (rule that)
  then have step: "compact_level (fst (clk m)) (snd (clk m)) db_name m (s1, d1) = Inr (s2, d2)" using \<open>_ = Inr sd\<close> by simp
  have lt: "{..<Suc m} = insert m {..<m}" by auto
  have sub: "sst_path ` set (leveled_iter_all s2) \<subseteq> sst_path ` set (leveled_iter_all s) \<union> ?F ` {..<Suc m}"
    unfolding lt image_insert using insert_mono [OF sub1, of "?F m"] sub2 by (simp only: Un_insert_right)
  have frame: "map_of d2 x = map_of d x" if "x \<notin> sst_path ` set (leveled_iter_all s)" "x \<notin> ?F ` {..<Suc m}" for x
  proof -
    have x: "x \<noteq> ?F m" "x \<notin> ?F ` {..<m}" using that(2) unfolding lt image_insert by simp_all
    then have "x \<notin> sst_path ` set (leveled_iter_all s1)" using that(1) sub1 by blast
    then show ?thesis using frame1 frame2 x that(1) by simp
  qed
  have "\<forall>x. map_of d2 x \<noteq> None \<longrightarrow> map_of d x \<noteq> None \<or> (\<exists>j < Suc m. x = ?F j)" using f(1) old by (metis less_Suc_eq)
  moreover have "\<forall>t k. value_at t (level_entries LL2) k = value_at t (level_entries LL) k" using h2(3) val(1) by metis
  moreover have "length (level_entries LL2) \<le> length (level_entries LL)" using h2(4) val(2) by simp
  moreover have "\<forall>j. Suc m = j + 1 \<longrightarrow> Suc m < n \<longrightarrow> map_of d2 (?F j) \<noteq> None \<longrightarrow> ?F j \<in> sst_path ` set (lv_sstables (lvl_levels s2 ! Suc m))"
    using f(2) by auto
  ultimately have "steps_done clk db_name d s LL (Suc m) (s2, d2)"
    unfolding steps_done_def n_def [symmetric] using h2(1,2) sub frame
    by (intro exI [of _ s2] exI [of _ d2] exI [of _ LL2] conjI allI impI refl) simp_all
  then show ?case using run step by (simp add: fold_res_append)
qed

text \<open>A full compaction of the levels changes no answer: when no record is deleted or has a time to live, the levels
  above 0 hold no key twice and the files to write are new, \<open>compact_all\<close> merges every level downwards, squashes the
  last one, returns, and every key reads at every time as before.\<close>

theorem leveled_compact_all_correct:
  fixes s :: leveled
  defines "n \<equiv> length (lvl_levels s)"
  assumes "lvl_holds d s LL" and "n \<le> 2 ^ 64" and "\<forall>i < n. map_of d (step_file n clk db_name i) = None"
  shows "\<exists>s' d' LL'. leveled_compact_all clk db_name d s = Inr (s', d') \<and> lvl_holds d' s' LL' \<and>
           (\<forall>t k. and_then (leveled_iter_for_key k s') (lookup_segments (\<lambda>_. t) 0 d' k) =
                  and_then (leveled_iter_for_key k s) (lookup_segments (\<lambda>_. t) 0 d k))"
proof -
  from compact_all_steps [OF assms(2,3,4) [unfolded n_def] order.refl]
  obtain s' d' LL' where r: "leveled_compact_all clk db_name d s = Inr (s', d')" "lvl_holds d' s' LL'"
    "\<forall>t k. value_at t (level_entries LL') k = value_at t (level_entries LL) k"
    by (auto simp: leveled_compact_all_def steps_done_def)
  have hold: "tables_hold d (leveled_iter_all s) (concat LL)" "tables_hold d' (leveled_iter_all s') (concat LL')"
    using levels_tables assms(2) r(2) by (simp_all add: lvl_holds_def leveled_iter_all_def)
  show ?thesis
    using r lvl.lookup_key_const [OF hold(1)] lvl.lookup_key_const [OF hold(2)]
    by (intro exI [of _ s'] exI [of _ d'] exI [of _ LL']) (simp add: level_entries_concat)
qed

text \<open>A table added at level 0.\<close>

lemma lvl_holds_add:
  fixes s :: leveled
  assumes "lvl_holds d s LL" and "lvl_levels s = l # ls" and "LL = L # LL'" and "sst_holds d' sst es" and "permanent es"
    and "length es + length (level_entries LL) < 2 ^ 40" and "\<forall>x \<in> set (leveled_iter_all s). sst_path x \<noteq> sst_path sst"
    and "\<forall>x \<in> set (leveled_iter_all s). map_of d' (sst_path x) = map_of d (sst_path x)"
  shows "lvl_holds d' (s\<lparr>lvl_levels := level_append sst l # ls\<rparr>) ((es # L) # LL')"
proof -
  have "levels_hold d' (l # ls) (L # LL')"
    by (rule levels_hold_frame [of d]) (use assms(1,2,3,8) in \<open>auto simp: lvl_holds_def leveled_iter_all_def\<close>)
  then show ?thesis
    using assms by (auto simp: lvl_holds_def leveled_iter_all_def level_append_def level_iter_def)
qed

lemma two_level_store_holds:
  assumes "tables_hold d [a, b] [es, es']" and "distinct (map sst_path [a, b])" and "permanent (es @ es')" and "length es + length es' < 2 ^ 40"
  shows "lvl_holds d (two_level_store True a b) [[es'], [es]]"
  using assms bt_ok_distinct [of es]
  by (auto simp: lvl_holds_def two_level_store_def leveled_iter_all_def level_iter_def sst_holds_def)

theorem leveled_compact_all_correct_witness:
  "\<exists>s d s' d'. leveled_compact_all (\<lambda>_. (5, 3)) (lit ''db'') d s = Inr (s', d') \<and>
     and_then (leveled_iter_for_key (lit ''k'') s) (lookup_segments (\<lambda>_. 9) 0 d (lit ''k'')) = Inr (Some (lit ''2'')) \<and>
     and_then (leveled_iter_for_key (lit ''k'') s') (lookup_segments (\<lambda>_. 9) 0 d' (lit ''k'')) = Inr (Some (lit ''2''))"
proof -
  let ?k = "lit ''k''"
  obtain a b d where h: "tables_hold d [a, b] [[(?k, plain_entry ''1'')], [(?k, plain_entry ''2'')]]"
    and p: "distinct (map sst_path [a, b])" and f: "map_of d (sst_filename (lit ''db'') (Some 1) 3) = None"
    using two_tables [of ?k "plain_entry ''1''" "plain_entry ''2''"] by auto
  let ?s = "two_level_store True a b"
  have hold: "lvl_holds d ?s [[[(?k, plain_entry ''2'')]], [[(?k, plain_entry ''1'')]]]"
    by (rule two_level_store_holds [OF h p]) (simp_all add: permanent_def entry_value_def)
  have "tables_hold d (leveled_iter_all ?s) [[(?k, plain_entry ''2'')], [(?k, plain_entry ''1'')]]"
    using h by (simp add: two_level_store_def leveled_iter_all_def level_iter_def)
  from lvl.lookup_key_const [OF this, of ?k 9]
  have before: "and_then (leveled_iter_for_key ?k ?s) (lookup_segments (\<lambda>_. 9) 0 d ?k) = Inr (Some (lit ''2''))"
    by (simp add: value_at_def)
  have "\<forall>i < length (lvl_levels ?s). map_of d (step_file (length (lvl_levels ?s)) (\<lambda>_. (5, 3)) (lit ''db'') i) = None"
    using f by (auto simp: two_level_store_def step_file_def less_Suc_eq)
  then obtain s' d' where "leveled_compact_all (\<lambda>_. (5, 3)) (lit ''db'') d ?s = Inr (s', d')"
    "\<forall>t k. and_then (leveled_iter_for_key k s') (lookup_segments (\<lambda>_. t) 0 d' k) =
           and_then (leveled_iter_for_key k ?s) (lookup_segments (\<lambda>_. t) 0 d k)"
    using leveled_compact_all_correct [OF hold, of "\<lambda>_. (5, 3)" "lit ''db''"] by (auto simp: two_level_store_def)
  then show ?thesis using before by (intro exI [of _ ?s] exI [of _ d] exI [of _ s'] exI [of _ d']) simp
qed

end
