(* ===== verification/Leveled_Reload.thy ===== *)
theory Leveled_Reload
  imports Leveled_Compaction
begin

text \<open>
  Reopening a leveled store (\<open>load_from_dir\<close> of src/src/leveled.rs): the names of the files give back the levels and the
  order of the tables, the files give back the indexes and filters. When the directory holds the files of the store and
  no other file of the database, and the flushed tables were written at increasing times, the loaded store answers every
  read as the store that was there before.
\<close>

section \<open>A store and its files\<close>

text \<open>The name of a database that does not look like the name of a level.\<close>

definition plain_name :: "rstring \<Rightarrow> bool" where
  "plain_name db_name \<longleftrightarrow> rsplit_once [95, 76] (as_bytes db_name) = None"

definition table_named :: "rstring \<Rightarrow> nat \<Rightarrow> sstable \<Rightarrow> bool" where
  "table_named db_name i x \<longleftrightarrow>
     sst_name x = db_name \<and> sst_path x = sst_filename db_name (sst_level x) (sst_timestamp x) \<and>
     (sst_level x = Some i \<or> i = 0 \<and> sst_level x = None)"

definition levels_named :: "rstring \<Rightarrow> level list \<Rightarrow> bool" where
  "levels_named db_name ls \<longleftrightarrow> (\<forall>i < length ls. \<forall>x \<in> set (lv_sstables (ls ! i)). table_named db_name i x)"

definition in_order :: "sstable list \<Rightarrow> bool" where
  "in_order ssts \<longleftrightarrow> sorted_wrt (<) (map sst_timestamp ssts)"

text \<open>No file of the database is left over.\<close>

definition no_strays :: "dir \<Rightarrow> rstring \<Rightarrow> leveled \<Rightarrow> bool" where
  "no_strays d db_name s \<longleftrightarrow>
     (\<forall>n stub. map_of d n \<noteq> None \<longrightarrow> sst_parse n = Some stub \<longrightarrow> sst_name stub = db_name \<longrightarrow> n \<in> sst_path ` set (leveled_iter_all s))"

definition on_disk :: "dir \<Rightarrow> rstring \<Rightarrow> leveled \<Rightarrow> bool" where
  "on_disk d db_name s \<longleftrightarrow>
     distinct (map fst d) \<and> levels_named db_name (lvl_levels s) \<and> no_strays d db_name s \<and> in_order (lv_sstables (lvl_levels s ! 0))"

lemma in_levels: "x \<in> set (leveled_iter_all s) \<longleftrightarrow> (\<exists>i < length (lvl_levels s). x \<in> set (lv_sstables (lvl_levels s ! i)))"
proof -
  have "x \<in> set (leveled_iter_all s) \<longleftrightarrow> (\<exists>l \<in> set (lvl_levels s). x \<in> set (lv_sstables l))" by (simp add: leveled_iter_all_def level_iter_def)
  also have "\<dots> \<longleftrightarrow> (\<exists>i < length (lvl_levels s). x \<in> set (lv_sstables (lvl_levels s ! i)))" by (metis in_set_conv_nth)
  finally show ?thesis .
qed

lemma parse_named:
  assumes "plain_name db_name" and "table_named db_name i x" and "i < 2 ^ 64"
  shows "\<exists>stub. sst_parse (sst_path x) = Some stub \<and> sst_name stub = db_name \<and> sst_level stub = sst_level x \<and> sst_timestamp stub = sst_timestamp x"
  using assms sst_parse_plain [of db_name] sst_parse_level [of i db_name]
  by (cases "sst_level x") (auto simp: table_named_def plain_name_def)

definition stub_of :: "sstable \<Rightarrow> sstable" where
  "stub_of x = (the (sst_parse (sst_path x)))\<lparr>sst_path := sst_path x\<rparr>"

definition found_level :: "sstable \<Rightarrow> nat" where
  "found_level t = (case sst_level t of Some l \<Rightarrow> l | None \<Rightarrow> 0)"

lemma stub_named:
  assumes "plain_name db_name" and "table_named db_name i x" and "i < 2 ^ 64"
  shows "sst_path (stub_of x) = sst_path x" and "sst_name (stub_of x) = db_name" and "sst_level (stub_of x) = sst_level x"
    and "sst_timestamp (stub_of x) = sst_timestamp x" and "found_level (stub_of x) = i"
  using parse_named [OF assms] assms(2) by (auto simp: stub_of_def found_level_def table_named_def)

section \<open>The tables that are found\<close>

definition found_tables :: "dir \<Rightarrow> rstring \<Rightarrow> sstable list" where
  "found_tables d db_name = List.map_filter (\<lambda>(name, _).
     case sst_parse name of Some table \<Rightarrow> if sst_name table = db_name then Some (table\<lparr>sst_path := name\<rparr>) else None | None \<Rightarrow> None) d"

lemma found_tables_simps [simp]:
  "found_tables [] db_name = []"
  "found_tables ((n, c) # d) db_name =
     (case sst_parse n of
        Some table \<Rightarrow> if sst_name table = db_name then table\<lparr>sst_path := n\<rparr> # found_tables d db_name else found_tables d db_name
      | None \<Rightarrow> found_tables d db_name)"
  by (auto simp: found_tables_def map_filter_simps split: option.split)

lemma found_tables_names: "sst_path ` set (found_tables d db_name) \<subseteq> fst ` set d"
proof (induction d)
  case (Cons p d)
  then show ?case by (cases p) (auto split: option.splits if_splits)
qed simp

lemma found_tables_paths: "distinct (map fst d) \<Longrightarrow> distinct (map sst_path (found_tables d db_name))"
proof (induction d)
  case (Cons p d)
  then show ?case using found_tables_names [of d db_name] by (cases p) (auto split: option.splits if_splits)
qed simp

lemma in_found_tables:
  "x \<in> set (found_tables d db_name) \<longleftrightarrow>
     (\<exists>stub. sst_path x \<in> fst ` set d \<and> sst_parse (sst_path x) = Some stub \<and> sst_name stub = db_name \<and> x = stub\<lparr>sst_path := sst_path x\<rparr>)"
proof (induction d)
  case (Cons p d)
  then show ?case by (cases p) (auto split: option.splits if_splits)
qed simp

text \<open>They are the tables of the store.\<close>

lemma found_tables_stubs:
  assumes "on_disk d db_name s" and "plain_name db_name" and "length (lvl_levels s) \<le> 2 ^ 64"
    and "\<forall>x \<in> set (leveled_iter_all s). map_of d (sst_path x) \<noteq> None"
  shows "set (found_tables d db_name) = stub_of ` set (leveled_iter_all s)"
proof (intro equalityI subsetI)
  fix y assume "y \<in> set (found_tables d db_name)"
  then obtain stub where y: "map_of d (sst_path y) \<noteq> None" "sst_parse (sst_path y) = Some stub" "sst_name stub = db_name" "y = stub\<lparr>sst_path := sst_path y\<rparr>"
    unfolding in_found_tables map_of_eq_None_iff by blast
  then obtain x where "x \<in> set (leveled_iter_all s)" "sst_path y = sst_path x" using assms(1) unfolding on_disk_def no_strays_def by blast
  then show "y \<in> stub_of ` set (leveled_iter_all s)" using y by (force simp: stub_of_def)
next
  fix y assume "y \<in> stub_of ` set (leveled_iter_all s)"
  then obtain x where x: "x \<in> set (leveled_iter_all s)" "y = stub_of x" by blast
  then obtain i where "i < length (lvl_levels s)" "x \<in> set (lv_sstables (lvl_levels s ! i))" by (auto simp: in_levels)
  then have "table_named db_name i x" "i < 2 ^ 64" using assms(1,3) by (auto simp: on_disk_def levels_named_def)
  from parse_named [OF assms(2) this] obtain stub where "sst_parse (sst_path x) = Some stub" "sst_name stub = db_name" by blast
  moreover have "sst_path x \<in> fst ` set d" using assms(4) x(1) by (auto simp: map_of_eq_None_iff)
  ultimately show "y \<in> set (found_tables d db_name)" using x(2) by (auto simp: in_found_tables stub_of_def)
qed

section \<open>The loop that fills the levels\<close>

definition rebuilt :: "dir \<Rightarrow> sstable \<Rightarrow> sstable" where
  "rebuilt d t = projr (sst_rebuild_index d t)"

definition fill_levels :: "dir \<Rightarrow> sstable list \<Rightarrow> leveled \<Rightarrow> leveled" where
  "fill_levels d ts s =
     s\<lparr>lvl_levels := map (\<lambda>i. (lvl_levels s ! i)\<lparr>lv_sstables := lv_sstables (lvl_levels s ! i) @
         map (rebuilt d) (filter (\<lambda>t. found_level t = i) ts)\<rparr>) [0..<length (lvl_levels s)]\<rparr>"

lemma fill_levels_simps:
  "fill_levels d [] s = s"
  "fill_levels d (t # ts) s =
     fill_levels d ts (s\<lparr>lvl_levels := (lvl_levels s)[found_level t := level_append (rebuilt d t) (lvl_levels s ! found_level t)]\<rparr>)"
proof -
  show "fill_levels d [] s = s" by (simp add: fill_levels_def map_nth)
  have "map (\<lambda>i. (lvl_levels s ! i)\<lparr>lv_sstables := lv_sstables (lvl_levels s ! i) @ map (rebuilt d) (filter (\<lambda>t. found_level t = i) (t # ts))\<rparr>)
          [0..<length (lvl_levels s)] =
        map (\<lambda>i. ((lvl_levels s)[found_level t := level_append (rebuilt d t) (lvl_levels s ! found_level t)] ! i)
          \<lparr>lv_sstables := lv_sstables ((lvl_levels s)[found_level t := level_append (rebuilt d t) (lvl_levels s ! found_level t)] ! i) @
            map (rebuilt d) (filter (\<lambda>t. found_level t = i) ts)\<rparr>) [0..<length (lvl_levels s)]"
    by (rule map_cong) (auto simp: nth_list_update level_append_def)
  then show "fill_levels d (t # ts) s =
     fill_levels d ts (s\<lparr>lvl_levels := (lvl_levels s)[found_level t := level_append (rebuilt d t) (lvl_levels s ! found_level t)]\<rparr>)"
    by (simp add: fill_levels_def)
qed

lemma load_fold:
  assumes "\<forall>t \<in> set ts. sst_rebuild_index d t = Inr (rebuilt d t) \<and> sst_level (rebuilt d t) = sst_level t \<and> found_level t < length (lvl_levels s)"
  shows "fold_res (\<lambda>sst s.
         and_then (sst_rebuild_index d sst) (\<lambda>sst.
           let level = (case sst_level sst of Some l \<Rightarrow> l | None \<Rightarrow> 0);
               n = length (lvl_levels s)
           in if level < n then Inr (s\<lparr>lvl_levels := (lvl_levels s)[level := level_append sst (lvl_levels s ! level)]\<rparr>)
              else if n = 0 then Inl (Panic ''called Option::unwrap() on a None value'')
              else Inr (s\<lparr>lvl_levels := (lvl_levels s)[n - 1 := level_append sst (lvl_levels s ! (n - 1))]\<rparr>)))
         ts s = Inr (fill_levels d ts s)"
  using assms
proof (induction ts arbitrary: s)
  case (Cons t ts)
  have "found_level (rebuilt d t) = found_level t" using Cons.prems by (simp add: found_level_def)
  then show ?case using Cons by (auto simp: fill_levels_simps Let_def simp flip: found_level_def)
qed (simp add: fill_levels_simps)

section \<open>The loaded store\<close>

lemma sorted_key_unique:
  fixes f :: "'a \<Rightarrow> 'b::linorder"
  assumes "sorted (map f xs)" and "sorted_wrt (<) (map f ys)" and "distinct xs" and "set xs = set ys"
  shows "xs = ys"
proof -
  have ys: "sorted (map f ys)" "distinct (map f ys)" using assms(2) by (simp_all add: strict_sorted_iff)
  then have inj: "inj_on f (set xs)" using assms(4) by (simp add: distinct_map)
  then have "distinct (map f xs)" using assms(3) by (simp add: distinct_map)
  then have "map f xs = map f ys" using assms(1,4) ys by (intro sorted_distinct_set_unique) simp_all
  then show ?thesis using inj assms(4) by (intro map_inj_on [of f]) simp_all
qed

text \<open>The entries of a table as a function of its path.\<close>

lemma entries_by_path:
  assumes "levels_hold d ls LL" and "distinct (map sst_path (concat (map level_iter ls)))"
  shows "\<exists>E. LL = map (\<lambda>l. map (\<lambda>x. E (sst_path x)) (level_iter l)) ls \<and>
           (\<forall>x \<in> set (concat (map level_iter ls)). sst_holds d x (E (sst_path x)))"
proof -
  let ?xs = "concat (map level_iter ls)" and ?es = "concat LL"
  define E where "E n = the (map_of (zip (map sst_path ?xs) ?es) n)" for n
  have all: "tables_hold d ?xs ?es" by (rule levels_tables [OF assms(1)])
  then have len: "length ?xs = length ?es" by (rule tables_hold_length)
  have E: "E (sst_path (?xs ! i)) = ?es ! i" if "i < length ?xs" for i
    using that len assms(2) map_of_zip_nth [of "map sst_path ?xs" ?es i] by (simp add: E_def del: map_concat)
  have "map (\<lambda>x. E (sst_path x)) ?xs = ?es" by (rule nth_equalityI) (use E len in simp_all)
  then have "concat (map (\<lambda>l. map (\<lambda>x. E (sst_path x)) (level_iter l)) ls) = concat LL" by (simp add: map_concat comp_def)
  moreover have "\<forall>(x, y) \<in> set (zip (map (\<lambda>l. map (\<lambda>x. E (sst_path x)) (level_iter l)) ls) LL). length x = length y"
    using assms(1) unfolding levels_hold_def by (auto simp: set_zip list_all2_conv_all_nth) (blast intro: tables_hold_length)
  ultimately have "map (\<lambda>l. map (\<lambda>x. E (sst_path x)) (level_iter l)) ls = LL"
    using assms(1) by (subst (asm) concat_eq_concat_iff) (auto simp: levels_hold_def dest: list_all2_lengthD)
  moreover have "sst_holds d x (E (sst_path x))" if "x \<in> set ?xs" for x
  proof -
    from that obtain i where "i < length ?xs" "?xs ! i = x" unfolding in_set_conv_nth by (elim exE conjE) (rule that)
    then show ?thesis using all E [of i] by (auto simp: tables_hold_def list_all2_conv_all_nth)
  qed
  ultimately show ?thesis by (intro exI [of _ E]) simp
qed

text \<open>What rebuilding keeps of a table, once and twice.\<close>

lemma rebuilt_holds:
  assumes "sst_holds d x es" and "length es < 2 ^ 40" and "sst_path t = sst_path x"
  shows "sst_rebuild_index d t = Inr (rebuilt d t)" and "sst_holds d (rebuilt d t) es" and "sst_path (rebuilt d t) = sst_path t"
    and "sst_timestamp (rebuilt d t) = sst_timestamp t" and "sst_name (rebuilt d t) = sst_name t" and "sst_level (rebuilt d t) = sst_level t"
  using sst_rebuild_holds [OF assms(1,3,2)] by (auto simp: rebuilt_def)

lemma load_from_dir_levels:
  fixes s :: leveled
  defines "ls \<equiv> lvl_levels s"
  assumes hold: "\<forall>x \<in> set (leveled_iter_all s). sst_holds d x (E (sst_path x)) \<and> length (E (sst_path x)) < 2 ^ 40"
    and paths: "distinct (map sst_path (leveled_iter_all s))"
    and od: "on_disk d db_name s" and name: "plain_name db_name" and n: "length ls \<le> 2 ^ 64"
    and new: "leveled_new (length ls) l0 l1 bs compression = Inr s0" and empty: "\<forall>l \<in> set (lvl_levels s0). lv_sstables l = []" "length (lvl_levels s0) = length ls"
  shows "\<exists>G. leveled_load_from_dir d db_name (length ls) l0 l1 bs compression =
             Inr (s0\<lparr>lvl_levels := map (\<lambda>i. (lvl_levels s0 ! i)\<lparr>lv_sstables := map (\<lambda>t. rebuilt d (rebuilt d t)) (G i)\<rparr>) [0..<length ls]\<rparr>) \<and>
           (\<forall>i < length ls. set (G i) = stub_of ` set (lv_sstables (ls ! i)) \<and> distinct (map sst_path (G i))) \<and>
           (0 < length ls \<longrightarrow> G 0 = map stub_of (lv_sstables (ls ! 0)))"
proof -
  define T where "T = sort_key sst_timestamp (found_tables d db_name)"
  define G where "G i = filter (\<lambda>t. found_level t = i) T" for i
  have named: "table_named db_name i x" if "i < length ls" "x \<in> set (lv_sstables (ls ! i))" for i x
    using od that by (simp add: on_disk_def levels_named_def ls_def)
  have stub: "sst_path (stub_of x) = sst_path x \<and> sst_name (stub_of x) = db_name \<and> sst_level (stub_of x) = sst_level x \<and>
      sst_timestamp (stub_of x) = sst_timestamp x \<and> found_level (stub_of x) = i" if "i < length ls" "x \<in> set (lv_sstables (ls ! i))" for i x
    using stub_named [OF name named [OF that]] that(1) n by simp
  have "\<forall>x \<in> set (leveled_iter_all s). map_of d (sst_path x) \<noteq> None" using hold by (auto simp: sst_holds_def)
  then have T: "set T = stub_of ` set (leveled_iter_all s)" using found_tables_stubs [OF od name] n by (simp add: T_def ls_def)
  have tables: "\<exists>x \<in> set (leveled_iter_all s). sst_path t = sst_path x \<and> found_level t < length ls" if "t \<in> set T" for t
  proof -
    from that T obtain x where x: "x \<in> set (leveled_iter_all s)" "t = stub_of x" by auto
    then obtain i where "i < length ls" "x \<in> set (lv_sstables (ls ! i))" by (auto simp: in_levels ls_def)
    from stub [OF this] this(1) x show ?thesis by auto
  qed
  have reb: "sst_rebuild_index d t = Inr (rebuilt d t) \<and> sst_holds d (rebuilt d t) (E (sst_path t)) \<and> length (E (sst_path t)) < 2 ^ 40 \<and> sst_path (rebuilt d t) = sst_path t \<and>
      sst_level (rebuilt d t) = sst_level t" if "t \<in> set T" for t
    using tables [OF that] hold rebuilt_holds [of d _ "E (sst_path t)" t] by metis
  have get: "get_sstables d db_name = Inr (map (rebuilt d) T)"
    unfolding get_sstables_def Let_def found_tables_def [symmetric] T_def [symmetric] by (rule map_res_total) (use reb in blast)
  have "\<forall>t \<in> set (map (rebuilt d) T). sst_rebuild_index d t = Inr (rebuilt d t) \<and> sst_level (rebuilt d t) = sst_level t \<and> found_level t < length (lvl_levels s0)"
  proof (intro ballI)
    fix u assume "u \<in> set (map (rebuilt d) T)"
    then obtain t where t: "t \<in> set T" "u = rebuilt d t" by auto
    have "found_level u = found_level t" using reb [OF t(1)] t(2) by (simp add: found_level_def)
    then show "sst_rebuild_index d u = Inr (rebuilt d u) \<and> sst_level (rebuilt d u) = sst_level u \<and> found_level u < length (lvl_levels s0)"
      using reb [OF t(1)] t(2) tables [OF t(1)] empty(2) rebuilt_holds [of d u "E (sst_path t)" u] by auto
  qed
  note load = load_fold [OF this]
  have sel: "filter (\<lambda>t. found_level t = i) (map (rebuilt d) T) = map (rebuilt d) (G i)" for i
    unfolding G_def filter_map using reb by (auto simp: found_level_def comp_def intro!: arg_cong [of _ _ "map (rebuilt d)"] filter_cong)
  have run: "leveled_load_from_dir d db_name (length ls) l0 l1 bs compression = Inr (fill_levels d (map (rebuilt d) T) s0)"
    using get new load by (simp add: leveled_load_from_dir_def)
  have "fill_levels d (map (rebuilt d) T) s0 =
      s0\<lparr>lvl_levels := map (\<lambda>i. (lvl_levels s0 ! i)\<lparr>lv_sstables := map (\<lambda>t. rebuilt d (rebuilt d t)) (G i)\<rparr>) [0..<length ls]\<rparr>"
    unfolding fill_levels_def sel using empty by (simp add: comp_def)
  moreover have G: "set (G i) = stub_of ` set (lv_sstables (ls ! i)) \<and> distinct (map sst_path (G i))" if "i < length ls" for i
  proof
    show "set (G i) = stub_of ` set (lv_sstables (ls ! i))"
    proof (intro equalityI subsetI)
      fix t assume "t \<in> set (G i)"
      then obtain x where x: "x \<in> set (leveled_iter_all s)" "t = stub_of x" "found_level t = i" using T by (auto simp: G_def)
      then obtain j where "j < length ls" "x \<in> set (lv_sstables (ls ! j))" by (auto simp: in_levels ls_def)
      with stub [OF this] x show "t \<in> stub_of ` set (lv_sstables (ls ! i))" by auto
    next
      fix t assume "t \<in> stub_of ` set (lv_sstables (ls ! i))"
      then obtain x where x: "x \<in> set (lv_sstables (ls ! i))" "t = stub_of x" by auto
      with that have "x \<in> set (leveled_iter_all s)" by (auto simp: in_levels ls_def)
      with x stub [OF that x(1)] T show "t \<in> set (G i)" by (auto simp: G_def)
    qed
    have "distinct (map fst d)" using od by (simp add: on_disk_def)
    from found_tables_paths [OF this, of db_name] have "distinct (map sst_path T)"
      by (simp add: T_def distinct_map)
    then show "distinct (map sst_path (G i))" by (simp add: G_def distinct_map_filter)
  qed
  moreover have "G 0 = map stub_of (lv_sstables (ls ! 0))" if "0 < length ls"
  proof (rule sorted_key_unique [where f = sst_timestamp])
    show "sorted (map sst_timestamp (G 0))" by (simp add: G_def T_def sorted_filter)
    have "map sst_timestamp (map stub_of (lv_sstables (ls ! 0))) = map sst_timestamp (lv_sstables (ls ! 0))" using stub [OF that] by simp
    then show "sorted_wrt (<) (map sst_timestamp (map stub_of (lv_sstables (ls ! 0))))" using od by (simp only: on_disk_def in_order_def ls_def)
    show "distinct (G 0)" "set (G 0) = set (map stub_of (lv_sstables (ls ! 0)))" using G [OF that] by (auto simp: distinct_map)
  qed
  ultimately show ?thesis using run by (intro exI [of _ G]) simp
qed

lemma length_le_concat: "xs \<in> set xss \<Longrightarrow> length xs \<le> length (concat xss)"
  by (induction xss) auto

lemma map_of_levels:
  assumes "length LL = length LL'" and "\<forall>i < length LL. map_of (concat (LL ! i)) = map_of (concat (LL' ! i))"
  shows "map_of (level_entries LL) = map_of (level_entries LL')"
  using assms
proof (induction LL LL' rule: list_induct2)
  case (Cons L LL L' LL')
  have "map_of (concat L) = map_of (concat L')" using Cons.prems by (metis length_greater_0_conv list.simps(3) nth_Cons_0)
  moreover have "\<forall>i < length LL. map_of (concat (LL ! i)) = map_of (concat (LL' ! i))"
    using Cons.prems by (metis Suc_less_eq length_Cons nth_Cons_Suc)
  ultimately show ?case using Cons.IH by simp
qed simp

lemma mset_concat_cong:
  assumes "length xss = length yss" and "\<forall>i < length xss. mset (xss ! i) = mset (yss ! i)"
  shows "mset (concat xss) = mset (concat yss)"
  using assms
proof (induction xss yss rule: list_induct2)
  case (Cons xs xss ys yss)
  have "mset xs = mset ys" using Cons.prems by (metis length_greater_0_conv list.simps(3) nth_Cons_0)
  moreover have "\<forall>i < length xss. mset (xss ! i) = mset (yss ! i)"
    using Cons.prems by (metis Suc_less_eq length_Cons nth_Cons_Suc)
  ultimately show ?case using Cons.IH by simp
qed simp

lemma mset_concat_mset: "mset L = mset L' \<Longrightarrow> mset (concat L) = mset (concat L')"
  by (metis mset_concat mset_map sum_mset_sum_list)

lemma distinct_levels:
  assumes "distinct (map f (concat xss))" and "i < length xss"
  shows "distinct (map f (xss ! i))"
  using assms by (auto simp: map_concat distinct_concat_iff)

text \<open>The loaded store holds the same entries: level 0 in the same order, the others in some order.\<close>

theorem load_from_dir_holds:
  fixes s :: leveled
  assumes h: "levels_hold d (lvl_levels s) LL" and paths: "distinct (map sst_path (leveled_iter_all s))"
    and keys: "\<forall>L \<in> set (tl LL). distinct (map fst (concat L))" and short: "length (level_entries LL) < 2 ^ 40"
    and od: "on_disk d db_name s" and name: "plain_name db_name" and n: "0 < length (lvl_levels s)" "length (lvl_levels s) \<le> 2 ^ 64"
    and new: "leveled_new (length (lvl_levels s)) l0 l1 bs compression = Inr s0" and empty: "\<forall>l \<in> set (lvl_levels s0). lv_sstables l = []" "length (lvl_levels s0) = length (lvl_levels s)"
  shows "\<exists>s' LL'. leveled_load_from_dir d db_name (length (lvl_levels s)) l0 l1 bs compression = Inr s' \<and>
           levels_hold d (lvl_levels s') LL' \<and> mset (level_entries LL') = mset (level_entries LL) \<and> map_of (level_entries LL') = map_of (level_entries LL) \<and>
           (\<forall>L \<in> set (tl LL'). distinct (map fst (concat L))) \<and> distinct (map sst_path (leveled_iter_all s')) \<and> on_disk d db_name s' \<and>
           map lv_level_num (lvl_levels s') = map lv_level_num (lvl_levels s0) \<and> map lv_is_terminal (lvl_levels s') = map lv_is_terminal (lvl_levels s0) \<and>
           lvl_block_size_bytes s' = lvl_block_size_bytes s0"
proof -
  let ?ls = "lvl_levels s" and ?RR = "\<lambda>t. rebuilt d (rebuilt d t)"
  have all: "leveled_iter_all s = concat (map level_iter ?ls)" by (simp add: leveled_iter_all_def)
  from entries_by_path [OF h] paths obtain E where E: "LL = map (\<lambda>l. map (\<lambda>x. E (sst_path x)) (level_iter l)) ?ls"
    "\<forall>x \<in> set (leveled_iter_all s). sst_holds d x (E (sst_path x))" unfolding all by blast
  have small: "length (E (sst_path x)) < 2 ^ 40" if "x \<in> set (leveled_iter_all s)" for x
  proof -
    have "E (sst_path x) \<in> set (concat LL)" using that E(1) by (auto simp: all)
    then have "length (E (sst_path x)) \<le> length (concat (concat LL))" by (rule length_le_concat)
    then show ?thesis using short by (simp add: level_entries_concat)
  qed
  from load_from_dir_levels [OF _ paths od name n(2) new empty, of E] E(2) small obtain G where
      run: "leveled_load_from_dir d db_name (length ?ls) l0 l1 bs compression =
        Inr (s0\<lparr>lvl_levels := map (\<lambda>i. (lvl_levels s0 ! i)\<lparr>lv_sstables := map ?RR (G i)\<rparr>) [0..<length ?ls]\<rparr>)"
    and G: "\<forall>i < length ?ls. set (G i) = stub_of ` set (lv_sstables (?ls ! i)) \<and> distinct (map sst_path (G i))"
    and G0: "G 0 = map stub_of (lv_sstables (?ls ! 0))" using n(1) by auto
  let ?n = "length ?ls"
  define s' where "s' = s0\<lparr>lvl_levels := map (\<lambda>i. (lvl_levels s0 ! i)\<lparr>lv_sstables := map ?RR (G i)\<rparr>) [0..<?n]\<rparr>"
  define LL' where "LL' = map (\<lambda>i. map (\<lambda>t. E (sst_path t)) (rev (G i))) [0..<?n]"
  have ls': "length (lvl_levels s') = ?n" "lv_sstables (lvl_levels s' ! i) = map ?RR (G i)" if "i < ?n" for i
    using that by (simp_all add: s'_def)
  have tab: "sst_holds d (?RR t) (E (sst_path t)) \<and> sst_path (?RR t) = sst_path t \<and> table_named db_name i (?RR t) \<and> sst_timestamp (?RR t) = sst_timestamp t"
    if "i < ?n" "t \<in> set (G i)" for i t
  proof -
    from G that obtain x where x: "x \<in> set (lv_sstables (?ls ! i))" "t = stub_of x" by auto
    have all_x: "x \<in> set (leveled_iter_all s)" using x(1) that(1) by (auto simp: in_levels)
    have nx: "table_named db_name i x" using od x(1) that(1) by (simp add: on_disk_def levels_named_def)
    note st = stub_named [OF name nx]
    have p: "sst_path t = sst_path x" using st(1) x(2) that(1) n(2) by simp
    note r1 = rebuilt_holds [OF E(2) [rule_format, OF all_x] small [OF all_x] p]
    note r2 = rebuilt_holds [OF r1(2) small [OF all_x] refl]
    show ?thesis using r1 r2 st p x(2) nx that(1) n(2) by (simp add: table_named_def)
  qed
  have pm: "mset (map sst_path (G i)) = mset (map sst_path (lv_sstables (?ls ! i)))" if "i < ?n" for i
  proof -
    have "distinct (map sst_path (level_iter (?ls ! i)))" using distinct_levels [of sst_path "map level_iter ?ls" i] paths that by (simp add: all)
    then have "distinct (map sst_path (lv_sstables (?ls ! i)))" by (simp add: level_iter_def flip: rev_map)
    moreover have "sst_path (stub_of x) = sst_path x" if "x \<in> set (lv_sstables (?ls ! i))" for x
      using stub_named(1) [OF name, of i x] od that \<open>i < ?n\<close> n(2) by (simp add: on_disk_def levels_named_def)
    then have "set (map sst_path (G i)) = set (map sst_path (lv_sstables (?ls ! i)))" using G that by (simp add: image_image)
    ultimately show ?thesis using G that by (subst set_eq_iff_mset_eq_distinct [symmetric]) simp_all
  qed
  have "tables_hold d (map ?RR (G i)) (map (\<lambda>t. E (sst_path t)) (G i))" if "i < ?n" for i
    using tab [OF that] by (simp add: tables_hold_def list_all2_conv_all_nth)
  then have hold': "levels_hold d (lvl_levels s') LL'"
    unfolding levels_hold_def list_all2_conv_all_nth
    by (auto simp: s'_def LL'_def level_iter_def tables_hold_rev simp flip: rev_map)
  have LL: "LL ! i = map (\<lambda>x. E (sst_path x)) (rev (lv_sstables (?ls ! i)))" "LL' ! i = map (\<lambda>t. E (sst_path t)) (rev (G i))" if "i < ?n" for i
    using that by (simp_all add: E(1) LL'_def level_iter_def)
  have len: "length LL = ?n" "length LL' = ?n" by (simp_all add: E(1) LL'_def)
  have ms: "mset (LL' ! i) = mset (LL ! i)" if "i < ?n" for i
  proof -
    have "mset (LL' ! i) = image_mset E (mset (map sst_path (G i)))" using that by (simp add: LL image_mset.compositionality comp_def)
    also have "\<dots> = mset (LL ! i)" unfolding pm [OF that] using that by (simp add: LL image_mset.compositionality comp_def)
    finally show ?thesis .
  qed
  then have msc: "mset (concat (LL' ! i)) = mset (concat (LL ! i))" if "i < ?n" for i using that by (intro mset_concat_mset) simp
  have kd: "distinct (map fst (concat (LL ! i)))" if "0 < i" "i < ?n" for i
    using keys that len(1) by (metis One_nat_def Suc_pred diff_less_mono length_tl nth_mem nth_tl less_eq_Suc_le)
  then have kd': "distinct (map fst (concat (LL' ! i)))" if "0 < i" "i < ?n" for i using that msc distinct_keys_mset by metis
  have "map_of (concat (LL' ! i)) = map_of (concat (LL ! i))" if "i < ?n" for i
  proof (cases "i = 0")
    case True
    have "map (\<lambda>x. E (sst_path x)) (map stub_of (lv_sstables (?ls ! 0))) = map (\<lambda>x. E (sst_path x)) (lv_sstables (?ls ! 0))"
      using stub_named(1) [OF name, of 0] od n(1) by (auto simp: on_disk_def levels_named_def)
    then have "LL' ! 0 = LL ! 0" using n(1) by (simp only: LL G0 rev_map [symmetric])
    then show ?thesis using True by simp
  next
    case False
    then show ?thesis using that kd kd' mset_eq_setD [OF msc [OF that]] by (intro map_of_perm) simp_all
  qed
  then have mo: "map_of (level_entries LL') = map_of (level_entries LL)" using len by (intro map_of_levels) simp_all
  have me: "mset (level_entries LL') = mset (level_entries LL)"
    unfolding level_entries_def using len msc by (intro mset_concat_cong) simp_all
  have mp: "mset (map sst_path (leveled_iter_all s')) = mset (map sst_path (leveled_iter_all s))"
  proof -
    have "mset (map sst_path (level_iter (lvl_levels s' ! i))) = mset (map sst_path (level_iter (?ls ! i)))" if "i < ?n" for i
    proof -
      have "map (sst_path \<circ> ?RR) (G i) = map sst_path (G i)" using tab [OF that] by simp
      then show ?thesis using that pm [OF that] by (simp only: level_iter_def ls'(2) map_map mset_map [symmetric] rev_map [symmetric] mset_rev)
    qed
    then show ?thesis unfolding leveled_iter_all_def map_concat by (intro mset_concat_cong) (simp_all add: s'_def)
  qed
  have "L \<in> set (tl LL') \<Longrightarrow> distinct (map fst (concat L))" for L
    using kd' len(2) by (auto simp: in_set_conv_nth nth_tl)
  moreover have "distinct (map sst_path (leveled_iter_all s'))" using mp paths by (metis mset_eq_imp_distinct_iff)
  moreover have "on_disk d db_name s'"
  proof -
    have "sst_path ` set (leveled_iter_all s') = sst_path ` set (leveled_iter_all s)" using mset_eq_setD [OF mp] by simp
    then have "no_strays d db_name s'" using od by (simp add: on_disk_def no_strays_def)
    moreover have "levels_named db_name (lvl_levels s')" using tab by (auto simp: levels_named_def s'_def)
    moreover have "map sst_timestamp (lv_sstables (lvl_levels s' ! 0)) = map sst_timestamp (lv_sstables (?ls ! 0))"
      using tab [OF n(1)] stub_named(4) [OF name, of 0] od n(1) by (auto simp: s'_def G0 on_disk_def levels_named_def)
    ultimately show ?thesis using od by (simp add: on_disk_def in_order_def)
  qed
  moreover have "map lv_level_num (lvl_levels s') = map lv_level_num (lvl_levels s0)" "map lv_is_terminal (lvl_levels s') = map lv_is_terminal (lvl_levels s0)"
    using empty(2) by (auto simp: s'_def intro!: nth_equalityI)
  moreover have "lvl_block_size_bytes s' = lvl_block_size_bytes s0" by (simp add: s'_def)
  ultimately show ?thesis using run hold' mo me unfolding s'_def [symmetric] by blast
qed

end
