(* ===== verification/Lsm_Compaction.thy ===== *)
theory Lsm_Compaction
  imports Lsm_Queries Leveled_Reload
begin

text \<open>
  The LSM engine with the leveled strategy under compaction (\<open>compact\<close> and \<open>compact_step\<close> of src/src/lsmengine.rs): the
  sections of a full compaction and the single steps of a partial one, in between the phases of the flush thread. A dead
  record can bring older ones back at the last level, so the invariant \<open>store_inv\<close> is about stores in which no record was
  deleted or has a time to live; there every step keeps every answer. One interleaving is excluded, because it loses
  writes: a flush that starts between the first two sections of a full compaction.
\<close>

section \<open>The invariant\<close>

text \<open>The records of the immutable memtable that are in no table yet.\<close>

definition pending :: "lsm \<Rightarrow> nat" where
  "pending s =
     (case lsm_flush_handle s of
        Some FlushWrite \<Rightarrow> length (mt_entries (the (lsm_immutable s)))
      | Some (FlushAdd sst) \<Rightarrow> length (mt_entries (the (lsm_immutable s)))
      | _ \<Rightarrow> 0)"

definition store_inv :: "nat \<Rightarrow> lsm \<Rightarrow> leveled \<Rightarrow> entries list list \<Rightarrow> bool" where
  "store_inv n s lv LL \<longleftrightarrow>
     lsm_inv n s (concat LL) \<and> lsm_strategy s = LeveledS lv \<and> lvl_holds (lsm_dir s) lv LL \<and>
     permanent (mt_entries (lsm_active s)) \<and> (\<forall>m. lsm_immutable s = Some m \<longrightarrow> permanent (mt_entries m)) \<and>
     (\<forall>sst. lsm_flush_handle s = Some (FlushAdd sst) \<longrightarrow> sst_path sst \<notin> sst_path ` set (leveled_iter_all lv)) \<and>
     length (mt_entries (lsm_active s)) + pending s + length (level_entries LL) \<le> n"

lemma pending_tables [simp]: "pending (s\<lparr>lsm_strategy := st, lsm_dir := d\<rparr>) = pending s"
  by (simp add: pending_def split: option.split flush_phase.split)

text \<open>The files a compaction may write are new.\<close>

definition fresh_steps :: "(nat \<Rightarrow> u64 \<times> u64) \<Rightarrow> lsm \<Rightarrow> nat \<Rightarrow> bool" where
  "fresh_steps clk s n \<longleftrightarrow> n \<le> 2 ^ 64 \<and> (\<forall>i < n. map_of (lsm_dir s) (step_file n clk (lsm_db_name s) i) = None)"

lemma step_file_neq: "plain_name db_name \<Longrightarrow> n \<le> 2 ^ 64 \<Longrightarrow> i < n \<Longrightarrow> step_file n clk db_name i \<noteq> sst_filename db_name None ts"
  unfolding step_file_def plain_name_def by (rule sst_filename_level_neq) auto

lemma lvl_holds_frame:
  assumes "lvl_holds d s LL" and "\<forall>x \<in> set (leveled_iter_all s). map_of d' (sst_path x) = map_of d (sst_path x)"
  shows "lvl_holds d' s LL"
  using assms levels_hold_frame [of d "lvl_levels s" LL d'] by (simp add: lvl_holds_def leveled_iter_all_def)

lemma lvl_holds_tables: "lvl_holds d s LL \<Longrightarrow> tables_hold d (leveled_iter_all s) (concat LL)"
  by (simp add: lvl_holds_def leveled_iter_all_def levels_tables)

section \<open>The flush thread\<close>

lemma store_flush_write:
  assumes inv: "store_inv n s lv LL" and n: "n < 2 ^ 40" and ph: "lsm_flush_handle s = Some FlushWrite" and fresh: "fresh_name ts s"
  shows "\<exists>sst d. flush_step F ts s = Inr (s\<lparr>lsm_dir := d, lsm_flush_handle := Some (FlushAdd sst)\<rparr>) \<and>
           store_inv n (s\<lparr>lsm_dir := d, lsm_flush_handle := Some (FlushAdd sst)\<rparr>) lv LL \<and>
           from_memtable ts (lsm_db_name s) (the (lsm_immutable s)) None (lsm_block_size_bytes s) (lsm_block_compression s) (lsm_dir s) = Inr (sst, d) \<and>
           (\<forall>nm. nm \<noteq> sst_filename (lsm_db_name s) None ts \<longrightarrow> map_of d nm = map_of (lsm_dir s) nm)"
proof -
  let ?fn = "sst_filename (lsm_db_name s) None ts"
  obtain m where m: "lsm_immutable s = Some m" "mt_good n m"
    using inv ph by (auto simp: store_inv_def lsm_inv_def phase_inv_def)
  then have ok: "bt_ok (mt_entries m)" "\<forall>p \<in> set (mt_entries m). entry_fits p" "length (mt_entries m) < 2 ^ 40" "lsm_block_size_bytes s < 2 ^ 31"
    using n inv by (auto simp: mt_good_def mt_ok_def store_inv_def lsm_inv_def)
  have new: "map_of (lsm_dir s) ?fn = None" using fresh by (simp add: fresh_name_def)
  from from_memtable_holds [OF ok new, of "lsm_block_compression s"] obtain sst d
    where w: "from_memtable ts (lsm_db_name s) m None (lsm_block_size_bytes s) (lsm_block_compression s) (lsm_dir s) = Inr (sst, d)"
      "sst_holds d sst (mt_entries m)" "sst_path sst = ?fn" "\<forall>n. n \<noteq> sst_path sst \<longrightarrow> map_of d n = map_of (lsm_dir s) n" by blast
  have h: "lvl_holds (lsm_dir s) lv LL" using inv by (simp add: store_inv_def)
  have apart: "sst_path x \<noteq> ?fn" if "x \<in> set (leveled_iter_all lv)" for x
    using tables_hold_files [OF lvl_holds_tables [OF h] that] new by auto
  then have h': "lvl_holds d lv LL" using w(3,4) by (intro lvl_holds_frame [OF h]) auto
  have "sst_path sst \<notin> sst_path ` set (leveled_iter_all lv)" using apart w(3) by (metis imageE)
  then have "store_inv n (s\<lparr>lsm_dir := d, lsm_flush_handle := Some (FlushAdd sst)\<rparr>) lv LL"
    using inv h' lvl_holds_tables [OF h'] m w(2) ph
    by (auto simp: store_inv_def lsm_inv_def phase_inv_def pending_def)
  moreover have "flush_step F ts s = Inr (s\<lparr>lsm_dir := d, lsm_flush_handle := Some (FlushAdd sst)\<rparr>)"
    using ph m(1) w(1) by (simp add: flush_step_def)
  ultimately show ?thesis using w(1,3,4) m(1) by (intro exI [of _ sst] exI [of _ d]) simp
qed

lemma store_flush_add:
  assumes inv: "store_inv n s lv LL" and n: "n < 2 ^ 40" and ph: "lsm_flush_handle s = Some (FlushAdd sst)"
  shows "\<exists>lv' LL'. flush_step F ts s = Inr (s\<lparr>lsm_strategy := LeveledS lv', lsm_flush_handle := Some FlushClear\<rparr>) \<and>
           store_inv n (s\<lparr>lsm_strategy := LeveledS lv', lsm_flush_handle := Some FlushClear\<rparr>) lv' LL' \<and>
           leveled_add_sstable sst (lsm_dir s) lv = Inr lv' \<and>
           length (lvl_levels lv') = length (lvl_levels lv) \<and> map_of (concat (concat LL')) = map_of (mt_entries (the (lsm_immutable s)) @ concat (concat LL))"
proof -
  obtain m where m: "lsm_immutable s = Some m" "mt_good n m" "sst_holds (lsm_dir s) sst (mt_entries m)"
    using inv ph by (auto simp: store_inv_def lsm_inv_def phase_inv_def)
  have h: "lvl_holds (lsm_dir s) lv LL" and st: "lsm_strategy s = LeveledS lv" and pm: "permanent (mt_entries m)"
    and ap: "sst_path sst \<notin> sst_path ` set (leveled_iter_all lv)"
    and sz: "length (mt_entries (lsm_active s)) + length (mt_entries m) + length (level_entries LL) \<le> n"
    using inv m(1) ph by (auto simp: store_inv_def pending_def)
  obtain l ls where ls: "lvl_levels lv = l # ls" using inv st by (cases "lvl_levels lv") (auto simp: store_inv_def lsm_inv_def)
  obtain L LL0 where LL: "LL = L # LL0" using h ls by (cases LL) (auto simp: lvl_holds_def levels_hold_def)
  let ?lv = "lv\<lparr>lvl_levels := level_append sst l # ls\<rparr>" and ?LL = "(mt_entries m # L) # LL0"
  have h': "lvl_holds (lsm_dir s) ?lv ?LL"
    by (rule lvl_holds_add [OF h ls LL m(3) pm]) (use ap sz n in \<open>auto simp: image_iff\<close>)
  let ?s = "s\<lparr>lsm_strategy := LeveledS ?lv, lsm_flush_handle := Some FlushClear\<rparr>"
  have "lsm_inv n ?s (concat ?LL)"
    using inv m(1,2) lvl_holds_tables [OF h'] by (simp add: store_inv_def lsm_inv_def phase_inv_def map_add_assoc)
  then have "store_inv n ?s ?lv ?LL"
    using inv h' sz LL by (simp add: store_inv_def pending_def)
  moreover have "flush_step F ts s = Inr ?s" using ph st by (simp add: flush_step_def leveled_add_sstable_def ls)
  ultimately show ?thesis using m(1) LL ls by (intro exI [of _ ?lv] exI [of _ ?LL]) (simp add: leveled_add_sstable_def)
qed

text \<open>A step of the flush thread in any phase.\<close>

definition flushed :: "nat \<Rightarrow> u64 \<Rightarrow> lsm \<Rightarrow> leveled \<Rightarrow> entries list list \<Rightarrow> lsm \<Rightarrow> leveled \<Rightarrow> entries list list \<Rightarrow> bool" where
  "flushed n ts s lv LL s' lv' LL' \<longleftrightarrow>
     store_inv n s' lv' LL' \<and> map_of (lsm_view s' (concat LL')) = map_of (lsm_view s (concat LL)) \<and>
     length (lvl_levels lv') = length (lvl_levels lv) \<and> lsm_active s' = lsm_active s \<and> lsm_db_name s' = lsm_db_name s \<and>
     (\<forall>nm. nm \<noteq> sst_filename (lsm_db_name s) None ts \<longrightarrow> map_of (lsm_dir s') nm = map_of (lsm_dir s) nm)"

lemma flushed_trans:
  "flushed n ts s lv LL s1 lv1 LL1 \<Longrightarrow> flushed n ts s1 lv1 LL1 s2 lv2 LL2 \<Longrightarrow> flushed n ts s lv LL s2 lv2 LL2"
  by (simp add: flushed_def)

lemma store_flush_step:
  assumes inv: "store_inv n s lv LL" and n: "n < 2 ^ 40" and fresh: "lsm_flush_handle s = Some FlushWrite \<Longrightarrow> fresh_name ts s"
  shows "\<exists>s' lv' LL'. flush_step F ts s = Inr s' \<and> flushed n ts s lv LL s' lv' LL' \<and>
           phase_rank (lsm_flush_handle s') = phase_rank (lsm_flush_handle s) - 1"
proof -
  consider "lsm_flush_handle s = None \<or> lsm_flush_handle s = Some FlushDone" | "lsm_flush_handle s = Some FlushWrite"
    | sst where "lsm_flush_handle s = Some (FlushAdd sst)" | "lsm_flush_handle s = Some FlushClear"
    by (metis flush_phase.exhaust option.exhaust)
  then show ?thesis
  proof cases
    case 1
    then show ?thesis using inv by (intro exI [of _ s] exI [of _ lv] exI [of _ LL]) (auto simp: flush_step_def flushed_def)
  next
    case 2
    from store_flush_write [OF inv n 2 fresh [OF 2], of F] 2 show ?thesis
      by (auto simp: flushed_def lsm_view_def intro!: exI [of _ lv] exI [of _ LL])
  next
    case (3 sst)
    then obtain m where m: "lsm_immutable s = Some m" using inv by (auto simp: store_inv_def lsm_inv_def phase_inv_def)
    from store_flush_add [OF inv n 3, of F ts] obtain lv' LL'
      where r: "flush_step F ts s = Inr (s\<lparr>lsm_strategy := LeveledS lv', lsm_flush_handle := Some FlushClear\<rparr>)"
      "store_inv n (s\<lparr>lsm_strategy := LeveledS lv', lsm_flush_handle := Some FlushClear\<rparr>) lv' LL'"
      "length (lvl_levels lv') = length (lvl_levels lv)" "map_of (concat (concat LL')) = map_of (mt_entries m @ concat (concat LL))"
      using m by auto
    then have "flushed n ts s lv LL (s\<lparr>lsm_strategy := LeveledS lv', lsm_flush_handle := Some FlushClear\<rparr>) lv' LL'"
      by (simp add: flushed_def lsm_view_def m map_add_assoc)
    then show ?thesis using r(1) 3 by auto
  next
    case 4
    then obtain m where m: "lsm_immutable s = Some m" "map_of (mt_entries m @ concat (concat LL)) = map_of (concat (concat LL))"
      using inv by (auto simp: store_inv_def lsm_inv_def phase_inv_def)
    let ?s = "s\<lparr>lsm_immutable := None, lsm_flush_handle := Some FlushDone\<rparr>"
    have "store_inv n ?s lv LL" using inv 4 by (auto simp: store_inv_def lsm_inv_def phase_inv_def pending_def)
    then have "flushed n ts s lv LL ?s lv LL" using m by (simp add: flushed_def lsm_view_def)
    moreover have "flush_step F ts s = Inr ?s" using 4 by (simp add: flush_step_def)
    ultimately show ?thesis using 4 by auto
  qed
qed

lemma store_flush_join:
  assumes inv: "store_inv n s lv LL" and n: "n < 2 ^ 40" and fresh: "fresh_name ts s"
  shows "\<exists>s' lv' LL'. flush_join F ts s = Inr s' \<and> flushed n ts s lv LL s' lv' LL' \<and> lsm_flush_handle s' = None \<and> lsm_immutable s' = None"
proof (cases "lsm_flush_handle s = None")
  case True
  then have "lsm_immutable s = None" using inv by (simp add: store_inv_def lsm_inv_def phase_inv_def)
  then show ?thesis using inv True
    by (intro exI [of _ s] exI [of _ lv] exI [of _ LL]) (simp add: flush_join_def flushed_def)
next
  case False
  from store_flush_step [OF inv n fresh, of F] obtain s1 lv1 LL1 where 1: "flush_step F ts s = Inr s1" "flushed n ts s lv LL s1 lv1 LL1"
    "phase_rank (lsm_flush_handle s1) = phase_rank (lsm_flush_handle s) - 1" by blast
  have r1: "phase_rank (lsm_flush_handle s1) \<le> 2" using 1(3) phase_rank_le [of "lsm_flush_handle s"] by simp
  have "store_inv n s1 lv1 LL1" using 1(2) by (simp add: flushed_def)
  from store_flush_step [OF this n, of ts F] r1 obtain s2 lv2 LL2 where 2: "flush_step F ts s1 = Inr s2" "flushed n ts s1 lv1 LL1 s2 lv2 LL2"
    "phase_rank (lsm_flush_handle s2) = phase_rank (lsm_flush_handle s1) - 1" by fastforce
  have r2: "phase_rank (lsm_flush_handle s2) \<le> 1" using 2(3) r1 by simp
  have "store_inv n s2 lv2 LL2" using 2(2) by (simp add: flushed_def)
  from store_flush_step [OF this n, of ts F] r2 obtain s3 lv3 LL3 where 3: "flush_step F ts s2 = Inr s3" "flushed n ts s2 lv2 LL2 s3 lv3 LL3"
    "phase_rank (lsm_flush_handle s3) = phase_rank (lsm_flush_handle s2) - 1" by fastforce
  have all: "flushed n ts s lv LL s3 lv3 LL3" using 1(2) 2(2) 3(2) by (blast intro: flushed_trans)
  have "phase_rank (lsm_flush_handle s3) = 0" using 3(3) r2 by simp
  then have "lsm_flush_handle s3 = None \<or> lsm_flush_handle s3 = Some FlushDone" by (simp only: phase_rank_0)
  then have "flushed n ts s lv LL (s3\<lparr>lsm_flush_handle := None\<rparr>) lv3 LL3 \<and> lsm_immutable s3 = None"
    using all by (auto simp: flushed_def lsm_view_def store_inv_def lsm_inv_def phase_inv_def pending_def)
  then show ?thesis using False 1(1) 2(1) 3(1)
    by (intro exI [of _ "s3\<lparr>lsm_flush_handle := None\<rparr>"] exI [of _ lv3] exI [of _ LL3]) (auto simp: flush_join_def)
qed

section \<open>Writes\<close>

lemma permanent_insert:
  assumes "bt_ok es" and "permanent es0" and "map_of es = (map_of es0)(k \<mapsto> \<lparr>me_value = Some v, me_expiry_ms = None\<rparr>)"
  shows "permanent es"
  unfolding permanent_def
proof (intro ballI allI)
  fix p t assume "p \<in> set es"
  then have "map_of es (fst p) = Some (snd p)" using bt_ok_distinct [OF assms(1)] by (simp add: map_of_is_SomeI)
  then have "snd p = \<lparr>me_value = Some v, me_expiry_ms = None\<rparr> \<or> map_of es0 (fst p) = Some (snd p)"
    unfolding assms(3) by (simp split: if_splits)
  then show "entry_value t (snd p) \<noteq> None"
    using permanentD [OF assms(2) map_of_SomeD, of "fst p" "snd p" t] by (auto simp: entry_value_def)
qed

text \<open>The active memtable becomes the immutable one.\<close>

abbreviation swapped :: "lsm \<Rightarrow> lsm" where
  "swapped s \<equiv> s\<lparr>lsm_active := memtable_new, lsm_immutable := Some (lsm_active s), lsm_wal := wal_reset (lsm_wal s),
                   lsm_flush_handle := Some FlushWrite\<rparr>"

lemma mt_entries_new [simp]: "mt_entries memtable_new = []"
  by (simp add: memtable_new_def)

lemma store_swap:
  assumes "store_inv n s lv LL" and "lsm_flush_handle s = None" and "lsm_immutable s = None"
  shows "store_inv n (swapped s) lv LL" and "lsm_view (swapped s) ess = lsm_view s ess"
  using assms by (auto simp: store_inv_def lsm_inv_def phase_inv_def pending_def wal_reset_def lsm_view_def)

lemma store_write:
  assumes inv: "store_inv n s lv LL" and n: "Suc n < 2 ^ 40" and fresh: "fresh_name ts s"
    and fits: "len k \<le> MAX_KEY_SIZE" "len v \<le> MAX_VALUE_SIZE"
  shows "\<exists>s' lv' LL'. lsm_set F ts k v s = Inr s' \<and> store_inv (Suc n) s' lv' LL' \<and> lsm_db_name s' = lsm_db_name s \<and>
           length (lvl_levels lv') = length (lvl_levels lv) \<and>
           (\<forall>nm. nm \<noteq> sst_filename (lsm_db_name s) None ts \<longrightarrow> map_of (lsm_dir s') nm = map_of (lsm_dir s) nm) \<and>
           map_of (lsm_view s' (concat LL')) = (map_of (lsm_view s (concat LL)))(k \<mapsto> \<lparr>me_value = Some v, me_expiry_ms = None\<rparr>)"
proof -
  let ?e = "\<lparr>me_value = Some v, me_expiry_ms = None\<rparr>" and ?m = "lsm_active s"
  have "mt_good (length (mt_entries ?m)) ?m" "wal_matches (lsm_wal s) ?m" using inv by (auto simp: store_inv_def lsm_inv_def mt_good_def)
  moreover have "entry_fits (k, write_entry (Some v) None)" using fits by (simp add: entry_fits_def write_entry_def)
  ultimately obtain wal' m' sz where w: "apply_write (lsm_wal s) ?m k (Some v) None = Inr (wal', m', sz)"
    "mt_good (Suc (length (mt_entries ?m))) m'" "wal_matches wal' m'" "map_of (mt_entries m') = (map_of (mt_entries ?m))(k \<mapsto> ?e)"
    using apply_write_inv [of "length (mt_entries ?m)" ?m "lsm_wal s" k "Some v" None] unfolding write_entry_simps by blast
  have perm: "permanent (mt_entries m')"
    by (rule permanent_insert [OF _ _ w(4)]) (use w(2) inv in \<open>auto simp: mt_good_def mt_ok_def store_inv_def\<close>)
  let ?s = "s\<lparr>lsm_wal := wal', lsm_active := m'\<rparr>"
  have "length (mt_entries ?m) \<le> n" and len: "length (mt_entries m') \<le> Suc (length (mt_entries ?m))"
    using inv w(2) by (auto simp: store_inv_def lsm_inv_def mt_good_def)
  then have "mt_good (Suc n) m'" using w(2) by (auto simp: mt_good_def)
  moreover have "lsm_inv (Suc n) s (concat LL)" using inv lsm_inv_mono [of n s "concat LL" "Suc n"] by (simp add: store_inv_def)
  ultimately have "lsm_inv (Suc n) ?s (concat LL)" using w(3) by (simp add: lsm_inv_def)
  then have inv1: "store_inv (Suc n) ?s lv LL" using inv perm len by (simp add: store_inv_def pending_def split: option.splits flush_phase.splits)
  have view1: "map_of (lsm_view ?s (concat LL)) = (map_of (lsm_view s (concat LL)))(k \<mapsto> ?e)" by (simp add: lsm_view_def w(4))
  show ?thesis
  proof (cases "lsm_max_memtable_bytes s \<le> sz")
    case False
    then show ?thesis using w(1) inv1 view1
      by (intro exI [of _ ?s] exI [of _ lv] exI [of _ LL]) (simp add: lsm_set_def lsm_write_def)
  next
    case True
    have "fresh_name ts ?s" using fresh by (simp add: fresh_name_def)
    from store_flush_join [OF inv1 n this, of F] obtain s2 lv2 LL2 where j: "flush_join F ts ?s = Inr s2" "flushed (Suc n) ts ?s lv LL s2 lv2 LL2"
      "lsm_flush_handle s2 = None" "lsm_immutable s2 = None" by blast
    let ?t = "s2\<lparr>lsm_active := memtable_new, lsm_immutable := Some (lsm_active s2), lsm_wal := wal_reset (lsm_wal s2), lsm_flush_handle := Some FlushWrite\<rparr>"
    have "store_inv (Suc n) s2 lv2 LL2" using j(2) by (simp add: flushed_def)
    note swap = store_swap [OF this j(3,4)]
    have "map_of (lsm_view ?t (concat LL2)) = (map_of (lsm_view s (concat LL)))(k \<mapsto> ?e)" "lsm_db_name ?t = lsm_db_name s"
      using j(2) view1 swap(2) by (simp_all add: flushed_def)
    moreover have "lsm_set F ts k v s = Inr ?t" using w(1) True j(1) by (simp add: lsm_set_def lsm_write_def flush_memtable_async_def)
    ultimately show ?thesis using swap(1) j(2) by (intro exI [of _ ?t] exI [of _ lv2] exI [of _ LL2]) (simp add: flushed_def)
  qed
qed

section \<open>Full compaction\<close>

text \<open>What \<open>compact\<close> does first, after the join: the active memtable is flushed. It is a swap and the three steps of a
  flush, in one go.\<close>

lemma store_flush_active:
  assumes inv: "store_inv n s lv LL" and q: "lsm_flush_handle s = None" "lsm_immutable s = None" and n: "n < 2 ^ 40" and fresh: "fresh_name ts s"
  shows "\<exists>sst d lv' LL'. from_memtable ts (lsm_db_name s) (lsm_active s) None (lsm_block_size_bytes s) (lsm_block_compression s) (lsm_dir s) = Inr (sst, d) \<and>
           leveled_add_sstable sst d lv = Inr lv' \<and> length (lvl_levels lv') = length (lvl_levels lv) \<and>
           store_inv n (s\<lparr>lsm_active := memtable_new, lsm_wal := wal_reset (lsm_wal s), lsm_strategy := LeveledS lv', lsm_dir := d\<rparr>) lv' LL' \<and>
           map_of (concat (concat LL')) = map_of (lsm_view s (concat LL)) \<and>
           (\<forall>nm. nm \<noteq> sst_filename (lsm_db_name s) None ts \<longrightarrow> map_of d nm = map_of (lsm_dir s) nm)"
proof -
  let ?t = "swapped s"
  have t: "store_inv n ?t lv LL" by (rule store_swap [OF inv q])
  have "fresh_name ts ?t" "lsm_flush_handle ?t = Some FlushWrite" using fresh by (simp_all add: fresh_name_def)
  from store_flush_write [OF t n this(2,1), of exact_f64] obtain sst d
    where t2: "store_inv n (?t\<lparr>lsm_dir := d, lsm_flush_handle := Some (FlushAdd sst)\<rparr>) lv LL"
    and frame: "\<forall>nm. nm \<noteq> sst_filename (lsm_db_name s) None ts \<longrightarrow> map_of d nm = map_of (lsm_dir s) nm"
    and wr: "from_memtable ts (lsm_db_name s) (lsm_active s) None (lsm_block_size_bytes s) (lsm_block_compression s) (lsm_dir s) = Inr (sst, d)"
    by auto
  let ?u = "?t\<lparr>lsm_dir := d, lsm_flush_handle := Some (FlushAdd sst)\<rparr>"
  have "lsm_flush_handle ?u = Some (FlushAdd sst)" by simp
  from store_flush_add [OF t2 n this, of exact_f64 ts] obtain lv' LL' where
      t3: "store_inv n (?u\<lparr>lsm_strategy := LeveledS lv', lsm_flush_handle := Some FlushClear\<rparr>) lv' LL'"
    and len: "length (lvl_levels lv') = length (lvl_levels lv)" and ents: "map_of (concat (concat LL')) = map_of (mt_entries (lsm_active s) @ concat (concat LL))"
    and add: "leveled_add_sstable sst d lv = Inr lv'" by auto
  have "store_inv n (s\<lparr>lsm_active := memtable_new, lsm_wal := wal_reset (lsm_wal s), lsm_strategy := LeveledS lv', lsm_dir := d\<rparr>) lv' LL'"
    using t3 q by (auto simp: store_inv_def lsm_inv_def phase_inv_def pending_def)
  then show ?thesis using wr add len ents frame q
    by (intro exI [of _ sst] exI [of _ d] exI [of _ lv'] exI [of _ LL']) (simp add: lsm_view_def)
qed

lemma same_values:
  assumes "lvl_holds d lv LL" and "lvl_holds d' lv' LL'" and "\<forall>t k. value_at t (level_entries LL') k = value_at t (level_entries LL) k"
  shows "map_of (concat (concat LL')) = map_of (concat (concat LL))"
  using permanent_map_of [of "level_entries LL'" "level_entries LL" 0] assms
  by (simp add: lvl_holds_def level_entries_concat)

lemma store_inline_flush:
  assumes inv: "store_inv n s lv LL" and q: "lsm_flush_handle s = None" "lsm_immutable s = None" and n: "n < 2 ^ 40" and fresh: "fresh_name ts s"
  shows "\<exists>s' lv' LL'. lsm_inline_flush F ts s = Inr s' \<and> store_inv n s' lv' LL' \<and> length (lvl_levels lv') = length (lvl_levels lv) \<and>
           lsm_active s' = memtable_new \<and> lsm_immutable s' = None \<and> lsm_wal s' = [] \<and> lsm_db_name s' = lsm_db_name s \<and>
           map_of (lsm_view s' (concat LL')) = map_of (lsm_view s (concat LL)) \<and>
           (\<forall>nm. nm \<noteq> sst_filename (lsm_db_name s) None ts \<longrightarrow> map_of (lsm_dir s') nm = map_of (lsm_dir s) nm)"
proof -
  from store_flush_active [OF assms] obtain sst d lv' LL'
    where w: "from_memtable ts (lsm_db_name s) (lsm_active s) None (lsm_block_size_bytes s) (lsm_block_compression s) (lsm_dir s) = Inr (sst, d)"
    and add: "leveled_add_sstable sst d lv = Inr lv'" and len: "length (lvl_levels lv') = length (lvl_levels lv)"
    and inv': "store_inv n (s\<lparr>lsm_active := memtable_new, lsm_wal := wal_reset (lsm_wal s), lsm_strategy := LeveledS lv', lsm_dir := d\<rparr>) lv' LL'"
    and view: "map_of (concat (concat LL')) = map_of (lsm_view s (concat LL))"
    and dir: "\<forall>nm. nm \<noteq> sst_filename (lsm_db_name s) None ts \<longrightarrow> map_of d nm = map_of (lsm_dir s) nm" by blast
  let ?s = "s\<lparr>lsm_active := memtable_new, lsm_immutable := None, lsm_wal := wal_reset (lsm_wal s), lsm_strategy := LeveledS lv', lsm_dir := d\<rparr>"
  have s: "s\<lparr>lsm_active := memtable_new, lsm_wal := wal_reset (lsm_wal s), lsm_strategy := LeveledS lv', lsm_dir := d\<rparr> = ?s" using q(2) by simp
  have "lsm_inline_flush F ts s = Inr ?s" using w add inv by (simp add: lsm_inline_flush_def store_inv_def)
  then show ?thesis using inv' len view dir unfolding s
    by (intro exI [of _ ?s] exI [of _ lv'] exI [of _ LL']) (simp add: lsm_view_def wal_reset_def)
qed

text \<open>Other tables with the same values, and the table of a running flush still apart: the invariant holds.\<close>

lemma store_new_tables:
  assumes inv: "store_inv n s lv LL" and h': "lvl_holds d' lv' LL'" and len: "length (lvl_levels lv') = length (lvl_levels lv)"
    and val: "\<forall>t k. value_at t (level_entries LL') k = value_at t (level_entries LL) k" and sz: "length (level_entries LL') \<le> length (level_entries LL)"
    and sub: "sst_path ` set (leveled_iter_all lv') \<subseteq> sst_path ` set (leveled_iter_all lv) \<union> X"
    and frame: "\<forall>n. n \<notin> sst_path ` set (leveled_iter_all lv) \<longrightarrow> n \<notin> X \<longrightarrow> map_of d' n = map_of (lsm_dir s) n"
    and fresh: "\<forall>x \<in> X. map_of (lsm_dir s) x = None"
    and s': "s' = s\<lparr>lsm_strategy := LeveledS lv', lsm_dir := d'\<rparr>"
  shows "store_inv n s' lv' LL'" and "map_of (lsm_view s' (concat LL')) = map_of (lsm_view s (concat LL))"
proof -
  have st: "lsm_strategy s = LeveledS lv" and h: "lvl_holds (lsm_dir s) lv LL" using inv by (simp_all add: store_inv_def)
  note mo = same_values [OF h h' val]
  have pend: "sst_holds d' sst (mt_entries m) \<and> sst_path sst \<notin> sst_path ` set (leveled_iter_all lv')"
    if "lsm_flush_handle s = Some (FlushAdd sst)" "sst_holds (lsm_dir s) sst (mt_entries m)" for sst m
  proof -
    have "sst_path sst \<notin> sst_path ` set (leveled_iter_all lv)" using inv that(1) by (simp add: store_inv_def)
    moreover have "sst_path sst \<notin> X" using that(2) fresh by (auto simp: sst_holds_def)
    ultimately show ?thesis using sub frame sst_holds_frame [OF that(2), of d'] by blast
  qed
  have ne: "lvl_levels lv' \<noteq> []" using inv len st by (auto simp: store_inv_def lsm_inv_def)
  have ph: "phase_inv n s' (concat LL')"
    using inv mo pend unfolding s' by (auto simp: store_inv_def lsm_inv_def phase_inv_def split: option.splits flush_phase.splits)
  have pd: "sst_path sst \<notin> sst_path ` set (leveled_iter_all lv')" if "lsm_flush_handle s = Some (FlushAdd sst)" for sst
    using inv pend [OF that] that by (auto simp: store_inv_def lsm_inv_def phase_inv_def)
  have "lsm_inv n s' (concat LL')"
    using inv ne ph lvl_holds_tables [OF h'] unfolding s' by (simp add: store_inv_def lsm_inv_def)
  then show "store_inv n s' lv' LL'" using inv h' sz pd unfolding s' by (auto simp: store_inv_def)
  show "map_of (lsm_view s' (concat LL')) = map_of (lsm_view s (concat LL))" unfolding s' by (simp add: lsm_view_def mo)
qed

lemma store_compact_tables:
  assumes inv: "store_inv n s lv LL" and steps: "fresh_steps clk s (length (lvl_levels lv))"
  shows "\<exists>s' lv' LL'. lsm_compact_tables clk s = Inr s' \<and> store_inv n s' lv' LL' \<and> lsm_db_name s' = lsm_db_name s \<and>
           lsm_active s' = lsm_active s \<and> lsm_immutable s' = lsm_immutable s \<and> lsm_wal s' = lsm_wal s \<and>
           map_of (lsm_view s' (concat LL')) = map_of (lsm_view s (concat LL))"
proof -
  let ?n = "length (lvl_levels lv)" and ?F = "step_file (length (lvl_levels lv)) clk (lsm_db_name s)"
  have st: "lsm_strategy s = LeveledS lv" and h: "lvl_holds (lsm_dir s) lv LL" using inv by (simp_all add: store_inv_def)
  have fresh: "\<forall>i < ?n. map_of (lsm_dir s) (?F i) = None" using steps by (simp add: fresh_steps_def)
  from compact_all_steps [OF h _ this order.refl] steps obtain lv' d' LL' where
      c: "leveled_compact_all clk (lsm_db_name s) (lsm_dir s) lv = Inr (lv', d')" and h': "lvl_holds d' lv' LL'" "length (lvl_levels lv') = ?n"
      "\<forall>t k. value_at t (level_entries LL') k = value_at t (level_entries LL) k" "length (level_entries LL') \<le> length (level_entries LL)"
      "sst_path ` set (leveled_iter_all lv') \<subseteq> sst_path ` set (leveled_iter_all lv) \<union> ?F ` {..<?n}"
      "\<forall>n. n \<notin> sst_path ` set (leveled_iter_all lv) \<longrightarrow> n \<notin> ?F ` {..<?n} \<longrightarrow> map_of d' n = map_of (lsm_dir s) n"
    by (auto simp: leveled_compact_all_def steps_done_def fresh_steps_def)
  have "\<forall>x \<in> ?F ` {..<?n}. map_of (lsm_dir s) x = None" using fresh by simp
  note new = store_new_tables [OF inv h' this refl]
  have "lsm_compact_tables clk s = Inr (s\<lparr>lsm_strategy := LeveledS lv', lsm_dir := d'\<rparr>)" using c st by (simp add: lsm_compact_tables_def)
  then show ?thesis using new by (intro exI [of _ "s\<lparr>lsm_strategy := LeveledS lv', lsm_dir := d'\<rparr>"] exI [of _ lv'] exI [of _ LL']) simp
qed

section \<open>Partial compaction\<close>

lemma compact_from_cases:
  "leveled_compact_from now ts db_name levels (lv, d) = Inr (r, lv', d') \<Longrightarrow>
     lv' = lv \<and> d' = d \<or> (\<exists>i \<in> set levels. compact_level now ts db_name i (lv, d) = Inr (lv', d'))"
proof (induction levels)
  case (Cons i levels)
  then show ?case by (auto simp: and_then_Inr_iff split: if_splits)
qed simp

lemma store_compact_step:
  assumes inv: "store_inv n s lv LL" and steps: "fresh_steps (\<lambda>_. clk 0) s (length (lvl_levels lv))"
    and run: "lsm_compact_step clk s = Inr (r, s')"
  shows "\<exists>lv' LL'. store_inv n s' lv' LL' \<and> lsm_db_name s' = lsm_db_name s \<and> map_of (lsm_view s' (concat LL')) = map_of (lsm_view s (concat LL))"
proof -
  let ?n = "length (lvl_levels lv)" and ?F = "step_file (length (lvl_levels lv)) (\<lambda>_. clk 0) (lsm_db_name s)"
  have st: "lsm_strategy s = LeveledS lv" and h: "lvl_holds (lsm_dir s) lv LL" using inv by (simp_all add: store_inv_def)
  from run st obtain lv' d' where r: "leveled_compact_from (fst (clk 0)) (snd (clk 0)) (lsm_db_name s) [0..<?n] (lv, lsm_dir s) = Inr (r, lv', d')"
    and s': "s' = s\<lparr>lsm_strategy := LeveledS lv', lsm_dir := d'\<rparr>"
    by (auto simp: lsm_compact_step_def and_then_Inr_iff leveled_compact_if_needed_def)
  from compact_from_cases [OF r] consider "lv' = lv" "d' = lsm_dir s"
    | i where "i < ?n" "compact_level (fst (clk 0)) (snd (clk 0)) (lsm_db_name s) i (lv, lsm_dir s) = Inr (lv', d')" by auto
  then show ?thesis
  proof cases
    case 1
    then have "s' = s" using s' st by simp
    then show ?thesis using inv by blast
  next
    case (2 i)
    have F: "map_of (lsm_dir s) (?F i) = None" using steps 2(1) by (simp add: fresh_steps_def)
    have "\<exists>j. step_done (lsm_dir s) lv LL (?F i) j (lv', d')"
      using 2 F merge_step [OF h, of i "lsm_db_name s" "snd (clk 0)" "fst (clk 0)"]
        squash_step [OF h, of i "?F i" "lsm_db_name s" "snd (clk 0)" "fst (clk 0)"]
      by (cases "i + 1 < ?n") (auto simp: step_file_def)
    then obtain LL' where h': "lvl_holds d' lv' LL'" "length (lvl_levels lv') = ?n"
      "\<forall>t k. value_at t (level_entries LL') k = value_at t (level_entries LL) k" "length (level_entries LL') \<le> length (level_entries LL)"
      "sst_path ` set (leveled_iter_all lv') \<subseteq> sst_path ` set (leveled_iter_all lv) \<union> {?F i}"
      "\<forall>n. n \<notin> sst_path ` set (leveled_iter_all lv) \<longrightarrow> n \<notin> {?F i} \<longrightarrow> map_of d' n = map_of (lsm_dir s) n" by (auto simp: step_done_def)
    have "\<forall>x \<in> {?F i}. map_of (lsm_dir s) x = None" using F by simp
    from store_new_tables [OF inv h' this s'] show ?thesis unfolding s' by auto
  qed
qed

section \<open>Histories with compactions\<close>

definition level_count :: "lsm \<Rightarrow> nat" where
  "level_count s = (case lsm_strategy s of LeveledS lv \<Rightarrow> length (lvl_levels lv) | SizeTieredS st \<Rightarrow> 0)"

inductive store_run :: "'f f64 \<Rightarrow> lsm \<Rightarrow> (rstring \<times> rstring) list \<Rightarrow> lsm \<Rightarrow> bool" for F s0 where
  store_init: "store_run F s0 [] s0"
| store_set: "store_run F s0 ws s \<Longrightarrow> fresh_name ts s \<Longrightarrow> len k \<le> MAX_KEY_SIZE \<Longrightarrow> len v \<le> MAX_VALUE_SIZE \<Longrightarrow>
    lsm_set F ts k v s = Inr s' \<Longrightarrow> store_run F s0 (ws @ [(k, v)]) s'"
| store_flush: "store_run F s0 ws s \<Longrightarrow> fresh_name ts s \<Longrightarrow> flush_step F ts s = Inr s' \<Longrightarrow> store_run F s0 ws s'"
| store_inline: "store_run F s0 ws s \<Longrightarrow> fresh_name jts s \<Longrightarrow> fresh_name ts s \<Longrightarrow> jts \<noteq> ts \<Longrightarrow> flush_join F jts s = Inr s1 \<Longrightarrow>
    lsm_inline_flush F ts s1 = Inr s' \<Longrightarrow> store_run F s0 ws s'"
| store_tables: "store_run F s0 ws s \<Longrightarrow> fresh_steps clk s (level_count s) \<Longrightarrow>
    lsm_compact_tables clk s = Inr s' \<Longrightarrow> store_run F s0 ws s'"
| store_partial: "store_run F s0 ws s \<Longrightarrow> fresh_steps (\<lambda>_. clk 0) s (level_count s) \<Longrightarrow>
    lsm_compact_step clk s = Inr (r, s') \<Longrightarrow> store_run F s0 ws s'"

lemma store_inv_levels: "store_inv n s lv LL \<Longrightarrow> level_count s = length (lvl_levels lv)"
  by (simp add: store_inv_def level_count_def)

text \<open>A full compaction is the inline flush and the compaction of the tables, one after the other.\<close>

lemma store_compact:
  assumes inv: "store_inv n s lv LL" and n: "n < 2 ^ 40" and fresh: "fresh_name jts s" "fresh_name ts s" "jts \<noteq> ts"
    and name: "plain_name (lsm_db_name s)" and steps: "fresh_steps clk s (length (lvl_levels lv))"
  shows "\<exists>s' lv' LL'. lsm_compact F jts ts clk s = Inr s' \<and> store_inv n s' lv' LL' \<and> lsm_active s' = memtable_new \<and>
           lsm_immutable s' = None \<and> lsm_wal s' = [] \<and> map_of (lsm_view s' (concat LL')) = map_of (lsm_view s (concat LL)) \<and>
           (\<forall>s0 ws. store_run F s0 ws s \<longrightarrow> store_run F s0 ws s')"
proof -
  let ?nm = "\<lambda>ts. sst_filename (lsm_db_name s) None ts"
  have nm: "?nm ts \<noteq> ?nm jts" using sst_filename_inj [of "lsm_db_name s" ts jts] name fresh(3) by (auto simp: plain_name_def)
  from store_flush_join [OF inv n fresh(1), of F] obtain s1 lv1 LL1 where j: "flush_join F jts s = Inr s1" "flushed n jts s lv LL s1 lv1 LL1"
    "lsm_flush_handle s1 = None" "lsm_immutable s1 = None" by blast
  then have s1: "store_inv n s1 lv1 LL1" "lsm_db_name s1 = lsm_db_name s" "length (lvl_levels lv1) = length (lvl_levels lv)"
    "map_of (lsm_view s1 (concat LL1)) = map_of (lsm_view s (concat LL))"
    "\<forall>x. x \<noteq> ?nm jts \<longrightarrow> map_of (lsm_dir s1) x = map_of (lsm_dir s) x" by (simp_all add: flushed_def)
  have "fresh_name ts s1" using fresh(2) s1(2,5) nm by (simp add: fresh_name_def)
  from store_inline_flush [OF s1(1) j(3,4) n this, of F] obtain s2 lv2 LL2 where w: "lsm_inline_flush F ts s1 = Inr s2"
    and s2: "store_inv n s2 lv2 LL2" "length (lvl_levels lv2) = length (lvl_levels lv)" "lsm_active s2 = memtable_new" "lsm_immutable s2 = None"
      "lsm_wal s2 = []" "lsm_db_name s2 = lsm_db_name s" "map_of (lsm_view s2 (concat LL2)) = map_of (lsm_view s (concat LL))"
      "\<forall>x. x \<noteq> ?nm ts \<longrightarrow> map_of (lsm_dir s2) x = map_of (lsm_dir s1) x" using s1 by auto
  have st: "fresh_steps clk s2 (length (lvl_levels lv2))"
    using steps step_file_neq [OF name] s1(5) s2(8) unfolding fresh_steps_def s2(2,6) by metis
  from store_compact_tables [OF s2(1) this] obtain s' lv' LL' where c: "lsm_compact_tables clk s2 = Inr s'" "store_inv n s' lv' LL'"
    "lsm_active s' = memtable_new" "lsm_immutable s' = None" "lsm_wal s' = []"
    "map_of (lsm_view s' (concat LL')) = map_of (lsm_view s (concat LL))" using s2(3-5,7) by auto
  have "lsm_compact F jts ts clk s = Inr s'" using j(1) w c(1) by (simp add: lsm_compact_def)
  moreover have "store_run F s0 ws s'" if "store_run F s0 ws s" for s0 ws
    using store_tables [OF store_inline [OF that fresh j(1) w] _ c(1)] st store_inv_levels [OF s2(1)] by simp
  ultimately show ?thesis using c by blast
qed

text \<open>The entries of the writes of a history.\<close>

abbreviation plain :: "rstring \<times> rstring \<Rightarrow> rstring \<times> memtable_entry" where
  "plain \<equiv> \<lambda>(k, v). (k, \<lparr>me_value = Some v, me_expiry_ms = None\<rparr>)"

lemma plain_value:
  assumes "map_of (lsm_view s ess) = map_of (rev (map plain ws))"
  shows "value_at t (lsm_view s ess) k = map_of (rev ws) k"
proof -
  have "map_of (map plain xs) k = map_option (\<lambda>v. \<lparr>me_value = Some v, me_expiry_ms = None\<rparr>) (map_of xs k)" for xs
    by (induction xs) auto
  from this [of "rev ws"] show ?thesis
    by (cases "map_of (rev ws) k") (simp_all add: value_at_def assms rev_map entry_value_def)
qed

lemma store_run_inv:
  assumes "store_run F s0 ws s" and "store_inv 0 s0 lv0 LL0" and "lsm_view s0 (concat LL0) = []" and "plain_name (lsm_db_name s0)"
    and "Suc (length ws) < 2 ^ 40"
  shows "\<exists>lv LL. store_inv (length ws) s lv LL \<and> lsm_db_name s = lsm_db_name s0 \<and>
           map_of (lsm_view s (concat LL)) = map_of (rev (map plain ws))"
  using assms(1,5)
proof (induction rule: store_run.induct)
  case store_init
  then show ?case using assms(2,3) by auto
next
  case (store_set ws s ts k v s')
  then obtain lv LL where IH: "store_inv (length ws) s lv LL" "lsm_db_name s = lsm_db_name s0"
    "map_of (lsm_view s (concat LL)) = map_of (rev (map plain ws))" by auto
  from store_write [OF IH(1) _ store_set.hyps(2,3,4), of F] store_set.hyps(5) store_set.prems
  obtain lv' LL' where "store_inv (Suc (length ws)) s' lv' LL'" "lsm_db_name s' = lsm_db_name s"
    "map_of (lsm_view s' (concat LL')) = (map_of (lsm_view s (concat LL)))(k \<mapsto> \<lparr>me_value = Some v, me_expiry_ms = None\<rparr>)" by auto
  then show ?case using IH(2,3) by (intro exI [of _ lv'] exI [of _ LL']) simp
next
  case (store_flush ws s ts s')
  then obtain lv LL where IH: "store_inv (length ws) s lv LL" "lsm_db_name s = lsm_db_name s0"
    "map_of (lsm_view s (concat LL)) = map_of (rev (map plain ws))" by auto
  from store_flush_step [OF IH(1) _ store_flush.hyps(2), of F] store_flush.hyps(3) store_flush.prems
  obtain lv' LL' where "flushed (length ws) ts s lv LL s' lv' LL'" by auto
  then show ?case using IH(2,3) by (intro exI [of _ lv'] exI [of _ LL']) (simp add: flushed_def)
next
  case (store_inline ws s jts ts s1 s')
  then obtain lv LL where IH: "store_inv (length ws) s lv LL" "lsm_db_name s = lsm_db_name s0"
    "map_of (lsm_view s (concat LL)) = map_of (rev (map plain ws))" by auto
  have n: "length ws < 2 ^ 40" using store_inline.prems by simp
  from store_flush_join [OF IH(1) n store_inline.hyps(2), of F] store_inline.hyps(5)
  obtain lv1 LL1 where j: "flushed (length ws) jts s lv LL s1 lv1 LL1" "lsm_flush_handle s1 = None" "lsm_immutable s1 = None" by auto
  have "sst_filename (lsm_db_name s) None ts \<noteq> sst_filename (lsm_db_name s) None jts"
    using sst_filename_inj [of "lsm_db_name s" ts jts] assms(4) IH(2) store_inline.hyps(4) by (auto simp: plain_name_def)
  then have "store_inv (length ws) s1 lv1 LL1" "fresh_name ts s1" using j(1) store_inline.hyps(3) by (simp_all add: flushed_def fresh_name_def)
  from store_inline_flush [OF this(1) j(2,3) n this(2), of F] store_inline.hyps(6) j(1) IH(2,3) show ?case by (auto simp: flushed_def)
next
  case (store_tables ws s clk s')
  then obtain lv LL where IH: "store_inv (length ws) s lv LL" "lsm_db_name s = lsm_db_name s0"
    "map_of (lsm_view s (concat LL)) = map_of (rev (map plain ws))" by auto
  from store_compact_tables [OF IH(1), of clk] store_tables.hyps(2,3) store_inv_levels [OF IH(1)] IH(2,3) show ?case by auto
next
  case (store_partial ws s clk r s')
  then obtain lv LL where IH: "store_inv (length ws) s lv LL" "lsm_db_name s = lsm_db_name s0"
    "map_of (lsm_view s (concat LL)) = map_of (rev (map plain ws))" by auto
  from store_compact_step [OF IH(1) _ store_partial.hyps(3)] store_partial.hyps(2) store_inv_levels [OF IH(1)]
  show ?case using IH(2,3) by auto
qed

lemma leveled_new_meta:
  assumes "leveled_new num_levels l0_threshold l1_max_bytes bs compression = Inr lv"
  shows "map lv_level_num (lvl_levels lv) = [0..<num_levels]"
    and "map lv_is_terminal (lvl_levels lv) = map (\<lambda>i. i = num_levels - 1) [0..<num_levels]" and "lvl_block_size_bytes lv = bs"
    and "\<forall>l \<in> set (lvl_levels lv). lv_sstables l = []"
proof -
  from assms obtain ls where ls: "map_res (\<lambda>i. and_then (level_max_bytes l1_max_bytes i) (\<lambda>mb.
          Inr \<lparr>lv_sstables = [], lv_level_num = i, lv_max_bytes = mb, lv_l0_threshold = l0_threshold,
               lv_is_terminal = (i = num_levels - 1)\<rparr>)) [0..<num_levels] = Inr ls" "lvl_levels lv = ls" "lvl_block_size_bytes lv = bs"
    by (auto simp: leveled_new_def and_then_Inr_iff)
  have "map lv_level_num ls = xs \<and> map lv_is_terminal ls = map (\<lambda>i. i = num_levels - 1) xs \<and> (\<forall>l \<in> set ls. lv_sstables l = [])"
    if "map_res (\<lambda>i. and_then (level_max_bytes l1_max_bytes i) (\<lambda>mb.
          Inr \<lparr>lv_sstables = [], lv_level_num = i, lv_max_bytes = mb, lv_l0_threshold = l0_threshold,
               lv_is_terminal = (i = num_levels - 1)\<rparr>)) xs = Inr ls" for xs ls
    using that by (induction xs arbitrary: ls) (auto simp: and_then_Inr_iff)
  from this [OF ls(1)] ls(2,3)
  show "map lv_level_num (lvl_levels lv) = [0..<num_levels]" "lvl_block_size_bytes lv = bs"
    "map lv_is_terminal (lvl_levels lv) = map (\<lambda>i. i = num_levels - 1) [0..<num_levels]" "\<forall>l \<in> set (lvl_levels lv). lv_sstables l = []"
    by simp_all
qed

lemma empty_levels:
  assumes "\<forall>l \<in> set ls. lv_sstables l = []"
  shows "levels_hold d ls (replicate (length ls) [])"
  using assms by (induction ls) (simp_all add: level_iter_def)

lemma store_inv_new:
  assumes "leveled_new num_levels l0_threshold l1_max_bytes bs compression = Inr lv" and "0 < num_levels" and "bs < 2 ^ 31" and "block_size < 2 ^ 31"
  shows "store_inv 0 (lsm_new name max_bytes (LeveledS lv) block_size compression' [] d) lv (replicate num_levels [])"
proof -
  note meta = leveled_new_meta [OF assms(1)] and tabs = leveled_new_tables [OF assms(1)]
  have none: "concat (replicate num_levels []) = []" "level_entries (replicate num_levels []) = []"
    by (simp_all add: level_entries_def)
  have "levels_hold d (lvl_levels lv) (replicate num_levels [])" using empty_levels [OF meta(4), of d] tabs(1) by simp
  moreover have "map (\<lambda>i. i = num_levels - 1) [0..<num_levels] = map (\<lambda>i. i + 1 = num_levels) [0..<num_levels]"
    using assms(2) by auto
  moreover have "distinct (map fst (concat L))" if "L \<in> set (tl (replicate num_levels []))" for L
    using set_tl_sub [OF that] by simp
  ultimately have "lvl_holds d lv (replicate num_levels [])"
    using meta tabs none(2) assms(3) by (simp add: lvl_holds_def)
  then show ?thesis
    using lsm_inv_new [OF assms(1,2,4), of name max_bytes compression' d] none
    by (simp add: store_inv_def pending_def lsm_new_def)
qed

text \<open>Compaction does not change what is read: after any interleaving of writes, steps of the flush thread, partial
  compactions and the sections of full compactions on a new leveled engine, \<open>get\<close> returns for every key the last value
  written to it, and nothing for a key never written. No key is deleted or given a time to live here, and the active
  memtable is flushed in place right after the flush thread was joined.\<close>

theorem lsm_compaction_reads_last_write:
  assumes "store_run F (lsm_new db_name max_bytes (LeveledS lv) block_size compression [] d) ws s"
    and "leveled_new num_levels l0_threshold l1_max_bytes block_size compression = Inr lv" and "0 < num_levels"
    and "block_size < 2 ^ 31" and "plain_name db_name" and "Suc (length ws) < 2 ^ 40"
  shows "lsm_get t (\<lambda>_. t) k s = Inr (map_option (\<lambda>v. (k, v)) (map_of (rev ws) k))"
proof -
  let ?s0 = "lsm_new db_name max_bytes (LeveledS lv) block_size compression [] d"
  have view0: "lsm_view ?s0 (concat (replicate num_levels [])) = []" "lsm_db_name ?s0 = db_name"
    by (simp_all add: lsm_view_def lsm_new_def)
  from store_run_inv [OF assms(1) store_inv_new [OF assms(2,3,4,4)] view0(1) _ assms(6)] assms(5) view0(2)
  obtain lv' LL where inv: "lsm_inv (length ws) s (concat LL)" and view: "map_of (lsm_view s (concat LL)) = map_of (rev (map plain ws))"
    by (auto simp: store_inv_def)
  have "value_at t (lsm_view s (concat LL)) k = map_of (rev ws) k" by (rule plain_value [OF view])
  then show ?thesis using lsm_inv_get [OF inv, of t k] by simp
qed

text \<open>A store with one write, the file names of two moments still free.\<close>

lemma one_write:
  "\<exists>lv s lv1 LL1. leveled_new 3 4 1000 4096 False = Inr lv \<and> store_inv 1 s lv1 LL1 \<and> level_count s = 3 \<and> length (lvl_levels lv1) = 3 \<and>
     store_run exact_f64 (lsm_new (lit ''db'') 8 (LeveledS lv) 4096 False [] []) [(lit ''k'', lit ''long value'')] s \<and>
     lsm_get 9 (\<lambda>_. 9) (lit ''k'') s = Inr (Some (lit ''k'', lit ''long value'')) \<and>
     fresh_name 2 s \<and> fresh_name 3 s \<and> plain_name (lsm_db_name s) \<and> fresh_steps (\<lambda>_. (5, 4)) s 3"
proof -
  obtain lv where lv: "leveled_new 3 4 1000 4096 False = Inr lv"
    by (simp add: leveled_new_def level_max_bytes_def upt_rec)
  let ?s0 = "lsm_new (lit ''db'') 8 (LeveledS lv) 4096 False [] []" and ?k = "lit ''k''" and ?v = "lit ''long value''"
  have inv: "store_inv 0 ?s0 lv (replicate 3 [])" using store_inv_new [OF lv] by simp
  have db: "lsm_db_name ?s0 = lit ''db''" "lsm_dir ?s0 = []" by (simp_all add: lsm_new_def)
  have plain: "plain_name (lit ''db'')" using no_level_in_db by (simp add: plain_name_def)
  have fresh: "fresh_name 1 ?s0" by (simp add: fresh_name_def db)
  have sz: "len ?k \<le> MAX_KEY_SIZE" "len ?v \<le> MAX_VALUE_SIZE" by (simp_all add: MAX_KEY_SIZE_def MAX_VALUE_SIZE_def)
  from store_write [OF inv _ fresh sz, of exact_f64] obtain s1 lv1 LL1 where s1: "lsm_set exact_f64 1 ?k ?v ?s0 = Inr s1"
    and inv1: "store_inv 1 s1 lv1 LL1" and db1: "lsm_db_name s1 = lit ''db''" and len1: "length (lvl_levels lv1) = 3"
    and dir1: "\<forall>nm. nm \<noteq> sst_filename (lit ''db'') None 1 \<longrightarrow> map_of (lsm_dir s1) nm = None"
    and view: "map_of (lsm_view s1 (concat LL1)) ?k = Some \<lparr>me_value = Some ?v, me_expiry_ms = None\<rparr>"
    using leveled_new_tables(1) [OF lv] by (auto simp: db)
  from store_set [OF store_init fresh sz s1] have run1: "store_run exact_f64 ?s0 [(?k, ?v)] s1" by simp
  have names: "sst_filename (lit ''db'') None 2 \<noteq> sst_filename (lit ''db'') None 1" "sst_filename (lit ''db'') None 3 \<noteq> sst_filename (lit ''db'') None 1"
    using sst_filename_inj [OF no_level_in_db] by fastforce+
  have "lsm_inv 1 s1 (concat LL1)" using inv1 by (simp add: store_inv_def)
  from lsm_inv_get [OF this, of 9 ?k] have "lsm_get 9 (\<lambda>_. 9) ?k s1 = Inr (Some (?k, ?v))"
    by (simp add: value_at_def view entry_value_def)
  moreover have "fresh_steps (\<lambda>_. (5, 4)) s1 3" using step_file_neq [OF plain] dir1 by (simp add: fresh_steps_def db1)
  ultimately show ?thesis using lv run1 inv1 len1 names dir1 plain store_inv_levels [OF inv1]
    by (intro exI [of _ lv] exI [of _ s1] exI [of _ lv1] exI [of _ LL1]) (simp add: fresh_name_def db1)
qed

theorem lsm_compaction_reads_last_write_witness:
  "\<exists>lv s. leveled_new 3 4 1000 4096 False = Inr lv \<and>
     store_run exact_f64 (lsm_new (lit ''db'') 8 (LeveledS lv) 4096 False [] []) [(lit ''k'', lit ''long value'')] s \<and>
     lsm_active s = memtable_new \<and> lsm_wal s = [] \<and> lsm_get 9 (\<lambda>_. 9) (lit ''k'') s = Inr (Some (lit ''k'', lit ''long value''))"
proof -
  obtain lv s1 lv1 LL1 where lv: "leveled_new 3 4 1000 4096 False = Inr lv" and inv1: "store_inv 1 s1 lv1 LL1"
    and n: "level_count s1 = 3" "length (lvl_levels lv1) = 3"
    and run1: "store_run exact_f64 (lsm_new (lit ''db'') 8 (LeveledS lv) 4096 False [] []) [(lit ''k'', lit ''long value'')] s1"
    and f: "fresh_name 2 s1" "fresh_name 3 s1" and db: "plain_name (lsm_db_name s1)" and st: "fresh_steps (\<lambda>_. (5, 4)) s1 3"
    using one_write by (elim exE conjE) (rule that)
  from store_compact [OF inv1 _ f _ db, of "\<lambda>_. (5, 4)" exact_f64] obtain s2
    where s2: "lsm_compact exact_f64 2 3 (\<lambda>_. (5, 4)) s1 = Inr s2" "lsm_active s2 = memtable_new" "lsm_wal s2 = []"
      "\<forall>s0 ws. store_run exact_f64 s0 ws s1 \<longrightarrow> store_run exact_f64 s0 ws s2" using st n by auto
  have run2: "store_run exact_f64 (lsm_new (lit ''db'') 8 (LeveledS lv) 4096 False [] []) [(lit ''k'', lit ''long value'')] s2"
    using s2(4) run1 by blast
  have "plain_name (lit ''db'')" using no_level_in_db by (simp add: plain_name_def)
  from lsm_compaction_reads_last_write [OF run2 lv _ _ this, of 9 "lit ''k''"]
  have "lsm_get 9 (\<lambda>_. 9) (lit ''k'') s2 = Inr (Some (lit ''k'', lit ''long value''))" by simp
  then show ?thesis using lv run2 s2(2,3) by blast
qed

text \<open>C24. \<open>compact\<close> returns and changes no answer, whatever phase the flush thread is in: it waits for the flush, writes the
  active memtable as a table, merges all levels and empties the log; every key then reads at every time as before. The
  invariant of the store holds again. The files written must be new, and the two flushes at different milliseconds.\<close>

theorem lsm_compact_keeps_reads:
  assumes "store_inv n s lv LL" and "n < 2 ^ 40" and "fresh_name jts s" and "fresh_name ts s" and "jts \<noteq> ts"
    and "plain_name (lsm_db_name s)" and "fresh_steps clk s (length (lvl_levels lv))"
  shows "\<exists>s' lv' LL'. lsm_compact F jts ts clk s = Inr s' \<and> store_inv n s' lv' LL' \<and> lsm_active s' = memtable_new \<and>
           lsm_immutable s' = None \<and> lsm_wal s' = [] \<and> (\<forall>t k. lsm_get t (\<lambda>_. t) k s' = lsm_get t (\<lambda>_. t) k s)"
proof -
  from store_compact [OF assms, of F] obtain s' lv' LL' where r: "lsm_compact F jts ts clk s = Inr s'" "store_inv n s' lv' LL'"
    "lsm_active s' = memtable_new" "lsm_immutable s' = None" "lsm_wal s' = []"
    "map_of (lsm_view s' (concat LL')) = map_of (lsm_view s (concat LL))" by blast
  have "lsm_inv n s (concat LL)" "lsm_inv n s' (concat LL')" using assms(1) r(2) by (simp_all add: store_inv_def)
  note get = lsm_inv_get [OF this(1)] lsm_inv_get [OF this(2)]
  show ?thesis using r by (intro exI [of _ s'] exI [of _ lv'] exI [of _ LL']) (simp add: get value_at_def)
qed

theorem lsm_compact_keeps_reads_witness:
  "\<exists>s s'. lsm_compact exact_f64 2 3 (\<lambda>_. (5, 4)) s = Inr s' \<and> lsm_get 9 (\<lambda>_. 9) (lit ''k'') s = Inr (Some (lit ''k'', lit ''long value'')) \<and>
     lsm_wal s' = [] \<and> lsm_get 9 (\<lambda>_. 9) (lit ''k'') s' = Inr (Some (lit ''k'', lit ''long value''))"
proof -
  obtain lv s1 lv1 LL1 where inv1: "store_inv 1 s1 lv1 LL1" and n: "length (lvl_levels lv1) = 3"
    and g: "lsm_get 9 (\<lambda>_. 9) (lit ''k'') s1 = Inr (Some (lit ''k'', lit ''long value''))"
    and f: "fresh_name 2 s1" "fresh_name 3 s1" and db: "plain_name (lsm_db_name s1)" and st: "fresh_steps (\<lambda>_. (5, 4)) s1 3"
    using one_write by (elim exE conjE) (rule that)
  from lsm_compact_keeps_reads [OF inv1 _ f _ db, of "\<lambda>_. (5, 4)" exact_f64] st n obtain s'
    where "lsm_compact exact_f64 2 3 (\<lambda>_. (5, 4)) s1 = Inr s'" "lsm_wal s' = []" "\<forall>t k. lsm_get t (\<lambda>_. t) k s' = lsm_get t (\<lambda>_. t) k s1" by auto
  then show ?thesis using g by (intro exI [of _ s1] exI [of _ s']) simp
qed

section \<open>A flush between the join and the inline flush\<close>

lemma inline_flush_cong:
  assumes "lsm_inline_flush F ts s = Inr s'" and "lsm_db_name t = lsm_db_name s" and "lsm_active t = lsm_active s" and "lsm_dir t = lsm_dir s"
    and "lsm_strategy t = lsm_strategy s" and "lsm_block_size_bytes t = lsm_block_size_bytes s" and "lsm_block_compression t = lsm_block_compression s"
  shows "lsm_inline_flush F ts t =
           Inr (t\<lparr>lsm_active := memtable_new, lsm_immutable := None, lsm_wal := wal_reset (lsm_wal t),
                  lsm_strategy := lsm_strategy s', lsm_dir := lsm_dir s'\<rparr>)"
  using assms by (auto simp: lsm_inline_flush_def and_then_Inr_iff)

text \<open>A full compaction can lose writes: after it has joined the flush thread, another client's write fills the memtable
  and starts a flush; the compaction then overwrites the memtable that waits to be flushed and empties the log. The write
  was answered and read back, and is gone.\<close>

theorem lsm_compact_loses_flush:
  "\<exists>s s'. flush_join exact_f64 2 small_engine = Inr small_engine \<and>
     lsm_set exact_f64 1 (lit ''k'') (lit ''long value'') small_engine = Inr s \<and>
     lsm_get 9 (\<lambda>_. 9) (lit ''k'') s = Inr (Some (lit ''k'', lit ''long value'')) \<and>
     lsm_inline_flush exact_f64 3 s = Inr s' \<and> lsm_wal s' = [] \<and> lsm_get 9 (\<lambda>_. 9) (lit ''k'') s' = Inr None"
proof -
  let ?k = "lit ''k''"
  obtain lv where lv: "leveled_new 3 4 1000 4096 False = Inr lv" and se: "small_engine = lsm_new (lit ''db'') 8 (LeveledS lv) 4096 False [] []"
    by (simp add: leveled_new_def level_max_bytes_def upt_rec small_engine_def flip: numeral_2_eq_2)
  have inv: "store_inv 0 small_engine lv (replicate 3 [])" unfolding se by (rule store_inv_new [OF lv]) simp_all
  have q: "lsm_flush_handle small_engine = None" "lsm_immutable small_engine = None" "lsm_active small_engine = memtable_new" "lsm_dir small_engine = []"
    by (simp_all add: small_engine_def lsm_new_def)
  from store_inline_flush [where F = exact_f64 and ts = 3, OF inv q(1,2) _ small_engine_fresh] obtain s0 lv0 LL0
    where s0: "lsm_inline_flush exact_f64 3 small_engine = Inr s0" "store_inv 0 s0 lv0 LL0" "lsm_active s0 = memtable_new" "lsm_immutable s0 = None"
      "map_of (lsm_view s0 (concat LL0)) = map_of (lsm_view small_engine (concat (replicate 3 [])))" by auto
  obtain s ess where set: "lsm_set exact_f64 1 ?k (lit ''long value'') small_engine = Inr s" "lsm_dir s = []"
      "lsm_get 9 (\<lambda>_. 9) ?k s = Inr (Some (?k, lit ''long value''))" "lsm_active s = memtable_new"
      "lsm_strategy s = lsm_strategy small_engine" "lsm_db_name s = lsm_db_name small_engine"
      "lsm_block_size_bytes s = lsm_block_size_bytes small_engine" "lsm_block_compression s = lsm_block_compression small_engine"
    by (rule small_engine_set)
  let ?s = "s\<lparr>lsm_active := memtable_new, lsm_immutable := None, lsm_wal := wal_reset (lsm_wal s), lsm_strategy := lsm_strategy s0, lsm_dir := lsm_dir s0\<rparr>"
  have run: "lsm_inline_flush exact_f64 3 s = Inr ?s"
    by (rule inline_flush_cong [OF s0(1)]) (use set q in simp_all)
  have "tables_hold (lsm_dir ?s) (lsm_tables ?s) (concat LL0)" using s0(2) by (auto simp: store_inv_def lsm_inv_def)
  from lsm_get_correct [OF this, of 9 ?k] have "lsm_get 9 (\<lambda>_. 9) ?k ?s = Inr (map_option (\<lambda>v. (?k, v)) (value_at 9 (concat (concat LL0)) ?k))"
    by (simp add: lsm_view_def)
  moreover have "map_of (concat (concat LL0)) ?k = None" using s0(3,4,5) q by (fastforce simp: lsm_view_def map_of_eq_None_iff)
  moreover have "flush_join exact_f64 2 small_engine = Inr small_engine" using q(1) by (simp add: flush_join_def)
  ultimately show ?thesis using set(1,3) run by (intro exI [of _ s] exI [of _ ?s]) (simp add: value_at_def wal_reset_def)
qed

end
