(* ===== verification/Lsm_Durable.thy ===== *)
theory Lsm_Durable
  imports Lsm_Compaction
begin

text \<open>
  The LSM engine across restarts. First the logs that a restart does not survive: one torn by a crash, after which the
  next writes are appended behind the torn record, and one with a value over the limit of the reader.
\<close>

section \<open>A torn log hides later writes\<close>

text \<open>The reader takes what is appended behind a torn record for the rest of it.\<close>

lemma read_next_short:
  assumes "flags_agree h" and "hdr_expiry_ms h = None" and "unat (hdr_key_size h) \<le> MAX_KEY_SIZE" and "unat (hdr_value_size h) \<le> MAX_VALUE_SIZE"
    and "length t < unat (hdr_key_size h) + unat (hdr_value_size h)"
  shows "read_next (be_bytes 4 (c :: u32) @ be_bytes 8 (hdr_key_size h) @ be_bytes 8 (hdr_value_size h) @ hdr_flags h # t) = Inl (IoError UnexpectedEof OsError)"
proof -
  have "read_header (be_bytes 4 c @ be_bytes 8 (hdr_key_size h) @ be_bytes 8 (hdr_value_size h) @ hdr_flags h # t) =
      Inr (\<lparr>hdr_crc32 = c, hdr_key_size = hdr_key_size h, hdr_value_size = hdr_value_size h, hdr_flags = hdr_flags h, hdr_expiry_ms = None\<rparr>, t)"
    using assms(1,2) by (simp add: read_header_def)
  then show ?thesis using assms(3,4,5) by (auto simp: read_next_def read_exact_def)
qed

lemma read_next_swallows:
  assumes "record_ok r" and "hdr_expiry_ms (rec_header r) = None" and "RECORD_HEADER_LEN \<le> n" and "n + length extra < length (record_bytes r)"
  shows "read_next (take n (record_bytes r) @ extra) = Inl (IoError UnexpectedEof OsError)"
proof -
  let ?h = "rec_header r" and ?p = "as_bytes (rec_key r) @ as_bytes (rec_value r)"
  have fl: "flags_agree ?h" using assms(1,2) by (simp add: record_wf_def)
  define c where "c = crc32 (record_payload ?h (as_bytes (rec_key r)) (as_bytes (rec_value r)))"
  have rb: "record_bytes r = (be_bytes 4 c @ be_bytes 8 (hdr_key_size ?h) @ be_bytes 8 (hdr_value_size ?h) @ [hdr_flags ?h]) @ ?p"
    using assms(2) by (simp add: record_bytes_def record_payload_def Let_def c_def)
  have "take n (record_bytes r) @ extra =
      be_bytes 4 c @ be_bytes 8 (hdr_key_size ?h) @ be_bytes 8 (hdr_value_size ?h) @ hdr_flags ?h # take (n - 21) ?p @ extra"
  proof -
    obtain m where "n = 21 + m" using assms(3) le_Suc_ex by auto
    then show ?thesis by (subst rb) simp
  qed
  moreover have "length (take (n - 21) ?p @ extra) < unat (hdr_key_size ?h) + unat (hdr_value_size ?h)"
    using assms by (simp add: length_record_bytes record_wf_def)
  moreover have "unat (hdr_key_size ?h) \<le> MAX_KEY_SIZE" "unat (hdr_value_size ?h) \<le> MAX_VALUE_SIZE"
    using assms(1) by (simp_all add: record_fits_def record_wf_def)
  ultimately show ?thesis using read_next_short [OF fl assms(2)] by metis
qed

lemma wal_replay_swallows:
  assumes "record_ok r" and "hdr_expiry_ms (rec_header r) = None" and "RECORD_HEADER_LEN \<le> n" and "n + length extra < length (record_bytes r)"
  shows "wal_replay (take n (record_bytes r) @ extra) = Inr memtable_new"
proof -
  have "take n (record_bytes r) @ extra \<noteq> []" using assms(3,4) by auto
  then show ?thesis using read_next_swallows [OF assms] by (simp add: wal_replay_def wal_replay_loop.simps)
qed

text \<open>An engine over an empty directory, its log and its memtable.\<close>

abbreviation log_engine :: "bytes \<Rightarrow> memtable \<Rightarrow> lsm" where
  "log_engine wal m \<equiv> (lsm_new (lit ''db'') (2 ^ 50) (lsm_strategy small_engine) 4096 False wal [])\<lparr>lsm_active := m\<rparr>"

lemma log_engine_get: "lsm_get t (\<lambda>_. t) k (log_engine wal m) = Inr (map_option (\<lambda>v. (k, v)) (value_at t (mt_entries m) k))"
proof -
  have "tables_hold (lsm_dir (log_engine wal m)) (lsm_tables (log_engine wal m)) []"
    by (simp add: lsm_new_def small_engine_def leveled_iter_all_def level_iter_def)
  from lsm_get_correct [OF this, of t k] show ?thesis by (simp add: lsm_view_def lsm_new_def)
qed

lemma log_engine_set:
  assumes "len k + len k + len v < 2 ^ 50"
  shows "\<exists>m. lsm_set F ts k v (log_engine wal memtable_new) = Inr (log_engine (snd (wal_append k v False None wal)) m) \<and>
           mt_entries m = [(k, \<lparr>me_value = Some v, me_expiry_ms = None\<rparr>)]"
proof -
  obtain m where m: "memtable_insert k v None memtable_new = Inr m" "mt_entries m = [(k, \<lparr>me_value = Some v, me_expiry_ms = None\<rparr>)]"
    and sz: "mt_size_bytes m \<le> len k + len k + len v"
    by (auto simp: memtable_insert_def memtable_new_def Let_def)
  have "lsm_set F ts k v (log_engine wal memtable_new) = Inr (log_engine (snd (wal_append k v False None wal)) m)"
    using m(1) sz assms by (simp add: lsm_set_def lsm_write_def apply_write_def lsm_new_def case_prod_beta)
  then show ?thesis using m(2) by blast
qed

text \<open>A restart over a torn log succeeds, but the torn record stays in the file: a write is appended behind it, is answered
  and read back, and the next restart finds it no more.\<close>

theorem lsm_torn_log_hides_writes:
  "\<exists>torn s1 s2 s3. torn = take 22 (record_bytes (op_record (lit ''a'', lit (replicate 100 (CHR ''x'')), False, None))) \<and>
     lsm_from_dir (lit ''db'') (2 ^ 50) (lsm_strategy small_engine) 4096 False torn [] = Inr s1 \<and>
     lsm_set exact_f64 1 (lit ''k'') (lit ''v'') s1 = Inr s2 \<and> lsm_get 9 (\<lambda>_. 9) (lit ''k'') s2 = Inr (Some (lit ''k'', lit ''v'')) \<and>
     lsm_from_dir (lit ''db'') (2 ^ 50) (lsm_strategy small_engine) 4096 False (lsm_wal s2) (lsm_dir s2) = Inr s3 \<and>
     lsm_get 9 (\<lambda>_. 9) (lit ''k'') s3 = Inr None"
proof -
  define r where "r = op_record (lit ''a'', lit (replicate 100 (CHR ''x'')), False, None)"
  let ?torn = "take 22 (record_bytes r)" and ?k = "lit ''k''" and ?v = "lit ''v''"
  have r: "record_ok r" "hdr_expiry_ms (rec_header r) = None" "length (record_bytes r) = 122"
    using op_record_ok [of "(lit ''a'', lit (replicate 100 (CHR ''x'')), False, None)"]
    by (auto simp: r_def op_fits_def op_record_def length_record_bytes MAX_KEY_SIZE_def MAX_VALUE_SIZE_def)
  let ?new = "record_bytes (mk_record ?k ?v (wal_flags False None) None)"
  have wal: "snd (wal_append ?k ?v False None ?torn) = ?torn @ ?new" by (simp add: wal_append_def record_append_def)
  have "wal_replay (?torn @ []) = Inr memtable_new" by (rule wal_replay_swallows [OF r(1,2)]) (simp_all add: r(3))
  then have 1: "lsm_from_dir (lit ''db'') (2 ^ 50) (lsm_strategy small_engine) 4096 False ?torn [] = Inr (log_engine ?torn memtable_new)"
    by (simp add: lsm_from_dir_def)
  obtain m where 2: "lsm_set exact_f64 1 ?k ?v (log_engine ?torn memtable_new) = Inr (log_engine (?torn @ ?new) m)"
    and m: "mt_entries m = [(?k, \<lparr>me_value = Some ?v, me_expiry_ms = None\<rparr>)]"
    using log_engine_set [of ?k ?v exact_f64 1 ?torn] unfolding wal by auto
  have "wal_replay (?torn @ ?new) = Inr memtable_new" by (rule wal_replay_swallows [OF r(1,2)]) (simp_all add: r(3) length_record_bytes [of "mk_record _ _ _ _"])
  then have 3: "lsm_from_dir (lit ''db'') (2 ^ 50) (lsm_strategy small_engine) 4096 False (lsm_wal (log_engine (?torn @ ?new) m))
      (lsm_dir (log_engine (?torn @ ?new) m)) = Inr (log_engine (?torn @ ?new) memtable_new)"
    by (simp add: lsm_from_dir_def lsm_new_def)
  have "lsm_get 9 (\<lambda>_. 9) ?k (log_engine (?torn @ ?new) m) = Inr (Some (?k, ?v))"
    "lsm_get 9 (\<lambda>_. 9) ?k (log_engine (?torn @ ?new) memtable_new) = Inr None"
    unfolding log_engine_get by (simp_all add: m value_at_def entry_value_def)
  then show ?thesis using 1 2 3 unfolding r_def by blast
qed

section \<open>A value that the log cannot give back\<close>

lemma read_next_oversized:
  assumes "record_wf r" and "\<not> record_fits r"
  shows "read_next (record_bytes r @ rest) = Inl (IoError InvalidInput (Message ''key or value exceeds maximum allowed size''))"
proof -
  let ?h = "rec_header r"
  have "flags_agree ?h" using assms(1) by (auto simp: record_wf_def split: option.splits)
  then show ?thesis
    using assms by (auto simp: read_next_def read_header_def record_bytes_def record_payload_def Let_def record_wf_def record_fits_def
        split: option.splits)
qed

text \<open>The engine accepts a value over the limit, and then its directory cannot be opened any more.\<close>

theorem lsm_oversized_value_blocks_open:
  assumes "MAX_VALUE_SIZE < len v" and "len v < 2 ^ 49"
  shows "\<exists>s. lsm_set F ts (lit ''k'') v (log_engine [] memtable_new) = Inr s \<and> lsm_get t (\<lambda>_. t) (lit ''k'') s = Inr (Some (lit ''k'', v)) \<and>
           lsm_from_dir (lit ''db'') (2 ^ 50) (lsm_strategy small_engine) 4096 False (lsm_wal s) (lsm_dir s) =
             Inl (IoError InvalidInput (Message ''key or value exceeds maximum allowed size''))"
proof -
  let ?k = "lit ''k''" and ?r = "mk_record (lit ''k'') v (wal_flags False None) None"
  have wal: "snd (wal_append ?k v False None []) = record_bytes ?r" by (simp add: wal_append_def record_append_def)
  have "len ?k + len ?k + len v < 2 ^ 50" using assms(2) by simp
  from log_engine_set [OF this, of F ts "[]"] obtain m where
    s: "lsm_set F ts ?k v (log_engine [] memtable_new) = Inr (log_engine (record_bytes ?r) m)"
    and m: "mt_entries m = [(?k, \<lparr>me_value = Some v, me_expiry_ms = None\<rparr>)]" unfolding wal by blast
  have "record_wf ?r" using assms(2) by (intro record_wf_mk_record) (auto simp: wal_flags_def)
  moreover have "\<not> record_fits ?r" using assms(1) by (simp add: record_fits_def)
  ultimately have "read_next (record_bytes ?r @ []) = Inl (IoError InvalidInput (Message ''key or value exceeds maximum allowed size''))"
    by (rule read_next_oversized)
  moreover have "record_bytes ?r \<noteq> []" using length_record_bytes [of ?r] by auto
  ultimately have "wal_replay (record_bytes ?r) = Inl (IoError InvalidInput (Message ''key or value exceeds maximum allowed size''))"
    by (simp add: wal_replay_def wal_replay_loop.simps)
  then show ?thesis
    using s m log_engine_get [where t = t and k = ?k and wal = "record_bytes ?r" and m = m]
    by (intro exI [of _ "log_engine (record_bytes ?r) m"]) (simp add: value_at_def entry_value_def lsm_from_dir_def lsm_new_def)
qed

end
