(* ===== verification/Leveled_Files.thy ===== *)
theory Leveled_Files
  imports Leveled_Reload
begin

text \<open>
  The files of a leveled store under compaction (src/src/leveled.rs): the tables that are merged are removed, the new one
  is named after its level, and no file of the database is left over. These facts hold of every run that returns; together
  with \<open>Leveled_Reload\<close> they make a store survive a restart at any moment at which no table is half written.
\<close>

section \<open>Files that come and go\<close>

definition files_less :: "rstring set \<Rightarrow> dir \<Rightarrow> dir \<Rightarrow> bool" where
  "files_less X d d' \<longleftrightarrow>
     (\<forall>n. map_of d' n = (if n \<in> X then None else map_of d n)) \<and> (distinct (map fst d) \<longrightarrow> distinct (map fst d'))"

lemma files_less_refl [simp]: "files_less {} d d"
  by (simp add: files_less_def)

lemma files_less_trans: "files_less X d d1 \<Longrightarrow> files_less Y d1 d2 \<Longrightarrow> files_less (X \<union> Y) d d2"
  by (simp add: files_less_def)

lemma remove_file_less: "remove_file n d = Inr d' \<Longrightarrow> files_less {n} d d'"
  by (auto simp: remove_file_def files_less_def distinct_delete split: if_splits)

lemma remove_files_less: "fold_res remove_file ns d = Inr d' \<Longrightarrow> files_less (set ns) d d'"
proof (induction ns arbitrary: d)
  case (Cons n ns)
  then obtain d1 where "remove_file n d = Inr d1" "fold_res remove_file ns d1 = Inr d'" by (auto simp: and_then_Inr_iff)
  then show ?case using files_less_trans [OF remove_file_less Cons.IH] by fastforce
qed simp

lemma merge_and_remove_less: "merge_and_remove dd now ssts (m, d) = Inr (m', d') \<Longrightarrow> files_less (sst_path ` set ssts) d d'"
proof (induction ssts arbitrary: m d)
  case (Cons sst ssts)
  then obtain m1 d1 where "remove_file (sst_path sst) d = Inr d1" "merge_and_remove dd now ssts (m1, d1) = Inr (m', d')"
    by (auto simp: and_then_Inr_iff)
  then show ?case using files_less_trans [OF remove_file_less Cons.IH] by fastforce
qed simp

lemma new_table:
  assumes "from_memtable ts name m level target compression d = Inr (sst, d')"
  shows "sst_path sst = sst_filename name level ts" and "sst_timestamp sst = ts" and "sst_name sst = name" and "sst_level sst = level"
    and "map_of d' n \<noteq> None \<longleftrightarrow> n = sst_path sst \<or> map_of d n \<noteq> None" and "distinct (map fst d) \<Longrightarrow> distinct (map fst d')"
  using assms by (auto simp: from_memtable_def and_then_Inr_iff Let_def create_new_def distinct_update split: if_splits)

section \<open>No file is left over\<close>

text \<open>As \<open>on_disk\<close>, but the files in \<open>P\<close> are waiting to become tables.\<close>

definition tidy :: "rstring set \<Rightarrow> dir \<Rightarrow> rstring \<Rightarrow> leveled \<Rightarrow> bool" where
  "tidy P d db_name s \<longleftrightarrow>
     distinct (map fst d) \<and> levels_named db_name (lvl_levels s) \<and> in_order (lv_sstables (lvl_levels s ! 0)) \<and>
     (\<forall>n stub. map_of d n \<noteq> None \<longrightarrow> sst_parse n = Some stub \<longrightarrow> sst_name stub = db_name \<longrightarrow>
        n \<in> sst_path ` set (leveled_iter_all s) \<union> P)"

lemma tidy_on_disk: "tidy {} d db_name s \<longleftrightarrow> on_disk d db_name s"
  by (auto simp: tidy_def on_disk_def no_strays_def)

lemma named_update:
  assumes "levels_named db_name ls" and "\<forall>x \<in> set (lv_sstables l). table_named db_name i x"
  shows "levels_named db_name (ls[i := l])"
  unfolding levels_named_def
proof (intro allI impI ballI)
  fix j x assume "j < length (ls[i := l])" and "x \<in> set (lv_sstables (ls[i := l] ! j))"
  then show "table_named db_name j x" using assms by (cases "j = i") (auto simp: levels_named_def)
qed

lemma path_in_levels:
  fixes s :: leveled
  shows "n \<in> sst_path ` set (leveled_iter_all s) \<longleftrightarrow> (\<exists>i < length (lvl_levels s). n \<in> sst_path ` set (lv_sstables (lvl_levels s ! i)))"
  using in_levels [of _ s] by blast

text \<open>One level is replaced: its old tables are gone, or are in the new level too.\<close>

lemma tidy_update:
  fixes s :: leveled
  assumes t: "tidy P d db_name s" and i: "i < length (lvl_levels s)" and named: "\<forall>x \<in> set (lv_sstables l). table_named db_name i x"
    and order: "i = 0 \<Longrightarrow> in_order (lv_sstables l)" and dist: "distinct (map fst d')"
    and gone: "\<forall>n. map_of d' n \<noteq> None \<longrightarrow> n \<in> sst_path ` set (lv_sstables l) \<or>
                 map_of d n \<noteq> None \<and> n \<notin> sst_path ` set (lv_sstables (lvl_levels s ! i)) - sst_path ` set (lv_sstables l)"
  shows "tidy P d' db_name (s\<lparr>lvl_levels := (lvl_levels s)[i := l]\<rparr>)"
proof -
  let ?ls = "lvl_levels s" and ?s = "s\<lparr>lvl_levels := (lvl_levels s)[i := l]\<rparr>"
  have "levels_named db_name (?ls[i := l])" using t named by (intro named_update) (simp_all add: tidy_def)
  moreover have "in_order (lv_sstables (?ls[i := l] ! 0))" using t order i by (cases "i = 0") (simp_all add: tidy_def)
  moreover have "n \<in> sst_path ` set (leveled_iter_all ?s) \<union> P"
    if n: "map_of d' n \<noteq> None" "sst_parse n = Some stub" "sst_name stub = db_name" for n stub
  proof (cases "n \<in> sst_path ` set (lv_sstables l)")
    case True
    then have "\<exists>j < length (lvl_levels ?s). n \<in> sst_path ` set (lv_sstables (lvl_levels ?s ! j))" using i by (intro exI [of _ i]) simp
    then show ?thesis unfolding Un_iff path_in_levels [of n ?s] by (rule disjI1)
  next
    case False
    then have old: "map_of d n \<noteq> None" "n \<notin> sst_path ` set (lv_sstables (?ls ! i))" using gone n(1) by blast+
    then have "n \<in> sst_path ` set (leveled_iter_all s) \<union> P" using t n(2,3) unfolding tidy_def by blast
    then consider "n \<in> P" | j where "j < length ?ls" "n \<in> sst_path ` set (lv_sstables (?ls ! j))" "j \<noteq> i"
      using old(2) by (auto simp: path_in_levels)
    then show ?thesis
    proof cases
      case (2 j)
      then have "\<exists>j < length (lvl_levels ?s). n \<in> sst_path ` set (lv_sstables (lvl_levels ?s ! j))" by (intro exI [of _ j]) simp
      then show ?thesis unfolding Un_iff path_in_levels [of n ?s] by (rule disjI1)
    qed blast
  qed
  ultimately show ?thesis using dist unfolding tidy_def by simp
qed

section \<open>Compaction keeps the directory tidy\<close>

lemma squash_tidy:
  fixes s :: leveled
  assumes t: "tidy P d db_name s" and i: "i < length (lvl_levels s)" and num: "lv_level_num (lvl_levels s ! i) = i"
    and run: "level_squash now ts db_name bs compression (lvl_levels s ! i) d = Inr (sst, l, d')"
  shows "tidy P d' db_name (s\<lparr>lvl_levels := (lvl_levels s)[i := (case sst of Some sst \<Rightarrow> level_append sst l | None \<Rightarrow> l)]\<rparr>)"
proof (cases "lv_sstables (lvl_levels s ! i) = []")
  case True
  then have "sst = None" "l = lvl_levels s ! i" "d' = d" using run by (simp_all add: level_squash_def)
  then show ?thesis using t by simp
next
  case False
  let ?l = "lvl_levels s ! i"
  from run False obtain m d1 table where m: "merge_and_remove (lv_is_terminal ?l) now (level_iter ?l) (memtable_new, d) = Inr (m, d1)"
    and w: "from_memtable ts db_name m (Some (lv_level_num ?l)) bs compression d1 = Inr (table, d')"
    and r: "sst = Some table" "l = ?l\<lparr>lv_sstables := []\<rparr>"
    by (auto simp: level_squash_def and_then_Inr_iff)
  note new = new_table [OF w] and less = merge_and_remove_less [OF m]
  have "tidy P d' db_name (s\<lparr>lvl_levels := (lvl_levels s)[i := level_append table l]\<rparr>)"
  proof (rule tidy_update [OF t i])
    show "distinct (map fst d')" using new(6) less t by (simp add: files_less_def tidy_def)
    show "\<forall>n. map_of d' n \<noteq> None \<longrightarrow> n \<in> sst_path ` set (lv_sstables (level_append table l)) \<or>
        map_of d n \<noteq> None \<and> n \<notin> sst_path ` set (lv_sstables ?l) - sst_path ` set (lv_sstables (level_append table l))"
      using new(5) less r(2) by (auto simp: files_less_def level_append_def level_iter_def)
  qed (use new(1-4) num r(2) in \<open>simp_all add: level_append_def table_named_def in_order_def\<close>)
  then show ?thesis using r(1) by simp
qed

lemma compact_levels_tidy:
  fixes s :: leveled
  assumes t: "tidy P d db_name s" and i: "i + 1 < length (lvl_levels s)" and num: "lv_level_num (lvl_levels s ! (i + 1)) = i + 1"
    and run: "compact_levels now ts (i, i + 1) db_name d s = Inr (s', d')"
  shows "tidy P d' db_name s'" and "s' = s \<or> (\<exists>l. s' = s\<lparr>lvl_levels := (lvl_levels s)[i + 1 := l, i := (lvl_levels s ! i)\<lparr>lv_sstables := []\<rparr>]\<rparr> \<and>
      lv_level_num l = lv_level_num (lvl_levels s ! (i + 1)) \<and> lv_is_terminal l = lv_is_terminal (lvl_levels s ! (i + 1)))"
proof -
  let ?src = "lvl_levels s ! i" and ?tgt = "lvl_levels s ! (i + 1)"
  have "tidy P d' db_name s' \<and> (s' = s \<or> (\<exists>l. s' = s\<lparr>lvl_levels := (lvl_levels s)[i + 1 := l, i := ?src\<lparr>lv_sstables := []\<rparr>]\<rparr> \<and>
      lv_level_num l = lv_level_num ?tgt \<and> lv_is_terminal l = lv_is_terminal ?tgt))"
  proof (cases "key_range ?src")
    case None
    then show ?thesis using run i t by (auto simp: compact_levels_def)
  next
    case (Some r)
    define over where "over = overlapping_files (fst r) (snd r) ?tgt"
    from run i Some obtain m sst d1 d2 where w: "from_memtable ts db_name m (Some (lv_level_num ?tgt)) (lvl_block_size_bytes s) (lvl_block_compression s) d = Inr (sst, d1)"
      and d2: "fold_res remove_file (remdups (map sst_path over)) d1 = Inr d2"
      and d': "fold_res remove_file (map sst_path (level_iter ?src)) d2 = Inr d'"
      and s': "s' = s\<lparr>lvl_levels := (lvl_levels s)[i + 1 := level_append sst
          (?tgt\<lparr>lv_sstables := filter (\<lambda>x. sst_path x \<notin> set (remdups (map sst_path over))) (lv_sstables ?tgt)\<rparr>), i := ?src\<lparr>lv_sstables := []\<rparr>]\<rparr>"
      by (cases r) (auto simp: compact_levels_def Let_def and_then_Inr_iff over_def)
    define l where "l = level_append sst (?tgt\<lparr>lv_sstables := filter (\<lambda>x. sst_path x \<notin> set (remdups (map sst_path over))) (lv_sstables ?tgt)\<rparr>)"
    note new = new_table [OF w] and less = remove_files_less [OF d2] remove_files_less [OF d']
    have old: "table_named db_name (i + 1) x" if "x \<in> set (lv_sstables ?tgt)" for x using t that i by (simp add: tidy_def levels_named_def)
    have tables: "lv_sstables l = filter (\<lambda>x. sst_path x \<notin> sst_path ` set over) (lv_sstables ?tgt) @ [sst]" by (simp add: l_def level_append_def)
    have dist: "distinct (map fst d2)" "distinct (map fst d')" using new(6) less t by (simp_all add: files_less_def tidy_def)
    let ?s = "s\<lparr>lvl_levels := (lvl_levels s)[i + 1 := l]\<rparr>"
    have t2: "tidy P d2 db_name ?s"
    proof (rule tidy_update [OF t i])
      show "\<forall>x \<in> set (lv_sstables l). table_named db_name (i + 1) x" using new(1-4) num old by (auto simp: tables table_named_def)
      show "\<forall>n. map_of d2 n \<noteq> None \<longrightarrow> n \<in> sst_path ` set (lv_sstables l) \<or>
          map_of d n \<noteq> None \<and> n \<notin> sst_path ` set (lv_sstables ?tgt) - sst_path ` set (lv_sstables l)"
        using new(5) less(1) by (auto simp: files_less_def tables split: if_splits)
    qed (use dist in simp_all)
    have i2: "i < length (lvl_levels ?s)" using i by simp
    have "tidy P d' db_name (?s\<lparr>lvl_levels := (lvl_levels ?s)[i := ?src\<lparr>lv_sstables := []\<rparr>]\<rparr>)"
    proof (rule tidy_update [OF t2 i2])
      show "\<forall>n. map_of d' n \<noteq> None \<longrightarrow> n \<in> sst_path ` set (lv_sstables (?src\<lparr>lv_sstables := []\<rparr>)) \<or>
          map_of d2 n \<noteq> None \<and> n \<notin> sst_path ` set (lv_sstables (lvl_levels ?s ! i)) - sst_path ` set (lv_sstables (?src\<lparr>lv_sstables := []\<rparr>))"
        using less(2) by (simp add: files_less_def level_iter_def)
    qed (use dist in \<open>simp_all add: in_order_def\<close>)
    then have "tidy P d' db_name s'" by (simp add: s' l_def)
    moreover have "lv_level_num l = lv_level_num ?tgt" "lv_is_terminal l = lv_is_terminal ?tgt" by (simp_all add: l_def level_append_def)
    ultimately show ?thesis using s' [folded l_def] by blast
  qed
  then show "tidy P d' db_name s'" and "s' = s \<or> (\<exists>l. s' = s\<lparr>lvl_levels := (lvl_levels s)[i + 1 := l, i := ?src\<lparr>lv_sstables := []\<rparr>]\<rparr> \<and>
      lv_level_num l = lv_level_num ?tgt \<and> lv_is_terminal l = lv_is_terminal ?tgt)" by blast+
qed

text \<open>The levels are numbered, and only the last one is terminal.\<close>

definition shaped :: "leveled \<Rightarrow> bool" where
  "shaped s \<longleftrightarrow>
     map lv_level_num (lvl_levels s) = [0..<length (lvl_levels s)] \<and>
     map lv_is_terminal (lvl_levels s) = map (\<lambda>i. i + 1 = length (lvl_levels s)) [0..<length (lvl_levels s)]"

lemma lvl_holds_shaped: "lvl_holds d s LL \<Longrightarrow> shaped s"
  by (simp add: lvl_holds_def shaped_def)

lemma shaped_nth:
  assumes "shaped s" and "i < length (lvl_levels s)"
  shows "lv_level_num (lvl_levels s ! i) = i" and "lv_is_terminal (lvl_levels s ! i) \<longleftrightarrow> i + 1 = length (lvl_levels s)"
proof -
  have "map lv_level_num (lvl_levels s) ! i = [0..<length (lvl_levels s)] ! i"
    "map lv_is_terminal (lvl_levels s) ! i = map (\<lambda>i. i + 1 = length (lvl_levels s)) [0..<length (lvl_levels s)] ! i"
    using assms(1) unfolding shaped_def by argo+
  then show "lv_level_num (lvl_levels s ! i) = i" "lv_is_terminal (lvl_levels s ! i) \<longleftrightarrow> i + 1 = length (lvl_levels s)"
    using assms(2) by simp_all
qed

lemma map_update_same: "f x = f (xs ! i) \<Longrightarrow> map f (xs[i := x]) = map f xs"
  by (cases "i < length xs") (simp_all add: map_update list_update_same_conv list_update_beyond)

lemma shaped_update:
  assumes "shaped s" and "lv_level_num l = lv_level_num (lvl_levels s ! i)" and "lv_is_terminal l = lv_is_terminal (lvl_levels s ! i)"
  shows "shaped (s\<lparr>lvl_levels := (lvl_levels s)[i := l]\<rparr>)"
  using assms by (simp add: shaped_def map_update_same)

lemma compact_level_tidy:
  assumes t: "tidy P d db_name s" and sh: "shaped s" and n: "1 < length (lvl_levels s)"
    and run: "compact_level now ts db_name i (s, d) = Inr (s', d')"
  shows "tidy P d' db_name s' \<and> shaped s' \<and> length (lvl_levels s') = length (lvl_levels s) \<and>
           set (lv_sstables (lvl_levels s' ! 0)) \<subseteq> set (lv_sstables (lvl_levels s ! 0))"
proof -
  let ?l = "lvl_levels s ! i"
  have i: "i < length (lvl_levels s)" using run by (auto simp: compact_level_def idx_def split: if_splits)
  note nth = shaped_nth [OF sh i]
  show ?thesis
  proof (cases "lv_is_terminal ?l")
    case True
    then have "i \<noteq> 0" using nth(2) n by auto
    from run i True obtain sst l where sq: "level_squash now ts db_name (lvl_block_size_bytes s) (lvl_block_compression s) ?l d = Inr (sst, l, d')"
      and s': "s' = s\<lparr>lvl_levels := (lvl_levels s)[i := (case sst of Some sst \<Rightarrow> level_append sst l | None \<Rightarrow> l)]\<rparr>"
      by (auto simp: compact_level_def idx_def and_then_Inr_iff)
    have "lv_level_num l = lv_level_num ?l" "lv_is_terminal l = lv_is_terminal ?l"
      using sq by (auto simp: level_squash_def and_then_Inr_iff split: if_splits)
    then have "shaped s'" unfolding s' by (intro shaped_update [OF sh]) (simp_all add: level_append_def split: option.split)
    then show ?thesis using squash_tidy [OF t i nth(1) sq] \<open>i \<noteq> 0\<close> unfolding s' by simp
  next
    case False
    then have i1: "i + 1 < length (lvl_levels s)" using nth(2) i by simp
    have "compact_levels now ts (i, i + 1) db_name d s = Inr (s', d')" using run i False by (simp add: compact_level_def idx_def)
    note res = compact_levels_tidy [OF t i1 shaped_nth(1) [OF sh i1] this]
    show ?thesis
    proof (cases "s' = s")
      case False
      with res(2) obtain l where s': "s' = s\<lparr>lvl_levels := (lvl_levels s)[i + 1 := l, i := ?l\<lparr>lv_sstables := []\<rparr>]\<rparr>"
        and l: "lv_level_num l = lv_level_num (lvl_levels s ! (i + 1))" "lv_is_terminal l = lv_is_terminal (lvl_levels s ! (i + 1))" by blast
      have "shaped (s\<lparr>lvl_levels := (lvl_levels s)[i + 1 := l]\<rparr>)" by (rule shaped_update [OF sh l])
      from shaped_update [OF this, of "?l\<lparr>lv_sstables := []\<rparr>" i] have "shaped s'" by (simp add: s')
      moreover have "set (lv_sstables (lvl_levels s' ! 0)) \<subseteq> set (lv_sstables (lvl_levels s ! 0))"
        using n i by (cases "i = 0") (simp_all add: s')
      ultimately show ?thesis using res(1) by (simp add: s')
    qed (use res(1) sh in simp)
  qed
qed

lemma compact_from_tidy:
  assumes "tidy P d db_name s" and "shaped s" and "1 < length (lvl_levels s)"
    and "fold_res (\<lambda>i sd. compact_level (fst (clk i)) (snd (clk i)) db_name i sd) is (s, d) = Inr (s', d')"
  shows "tidy P d' db_name s' \<and> shaped s' \<and> length (lvl_levels s') = length (lvl_levels s) \<and>
           set (lv_sstables (lvl_levels s' ! 0)) \<subseteq> set (lv_sstables (lvl_levels s ! 0))"
  using assms
proof (induction "is" arbitrary: s d)
  case (Cons i "is")
  then obtain s1 d1 where 1: "compact_level (fst (clk i)) (snd (clk i)) db_name i (s, d) = Inr (s1, d1)"
    and 2: "fold_res (\<lambda>i sd. compact_level (fst (clk i)) (snd (clk i)) db_name i sd) is (s1, d1) = Inr (s', d')"
    by (auto simp: and_then_Inr_iff)
  note step = compact_level_tidy [OF Cons.prems(1-3) 1]
  from Cons.IH [OF _ _ _ 2] step Cons.prems(3) show ?case by auto
qed simp

end
