(* ===== verification/Lsm_Restarts.thy ===== *)
theory Lsm_Restarts
  imports Lsm_Durable Leveled_Files
begin

text \<open>
  The LSM engine with the leveled strategy across restarts: a directory is opened as the server opens it (\<open>load_from_dir\<close> of
  src/src/leveled.rs, \<open>from_dir\<close> of src/src/lsmengine.rs), used, compacted, and opened again, any number of times. In
  \<open>restart_run\<close> the process stops at every moment but two: while the flush thread writes a table, and in the middle of an append
  to the log; what is found after a crash at such a moment is the subject of the last section. As in
  \<open>Lsm_Compaction\<close> no record is deleted or given a time to live; the clock that names the flushed tables does not go back.
\<close>

section \<open>The files of the engine\<close>

definition pending_files :: "lsm \<Rightarrow> rstring set" where
  "pending_files s = (case lsm_flush_handle s of Some (FlushAdd sst) \<Rightarrow> {sst_path sst} | _ \<Rightarrow> {})"

text \<open>\<open>T\<close> is the time of the last flush.\<close>

definition files_inv :: "u64 \<Rightarrow> lsm \<Rightarrow> leveled \<Rightarrow> bool" where
  "files_inv T s lv \<longleftrightarrow>
     lsm_strategy s = LeveledS lv \<and> 1 < length (lvl_levels lv) \<and> shaped lv \<and>
     tidy (pending_files s) (lsm_dir s) (lsm_db_name s) lv \<and> (\<forall>x \<in> set (lv_sstables (lvl_levels lv ! 0)). sst_timestamp x \<le> T) \<and>
     (\<forall>sst. lsm_flush_handle s = Some (FlushAdd sst) \<longrightarrow>
        table_named (lsm_db_name s) 0 sst \<and> sst_timestamp sst \<le> T \<and>
        (\<forall>x \<in> set (lv_sstables (lvl_levels lv ! 0)). sst_timestamp x < sst_timestamp sst))"

lemma files_inv_mono: "files_inv T s lv \<Longrightarrow> T \<le> T' \<Longrightarrow> files_inv T' s lv"
  unfolding files_inv_def by (meson order.trans)

lemma tidy_absorb:
  assumes "tidy {p} d db_name s" and "p \<in> sst_path ` set (leveled_iter_all s)"
  shows "tidy {} d db_name s"
  using assms unfolding tidy_def by blast

lemma tidy_new_file:
  assumes "tidy {} d db_name s" and "distinct (map fst d')" and "\<forall>n. map_of d' n \<noteq> None \<longrightarrow> n = p \<or> map_of d n \<noteq> None"
  shows "tidy {p} d' db_name s"
  using assms unfolding tidy_def by blast

text \<open>A flushed table is added at level 0.\<close>

lemma tidy_add:
  fixes s :: leveled
  assumes t: "tidy {sst_path sst} d db_name s" and n: "0 < length (lvl_levels s)" and named: "table_named db_name 0 sst"
    and later: "\<forall>x \<in> set (lv_sstables (lvl_levels s ! 0)). sst_timestamp x < sst_timestamp sst"
  shows "tidy {} d db_name (s\<lparr>lvl_levels := (lvl_levels s)[0 := level_append sst (lvl_levels s ! 0)]\<rparr>)"
proof -
  let ?l = "level_append sst (lvl_levels s ! 0)" and ?s = "s\<lparr>lvl_levels := (lvl_levels s)[0 := level_append sst (lvl_levels s ! 0)]\<rparr>"
  have "tidy {sst_path sst} d db_name ?s"
    using t n named later
    by (intro tidy_update [OF t n]) (auto simp: level_append_def tidy_def levels_named_def in_order_def sorted_wrt_append)
  moreover have "sst_path sst \<in> sst_path ` set (leveled_iter_all ?s)"
    unfolding path_in_levels using n by (intro exI [of _ 0]) (simp add: level_append_def)
  ultimately show ?thesis by (rule tidy_absorb)
qed

lemma add_sstable_update:
  "leveled_add_sstable sst d lv = Inr lv' \<Longrightarrow>
     lvl_levels lv \<noteq> [] \<and> lv' = lv\<lparr>lvl_levels := (lvl_levels lv)[0 := level_append sst (lvl_levels lv ! 0)]\<rparr>"
  by (auto simp: leveled_add_sstable_def split: list.splits)

lemma level0_append:
  "0 < length (lvl_levels lv) \<Longrightarrow>
     set (lv_sstables ((lvl_levels lv)[0 := level_append sst (lvl_levels lv ! 0)] ! 0)) = insert sst (set (lv_sstables (lvl_levels lv ! 0)))"
  by (simp add: level_append_def)

lemma files_flush_step:
  assumes inv: "files_inv T s lv" and run: "flush_step F ts s = Inr s'" and ts: "T \<le> ts" "lsm_flush_handle s = Some FlushWrite \<Longrightarrow> T < ts"
  shows "\<exists>lv'. files_inv ts s' lv'" and "lsm_flush_handle s' \<noteq> Some FlushWrite"
    and "lsm_flush_handle s \<noteq> Some FlushWrite \<Longrightarrow> lsm_dir s' = lsm_dir s \<and> lsm_wal s' = lsm_wal s"
proof -
  consider "lsm_flush_handle s = None \<or> lsm_flush_handle s = Some FlushDone" | "lsm_flush_handle s = Some FlushWrite"
    | sst where "lsm_flush_handle s = Some (FlushAdd sst)" | "lsm_flush_handle s = Some FlushClear"
    by (metis flush_phase.exhaust option.exhaust)
  then have "(\<exists>lv'. files_inv ts s' lv') \<and> lsm_flush_handle s' \<noteq> Some FlushWrite \<and>
      (lsm_flush_handle s \<noteq> Some FlushWrite \<longrightarrow> lsm_dir s' = lsm_dir s \<and> lsm_wal s' = lsm_wal s)"
  proof cases
    case 1
    then have "s' = s" using run by (auto simp: flush_step_def)
    then show ?thesis using files_inv_mono [OF inv ts(1)] 1 by auto
  next
    case 2
    note low = files_inv_mono [OF inv ts(1)]
    show ?thesis
    proof (cases "lsm_immutable s")
      case None
      then have "s' = s\<lparr>lsm_flush_handle := Some FlushClear\<rparr>" using run 2 by (simp add: flush_step_def)
      then show ?thesis using low 2 by (auto simp: files_inv_def pending_files_def)
    next
      case (Some m)
      then obtain sst d where w: "from_memtable ts (lsm_db_name s) m None (lsm_block_size_bytes s) (lsm_block_compression s) (lsm_dir s) = Inr (sst, d)"
        and s': "s' = s\<lparr>lsm_dir := d, lsm_flush_handle := Some (FlushAdd sst)\<rparr>"
        using run 2 by (auto simp: flush_step_def split: sum.splits)
      note new = new_table [OF w]
      have t0: "tidy {} (lsm_dir s) (lsm_db_name s) lv" using inv 2 by (simp add: files_inv_def pending_files_def)
      then have "distinct (map fst d)" by (intro new(6)) (simp add: tidy_def)
      then have "tidy {sst_path sst} d (lsm_db_name s) lv" by (rule tidy_new_file [OF t0]) (use new(5) in blast)
      moreover have "sst_timestamp x < ts" if "x \<in> set (lv_sstables (lvl_levels lv ! 0))" for x
        using inv that ts(2) [OF 2] by (auto simp: files_inv_def)
      ultimately have "files_inv ts s' lv" using inv low new(1-4) by (simp add: files_inv_def s' pending_files_def table_named_def)
      then show ?thesis using 2 by (auto simp: s')
    qed
  next
    case (3 sst)
    then obtain lv' where add: "leveled_add_sstable sst (lsm_dir s) lv = Inr lv'"
      and s': "s' = s\<lparr>lsm_strategy := LeveledS lv', lsm_flush_handle := Some FlushClear\<rparr>"
      using run inv by (auto simp: flush_step_def files_inv_def and_then_Inr_iff split: sum.splits)
    note lv' = conjunct2 [OF add_sstable_update [OF add]]
    have n: "0 < length (lvl_levels lv)" using inv by (auto simp: files_inv_def)
    have "tidy {} (lsm_dir s) (lsm_db_name s) lv'" unfolding lv'
      using inv 3 by (intro tidy_add [OF _ n]) (auto simp: files_inv_def pending_files_def)
    moreover have "shaped lv'" unfolding lv' using inv by (intro shaped_update) (simp_all add: files_inv_def level_append_def)
    moreover have "sst_timestamp x \<le> ts" if "x \<in> set (lv_sstables (lvl_levels lv' ! 0))" for x
    proof -
      have "x \<in> insert sst (set (lv_sstables (lvl_levels lv ! 0)))" using that level0_append [OF n, of sst] by (simp add: lv')
      then have "sst_timestamp x \<le> T" using inv 3 by (auto simp: files_inv_def)
      then show ?thesis using ts(1) by (rule order.trans)
    qed
    ultimately have "files_inv ts s' lv'" using inv by (simp add: files_inv_def s' lv' pending_files_def)
    then show ?thesis using s' by auto
  next
    case 4
    then have "s' = s\<lparr>lsm_immutable := None, lsm_flush_handle := Some FlushDone\<rparr>" using run by (simp add: flush_step_def)
    then show ?thesis using files_inv_mono [OF inv ts(1)] 4 by (auto simp: files_inv_def pending_files_def)
  qed
  then show "\<exists>lv'. files_inv ts s' lv'" "lsm_flush_handle s' \<noteq> Some FlushWrite"
    "lsm_flush_handle s \<noteq> Some FlushWrite \<Longrightarrow> lsm_dir s' = lsm_dir s \<and> lsm_wal s' = lsm_wal s" by blast+
qed

lemma flush_step_name: "flush_step F ts s = Inr s' \<Longrightarrow> lsm_db_name s' = lsm_db_name s"
  by (auto simp: flush_step_def split: option.splits flush_phase.splits sum.splits)

lemma flush_step_rank: "flush_step F ts s = Inr s' \<Longrightarrow> phase_rank (lsm_flush_handle s') \<le> phase_rank (lsm_flush_handle s) - 1"
  by (auto simp: flush_step_def split: option.splits flush_phase.splits sum.splits)

lemma files_flush_join:
  assumes inv: "files_inv T s lv" and run: "flush_join F ts s = Inr s'" and ts: "T < ts"
  shows "\<exists>lv'. files_inv ts s' lv'" and "lsm_flush_handle s' = None" and "lsm_db_name s' = lsm_db_name s"
proof -
  have "(\<exists>lv'. files_inv ts s' lv') \<and> lsm_flush_handle s' = None \<and> lsm_db_name s' = lsm_db_name s"
  proof (cases "lsm_flush_handle s = None")
    case True
    then show ?thesis using run files_inv_mono [OF inv order.strict_implies_order [OF ts]] by (auto simp: flush_join_def)
  next
    case False
    with run obtain s1 s2 s3 where r: "flush_step F ts s = Inr s1" "flush_step F ts s1 = Inr s2" "flush_step F ts s2 = Inr s3"
      and s': "s' = s3\<lparr>lsm_flush_handle := None\<rparr>" by (auto simp: flush_join_def and_then_Inr_iff)
    note 1 = files_flush_step [OF inv r(1) order.strict_implies_order [OF ts] ts]
    from 1(1) obtain lv1 where "files_inv ts s1 lv1" ..
    note 2 = files_flush_step [OF this r(2) order.refl, OF notE [OF 1(2)]]
    from 2(1) obtain lv2 where "files_inv ts s2 lv2" ..
    note 3 = files_flush_step [OF this r(3) order.refl, OF notE [OF 2(2)]]
    from 3(1) obtain lv3 where 4: "files_inv ts s3 lv3" ..
    have "phase_rank (lsm_flush_handle s3) = 0"
      using flush_step_rank [OF r(1)] flush_step_rank [OF r(2)] flush_step_rank [OF r(3)] phase_rank_le [of "lsm_flush_handle s"] by simp
    then have "files_inv ts s' lv3" using 4 unfolding phase_rank_0 by (auto simp: s' files_inv_def pending_files_def)
    then show ?thesis using r [THEN flush_step_name] by (auto simp: s')
  qed
  then show "\<exists>lv'. files_inv ts s' lv'" "lsm_flush_handle s' = None" "lsm_db_name s' = lsm_db_name s" by blast+
qed

lemma files_set:
  assumes inv: "files_inv T s lv" and run: "lsm_set F ts k v s = Inr s'" and ts: "T < ts"
  shows "\<exists>lv'. files_inv ts s' lv'"
proof -
  from run obtain wal m sz where w: "apply_write (lsm_wal s) (lsm_active s) k (Some v) None = Inr (wal, m, sz)"
    and s': "(if lsm_max_memtable_bytes s \<le> sz then flush_memtable_async F ts (s\<lparr>lsm_wal := wal, lsm_active := m\<rparr>) else Inr (s\<lparr>lsm_wal := wal, lsm_active := m\<rparr>)) = Inr s'"
    by (auto simp: lsm_set_def lsm_write_def and_then_Inr_iff Let_def)
  let ?s = "s\<lparr>lsm_wal := wal, lsm_active := m\<rparr>"
  have inv1: "files_inv T ?s lv" using inv by (simp add: files_inv_def pending_files_def)
  show ?thesis
  proof (cases "lsm_max_memtable_bytes s \<le> sz")
    case True
    with s' obtain s1 where j: "flush_join F ts ?s = Inr s1" and "s' = swapped s1"
      by (auto simp: flush_memtable_async_def and_then_Inr_iff)
    then show ?thesis using files_flush_join [OF inv1 j ts] by (auto simp: files_inv_def pending_files_def)
  next
    case False
    then have "s' = ?s" using s' by simp
    then show ?thesis using files_inv_mono [OF inv1 order.strict_implies_order [OF ts]] by auto
  qed
qed

lemma files_inline_flush:
  assumes inv: "files_inv T s lv" and q: "lsm_flush_handle s = None" and run: "lsm_inline_flush F ts s = Inr s'" and ts: "T < ts"
  shows "\<exists>lv'. files_inv ts s' lv'"
proof -
  from run inv obtain sst d lv' where w: "from_memtable ts (lsm_db_name s) (lsm_active s) None (lsm_block_size_bytes s) (lsm_block_compression s) (lsm_dir s) = Inr (sst, d)"
    and add: "leveled_add_sstable sst d lv = Inr lv'"
    and s': "s' = s\<lparr>lsm_active := memtable_new, lsm_immutable := None, lsm_wal := wal_reset (lsm_wal s), lsm_strategy := LeveledS lv', lsm_dir := d\<rparr>"
    by (auto simp: lsm_inline_flush_def and_then_Inr_iff files_inv_def)
  let ?t = "s\<lparr>lsm_immutable := Some (lsm_active s), lsm_flush_handle := Some FlushWrite\<rparr>"
  have t: "files_inv T ?t lv" using inv q by (simp add: files_inv_def pending_files_def)
  have 1: "flush_step F ts ?t = Inr (?t\<lparr>lsm_dir := d, lsm_flush_handle := Some (FlushAdd sst)\<rparr>)" using w by (simp add: flush_step_def)
  from files_flush_step(1) [OF t 1 order.strict_implies_order [OF ts] ts] obtain lv1 where t1: "files_inv ts (?t\<lparr>lsm_dir := d, lsm_flush_handle := Some (FlushAdd sst)\<rparr>) lv1" ..
  have 2: "flush_step F ts (?t\<lparr>lsm_dir := d, lsm_flush_handle := Some (FlushAdd sst)\<rparr>) =
      Inr (?t\<lparr>lsm_dir := d, lsm_strategy := LeveledS lv', lsm_flush_handle := Some FlushClear\<rparr>)"
    using add inv by (simp add: flush_step_def files_inv_def)
  from files_flush_step(1) [OF t1 2] obtain lv2 where "files_inv ts (?t\<lparr>lsm_dir := d, lsm_strategy := LeveledS lv', lsm_flush_handle := Some FlushClear\<rparr>) lv2" by auto
  then have "files_inv ts s' lv2" using q by (auto simp: s' files_inv_def pending_files_def)
  then show ?thesis ..
qed

text \<open>Compaction of the tables.\<close>

lemma files_new_tables:
  assumes "files_inv T s lv" and "tidy (pending_files s) d' (lsm_db_name s) lv'" and "shaped lv'" and "length (lvl_levels lv') = length (lvl_levels lv)"
    and "set (lv_sstables (lvl_levels lv' ! 0)) \<subseteq> set (lv_sstables (lvl_levels lv ! 0))"
  shows "files_inv T (s\<lparr>lsm_strategy := LeveledS lv', lsm_dir := d'\<rparr>) lv'"
  using assms by (auto simp: files_inv_def pending_files_def split: option.splits flush_phase.splits)

lemma files_compact_tables:
  assumes inv: "files_inv T s lv" and run: "lsm_compact_tables clk s = Inr s'"
  shows "\<exists>lv'. files_inv T s' lv' \<and> length (lvl_levels lv') = length (lvl_levels lv) \<and> lsm_db_name s' = lsm_db_name s"
proof -
  from run inv obtain lv' d' where c: "leveled_compact_all clk (lsm_db_name s) (lsm_dir s) lv = Inr (lv', d')"
    and s': "s' = s\<lparr>lsm_strategy := LeveledS lv', lsm_dir := d'\<rparr>"
    by (auto simp: lsm_compact_tables_def files_inv_def and_then_Inr_iff)
  have *: "tidy (pending_files s) d' (lsm_db_name s) lv' \<and> shaped lv' \<and> length (lvl_levels lv') = length (lvl_levels lv) \<and>
      set (lv_sstables (lvl_levels lv' ! 0)) \<subseteq> set (lv_sstables (lvl_levels lv ! 0))"
    using inv by (intro compact_from_tidy [OF _ _ _ c [unfolded leveled_compact_all_def]]) (simp_all add: files_inv_def)
  then have "files_inv T s' lv'" unfolding s' by (intro files_new_tables [OF inv]) simp_all
  then show ?thesis using * s' by auto
qed

lemma files_compact_step:
  assumes inv: "files_inv T s lv" and run: "lsm_compact_step clk s = Inr (r, s')"
  shows "\<exists>lv'. files_inv T s' lv' \<and> length (lvl_levels lv') = length (lvl_levels lv) \<and> lsm_db_name s' = lsm_db_name s"
proof -
  from run inv obtain lv' d' where c: "leveled_compact_from (fst (clk 0)) (snd (clk 0)) (lsm_db_name s) [0..<length (lvl_levels lv)] (lv, lsm_dir s) = Inr (r, lv', d')"
    and s': "s' = s\<lparr>lsm_strategy := LeveledS lv', lsm_dir := d'\<rparr>"
    by (auto simp: lsm_compact_step_def files_inv_def and_then_Inr_iff leveled_compact_if_needed_def)
  have *: "tidy (pending_files s) d' (lsm_db_name s) lv' \<and> shaped lv' \<and> length (lvl_levels lv') = length (lvl_levels lv) \<and>
      set (lv_sstables (lvl_levels lv' ! 0)) \<subseteq> set (lv_sstables (lvl_levels lv ! 0))"
    using compact_from_cases [OF c]
  proof
    assume "\<exists>i \<in> set [0..<length (lvl_levels lv)]. compact_level (fst (clk 0)) (snd (clk 0)) (lsm_db_name s) i (lv, lsm_dir s) = Inr (lv', d')"
    then obtain i where i: "compact_level (fst (clk 0)) (snd (clk 0)) (lsm_db_name s) i (lv, lsm_dir s) = Inr (lv', d')" ..
    show ?thesis using inv by (intro compact_level_tidy [OF _ _ _ i]) (simp_all add: files_inv_def)
  qed (use inv in \<open>simp add: files_inv_def\<close>)
  then have "files_inv T s' lv'" unfolding s' by (intro files_new_tables [OF inv]) simp_all
  then show ?thesis using * s' by auto
qed

section \<open>Names are new\<close>

lemma same_table:
  assumes "plain_name db_name" and "table_named db_name i x" and "table_named db_name j y" and "sst_path x = sst_path y" and "i < 2 ^ 64" and "j < 2 ^ 64"
  shows "i = j" and "sst_timestamp x = sst_timestamp y"
  using stub_named [OF assms(1,2,5)] stub_named [OF assms(1,3,6)] assms(4) by (simp_all add: stub_of_def)

text \<open>A flush at a later time writes a new file.\<close>

lemma files_fresh:
  assumes inv: "files_inv T s lv" and ts: "T < ts" and name: "plain_name (lsm_db_name s)" and n: "length (lvl_levels lv) \<le> 2 ^ 64"
  shows "fresh_name ts s"
proof (rule ccontr)
  let ?fn = "sst_filename (lsm_db_name s) None ts"
  assume "\<not> fresh_name ts s"
  then have ex: "map_of (lsm_dir s) ?fn \<noteq> None" by (simp add: fresh_name_def)
  define y where "y = (undefined :: sstable)\<lparr>sst_name := lsm_db_name s, sst_path := ?fn, sst_timestamp := ts, sst_level := None\<rparr>"
  have y: "table_named (lsm_db_name s) 0 y" "sst_path y = ?fn" "sst_timestamp y = ts" by (simp_all add: y_def table_named_def)
  obtain stub where "sst_parse ?fn = Some stub" "sst_name stub = lsm_db_name s" using parse_named [OF name y(1)] y(2) by auto
  then have "?fn \<in> sst_path ` set (leveled_iter_all lv) \<union> pending_files s" using inv ex by (auto simp: files_inv_def tidy_def)
  then obtain i x where x: "i < length (lvl_levels lv)" "table_named (lsm_db_name s) i x" "sst_path x = ?fn"
    and low: "i = 0 \<longrightarrow> sst_timestamp x \<le> T"
  proof (elim UnE)
    assume "?fn \<in> sst_path ` set (leveled_iter_all lv)"
    then obtain i x where "i < length (lvl_levels lv)" "x \<in> set (lv_sstables (lvl_levels lv ! i))" "sst_path x = ?fn"
      unfolding path_in_levels by force
    moreover from this have "table_named (lsm_db_name s) i x" using inv by (simp add: files_inv_def tidy_def levels_named_def)
    moreover from calculation have "i = 0 \<longrightarrow> sst_timestamp x \<le> T" using inv by (auto simp: files_inv_def)
    ultimately show ?thesis by (intro that)
  next
    assume "?fn \<in> pending_files s"
    then obtain sst where "lsm_flush_handle s = Some (FlushAdd sst)" "sst_path sst = ?fn"
      by (auto simp: pending_files_def split: option.splits flush_phase.splits)
    moreover have "0 < length (lvl_levels lv)" using inv by (auto simp: files_inv_def)
    ultimately show ?thesis using inv that [of 0 sst] by (simp add: files_inv_def)
  qed
  from same_table [OF name x(2) y(1)] x n y(2,3) have "i = 0" "sst_timestamp x = ts" by auto
  then show False using low ts by simp
qed

section \<open>Opening the directory again\<close>

definition lsm_open :: "rstring \<Rightarrow> nat \<Rightarrow> nat \<Rightarrow> nat \<Rightarrow> u64 \<Rightarrow> nat \<Rightarrow> bool \<Rightarrow> bytes \<Rightarrow> dir \<Rightarrow> lsm res" where
  "lsm_open db_name max_bytes num_levels l0_threshold l1_max_bytes block_size compression wal d =
     and_then (leveled_load_from_dir d db_name num_levels l0_threshold l1_max_bytes block_size compression) (\<lambda>lv.
       lsm_from_dir db_name max_bytes (LeveledS lv) block_size compression wal d)"

lemma bt_unique:
  assumes "bt_ok as" and "bt_ok bs" and "map_of as = map_of bs"
  shows "as = bs"
proof (rule sorted_key_unique [where f = fst])
  show "set as = set bs" using map_of_inject_set [OF bt_ok_distinct [OF assms(1)] bt_ok_distinct [OF assms(2)]] assms(3) by simp
  show "distinct as" using bt_ok_distinct [OF assms(1)] by (simp add: distinct_map)
qed (use assms(1,2) in \<open>simp_all add: bt_ok_def strict_sorted_iff\<close>)

lemma replay_torn:
  assumes "wal_matches wal m" and "mt_ok m" and "op_fits torn" and "i < length (record_bytes (op_record torn))"
  shows "\<exists>m'. wal_replay (wal @ take i (record_bytes (op_record torn))) = Inr m' \<and> mt_ok m' \<and> mt_entries m' = mt_entries m"
proof -
  from assms(1) obtain ops where ops: "wal = wal_of ops" "\<forall>opn \<in> set ops. op_fits opn" "map_of (mt_entries m) = map_of (rev (map op_entry ops))"
    by (auto simp: wal_matches_def)
  from wal_replay_torn [OF ops(2) assms(3,4)] obtain m' where m': "wal_replay (wal @ take i (record_bytes (op_record torn))) = Inr m'" "mt_ok m'"
    "map_of (mt_entries m') = map_of (mt_entries m)"
    using ops(1,3) by (auto simp: memtable_get_entry_def fun_eq_iff)
  then show ?thesis using bt_unique [of "mt_entries m'" "mt_entries m"] assms(2) by (auto simp: mt_ok_def)
qed

lemma replay_matches:
  assumes "wal_matches wal m" and "mt_ok m"
  shows "\<exists>m'. wal_replay wal = Inr m' \<and> mt_ok m' \<and> mt_entries m' = mt_entries m"
  using replay_torn [OF assms, of "(lit [], lit [], False, None)" 0] by (simp add: op_fits_def length_record_bytes)

text \<open>Outside the write of a table, what is on disk is what a finished flush leaves there.\<close>

lemma settle_step:
  assumes "store_inv n s lv LL" and "files_inv T s lv" and "lsm_flush_handle s \<noteq> Some FlushWrite" and "n < 2 ^ 40"
  shows "\<exists>s1 lv1 LL1. store_inv n s1 lv1 LL1 \<and> files_inv T s1 lv1 \<and> lsm_flush_handle s1 \<noteq> Some FlushWrite \<and>
           phase_rank (lsm_flush_handle s1) = phase_rank (lsm_flush_handle s) - 1 \<and>
           lsm_dir s1 = lsm_dir s \<and> lsm_wal s1 = lsm_wal s \<and> lsm_active s1 = lsm_active s \<and> lsm_db_name s1 = lsm_db_name s \<and>
           length (lvl_levels lv1) = length (lvl_levels lv) \<and> map_of (lsm_view s1 (concat LL1)) = map_of (lsm_view s (concat LL))"
proof -
  from store_flush_step [OF assms(1,4), of T exact_f64] assms(3) obtain s1 lv1 LL1 where
      r: "flush_step exact_f64 T s = Inr s1" and fl: "flushed n T s lv LL s1 lv1 LL1" "phase_rank (lsm_flush_handle s1) = phase_rank (lsm_flush_handle s) - 1"
    by auto
  note f = files_flush_step [OF assms(2) r order.refl notE [OF assms(3)]]
  from f(1) obtain lv' where "files_inv T s1 lv'" ..
  moreover have "lv' = lv1" using fl(1) \<open>files_inv T s1 lv'\<close> by (simp add: flushed_def store_inv_def files_inv_def)
  ultimately show ?thesis using fl f(2,3) assms(3) by (intro exI [of _ s1] exI [of _ lv1] exI [of _ LL1]) (simp add: flushed_def)
qed

lemma settle:
  assumes "store_inv n s lv LL" and "files_inv T s lv" and "lsm_flush_handle s \<noteq> Some FlushWrite" and n: "n < 2 ^ 40"
  shows "\<exists>s1 lv1 LL1. store_inv n s1 lv1 LL1 \<and> files_inv T s1 lv1 \<and> phase_rank (lsm_flush_handle s1) = 0 \<and>
           lsm_dir s1 = lsm_dir s \<and> lsm_wal s1 = lsm_wal s \<and> lsm_active s1 = lsm_active s \<and> lsm_db_name s1 = lsm_db_name s \<and>
           length (lvl_levels lv1) = length (lvl_levels lv) \<and> map_of (lsm_view s1 (concat LL1)) = map_of (lsm_view s (concat LL))"
proof -
  from settle_step [OF assms] obtain s1 lv1 LL1 where 1: "store_inv n s1 lv1 LL1" "files_inv T s1 lv1" "lsm_flush_handle s1 \<noteq> Some FlushWrite"
      "phase_rank (lsm_flush_handle s1) = phase_rank (lsm_flush_handle s) - 1"
      "lsm_dir s1 = lsm_dir s" "lsm_wal s1 = lsm_wal s" "lsm_active s1 = lsm_active s" "lsm_db_name s1 = lsm_db_name s"
      "length (lvl_levels lv1) = length (lvl_levels lv)" "map_of (lsm_view s1 (concat LL1)) = map_of (lsm_view s (concat LL))"
    by (elim exE conjE) (rule that)
  from settle_step [OF 1(1-3) n] obtain s2 lv2 LL2 where 2: "store_inv n s2 lv2 LL2" "files_inv T s2 lv2"
      "phase_rank (lsm_flush_handle s2) = phase_rank (lsm_flush_handle s1) - 1"
      "lsm_dir s2 = lsm_dir s1" "lsm_wal s2 = lsm_wal s1" "lsm_active s2 = lsm_active s1" "lsm_db_name s2 = lsm_db_name s1"
      "length (lvl_levels lv2) = length (lvl_levels lv1)" "map_of (lsm_view s2 (concat LL2)) = map_of (lsm_view s1 (concat LL1))"
    by (elim exE conjE) (rule that)
  have "phase_rank (lsm_flush_handle s) \<noteq> 3" using assms(3) by (simp add: phase_rank_3)
  then have "phase_rank (lsm_flush_handle s2) = 0" using 1(4) 2(3) phase_rank_le [of "lsm_flush_handle s"] by simp
  then show ?thesis using 1 2 by (intro exI [of _ s2] exI [of _ lv2] exI [of _ LL2]) simp
qed

text \<open>The tables come back.\<close>

lemma reload_tables:
  assumes h: "lvl_holds d lv LL" and od: "on_disk d db_name lv" and name: "plain_name db_name"
    and n: "1 < length (lvl_levels lv)" "length (lvl_levels lv) \<le> 2 ^ 64" and bs: "bs < 2 ^ 31"
    and new: "leveled_new (length (lvl_levels lv)) l0 l1 bs compression = Inr lv0"
    and low: "\<forall>x \<in> set (lv_sstables (lvl_levels lv ! 0)). sst_timestamp x \<le> T"
  shows "\<exists>lv' LL'. leveled_load_from_dir d db_name (length (lvl_levels lv)) l0 l1 bs compression = Inr lv' \<and>
           lvl_holds d lv' LL' \<and> on_disk d db_name lv' \<and> length (lvl_levels lv') = length (lvl_levels lv) \<and>
           length (level_entries LL') = length (level_entries LL) \<and> map_of (level_entries LL') = map_of (level_entries LL) \<and>
           (\<forall>x \<in> set (lv_sstables (lvl_levels lv' ! 0)). sst_timestamp x \<le> T)"
proof -
  note meta = leveled_new_meta [OF new] and len0 = leveled_new_tables(1) [OF new]
  have pre: "levels_hold d (lvl_levels lv) LL" "distinct (map sst_path (leveled_iter_all lv))"
    "\<forall>L \<in> set (tl LL). distinct (map fst (concat L))" "length (level_entries LL) < 2 ^ 40" "permanent (level_entries LL)"
    using h by (simp_all add: lvl_holds_def)
  have "0 < length (lvl_levels lv)" using n(1) by auto
  from load_from_dir_holds [OF pre(1-4) od name this n(2) new meta(4) len0] obtain lv' LL'
    where run: "leveled_load_from_dir d db_name (length (lvl_levels lv)) l0 l1 bs compression = Inr lv'"
    and h': "levels_hold d (lvl_levels lv') LL'" and ms: "mset (level_entries LL') = mset (level_entries LL)" and mo: "map_of (level_entries LL') = map_of (level_entries LL)"
    and k': "\<forall>L \<in> set (tl LL'). distinct (map fst (concat L))" and p': "distinct (map sst_path (leveled_iter_all lv'))" and od': "on_disk d db_name lv'"
    and m': "map lv_level_num (lvl_levels lv') = map lv_level_num (lvl_levels lv0)" "map lv_is_terminal (lvl_levels lv') = map lv_is_terminal (lvl_levels lv0)"
      "lvl_block_size_bytes lv' = lvl_block_size_bytes lv0"
    by (elim exE conjE) (rule that)
  have len: "length (lvl_levels lv') = length (lvl_levels lv)" using arg_cong [OF m'(1), of length] len0 by simp
  have "map (\<lambda>i. i = length (lvl_levels lv) - 1) [0..<length (lvl_levels lv)] = map (\<lambda>i. i + 1 = length (lvl_levels lv)) [0..<length (lvl_levels lv)]"
    using n(1) by auto
  then have "lvl_holds d lv' LL'"
    using h' p' k' mset_eq_setD [OF ms] mset_eq_length [OF ms] pre(4,5) bs m' meta(1-3) len by (simp add: lvl_holds_def permanent_def)
  moreover have "sst_timestamp y \<le> T" if y: "y \<in> set (lv_sstables (lvl_levels lv' ! 0))" for y
  proof -
    have in': "y \<in> set (leveled_iter_all lv')" unfolding in_levels using y n(1) len by (intro exI [of _ 0]) auto
    have "0 < length (lvl_levels lv')" using n(1) len by auto
    then have ny: "table_named db_name 0 y" using od' y unfolding on_disk_def levels_named_def by blast
    have "map_of d (sst_path y) \<noteq> None" using tables_hold_files [OF levels_tables [OF h']] in' by (simp add: leveled_iter_all_def)
    moreover obtain stub where "sst_parse (sst_path y) = Some stub" "sst_name stub = db_name" using parse_named [OF name ny] by auto
    ultimately have "sst_path y \<in> sst_path ` set (leveled_iter_all lv)" using od by (auto simp: on_disk_def no_strays_def)
    then obtain i x where x: "i < length (lvl_levels lv)" "x \<in> set (lv_sstables (lvl_levels lv ! i))" "sst_path x = sst_path y"
      unfolding path_in_levels by force
    have nx: "table_named db_name i x" using od x(1,2) by (simp add: on_disk_def levels_named_def)
    have "i < 2 ^ 64" using x(1) n(2) by simp
    from same_table [OF name nx ny x(3) this] x(2) low show ?thesis by auto
  qed
  ultimately show ?thesis using run od' len mo mset_eq_length [OF ms] by blast
qed

lemma store_reopen:
  assumes inv: "store_inv n s lv LL" and fi: "files_inv T s lv" and ph: "lsm_flush_handle s \<noteq> Some FlushWrite" and n: "n < 2 ^ 40"
    and name: "plain_name (lsm_db_name s)" and lev: "length (lvl_levels lv) = num_levels" "num_levels \<le> 2 ^ 64" and bs: "bs < 2 ^ 31"
    and new: "leveled_new num_levels l0 l1 bs compression = Inr lv0"
  shows "\<exists>s' lv' LL'. lsm_open (lsm_db_name s) max_bytes num_levels l0 l1 bs compression (lsm_wal s) (lsm_dir s) = Inr s' \<and>
           store_inv n s' lv' LL' \<and> files_inv T s' lv' \<and> lsm_db_name s' = lsm_db_name s \<and> length (lvl_levels lv') = num_levels \<and>
           map_of (lsm_view s' (concat LL')) = map_of (lsm_view s (concat LL))"
proof -
  let ?d = "lsm_dir s" and ?db = "lsm_db_name s"
  from settle [OF inv fi ph n] obtain s1 lv1 LL1 where 1: "store_inv n s1 lv1 LL1" "files_inv T s1 lv1" "phase_rank (lsm_flush_handle s1) = 0"
      "lsm_dir s1 = ?d" "lsm_wal s1 = lsm_wal s" "lsm_active s1 = lsm_active s" "lsm_db_name s1 = ?db"
      "length (lvl_levels lv1) = num_levels" "map_of (lsm_view s1 (concat LL1)) = map_of (lsm_view s (concat LL))"
    unfolding lev(1) by (elim exE conjE) (rule that)
  have idle: "lsm_flush_handle s1 = None \<or> lsm_flush_handle s1 = Some FlushDone" using 1(3) by (simp only: phase_rank_0)
  then have imm: "lsm_immutable s1 = None" "pending_files s1 = {}" "pending s1 = 0"
    using 1(1) by (auto simp: store_inv_def lsm_inv_def phase_inv_def pending_files_def pending_def)
  have h: "lvl_holds ?d lv1 LL1" using 1(1,4) by (simp add: store_inv_def)
  have od: "on_disk ?d ?db lv1" "1 < length (lvl_levels lv1)" "\<forall>x \<in> set (lv_sstables (lvl_levels lv1 ! 0)). sst_timestamp x \<le> T"
    using 1(2,4,7) imm(2) by (simp_all add: files_inv_def flip: tidy_on_disk)
  from reload_tables [OF h od(1) name od(2) _ bs _ od(3), of l0 l1 compression lv0] new lev(2) obtain lv' LL' where
      load: "leveled_load_from_dir ?d ?db num_levels l0 l1 bs compression = Inr lv'"
    and r: "lvl_holds ?d lv' LL'" "on_disk ?d ?db lv'" "length (lvl_levels lv') = num_levels" "length (level_entries LL') = length (level_entries LL1)"
      "map_of (level_entries LL') = map_of (level_entries LL1)" "\<forall>x \<in> set (lv_sstables (lvl_levels lv' ! 0)). sst_timestamp x \<le> T"
    unfolding 1(8) by auto
  have act: "wal_matches (lsm_wal s) (lsm_active s)" "mt_good n (lsm_active s)" "permanent (mt_entries (lsm_active s))"
    "length (mt_entries (lsm_active s)) + length (level_entries LL1) \<le> n"
    using 1(1,5,6) imm(3) by (simp_all add: store_inv_def lsm_inv_def)
  from replay_matches [OF act(1)] act(2) obtain m where m: "wal_replay (lsm_wal s) = Inr m" "mt_ok m" "mt_entries m = mt_entries (lsm_active s)"
    by (auto simp: mt_good_def)
  define s' where "s' = (lsm_new ?db max_bytes (LeveledS lv') bs compression (lsm_wal s) ?d)\<lparr>lsm_active := m\<rparr>"
  have "lsm_open ?db max_bytes num_levels l0 l1 bs compression (lsm_wal s) ?d = Inr s'"
    using load m(1) by (simp add: lsm_open_def lsm_from_dir_def s'_def)
  moreover have "lsm_inv n s' (concat LL')"
    using lvl_holds_tables [OF r(1)] r(3) lev od(2) 1(8) act(1,2) m(2,3) bs
    by (auto simp: lsm_inv_def s'_def lsm_new_def phase_inv_def mt_good_def wal_matches_def)
  then have "store_inv n s' lv' LL'" using r(1,4) act(3,4) m(3) by (simp add: store_inv_def s'_def lsm_new_def pending_def)
  moreover have "files_inv T s' lv'"
    using r(2,3,6) od(2) 1(8) lvl_holds_shaped [OF r(1)] by (simp add: files_inv_def s'_def lsm_new_def pending_files_def tidy_on_disk)
  moreover have "map_of (lsm_view s' (concat LL')) = map_of (lsm_view s1 (concat LL1))"
    using r(5) m(3) 1(6) imm(1) by (simp add: lsm_view_def s'_def lsm_new_def level_entries_concat)
  ultimately show ?thesis using r(3) 1(9)
    by (intro exI [of _ s'] exI [of _ lv'] exI [of _ LL']) (simp add: s'_def lsm_new_def)
qed

section \<open>Histories with restarts\<close>

text \<open>\<open>opn\<close> opens a log and a directory; the process stops and is started again while no table is being written.\<close>

inductive restart_run :: "'f f64 \<Rightarrow> (bytes \<Rightarrow> dir \<Rightarrow> lsm res) \<Rightarrow> (rstring \<times> rstring) list \<Rightarrow> u64 \<Rightarrow> lsm \<Rightarrow> bool" for F opn where
  run_open: "opn [] [] = Inr s \<Longrightarrow> restart_run F opn [] 0 s"
| run_set: "restart_run F opn ws T s \<Longrightarrow> T < ts \<Longrightarrow> len k \<le> MAX_KEY_SIZE \<Longrightarrow> len v \<le> MAX_VALUE_SIZE \<Longrightarrow>
    lsm_set F ts k v s = Inr s' \<Longrightarrow> restart_run F opn (ws @ [(k, v)]) ts s'"
| run_flush: "restart_run F opn ws T s \<Longrightarrow> T < ts \<Longrightarrow> flush_step F ts s = Inr s' \<Longrightarrow> restart_run F opn ws ts s'"
| run_inline: "restart_run F opn ws T s \<Longrightarrow> T < jts \<Longrightarrow> jts < ts \<Longrightarrow> flush_join F jts s = Inr s1 \<Longrightarrow>
    lsm_inline_flush F ts s1 = Inr s' \<Longrightarrow> restart_run F opn ws ts s'"
| run_tables: "restart_run F opn ws T s \<Longrightarrow> fresh_steps clk s (level_count s) \<Longrightarrow> lsm_compact_tables clk s = Inr s' \<Longrightarrow>
    restart_run F opn ws T s'"
| run_partial: "restart_run F opn ws T s \<Longrightarrow> fresh_steps (\<lambda>_. clk 0) s (level_count s) \<Longrightarrow> lsm_compact_step clk s = Inr (r, s') \<Longrightarrow>
    restart_run F opn ws T s'"
| run_reopen: "restart_run F opn ws T s \<Longrightarrow> lsm_flush_handle s \<noteq> Some FlushWrite \<Longrightarrow> opn (lsm_wal s) (lsm_dir s) = Inr s' \<Longrightarrow>
    restart_run F opn ws T s'"

definition restart_inv :: "rstring \<Rightarrow> nat \<Rightarrow> (rstring \<times> rstring) list \<Rightarrow> u64 \<Rightarrow> lsm \<Rightarrow> bool" where
  "restart_inv db_name num_levels ws T s \<longleftrightarrow>
     (\<exists>lv LL. store_inv (length ws) s lv LL \<and> files_inv T s lv \<and> lsm_db_name s = db_name \<and> length (lvl_levels lv) = num_levels \<and>
        map_of (lsm_view s (concat LL)) = map_of (rev (map plain ws)))"

lemma restart_invI:
  assumes "store_inv (length ws) s lv LL" and "\<exists>lv'. files_inv T s lv'" and "lsm_db_name s = db_name" and "length (lvl_levels lv) = num_levels"
    and "map_of (lsm_view s (concat LL)) = map_of (rev (map plain ws))"
  shows "restart_inv db_name num_levels ws T s"
proof -
  from assms(2) obtain lv' where "files_inv T s lv'" ..
  moreover from this assms(1) have "lv' = lv" by (simp add: files_inv_def store_inv_def)
  ultimately show ?thesis using assms by (auto simp: restart_inv_def)
qed

lemma restart_open:
  assumes new: "leveled_new num_levels l0 l1 bs compression = Inr lv" and n: "1 < num_levels" and bs: "bs < 2 ^ 31"
    and run: "lsm_open db_name max_bytes num_levels l0 l1 bs compression [] [] = Inr s"
  shows "restart_inv db_name num_levels [] 0 s"
proof -
  have load: "leveled_load_from_dir [] db_name num_levels l0 l1 bs compression = Inr lv"
    using new by (simp add: leveled_load_from_dir_def get_sstables_def map_filter_simps)
  have s: "s = lsm_new db_name max_bytes (LeveledS lv) bs compression [] []"
    using run load by (simp add: lsm_open_def lsm_from_dir_def wal_replay_def wal_replay_loop.simps lsm_new_def)
  note inv = store_inv_new [OF new _ bs bs, of db_name max_bytes compression "[]"] and meta = leveled_new_meta [OF new]
  have len: "length (lvl_levels lv) = num_levels" using leveled_new_tables(1) [OF new] .
  have "lv_sstables (lvl_levels lv ! i) = []" if "i < num_levels" for i using meta(4) that len by simp
  then have "tidy {} [] db_name lv" using n len by (simp add: tidy_def levels_named_def in_order_def)
  moreover have "shaped lv" using inv n by (auto simp: store_inv_def intro: lvl_holds_shaped)
  ultimately have "files_inv 0 s lv"
    using n len \<open>\<And>i. i < num_levels \<Longrightarrow> _\<close> [of 0] by (simp add: files_inv_def s lsm_new_def pending_files_def)
  then show ?thesis using inv n len by (intro restart_invI [of _ _ lv "replicate num_levels []"]) (auto simp: s lsm_new_def lsm_view_def)
qed

lemma restart_run_new:
  assumes "restart_run F (lsm_open db_name max_bytes num_levels l0 l1 bs compression) ws T s"
  shows "\<exists>lv. leveled_new num_levels l0 l1 bs compression = Inr lv"
  using assms
  by induction (auto simp: lsm_open_def and_then_Inr_iff leveled_load_from_dir_def)

lemma restart_invE:
  assumes "restart_inv db_name num_levels ws T s"
  obtains lv LL where "store_inv (length ws) s lv LL" and "files_inv T s lv" and "lsm_db_name s = db_name" and "length (lvl_levels lv) = num_levels"
    and "map_of (lsm_view s (concat LL)) = map_of (rev (map plain ws))"
  using assms by (auto simp: restart_inv_def)

lemma same_levels: "store_inv n s lv LL \<Longrightarrow> files_inv T s lv' \<Longrightarrow> lv' = lv"
  by (simp add: files_inv_def store_inv_def)

text \<open>The steps of a history keep the invariant.\<close>

lemma restart_set:
  assumes inv: "restart_inv db_name num_levels ws T s" and run: "lsm_set F ts k v s = Inr s'" and ts: "T < ts"
    and name: "plain_name db_name" and n: "num_levels \<le> 2 ^ 64" and m: "Suc (length ws) < 2 ^ 40" and fits: "len k \<le> MAX_KEY_SIZE" "len v \<le> MAX_VALUE_SIZE"
  shows "restart_inv db_name num_levels (ws @ [(k, v)]) ts s'"
  using inv
proof (rule restart_invE)
  fix lv LL assume IH: "store_inv (length ws) s lv LL" "files_inv T s lv" "lsm_db_name s = db_name" "length (lvl_levels lv) = num_levels"
    "map_of (lsm_view s (concat LL)) = map_of (rev (map plain ws))"
  have fresh: "fresh_name ts s" using files_fresh [OF IH(2) ts] IH(3,4) name n by simp
  from store_write [OF IH(1) m fresh fits, of F] run IH(3,4)
  obtain lv' LL' where "store_inv (Suc (length ws)) s' lv' LL'" "lsm_db_name s' = db_name" "length (lvl_levels lv') = num_levels"
    "map_of (lsm_view s' (concat LL')) = (map_of (lsm_view s (concat LL)))(k \<mapsto> \<lparr>me_value = Some v, me_expiry_ms = None\<rparr>)" by auto
  then show ?thesis using IH(5) files_set [OF IH(2) run ts] by (intro restart_invI [of _ _ lv' LL']) simp_all
qed

lemma restart_flush:
  assumes inv: "restart_inv db_name num_levels ws T s" and run: "flush_step F ts s = Inr s'" and ts: "T < ts"
    and name: "plain_name db_name" and n: "num_levels \<le> 2 ^ 64" and m: "length ws < 2 ^ 40"
  shows "restart_inv db_name num_levels ws ts s'"
  using inv
proof (rule restart_invE)
  fix lv LL assume IH: "store_inv (length ws) s lv LL" "files_inv T s lv" "lsm_db_name s = db_name" "length (lvl_levels lv) = num_levels"
    "map_of (lsm_view s (concat LL)) = map_of (rev (map plain ws))"
  have fresh: "fresh_name ts s" using files_fresh [OF IH(2) ts] IH(3,4) name n by simp
  from store_flush_step [OF IH(1) m fresh, of F] run obtain lv' LL' where "flushed (length ws) ts s lv LL s' lv' LL'" by auto
  then show ?thesis
    using IH(3-5) files_flush_step(1) [OF IH(2) run order.strict_implies_order [OF ts] ts]
    by (intro restart_invI [of _ _ lv' LL']) (simp_all add: flushed_def)
qed

lemma restart_inline:
  assumes inv: "restart_inv db_name num_levels ws T s" and run: "flush_join F jts s = Inr s1" "lsm_inline_flush F ts s1 = Inr s'" and ts: "T < jts" "jts < ts"
    and name: "plain_name db_name" and n: "num_levels \<le> 2 ^ 64" and m: "length ws < 2 ^ 40"
  shows "restart_inv db_name num_levels ws ts s'"
  using inv
proof (rule restart_invE)
  fix lv LL assume IH: "store_inv (length ws) s lv LL" "files_inv T s lv" "lsm_db_name s = db_name" "length (lvl_levels lv) = num_levels"
    "map_of (lsm_view s (concat LL)) = map_of (rev (map plain ws))"
  have "fresh_name jts s" using files_fresh [OF IH(2) ts(1)] IH(3,4) name n by simp
  from store_flush_join [OF IH(1) m this, of F] run(1)
  obtain lv1 LL1 where j: "flushed (length ws) jts s lv LL s1 lv1 LL1" "lsm_flush_handle s1 = None" "lsm_immutable s1 = None" by auto
  then have s1: "store_inv (length ws) s1 lv1 LL1" "lsm_db_name s1 = db_name" "length (lvl_levels lv1) = num_levels"
    "map_of (lsm_view s1 (concat LL1)) = map_of (rev (map plain ws))" using IH(3-5) by (simp_all add: flushed_def)
  from files_flush_join(1) [OF IH(2) run(1) ts(1)] obtain lvf where f: "files_inv jts s1 lvf" ..
  then have fresh: "fresh_name ts s1" using files_fresh [OF f ts(2)] same_levels [OF s1(1) f] s1(2,3) name n by simp
  from store_inline_flush [OF s1(1) j(2,3) m fresh, of F] run(2) obtain lv' LL' where
    "store_inv (length ws) s' lv' LL'" "lsm_db_name s' = db_name" "length (lvl_levels lv') = num_levels"
    "map_of (lsm_view s' (concat LL')) = map_of (rev (map plain ws))" using s1(2-4) by auto
  then show ?thesis using files_inline_flush [OF f j(2) run(2) ts(2)] by (intro restart_invI [of _ _ lv' LL'])
qed

lemma restart_compacted:
  assumes "store_inv (length ws) s' lv' LL'" and "files_inv T s' lvf" and "length (lvl_levels lvf) = num_levels" and "lsm_db_name s' = db_name"
    and "map_of (lsm_view s' (concat LL')) = map_of (rev (map plain ws))"
  shows "restart_inv db_name num_levels ws T s'"
  using assms same_levels [OF assms(1,2)] by (intro restart_invI [of _ _ lv' LL']) auto

lemma restart_tables:
  assumes inv: "restart_inv db_name num_levels ws T s" and run: "lsm_compact_tables clk s = Inr s'" and fresh: "fresh_steps clk s (level_count s)"
  shows "restart_inv db_name num_levels ws T s'"
  using inv
proof (rule restart_invE)
  fix lv LL assume IH: "store_inv (length ws) s lv LL" "files_inv T s lv" "lsm_db_name s = db_name" "length (lvl_levels lv) = num_levels"
    "map_of (lsm_view s (concat LL)) = map_of (rev (map plain ws))"
  from store_compact_tables [OF IH(1), of clk] run fresh store_inv_levels [OF IH(1)] obtain lv' LL' where
    "store_inv (length ws) s' lv' LL'" "map_of (lsm_view s' (concat LL')) = map_of (rev (map plain ws))" using IH(5) by auto
  then show ?thesis using files_compact_tables [OF IH(2) run] IH(3,4) by (auto intro: restart_compacted)
qed

lemma restart_partial:
  assumes inv: "restart_inv db_name num_levels ws T s" and run: "lsm_compact_step clk s = Inr (r, s')" and fresh: "fresh_steps (\<lambda>_. clk 0) s (level_count s)"
  shows "restart_inv db_name num_levels ws T s'"
  using inv
proof (rule restart_invE)
  fix lv LL assume IH: "store_inv (length ws) s lv LL" "files_inv T s lv" "lsm_db_name s = db_name" "length (lvl_levels lv) = num_levels"
    "map_of (lsm_view s (concat LL)) = map_of (rev (map plain ws))"
  from store_compact_step [OF IH(1) _ run] fresh store_inv_levels [OF IH(1)] obtain lv' LL' where
    "store_inv (length ws) s' lv' LL'" "map_of (lsm_view s' (concat LL')) = map_of (rev (map plain ws))" using IH(5) by auto
  then show ?thesis using files_compact_step [OF IH(2) run] IH(3,4) by (auto intro: restart_compacted)
qed

lemma restart_reopen:
  assumes inv: "restart_inv db_name num_levels ws T s" and ph: "lsm_flush_handle s \<noteq> Some FlushWrite" and name: "plain_name db_name"
    and n: "num_levels \<le> 2 ^ 64" and bs: "bs < 2 ^ 31" and m: "length ws < 2 ^ 40" and new: "leveled_new num_levels l0 l1 bs compression = Inr lv0"
  shows "\<exists>s'. lsm_open db_name max_bytes num_levels l0 l1 bs compression (lsm_wal s) (lsm_dir s) = Inr s' \<and> restart_inv db_name num_levels ws T s'"
  using inv
proof (rule restart_invE)
  fix lv LL assume IH: "store_inv (length ws) s lv LL" "files_inv T s lv" "lsm_db_name s = db_name" "length (lvl_levels lv) = num_levels"
    "map_of (lsm_view s (concat LL)) = map_of (rev (map plain ws))"
  from store_reopen [OF IH(1,2) ph m _ IH(4) n bs new, of max_bytes] IH(3,5) name show ?thesis by (fastforce simp: restart_inv_def)
qed

lemma lsm_get_same_entries:
  "mt_entries m = mt_entries (lsm_active s) \<Longrightarrow> lsm_get now clk k (s\<lparr>lsm_active := m, lsm_wal := wal\<rparr>) = lsm_get now clk k s"
  by (simp add: lsm_get_def lookup_def memtable_get_entry_def)

lemma restart_inv_get:
  assumes "restart_inv db_name num_levels ws T s"
  shows "lsm_get t (\<lambda>_. t) k s = Inr (map_option (\<lambda>v. (k, v)) (map_of (rev ws) k))"
  using assms
proof (rule restart_invE)
  fix lv LL assume "store_inv (length ws) s lv LL" "map_of (lsm_view s (concat LL)) = map_of (rev (map plain ws))"
  then show ?thesis
    using lsm_inv_get [of "length ws" s "concat LL" t k] plain_value [of s "concat LL" ws t k] by (simp add: store_inv_def)
qed

lemma restart_inv_wal:
  "restart_inv db_name num_levels ws T s \<Longrightarrow> wal_matches (lsm_wal s) (lsm_active s) \<and> mt_ok (lsm_active s)"
  by (auto simp: restart_inv_def store_inv_def lsm_inv_def mt_good_def)

text \<open>The log may end in a part of a record.\<close>

lemma restart_reopen_torn:
  assumes inv: "restart_inv db_name num_levels ws T s" and ph: "lsm_flush_handle s \<noteq> Some FlushWrite" and name: "plain_name db_name"
    and n: "num_levels \<le> 2 ^ 64" and bs: "bs < 2 ^ 31" and m: "length ws < 2 ^ 40" and new: "leveled_new num_levels l0 l1 bs compression = Inr lv0"
    and torn: "op_fits torn" "i < length (record_bytes (op_record torn))"
  shows "\<exists>s'. lsm_open db_name max_bytes num_levels l0 l1 bs compression (lsm_wal s @ take i (record_bytes (op_record torn))) (lsm_dir s) = Inr s' \<and>
           lsm_get t (\<lambda>_. t) k s' = Inr (map_option (\<lambda>v. (k, v)) (map_of (rev ws) k))"
proof -
  let ?wal = "lsm_wal s @ take i (record_bytes (op_record torn))"
  from restart_reopen [OF inv ph name n bs m new, of max_bytes] obtain s1 where
      s1: "lsm_open db_name max_bytes num_levels l0 l1 bs compression (lsm_wal s) (lsm_dir s) = Inr s1" "restart_inv db_name num_levels ws T s1" by blast
  then obtain lv m1 where lv: "leveled_load_from_dir (lsm_dir s) db_name num_levels l0 l1 bs compression = Inr lv" "wal_replay (lsm_wal s) = Inr m1"
    and eq: "s1 = (lsm_new db_name max_bytes (LeveledS lv) bs compression (lsm_wal s) (lsm_dir s))\<lparr>lsm_active := m1\<rparr>"
    by (auto simp: lsm_open_def lsm_from_dir_def and_then_Inr_iff)
  note wal = restart_inv_wal [OF inv]
  from replay_matches [OF conjunct1 [OF wal] conjunct2 [OF wal]] lv(2) have m1: "mt_entries m1 = mt_entries (lsm_active s)" by auto
  from replay_torn [OF conjunct1 [OF wal] conjunct2 [OF wal] torn] obtain m2
    where m2: "wal_replay ?wal = Inr m2" "mt_entries m2 = mt_entries (lsm_active s)" by blast
  have "lsm_open db_name max_bytes num_levels l0 l1 bs compression ?wal (lsm_dir s) = Inr (s1\<lparr>lsm_active := m2, lsm_wal := ?wal\<rparr>)"
    using lv(1) m2(1) by (simp add: lsm_open_def lsm_from_dir_def eq lsm_new_def)
  moreover have "mt_entries m2 = mt_entries (lsm_active s1)" using m1 m2(2) by (simp add: eq)
  ultimately show ?thesis using lsm_get_same_entries restart_inv_get [OF s1(2)] by simp
qed

lemma restart_run_inv:
  assumes "restart_run F (lsm_open db_name max_bytes num_levels l0 l1 bs compression) ws T s"
    and n: "1 < num_levels" "num_levels \<le> 2 ^ 64" and bs: "bs < 2 ^ 31" and name: "plain_name db_name" and "Suc (length ws) < 2 ^ 40"
  shows "restart_inv db_name num_levels ws T s"
  using assms(1,6)
proof (induction rule: restart_run.induct)
  case (run_open s)
  then show ?case using restart_open [OF _ n(1) bs run_open.hyps] by (auto simp: lsm_open_def and_then_Inr_iff leveled_load_from_dir_def)
next
  case (run_set ws T s ts k v s')
  then show ?case by (intro restart_set [OF _ run_set.hyps(5,2) name n(2) _ run_set.hyps(3,4)]) simp_all
next
  case (run_flush ws T s ts s')
  then show ?case by (intro restart_flush [OF _ run_flush.hyps(3,2) name n(2)]) simp_all
next
  case (run_inline ws T s jts ts s1 s')
  then show ?case by (intro restart_inline [OF _ run_inline.hyps(4,5,2,3) name n(2)]) simp_all
next
  case (run_tables ws T s clk s')
  then show ?case by (intro restart_tables [OF _ run_tables.hyps(3,2)]) simp
next
  case (run_partial ws T s clk r s')
  then show ?case by (intro restart_partial [OF _ run_partial.hyps(3,2)]) simp
next
  case (run_reopen ws T s s')
  obtain lv0 where new: "leveled_new num_levels l0 l1 bs compression = Inr lv0" using restart_run_new [OF run_reopen.hyps(1)] ..
  have m: "length ws < 2 ^ 40" using run_reopen.prems by simp
  from restart_reopen [OF run_reopen.IH [OF run_reopen.prems] run_reopen.hyps(2) name n(2) bs m new, of max_bytes] run_reopen.hyps(3)
  show ?case by auto
qed

text \<open>C2. A leveled engine survives restarts: from a new directory, after any sequence of writes, steps of the flush thread,
  partial and full compactions and restarts, \<open>get\<close> returns for every key the last value written to it, and the directory can be
  opened again at every moment at which no table is being written. A restart inside the sequence happens at such a moment too, and
  not in the middle of an append to the log; a compaction joins the flush thread and flushes the memtable without a write in
  between; no key is deleted or given a time to live; every flush has a later time than those before it, and a compaction writes new files.\<close>

theorem lsm_survives_restarts:
  assumes "restart_run F (lsm_open db_name max_bytes num_levels l0 l1 bs compression) ws T s"
    and "1 < num_levels" and "num_levels \<le> 2 ^ 64" and "bs < 2 ^ 31" and "plain_name db_name" and "Suc (length ws) < 2 ^ 40"
  shows "lsm_get t (\<lambda>_. t) k s = Inr (map_option (\<lambda>v. (k, v)) (map_of (rev ws) k)) \<and>
    (lsm_flush_handle s \<noteq> Some FlushWrite \<longrightarrow>
       (\<exists>s'. lsm_open db_name max_bytes num_levels l0 l1 bs compression (lsm_wal s) (lsm_dir s) = Inr s'))"
proof -
  note inv = restart_run_inv [OF assms]
  from restart_run_new [OF assms(1)] obtain lv0 where new: "leveled_new num_levels l0 l1 bs compression = Inr lv0" ..
  have "length ws < 2 ^ 40" using assms(6) by simp
  note re = restart_reopen [OF inv _ assms(5,3,4) this new, of max_bytes]
  show ?thesis using restart_inv_get [OF inv] re by auto
qed

text \<open>A short run: a write that starts a flush, and the table written.\<close>

lemma restart_example:
  obtains s1 s2 where
    "restart_run exact_f64 (lsm_open (lit ''db'') 8 3 4 1000 4096 False) [(lit ''k'', lit ''long value'')] 1 s1"
    "lsm_flush_handle s1 = Some FlushWrite" "lsm_active s1 = memtable_new" "lsm_tables s1 = []"
    "restart_run exact_f64 (lsm_open (lit ''db'') 8 3 4 1000 4096 False) [(lit ''k'', lit ''long value'')] 2 s2"
    "lsm_flush_handle s2 \<noteq> Some FlushWrite"
proof -
  let ?open = "lsm_open (lit ''db'') 8 3 4 1000 4096 False" and ?run = "restart_run exact_f64 (lsm_open (lit ''db'') 8 3 4 1000 4096 False)"
  let ?k = "lit ''k''" and ?v = "lit ''long value''"
  obtain lv where lv: "leveled_new 3 4 1000 4096 False = Inr lv" "leveled_iter_all lv = []"
    by (simp add: leveled_new_def level_max_bytes_def upt_rec leveled_iter_all_def level_iter_def)
  have name: "plain_name (lit ''db'')" using no_level_in_db by (simp add: plain_name_def)
  define s0 where "s0 = lsm_new (lit ''db'') 8 (LeveledS lv) 4096 False [] []"
  have s0: "?open [] [] = Inr s0" using lv(1)
    by (simp add: lsm_open_def leveled_load_from_dir_def get_sstables_def map_filter_simps lsm_from_dir_def wal_replay_def wal_replay_loop.simps s0_def lsm_new_def)
  have sz: "len ?k \<le> MAX_KEY_SIZE" "len ?v \<le> MAX_VALUE_SIZE" by (simp_all add: MAX_KEY_SIZE_def MAX_VALUE_SIZE_def)
  have r0: "?run [] 0 s0" by (rule run_open [where opn = ?open, OF s0])
  have i0: "restart_inv (lit ''db'') 3 [] 0 s0" by (rule restart_open [OF lv(1) _ _ s0]) simp_all
  have "entry_fits (?k, write_entry (Some ?v) None)" by (simp add: write_entry_simps)
  then obtain wal m size where w: "apply_write [] memtable_new ?k (Some ?v) None = Inr (wal, m, size)" "8 \<le> size"
    using apply_write_inv [OF mt_good_new wal_matches_new, of ?k "Some ?v" None 0]
    by (auto simp: apply_write_def memtable_insert_def memtable_new_def wal_append_def record_append_def)
  define s1 where "s1 = s0\<lparr>lsm_active := memtable_new, lsm_immutable := Some m, lsm_wal := [], lsm_flush_handle := Some FlushWrite\<rparr>"
  have s1: "lsm_set exact_f64 1 ?k ?v s0 = Inr s1"
    using w by (simp add: lsm_set_def lsm_write_def s0_def lsm_new_def flush_memtable_async_def flush_join_def wal_reset_def s1_def)
  have r1: "?run [(?k, ?v)] 1 s1" using run_set [where opn = ?open, OF r0 _ sz s1] by simp
  have "restart_inv (lit ''db'') 3 [(?k, ?v)] 1 s1" using restart_set [OF i0 s1 _ name _ _ sz] by simp
  then obtain lv1 LL1 where h1: "store_inv 1 s1 lv1 LL1" "files_inv 1 s1 lv1" "lsm_db_name s1 = lit ''db''" "length (lvl_levels lv1) = 3"
    by (auto elim!: restart_invE)
  have "fresh_name 2 s1" using files_fresh [OF h1(2), of 2] h1(3,4) name by simp
  from store_flush_step [OF h1(1) _ this, of exact_f64] obtain s2 where s2: "flush_step exact_f64 2 s1 = Inr s2" by auto
  show ?thesis
  proof (rule that [OF r1])
    show "?run [(?k, ?v)] 2 s2" using run_flush [where opn = ?open, OF r1 _ s2] by simp
    show "lsm_flush_handle s2 \<noteq> Some FlushWrite" using files_flush_step(2) [OF h1(2) s2] by simp
  qed (simp_all add: s1_def s0_def lsm_new_def lv(2))
qed

text \<open>The write, the table and a restart: the value is read from the loaded table.\<close>

theorem lsm_survives_restarts_witness:
  "\<exists>s. restart_run exact_f64 (lsm_open (lit ''db'') 8 3 4 1000 4096 False) [(lit ''k'', lit ''long value'')] 2 s \<and>
     lsm_flush_handle s = None \<and> lsm_get 9 (\<lambda>_. 9) (lit ''k'') s = Inr (Some (lit ''k'', lit ''long value''))"
proof -
  let ?open = "lsm_open (lit ''db'') 8 3 4 1000 4096 False" and ?run = "restart_run exact_f64 (lsm_open (lit ''db'') 8 3 4 1000 4096 False)"
  let ?k = "lit ''k''" and ?v = "lit ''long value''"
  have name: "plain_name (lit ''db'')" using no_level_in_db by (simp add: plain_name_def)
  obtain s2 where r2: "?run [(?k, ?v)] 2 s2" and ph: "lsm_flush_handle s2 \<noteq> Some FlushWrite" by (rule restart_example)
  from lsm_survives_restarts [OF r2 _ _ _ name, of 9 ?k] ph obtain s3 where s3: "?open (lsm_wal s2) (lsm_dir s2) = Inr s3" by auto
  have r3: "?run [(?k, ?v)] 2 s3" by (rule run_reopen [where opn = ?open, OF r2 ph s3])
  from lsm_survives_restarts [OF r3 _ _ _ name, of 9 ?k] have "lsm_get 9 (\<lambda>_. 9) ?k s3 = Inr (Some (?k, ?v))" by simp
  moreover have "lsm_flush_handle s3 = None" using s3 by (auto simp: lsm_open_def lsm_from_dir_def and_then_Inr_iff lsm_new_def)
  ultimately show ?thesis using r3 by blast
qed

section \<open>A crash at any moment\<close>

text \<open>C3. Crash recovery of a leveled engine: after any history as in \<open>restart_run\<close> (no deletions and no times to live), when the
  process stops at a moment at which no table is being written, also in the middle of the append of one more record to the log,
  opening the directory succeeds and \<open>get\<close> returns for every key the last value whose write has returned.\<close>

theorem lsm_recovers:
  assumes "restart_run F (lsm_open db_name max_bytes num_levels l0 l1 bs compression) ws T s"
    and "1 < num_levels" and "num_levels \<le> 2 ^ 64" and "bs < 2 ^ 31" and "plain_name db_name" and "Suc (length ws) < 2 ^ 40"
    and "lsm_flush_handle s \<noteq> Some FlushWrite" and "op_fits torn" and "i < length (record_bytes (op_record torn))"
  shows "\<exists>s'. lsm_open db_name max_bytes num_levels l0 l1 bs compression
                (lsm_wal s @ take i (record_bytes (op_record torn))) (lsm_dir s) = Inr s' \<and>
           lsm_get t (\<lambda>_. t) k s' = Inr (map_option (\<lambda>v. (k, v)) (map_of (rev ws) k))"
proof -
  from restart_run_new [OF assms(1)] obtain lv0 where new: "leveled_new num_levels l0 l1 bs compression = Inr lv0" ..
  have "length ws < 2 ^ 40" using assms(6) by simp
  from restart_reopen_torn [OF restart_run_inv [OF assms(1-6)] assms(7,5,3,4) this new assms(8,9)] show ?thesis .
qed

text \<open>A crash in the append of a deletion of the key, after its table was written: the key is still there.\<close>

theorem lsm_recovers_witness:
  "\<exists>s s'. restart_run exact_f64 (lsm_open (lit ''db'') 8 3 4 1000 4096 False) [(lit ''k'', lit ''long value'')] 2 s \<and>
     lsm_open (lit ''db'') 8 3 4 1000 4096 False
       (lsm_wal s @ take 5 (record_bytes (op_record (lit ''k'', lit [], True, None)))) (lsm_dir s) = Inr s' \<and>
     lsm_get 9 (\<lambda>_. 9) (lit ''k'') s' = Inr (Some (lit ''k'', lit ''long value''))"
proof -
  let ?op = "(lit ''k'', lit [], True, None)"
  have name: "plain_name (lit ''db'')" using no_level_in_db by (simp add: plain_name_def)
  have op: "op_fits ?op" "5 < length (record_bytes (op_record ?op))" by (simp_all add: op_fits_def MAX_KEY_SIZE_def length_record_bytes)
  obtain s where s: "restart_run exact_f64 (lsm_open (lit ''db'') 8 3 4 1000 4096 False) [(lit ''k'', lit ''long value'')] 2 s"
    "lsm_flush_handle s \<noteq> Some FlushWrite" by (rule restart_example)
  from lsm_recovers [OF s(1) _ _ _ name _ s(2) op, of 9 "lit ''k''"] s(1) show ?thesis by auto
qed

text \<open>While a table is being written, the log no longer holds its records.\<close>

abbreviation forgotten :: "lsm \<Rightarrow> lsm" where
  "forgotten s \<equiv> s\<lparr>lsm_immutable := None, lsm_flush_handle := None\<rparr>"

lemma store_forgotten:
  assumes "store_inv n s lv LL" and "lsm_flush_handle s = Some FlushWrite"
  shows "store_inv n (forgotten s) lv LL"
  using assms by (auto simp: store_inv_def lsm_inv_def phase_inv_def pending_def)

lemma files_forgotten: "files_inv T s lv \<Longrightarrow> lsm_flush_handle s = Some FlushWrite \<Longrightarrow> files_inv T (forgotten s) lv"
  by (simp add: files_inv_def pending_files_def)

text \<open>C27. A crash before the flush thread has created the file of its table forgets the memtable that is being flushed, and
  nothing else: after any history as in \<open>restart_run\<close> that has just started a flush, opening the directory succeeds, and every
  read answers as the running engine would without its immutable memtable. The writes of that memtable had all returned.\<close>

theorem lsm_crash_forgets_memtable:
  assumes "restart_run F (lsm_open db_name max_bytes num_levels l0 l1 bs compression) ws T s"
    and "1 < num_levels" and "num_levels \<le> 2 ^ 64" and "bs < 2 ^ 31" and "plain_name db_name" and "Suc (length ws) < 2 ^ 40"
    and "lsm_flush_handle s = Some FlushWrite"
  shows "\<exists>s'. lsm_open db_name max_bytes num_levels l0 l1 bs compression (lsm_wal s) (lsm_dir s) = Inr s' \<and>
           lsm_get t (\<lambda>_. t) k s' = lsm_get t (\<lambda>_. t) k (s\<lparr>lsm_immutable := None\<rparr>)"
proof -
  from restart_run_new [OF assms(1)] obtain lv0 where new: "leveled_new num_levels l0 l1 bs compression = Inr lv0" ..
  have n: "length ws < 2 ^ 40" using assms(6) by simp
  from restart_run_inv [OF assms(1-6)] obtain lv LL where inv: "store_inv (length ws) s lv LL" "files_inv T s lv"
    and db: "lsm_db_name s = db_name" and lev: "length (lvl_levels lv) = num_levels"
    by (rule restart_invE)
  note f = store_forgotten [OF inv(1) assms(7)] files_forgotten [OF inv(2) assms(7)]
  from store_reopen [OF f _ n _ lev assms(3,4) new, of max_bytes] db assms(5) obtain s' lv' LL' where
      o: "lsm_open db_name max_bytes num_levels l0 l1 bs compression (lsm_wal s) (lsm_dir s) = Inr s'" "store_inv (length ws) s' lv' LL'"
      "map_of (lsm_view s' (concat LL')) = map_of (lsm_view (forgotten s) (concat LL))" by auto
  have "lsm_get t (\<lambda>_. t) k s' = lsm_get t (\<lambda>_. t) k (forgotten s)"
    using lsm_inv_get [of "length ws" s' "concat LL'" t k] lsm_inv_get [of "length ws" "forgotten s" "concat LL" t k] o(2,3) f(1)
      value_at_cong [of "lsm_view s' (concat LL')" k "lsm_view (forgotten s) (concat LL)" t] by (simp add: store_inv_def)
  then show ?thesis using o(1) by (auto simp: lsm_get_def)
qed

text \<open>The first memtable: a key that has been written and is read back is gone.\<close>

theorem lsm_crash_forgets_memtable_witness:
  "\<exists>s s'. restart_run exact_f64 (lsm_open (lit ''db'') 8 3 4 1000 4096 False) [(lit ''k'', lit ''long value'')] 1 s \<and>
     lsm_get 9 (\<lambda>_. 9) (lit ''k'') s = Inr (Some (lit ''k'', lit ''long value'')) \<and>
     lsm_open (lit ''db'') 8 3 4 1000 4096 False (lsm_wal s) (lsm_dir s) = Inr s' \<and>
     lsm_get 9 (\<lambda>_. 9) (lit ''k'') s' = Inr None"
proof -
  let ?run = "restart_run exact_f64 (lsm_open (lit ''db'') 8 3 4 1000 4096 False)" and ?k = "lit ''k''" and ?v = "lit ''long value''"
  have name: "plain_name (lit ''db'')" using no_level_in_db by (simp add: plain_name_def)
  obtain s where r: "?run [(?k, ?v)] 1 s" and ph: "lsm_flush_handle s = Some FlushWrite" and mt: "lsm_active s = memtable_new"
    and tabs: "lsm_tables s = []" by (rule restart_example)
  have "restart_inv (lit ''db'') 3 [(?k, ?v)] 1 s" by (rule restart_run_inv [OF r _ _ _ name]) simp_all
  then have "lsm_get 9 (\<lambda>_. 9) ?k s = Inr (Some (?k, ?v))" using restart_inv_get [of _ _ _ _ _ 9 ?k] by fastforce
  moreover have "lsm_get 9 (\<lambda>_. 9) ?k (s\<lparr>lsm_immutable := None\<rparr>) = Inr None"
    using lookup_view [of "s\<lparr>lsm_immutable := None\<rparr>" "[]" 9 "\<lambda>_. 9" ?k] mt tabs
    by (auto simp: lsm_get_def lsm_view_def memtable_new_def value_at_def)
  ultimately show ?thesis using lsm_crash_forgets_memtable [OF r _ _ _ name _ ph, of 9 ?k] r by auto
qed

end
