(* ===== verification/Background_Worker.thy ===== *)
theory Background_Worker
  imports Prelude
begin

text \<open>
  The background thread (src/src/worker.rs), which runs a job at intervals until it is stopped. The flag \<open>stop\<close> is read
  at successive times: \<open>stop i\<close> is what the \<open>i\<close>-th reading returns. The job is a function on the state it shares with the
  rest of the program. The loop is a partial function, since a thread that is never stopped never ends.

  Main result: once the flag is set, which is what dropping the worker does before it waits for the thread, the thread
  ends, after no more jobs than there were readings before.
\<close>

partial_function (option) worker_loop :: "(nat \<Rightarrow> bool) \<Rightarrow> ('s \<Rightarrow> 's) \<Rightarrow> nat \<Rightarrow> 's \<Rightarrow> 's option" where
  "worker_loop stop job i s =
     (if stop i then Some s
      else if stop (i + 1) then Some s
      else worker_loop stop job (i + 2) (job s))"

definition worker_spawn :: "(nat \<Rightarrow> bool) \<Rightarrow> ('s \<Rightarrow> 's) \<Rightarrow> 's \<Rightarrow> 's option" where
  "worker_spawn stop job s = worker_loop stop job 0 s"

text \<open>\<open>drop\<close>: from the \<open>n\<close>-th reading on, the flag is set.\<close>

definition stop_from :: "nat \<Rightarrow> nat \<Rightarrow> bool" where
  "stop_from n i \<longleftrightarrow> n \<le> i"

lemma worker_loop_stops:
  assumes "\<forall>m \<ge> n. stop m"
  shows "\<exists>jobs. worker_loop stop job i s = Some ((job ^^ jobs) s) \<and> 2 * jobs \<le> n - i"
proof (induction "n - i" arbitrary: i s rule: less_induct)
  case less
  show ?case
  proof (cases "stop i \<or> stop (i + 1)")
    case True
    then show ?thesis by (subst worker_loop.simps) (auto intro!: exI [of _ 0])
  next
    case False
    then have "i + 1 < n" using assms by (meson not_le)
    then have "n - (i + 2) < n - i" by simp
    from less [OF this, of "job s"] obtain jobs where "worker_loop stop job (i + 2) (job s) = Some ((job ^^ jobs) (job s))" "2 * jobs \<le> n - (i + 2)" by blast
    with False \<open>i + 1 < n\<close> show ?thesis
      by (subst worker_loop.simps) (auto intro!: exI [of _ "Suc jobs"] simp: funpow_swap1)
  qed
qed

text \<open>C31. A background thread that is told to stop ends: if the flag is set from its \<open>n\<close>-th reading on, the loop returns,
  the job has run at most \<open>n div 2\<close> times, and nothing else has changed the state.\<close>

theorem background_worker_stops:
  assumes "\<forall>m \<ge> n. stop m"
  shows "\<exists>jobs. worker_spawn stop job s = Some ((job ^^ jobs) s) \<and> jobs \<le> n div 2"
proof -
  from worker_loop_stops [OF assms, of job 0 s] obtain jobs where "worker_loop stop job 0 s = Some ((job ^^ jobs) s)" "2 * jobs \<le> n" by auto
  then show ?thesis by (auto simp: worker_spawn_def)
qed

theorem background_worker_stops_witness:
  "\<exists>jobs. worker_spawn (stop_from 5) Suc 0 = Some jobs \<and> jobs \<le> 2"
proof -
  have "\<forall>m \<ge> 5. stop_from 5 m" by (simp add: stop_from_def)
  from background_worker_stops [OF this, of Suc 0] show ?thesis by (auto simp: Suc_funpow)
qed

end
