(* ===== verification/Bffp_Protocol.thy ===== *)
theory Bffp_Protocol
  imports Prelude
begin

text \<open>
  The binary protocol of the server (src/src/bffp.rs): commands, responses, their frames, and the decoders. A
  \<open>Cursor\<close> over a slice of \<open>n\<close> bytes is the list of the bytes that are left; its position is \<open>n\<close> less their number.

  The loops that read items until the end of a frame are one function, \<open>read_until\<close>, over the reader of one item; the
  contract \<open>item_codec\<close> of the prelude is interpreted for the items of the three loops and gives their round trips.
  Main results: the round trips of commands and of responses, and that no input makes a decoder panic.
\<close>

section \<open>Constants and types\<close>

definition FLAGS_SIZE :: nat where "FLAGS_SIZE = 1"
definition FRAME_LEN_SIZE :: nat where "FRAME_LEN_SIZE = 4"
definition OP_CODE_SIZE :: nat where "OP_CODE_SIZE = 1"
definition KEY_LEN_SIZE :: nat where "KEY_LEN_SIZE = 2"
definition VALUE_LEN_SIZE :: nat where "VALUE_LEN_SIZE = 4"
definition PAYLOAD_LEN_SIZE :: nat where "PAYLOAD_LEN_SIZE = 4"
definition TTL_LEN_SIZE :: nat where "TTL_LEN_SIZE = 4"
definition FLAG_HAS_TTL :: u8 where "FLAG_HAS_TTL = 1"

lemmas size_defs = FLAGS_SIZE_def FRAME_LEN_SIZE_def OP_CODE_SIZE_def KEY_LEN_SIZE_def VALUE_LEN_SIZE_def
  PAYLOAD_LEN_SIZE_def TTL_LEN_SIZE_def

datatype command =
    CmdInvalid u8
  | CmdRead rstring
  | CmdWrite rstring rstring "u32 option"
  | CmdDelete rstring
  | CmdCompact
  | CmdStats
  | CmdList
  | CmdExists rstring
  | CmdPing
  | CmdMget "rstring list"
  | CmdMset "(rstring \<times> rstring \<times> u32 option) list"
  | CmdRange rstring rstring
  | CmdTtl rstring u32

datatype op_code = OpRead | OpWrite | OpDelete | OpCompact | OpStats | OpList | OpExists | OpPing | OpMget | OpMset | OpRange | OpTtl

fun op_byte :: "op_code \<Rightarrow> u8" where
  "op_byte OpRead = 1"
| "op_byte OpWrite = 2"
| "op_byte OpDelete = 3"
| "op_byte OpCompact = 4"
| "op_byte OpStats = 5"
| "op_byte OpList = 6"
| "op_byte OpExists = 7"
| "op_byte OpPing = 8"
| "op_byte OpMget = 9"
| "op_byte OpMset = 10"
| "op_byte OpRange = 11"
| "op_byte OpTtl = 12"

definition op_try_from :: "u8 \<Rightarrow> op_code res" where
  "op_try_from v =
     (if v = 1 then Inr OpRead
      else if v = 2 then Inr OpWrite
      else if v = 3 then Inr OpDelete
      else if v = 4 then Inr OpCompact
      else if v = 5 then Inr OpStats
      else if v = 6 then Inr OpList
      else if v = 7 then Inr OpExists
      else if v = 8 then Inr OpPing
      else if v = 9 then Inr OpMget
      else if v = 10 then Inr OpMset
      else if v = 11 then Inr OpRange
      else if v = 12 then Inr OpTtl
      else Inl (IoError InvalidData (Message ''unknown op code'')))"

datatype response_status = StOk | StNotFound | StError | StNoop

fun status_byte :: "response_status \<Rightarrow> u8" where
  "status_byte StOk = 0"
| "status_byte StNotFound = 1"
| "status_byte StError = 2"
| "status_byte StNoop = 3"

definition status_try_from :: "u8 \<Rightarrow> response_status res" where
  "status_try_from v =
     (if v = 0 then Inr StOk
      else if v = 1 then Inr StNotFound
      else if v = 2 then Inr StError
      else if v = 3 then Inr StNoop
      else Inl (IoError InvalidData (Message ''unknown status byte'')))"

record decoded_response =
  dr_payload :: "rstring list"
  dr_status :: response_status

section \<open>Reading\<close>

definition read_string :: "nat \<Rightarrow> bytes \<Rightarrow> (rstring \<times> bytes) res" where
  "read_string len_bytes bs =
     and_then
       (if len_bytes = KEY_LEN_SIZE then
          and_then (read_exact KEY_LEN_SIZE bs) (\<lambda>(b, bs). Inr (unat (from_be b :: u16), bs))
        else if len_bytes = VALUE_LEN_SIZE then
          and_then (read_exact VALUE_LEN_SIZE bs) (\<lambda>(b, bs). Inr (unat (from_be b :: u32), bs))
        else Inl (Panic ''internal error: entered unreachable code''))
       (\<lambda>(n, bs).
     and_then (read_exact n bs) (\<lambda>(buf, bs).
     and_then (from_utf8 buf) (\<lambda>s. Inr (s, bs))))"

definition read_key :: "bytes \<Rightarrow> (rstring \<times> bytes) res" where
  "read_key = read_string KEY_LEN_SIZE"

definition read_value :: "bytes \<Rightarrow> (rstring \<times> bytes) res" where
  "read_value = read_string VALUE_LEN_SIZE"

definition read_ttl :: "bytes \<Rightarrow> (u32 \<times> bytes) res" where
  "read_ttl bs = and_then (read_exact TTL_LEN_SIZE bs) (\<lambda>(b, bs). Inr (from_be b, bs))"

definition read_flags :: "bytes \<Rightarrow> (u8 \<times> bytes) res" where
  "read_flags bs = and_then (read_exact FLAGS_SIZE bs) (\<lambda>(b, bs). Inr (from_be b, bs))"

text \<open>The arguments of a write: of the command \<open>Write\<close> and of each item of \<open>Mset\<close>.\<close>

definition read_write_args :: "bytes \<Rightarrow> ((rstring \<times> rstring \<times> u32 option) \<times> bytes) res" where
  "read_write_args bs =
     and_then (read_flags bs) (\<lambda>(flag, bs).
     and_then (read_key bs) (\<lambda>(key, bs).
     and_then (read_value bs) (\<lambda>(v, bs).
     and_then (if flag AND FLAG_HAS_TTL \<noteq> 0
               then and_then (read_ttl bs) (\<lambda>(ttl, bs). Inr (Some ttl, bs))
               else Inr (None, bs)) (\<lambda>(ttl, bs).
       Inr ((key, v, ttl), bs)))))"

text \<open>\<open>while cur.position() < limit\<close>, collecting what \<open>dec\<close> reads from the \<open>n\<close> bytes of the slice. The guard on the
  length makes the recursion well-founded for any reader; the readers of the code always consume input.\<close>

function read_until :: "(bytes \<Rightarrow> ('b \<times> bytes) res) \<Rightarrow> nat \<Rightarrow> nat \<Rightarrow> bytes \<Rightarrow> 'b list res" where
  "read_until dec limit n bs =
     (if n - length bs < limit then
        and_then (dec bs) (\<lambda>(x, rest).
          if length rest < length bs
          then and_then (read_until dec limit n rest) (\<lambda>xs. Inr (x # xs))
          else Inl (Panic ''no progress''))
      else Inr [])"
  by pat_completeness auto
termination
  by (relation "measure (\<lambda>(dec, limit, n, bs). length bs)") auto

declare read_until.simps [simp del]

text \<open>The arms of the match on the operation code, for a slice of \<open>n\<close> bytes whose frame ends at \<open>limit\<close>.\<close>

fun decode_op :: "nat \<Rightarrow> nat \<Rightarrow> bytes \<Rightarrow> op_code \<Rightarrow> command res" where
  "decode_op limit n bs OpRead = and_then (read_key bs) (\<lambda>(key, _). Inr (CmdRead key))"
| "decode_op limit n bs OpWrite = and_then (read_write_args bs) (\<lambda>((key, v, ttl), _). Inr (CmdWrite key v ttl))"
| "decode_op limit n bs OpDelete = and_then (read_key bs) (\<lambda>(key, _). Inr (CmdDelete key))"
| "decode_op limit n bs OpCompact = Inr CmdCompact"
| "decode_op limit n bs OpStats = Inr CmdStats"
| "decode_op limit n bs OpList = Inr CmdList"
| "decode_op limit n bs OpExists = and_then (read_key bs) (\<lambda>(key, _). Inr (CmdExists key))"
| "decode_op limit n bs OpPing = Inr CmdPing"
| "decode_op limit n bs OpMget = and_then (read_until read_key limit n bs) (\<lambda>items. Inr (CmdMget items))"
| "decode_op limit n bs OpMset = and_then (read_until read_write_args limit n bs) (\<lambda>items. Inr (CmdMset items))"
| "decode_op limit n bs OpRange =
     and_then (read_key bs) (\<lambda>(start, bs). and_then (read_key bs) (\<lambda>(end_key, _). Inr (CmdRange start end_key)))"
| "decode_op limit n bs OpTtl =
     and_then (read_key bs) (\<lambda>(key, bs). and_then (read_ttl bs) (\<lambda>(ttl, _). Inr (CmdTtl key ttl)))"

definition decode_input_frame :: "bytes \<Rightarrow> command res" where
  "decode_input_frame buffer =
     and_then (read_exact FRAME_LEN_SIZE buffer) (\<lambda>(len_buf, bs).
     and_then (read_exact OP_CODE_SIZE bs) (\<lambda>(op_buf, bs).
       case op_try_from (from_be op_buf) of
         Inr opc \<Rightarrow> decode_op (unat (from_be len_buf :: u32) + FRAME_LEN_SIZE) (length buffer) bs opc
       | Inl _ \<Rightarrow> Inr (CmdInvalid (from_be op_buf))))"

text \<open>One payload of a response.\<close>

definition read_payload :: "bytes \<Rightarrow> (rstring \<times> bytes) res" where
  "read_payload bs =
     and_then (read_exact PAYLOAD_LEN_SIZE bs) (\<lambda>(size_buf, bs).
     and_then (read_exact (unat (from_be size_buf :: u32)) bs) (\<lambda>(buf, bs).
     and_then (from_utf8 buf) (\<lambda>s. Inr (s, bs))))"

definition decode_response_frame :: "bytes \<Rightarrow> decoded_response res" where
  "decode_response_frame buffer =
     and_then (read_exact FRAME_LEN_SIZE buffer) (\<lambda>(len_buf, bs).
     and_then (read_exact OP_CODE_SIZE bs) (\<lambda>(op_buf, bs).
     and_then (read_until read_payload (unat (from_be len_buf :: u32) + FRAME_LEN_SIZE) (length buffer) bs) (\<lambda>responses.
     and_then (status_try_from (from_be op_buf)) (\<lambda>status.
       Inr \<lparr>dr_payload = responses, dr_status = status\<rparr>))))"

section \<open>Writing\<close>

definition u16_bytes :: "nat \<Rightarrow> bytes" where
  "u16_bytes n = be_bytes 2 (of_nat n :: u16)"

definition u32_bytes :: "nat \<Rightarrow> bytes" where
  "u32_bytes n = be_bytes 4 (of_nat n :: u32)"

definition payload_bytes :: "rstring \<Rightarrow> bytes" where
  "payload_bytes res = u32_bytes (len res) @ as_bytes res"

definition encode_frame :: "response_status \<Rightarrow> rstring list \<Rightarrow> bytes" where
  "encode_frame status responses =
     (let payload = status_byte status # concat (map payload_bytes responses)
      in u32_bytes (length payload) @ payload)"

definition key_bytes :: "rstring \<Rightarrow> bytes" where
  "key_bytes key = u16_bytes (len key) @ as_bytes key"

definition value_bytes :: "rstring \<Rightarrow> bytes" where
  "value_bytes v = u32_bytes (len v) @ as_bytes v"

definition write_args_bytes :: "rstring \<times> rstring \<times> u32 option \<Rightarrow> bytes" where
  "write_args_bytes = (\<lambda>(key, v, ttl).
     (case ttl of Some _ \<Rightarrow> FLAG_HAS_TTL | None \<Rightarrow> 0) # key_bytes key @ value_bytes v @
     (case ttl of Some secs \<Rightarrow> be_bytes 4 secs | None \<Rightarrow> []))"

definition ttl_size :: "u32 option \<Rightarrow> nat" where
  "ttl_size ttl = (case ttl of Some _ \<Rightarrow> TTL_LEN_SIZE | None \<Rightarrow> 0)"

fun encode_command :: "command \<Rightarrow> bytes res" where
  "encode_command (CmdRead key) =
     Inr (u32_bytes (OP_CODE_SIZE + KEY_LEN_SIZE + len key) @ [op_byte OpRead] @ key_bytes key)"
| "encode_command (CmdWrite key v ttl) =
     Inr (u32_bytes (OP_CODE_SIZE + FLAGS_SIZE + KEY_LEN_SIZE + VALUE_LEN_SIZE + len key + len v + ttl_size ttl) @
          [op_byte OpWrite] @ write_args_bytes (key, v, ttl))"
| "encode_command (CmdDelete key) =
     Inr (u32_bytes (OP_CODE_SIZE + KEY_LEN_SIZE + len key) @ [op_byte OpDelete] @ key_bytes key)"
| "encode_command CmdCompact = Inr (u32_bytes OP_CODE_SIZE @ [op_byte OpCompact])"
| "encode_command CmdStats = Inr (u32_bytes OP_CODE_SIZE @ [op_byte OpStats])"
| "encode_command CmdList = Inr (u32_bytes OP_CODE_SIZE @ [op_byte OpList])"
| "encode_command (CmdExists key) =
     Inr (u32_bytes (OP_CODE_SIZE + KEY_LEN_SIZE + len key) @ [op_byte OpExists] @ key_bytes key)"
| "encode_command CmdPing = Inr (u32_bytes OP_CODE_SIZE @ [op_byte OpPing])"
| "encode_command (CmdInvalid _) = Inl (Panic ''Invalid is a decode-only sentinel, never encoded'')"
| "encode_command (CmdMget keys) =
     Inr (u32_bytes (OP_CODE_SIZE + KEY_LEN_SIZE * length keys + sum_list (map len keys)) @
          [op_byte OpMget] @ concat (map key_bytes keys))"
| "encode_command (CmdMset items) =
     Inr (u32_bytes (OP_CODE_SIZE + (FLAGS_SIZE + KEY_LEN_SIZE + VALUE_LEN_SIZE) * length items +
            sum_list (map (\<lambda>(k, v, ttl). len k + len v + ttl_size ttl) items)) @
          [op_byte OpMset] @ concat (map write_args_bytes items))"
| "encode_command (CmdRange start end_key) =
     Inr (u32_bytes (OP_CODE_SIZE + KEY_LEN_SIZE * 2 + unat (of_nat (len start) :: u16) + unat (of_nat (len end_key) :: u16)) @
          [op_byte OpRange] @ key_bytes start @ key_bytes end_key)"
| "encode_command (CmdTtl key expiry) =
     Inr (u32_bytes (OP_CODE_SIZE + KEY_LEN_SIZE + len key + TTL_LEN_SIZE) @ [op_byte OpTtl] @ key_bytes key @ be_bytes 4 expiry)"

section \<open>Items\<close>

definition key_ok :: "rstring \<Rightarrow> bool" where
  "key_ok k \<longleftrightarrow> len k < 2 ^ 16"

definition value_ok :: "rstring \<Rightarrow> bool" where
  "value_ok v \<longleftrightarrow> len v < 2 ^ 32"

definition write_args_ok :: "rstring \<times> rstring \<times> u32 option \<Rightarrow> bool" where
  "write_args_ok = (\<lambda>(k, v, _). key_ok k \<and> value_ok v)"

lemma unat_from_u16_bytes [simp]: "n < 2 ^ 16 \<Longrightarrow> unat (from_be (u16_bytes n) :: u16) = n"
  by (simp add: u16_bytes_def unat_of_nat)

lemma unat_from_u32_bytes [simp]: "n < 2 ^ 32 \<Longrightarrow> unat (from_be (u32_bytes n) :: u32) = n"
  by (simp add: u32_bytes_def unat_of_nat)

lemma length_u16_bytes [simp]: "length (u16_bytes n) = 2"
  by (simp add: u16_bytes_def)

lemma length_u32_bytes [simp]: "length (u32_bytes n) = 4"
  by (simp add: u32_bytes_def)

lemma from_be_single [simp]: "from_be [b] = (b :: u8)"
  by (simp add: from_be_def)

lemma read_exact_Suc_Cons [simp]: "read_exact (Suc 0) (b # bs) = Inr ([b], bs)"
  by (simp add: read_exact_def)

text \<open>A string behind its length, whatever the width of the length.\<close>

lemma read_string_shrinks: "read_string w bs = Inr (s, rest) \<Longrightarrow> length rest + 2 \<le> length bs"
  by (auto simp: read_string_def size_defs and_then_Inr_iff read_exact_Inr_iff split: if_splits)

lemma read_ttl_shrinks: "read_ttl bs = Inr (s, rest) \<Longrightarrow> length rest \<le> length bs"
  by (auto simp: read_ttl_def and_then_Inr_iff read_exact_Inr_iff)

lemma read_flags_shrinks: "read_flags bs = Inr (s, rest) \<Longrightarrow> length rest < length bs"
  by (auto simp: read_flags_def size_defs and_then_Inr_iff read_exact_Inr_iff)

lemma read_key_bytes [simp]: "key_ok k \<Longrightarrow> read_key (key_bytes k @ rest) = Inr (k, rest)"
  by (simp add: read_key_def read_string_def key_bytes_def size_defs key_ok_def)

lemma read_value_bytes [simp]: "value_ok v \<Longrightarrow> read_value (value_bytes v @ rest) = Inr (v, rest)"
  by (simp add: read_value_def read_string_def value_bytes_def size_defs value_ok_def)

lemma read_ttl_bytes [simp]: "read_ttl (be_bytes 4 t @ rest) = Inr (t, rest)"
  by (simp add: read_ttl_def size_defs)

lemma read_flags_bytes [simp]: "read_flags (b # rest) = Inr (b, rest)"
  by (simp add: read_flags_def size_defs)

lemma read_key_torn:
  "key_ok k \<Longrightarrow> n < length (key_bytes k) \<Longrightarrow> read_key (take n (key_bytes k)) = Inl (IoError UnexpectedEof OsError)"
  by (auto simp: read_key_def read_string_def key_bytes_def size_defs key_ok_def read_exact_take read_exact_short simp del: take_append)

lemma read_value_torn:
  "value_ok v \<Longrightarrow> n < length (value_bytes v) \<Longrightarrow> read_value (take n (value_bytes v)) = Inl (IoError UnexpectedEof OsError)"
  by (auto simp: read_value_def read_string_def value_bytes_def size_defs value_ok_def read_exact_take read_exact_short simp del: take_append)

lemma read_ttl_torn: "n < 4 \<Longrightarrow> read_ttl (take n (be_bytes 4 t)) = Inl (IoError UnexpectedEof OsError)"
  by (simp add: read_ttl_def size_defs read_exact_short)

lemma has_ttl_flag [simp]: "FLAG_HAS_TTL \<noteq> 0"
  by (simp add: FLAG_HAS_TTL_def)

lemma read_write_args_bytes: "write_args_ok x \<Longrightarrow> read_write_args (write_args_bytes x @ rest) = Inr (x, rest)"
  by (cases x) (auto simp: read_write_args_def write_args_bytes_def write_args_ok_def split: option.split)

lemma read_write_args_torn:
  assumes "write_args_ok x" and "n < length (write_args_bytes x)"
  shows "read_write_args (take n (write_args_bytes x)) = Inl (IoError UnexpectedEof OsError)"
proof -
  obtain k v ttl where x: "x = (k, v, ttl)" by (cases x)
  have ok: "key_ok k" "value_ok v" using assms(1) by (simp_all add: x write_args_ok_def)
  let ?f = "case ttl of Some _ \<Rightarrow> FLAG_HAS_TTL | None \<Rightarrow> 0" and ?t = "case ttl of Some secs \<Rightarrow> be_bytes 4 secs | None \<Rightarrow> []"
  have bytes: "write_args_bytes x = ?f # key_bytes k @ value_bytes v @ ?t" by (simp add: x write_args_bytes_def)
  consider "n = 0" | m where "n = Suc m" "m < length (key_bytes k)"
    | m where "n = Suc (length (key_bytes k) + m)" "m < length (value_bytes v)"
    | m where "n = Suc (length (key_bytes k) + (length (value_bytes v) + m))" "m < length ?t"
  proof -
    assume *: "n = 0 \<Longrightarrow> thesis" "\<And>m. n = Suc m \<Longrightarrow> m < length (key_bytes k) \<Longrightarrow> thesis"
      "\<And>m. n = Suc (length (key_bytes k) + m) \<Longrightarrow> m < length (value_bytes v) \<Longrightarrow> thesis"
      "\<And>m. n = Suc (length (key_bytes k) + (length (value_bytes v) + m)) \<Longrightarrow> m < length ?t \<Longrightarrow> thesis"
    show thesis
      using *(1) *(2) [of "n - 1"] *(3) [of "n - 1 - length (key_bytes k)"]
        *(4) [of "n - 1 - length (key_bytes k) - length (value_bytes v)"] assms(2)
      by (simp add: bytes) linarith
  qed
  then show ?thesis
  proof cases
    case 1
    then show ?thesis by (simp add: read_write_args_def read_flags_def size_defs read_exact_short)
  next
    case 2
    then show ?thesis by (simp add: bytes read_write_args_def read_key_torn [OF ok(1)])
  next
    case 3
    then show ?thesis by (simp add: bytes read_write_args_def ok(1) read_value_torn [OF ok(2)])
  next
    case 4
    then show ?thesis by (cases ttl) (simp_all add: bytes read_write_args_def ok read_ttl_torn)
  qed
qed

lemma read_write_args_shrinks:
  assumes "read_write_args bs = Inr (x, rest)"
  shows "length rest < length bs"
proof -
  from assms obtain f bs1 k bs2 v bs3 where "read_flags bs = Inr (f, bs1)" "read_key bs1 = Inr (k, bs2)" "read_value bs2 = Inr (v, bs3)"
    "length rest \<le> length bs3"
    by (auto simp: read_write_args_def and_then_Inr_iff split: if_splits dest: read_ttl_shrinks)
  then show ?thesis
    using read_flags_shrinks [of bs f bs1] read_string_shrinks [of KEY_LEN_SIZE bs1 k bs2] read_string_shrinks [of VALUE_LEN_SIZE bs2 v bs3]
    by (simp add: read_key_def read_value_def)
qed

lemma read_payload_value: "read_payload = read_value"
  by (rule ext) (auto simp: read_payload_def read_value_def read_string_def size_defs and_then_assoc intro!: and_then_cong)

lemma payload_value_bytes: "payload_bytes = value_bytes"
  by (rule ext) (simp add: payload_bytes_def value_bytes_def)

interpretation key_item: item_codec key_bytes read_key "\<lambda>k. k" key_ok
proof unfold_locales
  show "read_key bs = Inr (y, rest) \<Longrightarrow> length rest < length bs" for bs y rest
    using read_string_shrinks [of KEY_LEN_SIZE bs y rest] by (simp add: read_key_def)
qed (simp_all add: read_key_torn)

interpretation write_item: item_codec write_args_bytes read_write_args "\<lambda>x. x" write_args_ok
  by unfold_locales (simp_all add: read_write_args_bytes read_write_args_torn read_write_args_shrinks)

interpretation payload_item: item_codec payload_bytes read_payload "\<lambda>s. s" value_ok
proof (unfold_locales, unfold read_payload_value payload_value_bytes)
  show "read_value bs = Inr (y, rest) \<Longrightarrow> length rest < length bs" for bs y rest
    using read_string_shrinks [of VALUE_LEN_SIZE bs y rest] by (simp add: read_value_def)
qed (simp_all add: read_value_torn)

section \<open>Loops over the items of a frame\<close>

text \<open>A result that is not a panic.\<close>

definition safe :: "'a res \<Rightarrow> bool" where
  "safe r \<longleftrightarrow> (\<forall>m. r \<noteq> Inl (Panic m))"

lemma safe_Inr [simp]: "safe (Inr x)"
  by (simp add: safe_def)

lemma safe_io [simp]: "safe (Inl (IoError k p))"
  by (simp add: safe_def)

lemma safe_and_then [intro!]: "safe r \<Longrightarrow> (\<And>x. r = Inr x \<Longrightarrow> safe (f x)) \<Longrightarrow> safe (and_then r f)"
  by (cases r) (auto simp: safe_def)

context item_codec
begin

lemma read_until_items:
  assumes "\<forall>x \<in> set xs. ok x" and "limit = n" and "length (concat (map enc xs)) \<le> n"
  shows "read_until dec limit n (concat (map enc xs)) = Inr (map view xs)"
  using assms
proof (induction xs)
  case Nil
  then show ?case by (simp add: read_until.simps)
next
  case (Cons x xs)
  then have "0 < length (enc x)" using enc_nonempty by simp
  with Cons show ?case by (subst read_until.simps) (simp add: dec_enc del: length_greater_0_conv)
qed

lemma read_until_safe:
  assumes "\<And>bs. safe (dec bs)"
  shows "safe (read_until dec limit n bs)"
proof (induction bs rule: measure_induct_rule [of length])
  case (less bs)
  show ?case
  proof (cases "dec bs")
    case (Inl e)
    then show ?thesis using assms [of bs] by (subst read_until.simps) (simp add: safe_def)
  next
    case (Inr p)
    then obtain x rest where p: "dec bs = Inr (x, rest)" by (cases p) simp
    then have "length rest < length bs" by (rule dec_shrinks)
    with less [OF this] p show ?thesis
      by (subst read_until.simps) (auto intro!: safe_and_then)
  qed
qed

end

lemma safe_read_exact [intro!]: "safe (read_exact n bs)"
  by (simp add: read_exact_def safe_def)

lemma safe_from_utf8 [intro!]: "safe (from_utf8 bs)"
  by (simp add: from_utf8_def safe_def)

lemma read_string_safe: "safe (read_string KEY_LEN_SIZE bs)" "safe (read_string VALUE_LEN_SIZE bs)"
  unfolding read_string_def by (simp_all add: size_defs) (auto split: prod.split)

lemma read_key_safe [intro!]: "safe (read_key bs)"
  by (simp add: read_key_def read_string_safe)

lemma read_value_safe [intro!]: "safe (read_value bs)"
  by (simp add: read_value_def read_string_safe)

lemma read_ttl_safe [intro!]: "safe (read_ttl bs)"
  by (auto simp: read_ttl_def split: prod.split)

lemma read_flags_safe [intro!]: "safe (read_flags bs)"
  by (auto simp: read_flags_def split: prod.split)

lemma read_write_args_safe [intro!]: "safe (read_write_args bs)"
  by (auto simp: read_write_args_def split: prod.split)

lemma decode_op_safe [intro!]: "safe (decode_op limit n bs opc)"
  by (cases opc) (auto intro!: key_item.read_until_safe write_item.read_until_safe split: prod.split)

lemma decode_input_safe: "safe (decode_input_frame bs)"
  unfolding decode_input_frame_def by (auto split: prod.split sum.split)

lemma decode_response_safe: "safe (decode_response_frame bs)"
  unfolding decode_response_frame_def
  by (auto intro!: payload_item.read_until_safe [unfolded read_payload_value] simp: read_payload_value status_try_from_def split: prod.split)

section \<open>Round trips\<close>

definition command_ok :: "command \<Rightarrow> bool" where
  "command_ok c =
     (case c of
        CmdInvalid _ \<Rightarrow> False
      | CmdRead k \<Rightarrow> key_ok k
      | CmdWrite k v t \<Rightarrow> key_ok k \<and> len k + len v + 12 < 2 ^ 32
      | CmdDelete k \<Rightarrow> key_ok k
      | CmdExists k \<Rightarrow> key_ok k
      | CmdMget ks \<Rightarrow> (\<forall>k \<in> set ks. key_ok k) \<and> 1 + sum_list (map (\<lambda>k. 2 + len k) ks) < 2 ^ 32
      | CmdMset items \<Rightarrow>
          (\<forall>(k, v, t) \<in> set items. key_ok k) \<and> 1 + sum_list (map (\<lambda>(k, v, t). 7 + len k + len v + ttl_size t) items) < 2 ^ 32
      | CmdRange a b \<Rightarrow> key_ok a \<and> key_ok b
      | CmdTtl k t \<Rightarrow> key_ok k
      | _ \<Rightarrow> True)"

lemma length_key_bytes: "length (key_bytes k) = 2 + len k"
  by (simp add: key_bytes_def)

lemma length_write_args_bytes: "length (write_args_bytes (k, v, t)) = 7 + len k + len v + ttl_size t"
  by (simp add: write_args_bytes_def key_bytes_def value_bytes_def ttl_size_def size_defs split: option.split)

lemma length_concat_keys: "length (concat (map key_bytes ks)) = KEY_LEN_SIZE * length ks + sum_list (map len ks)"
  by (induction ks) (simp_all add: length_key_bytes size_defs)

lemma length_concat_items:
  "length (concat (map write_args_bytes items)) =
     (FLAGS_SIZE + KEY_LEN_SIZE + VALUE_LEN_SIZE) * length items + sum_list (map (\<lambda>(k, v, ttl). len k + len v + ttl_size ttl) items)"
  by (induction items) (auto simp: length_write_args_bytes size_defs)

lemma op_try_from_byte [simp]: "op_try_from (op_byte c) = Inr c"
  by (cases c) (simp_all add: op_try_from_def)

lemma status_try_from_byte [simp]: "status_try_from (status_byte c) = Inr c"
  by (cases c) (simp_all add: status_try_from_def)

text \<open>The frame of an operation code and its body.\<close>

definition frame_of :: "op_code \<Rightarrow> bytes \<Rightarrow> bytes" where
  "frame_of c body = u32_bytes (1 + length body) @ op_byte c # body"

lemma decode_frame_of:
  assumes "1 + length body < 2 ^ 32"
  shows "decode_input_frame (frame_of c body) = decode_op (length (frame_of c body)) (length (frame_of c body)) body c"
proof -
  have "unat (from_be (u32_bytes (1 + length body)) :: u32) = 1 + length body" using assms by (rule unat_from_u32_bytes)
  then show ?thesis by (simp add: decode_input_frame_def frame_of_def size_defs del: op_byte.simps)
qed

lemmas read_all_bytes [simp] =
  read_key_bytes [where rest = "[]", simplified] read_ttl_bytes [where rest = "[]", simplified]
  read_write_args_bytes [where rest = "[]", simplified]

lemma decode_mget: "\<forall>k \<in> set ks. key_ok k \<Longrightarrow>
    decode_op (length (frame_of c (concat (map key_bytes ks)))) (length (frame_of c (concat (map key_bytes ks)))) (concat (map key_bytes ks)) OpMget
      = Inr (CmdMget ks)"
  using key_item.read_until_items [of ks] by (simp add: frame_of_def)

lemma decode_mset: "\<forall>x \<in> set items. write_args_ok x \<Longrightarrow>
    decode_op (length (frame_of c (concat (map write_args_bytes items)))) (length (frame_of c (concat (map write_args_bytes items))))
      (concat (map write_args_bytes items)) OpMset
      = Inr (CmdMset items)"
  using write_item.read_until_items [of items] by (simp add: frame_of_def)

lemma sum_list_ge_member: "x \<in> set xs \<Longrightarrow> f x \<le> sum_list (map f xs)" for f :: "'a \<Rightarrow> nat"
  by (induction xs) auto

lemma mset_items_ok:
  assumes "command_ok (CmdMset items)"
  shows "\<forall>x \<in> set items. write_args_ok x" and "1 + length (concat (map write_args_bytes items)) < 2 ^ 32"
proof -
  have sum: "length (concat (map write_args_bytes items)) = sum_list (map (\<lambda>(k, v, t). 7 + len k + len v + ttl_size t) items)"
    by (induction items) (auto simp: length_write_args_bytes)
  with assms show "1 + length (concat (map write_args_bytes items)) < 2 ^ 32" by (simp add: command_ok_def)
  show "\<forall>x \<in> set items. write_args_ok x"
  proof
    fix x assume x: "x \<in> set items"
    from sum_list_ge_member [OF this, of "\<lambda>(k, v, t). 7 + len k + len v + ttl_size t"] assms x
    show "write_args_ok x" by (cases x) (auto simp: command_ok_def write_args_ok_def value_ok_def)
  qed
qed

text \<open>The operation code and the body of a command's frame.\<close>

fun command_body :: "command \<Rightarrow> op_code \<times> bytes" where
  "command_body (CmdRead k) = (OpRead, key_bytes k)"
| "command_body (CmdWrite k v t) = (OpWrite, write_args_bytes (k, v, t))"
| "command_body (CmdDelete k) = (OpDelete, key_bytes k)"
| "command_body (CmdExists k) = (OpExists, key_bytes k)"
| "command_body (CmdMget ks) = (OpMget, concat (map key_bytes ks))"
| "command_body (CmdMset items) = (OpMset, concat (map write_args_bytes items))"
| "command_body (CmdRange a b) = (OpRange, key_bytes a @ key_bytes b)"
| "command_body (CmdTtl k t) = (OpTtl, key_bytes k @ be_bytes 4 t)"
| "command_body CmdCompact = (OpCompact, [])"
| "command_body CmdStats = (OpStats, [])"
| "command_body CmdList = (OpList, [])"
| "command_body CmdPing = (OpPing, [])"
| "command_body (CmdInvalid b) = (OpPing, [])"

lemma encode_command_frame:
  "command_ok c \<Longrightarrow> encode_command c = Inr (frame_of (fst (command_body c)) (snd (command_body c)))"
  by (cases c)
    (auto simp: command_ok_def frame_of_def size_defs length_key_bytes length_write_args_bytes length_concat_keys length_concat_items
      key_ok_def unat_of_nat intro: arg_cong [of _ _ u32_bytes])

lemma command_body_fits: "command_ok c \<Longrightarrow> 1 + length (snd (command_body c)) < 2 ^ 32"
proof (cases c)
  case (CmdMset items)
  assume "command_ok c"
  with CmdMset mset_items_ok(2) show ?thesis by simp
next
  case (CmdMget ks)
  moreover have "length (concat (map key_bytes ks)) = sum_list (map (\<lambda>k. 2 + len k) ks)"
    by (induction ks) (auto simp: length_key_bytes)
  moreover assume "command_ok c"
  ultimately show ?thesis by (simp add: command_ok_def)
qed (auto simp: command_ok_def key_ok_def length_key_bytes length_write_args_bytes ttl_size_def size_defs split: option.splits)

lemma decode_command_body:
  "command_ok c \<Longrightarrow> decode_op (length (frame_of opc (snd (command_body c)))) (length (frame_of opc (snd (command_body c))))
     (snd (command_body c)) (fst (command_body c)) = Inr c"
proof (cases c)
  case (CmdMset items)
  assume "command_ok c"
  with CmdMset decode_mset [OF mset_items_ok(1)] show ?thesis by simp
next
  case (CmdMget ks)
  assume "command_ok c"
  with CmdMget decode_mget show ?thesis by (simp add: command_ok_def)
qed (auto simp: command_ok_def write_args_ok_def value_ok_def)

lemma command_frame:
  assumes "command_ok c"
  shows "\<exists>opc body. encode_command c = Inr (frame_of opc body) \<and> 1 + length body < 2 ^ 32 \<and>
           decode_input_frame (frame_of opc body) = Inr c"
  using encode_command_frame [OF assms] command_body_fits [OF assms] decode_frame_of [OF command_body_fits [OF assms]]
    decode_command_body [OF assms]
  by (intro exI [of _ "fst (command_body c)"] exI [of _ "snd (command_body c)"]) simp

text \<open>C20. Every command whose keys and lengths fit their fields is decoded from its frame as it was encoded; the frame's
  length field counts the bytes that follow it.\<close>

theorem command_roundtrip:
  assumes "command_ok c"
  shows "\<exists>bs. encode_command c = Inr bs \<and> decode_input_frame bs = Inr c \<and>
           unat (from_be (take FRAME_LEN_SIZE bs) :: u32) + FRAME_LEN_SIZE = length bs"
proof -
  from command_frame [OF assms] obtain opc body where f: "encode_command c = Inr (frame_of opc body)" "1 + length body < 2 ^ 32"
    "decode_input_frame (frame_of opc body) = Inr c" by blast
  have "unat (from_be (u32_bytes (1 + length body)) :: u32) = 1 + length body" using f(2) by (rule unat_from_u32_bytes)
  with f show ?thesis by (intro exI [of _ "frame_of opc body"]) (simp add: frame_of_def size_defs)
qed

theorem command_roundtrip_witness:
  "\<exists>bs. encode_command (CmdMset [(lit ''a'', lit ''1'', Some 60), (lit ''b'', lit ''2'', None)]) = Inr bs \<and>
     decode_input_frame bs = Inr (CmdMset [(lit ''a'', lit ''1'', Some 60), (lit ''b'', lit ''2'', None)]) \<and> length bs = 27"
proof -
  let ?c = "CmdMset [(lit ''a'', lit ''1'', Some 60), (lit ''b'', lit ''2'', None)]"
  have ok: "command_ok ?c" by (simp add: command_ok_def key_ok_def ttl_size_def size_defs)
  have "\<exists>bs. encode_command ?c = Inr bs \<and> length bs = 27"
    by (simp add: length_write_args_bytes ttl_size_def size_defs del: concat.simps list.map) (simp add: length_write_args_bytes ttl_size_def size_defs)
  with command_roundtrip [OF ok] show ?thesis by auto
qed

lemma response_decodes:
  assumes "1 + sum_list (map (\<lambda>s. 4 + len s) responses) < 2 ^ 32"
  shows "decode_response_frame (encode_frame status responses) = Inr \<lparr>dr_payload = responses, dr_status = status\<rparr>"
proof -
  let ?body = "concat (map payload_bytes responses)"
  have body: "length ?body = sum_list (map (\<lambda>s. 4 + len s) responses)"
    by (induction responses) (auto simp: payload_bytes_def)
  have "\<forall>s \<in> set responses. value_ok s"
  proof
    fix s assume "s \<in> set responses"
    from sum_list_ge_member [OF this, of "\<lambda>s. 4 + len s"] assms show "value_ok s" by (simp add: value_ok_def)
  qed
  from payload_item.read_until_items [OF this, of "5 + length ?body" "5 + length ?body"]
  have items: "read_until read_payload (5 + length ?body) (5 + length ?body) ?body = Inr responses" by simp
  have "unat (from_be (u32_bytes (1 + length ?body)) :: u32) = 1 + length ?body" using assms body by (intro unat_from_u32_bytes) simp
  with items show ?thesis
    by (simp add: decode_response_frame_def encode_frame_def size_defs del: status_byte.simps)
qed

text \<open>Reading a frame from a stream: the length first, then the rest.\<close>

lemma response_frame_parts:
  assumes "1 + sum_list (map (\<lambda>s. 4 + len s) ps) < 2 ^ 32"
  shows "\<exists>body. encode_frame status ps = u32_bytes (length body) @ body \<and> length body < 2 ^ 32"
proof -
  define body where "body = status_byte status # concat (map payload_bytes ps)"
  have "length (concat (map payload_bytes ps)) = sum_list (map (\<lambda>s. 4 + len s) ps)"
    by (induction ps) (simp_all add: payload_bytes_def)
  then have "length body < 2 ^ 32" using assms by (simp add: body_def)
  moreover have "encode_frame status ps = u32_bytes (length body) @ body" by (simp add: encode_frame_def body_def Let_def)
  ultimately show ?thesis by blast
qed

text \<open>C34. A response is decoded from its frame as it was encoded, provided the frame's length fits its four bytes.\<close>

theorem response_roundtrip:
  assumes "1 + sum_list (map (\<lambda>s. 4 + len s) responses) < 2 ^ 32"
  shows "decode_response_frame (encode_frame status responses) = Inr \<lparr>dr_payload = responses, dr_status = status\<rparr>"
  using assms by (rule response_decodes)

theorem response_roundtrip_witness:
  "decode_response_frame (encode_frame StOk [lit ''k'', lit ''value'']) = Inr \<lparr>dr_payload = [lit ''k'', lit ''value''], dr_status = StOk\<rparr>"
  by (rule response_roundtrip) simp

text \<open>C35. No input makes the decoders panic: every sequence of bytes is decoded or refused with an \<open>io::Error\<close>.\<close>

theorem decoders_never_panic:
  "decode_input_frame bs \<noteq> Inl (Panic m) \<and> decode_response_frame bs \<noteq> Inl (Panic m)"
  using decode_input_safe [of bs] decode_response_safe [of bs] by (auto simp: safe_def)

end
