(* ===== verification/Segment_Index.thy ===== *)
theory Segment_Index
  imports Data_Dir Disk_Record "HOL-Library.Multiset"
begin

text \<open>
  The files and the index of the hash-index engine: segments (src/src/segment.rs) with their file names, and the in-memory
  index from keys to offsets (src/src/hash_index.rs), rebuilt by scanning a segment. A \<open>HashMap\<close> is an association
  list with distinct keys; the order in which it is iterated is an argument of the operations that iterate it.

  Main results: file names parse back, the directory scan finds exactly the segments of a database in the order of their
  timestamps, and scanning a segment gives each key the offset of its last record.
\<close>

section \<open>Segments\<close>

record segment =
  seg_name :: rstring
  seg_timestamp :: u64

definition segment_filename :: "segment \<Rightarrow> rstring" where
  "segment_filename s =
     str_append (seg_name s) (str_append (lit ''_'') (str_append (dec_string (unat (seg_timestamp s))) (lit ''.db'')))"

definition segment_hint_filename :: "segment \<Rightarrow> rstring" where
  "segment_hint_filename s =
     str_append (seg_name s) (str_append (lit ''_'') (str_append (dec_string (unat (seg_timestamp s))) (lit ''.hint'')))"

definition segment_new :: "u64 \<Rightarrow> rstring \<Rightarrow> segment" where
  "segment_new now name = \<lparr>seg_name = name, seg_timestamp = now\<rparr>"

definition segment_parse :: "rstring \<Rightarrow> segment option" where
  "segment_parse filename =
     Option.bind (strip_suffix (as_bytes (lit ''.db'')) (as_bytes filename)) (\<lambda>stem.
     Option.bind (rsplit_once (as_bytes (lit ''_'')) stem) (\<lambda>(name, ts).
     Option.bind (parse_uint (2 ^ 64) ts) (\<lambda>timestamp.
       Some \<lparr>seg_name = mk_string name, seg_timestamp = of_nat timestamp\<rparr>)))"

definition get_segments :: "dir \<Rightarrow> rstring \<Rightarrow> segment list" where
  "get_segments d db_name =
     sort_key seg_timestamp
       (List.map_filter (\<lambda>(name, _).
          case segment_parse name of
            Some segment \<Rightarrow> if seg_name segment = db_name then Some segment else None
          | None \<Rightarrow> None) d)"

definition get_last_segment :: "dir \<Rightarrow> rstring \<Rightarrow> segment option" where
  "get_last_segment d db_name =
     (let segments = get_segments d db_name in if segments = [] then None else Some (last segments))"

section \<open>The index\<close>

record index_entry =
  ie_segment_timestamp :: u64
  ie_offset :: u64
  ie_record_size :: u64
  ie_expiry_ms :: "u64 option"

type_synonym hash_index = "(rstring \<times> index_entry) list"

definition index_new :: hash_index where "index_new = []"

definition index_get :: "hash_index \<Rightarrow> rstring \<Rightarrow> index_entry option" where
  "index_get ix key = map_of ix key"

definition index_contains :: "hash_index \<Rightarrow> rstring \<Rightarrow> bool" where
  "index_contains ix key \<longleftrightarrow> map_of ix key \<noteq> None"

definition index_set ::
  "rstring \<Rightarrow> u64 \<Rightarrow> u64 \<Rightarrow> u64 \<Rightarrow> u64 option \<Rightarrow> hash_index \<Rightarrow> index_entry option \<times> hash_index" where
  "index_set key file_location segment_timestamp record_size expiry_ms ix =
     (map_of ix key,
      AList.update key \<lparr>ie_segment_timestamp = segment_timestamp, ie_offset = file_location, ie_record_size = record_size, ie_expiry_ms = expiry_ms\<rparr> ix)"

definition index_delete :: "rstring \<Rightarrow> hash_index \<Rightarrow> index_entry option \<times> hash_index" where
  "index_delete key ix = (map_of ix key, AList.delete key ix)"

text \<open>The keys in the order of an iteration: \<open>ord\<close> is the order a \<open>HashMap\<close> happens to have.\<close>

definition ls_keys :: "(rstring list \<Rightarrow> rstring list) \<Rightarrow> hash_index \<Rightarrow> rstring list" where
  "ls_keys ord ix = ord (map fst ix)"

definition iteration_order :: "(rstring list \<Rightarrow> rstring list) \<Rightarrow> bool" where
  "iteration_order ord \<longleftrightarrow> (\<forall>ks. mset (ord ks) = mset ks)"

text \<open>The body of the scan: a record at an offset.\<close>

definition scan_record :: "u64 \<Rightarrow> u64 \<Rightarrow> disk_record \<Rightarrow> hash_index \<Rightarrow> hash_index" where
  "scan_record segment_timestamp offset record ix =
     (if is_tombstone (rec_header record) then AList.delete (rec_key record) ix
      else AList.update (rec_key record)
             \<lparr>ie_segment_timestamp = segment_timestamp, ie_offset = offset, ie_record_size = 0,
              ie_expiry_ms = hdr_expiry_ms (rec_header record)\<rparr> ix)"

text \<open>The loop on the bytes that are left of a file of \<open>n\<close> bytes: the stream position is \<open>n\<close> less their number.\<close>

function scan_loop :: "u64 \<Rightarrow> nat \<Rightarrow> bytes \<Rightarrow> hash_index \<Rightarrow> hash_index res" where
  "scan_loop segment_timestamp n bs ix =
     (if bs = [] then Inr ix
      else and_then (read_next bs) (\<lambda>(record, rest).
        scan_loop segment_timestamp n rest (scan_record segment_timestamp (of_nat (n - length bs)) record ix)))"
  by pat_completeness auto
termination
  by (relation "measure (\<lambda>(ts, n, bs, ix). length bs)") (auto dest: read_next_shrinks)

declare scan_loop.simps [simp del]

definition merge_from_file :: "bytes \<Rightarrow> u64 \<Rightarrow> hash_index \<Rightarrow> hash_index res" where
  "merge_from_file file_bytes segment_timestamp ix = scan_loop segment_timestamp (length file_bytes) file_bytes ix"

definition index_from_file :: "bytes \<Rightarrow> u64 \<Rightarrow> hash_index res" where
  "index_from_file file_bytes segment_timestamp = scan_loop segment_timestamp (length file_bytes) file_bytes index_new"

section \<open>File names\<close>

lemma lit_as_bytes:
  "as_bytes (lit ''.db'') = [46, 100, 98]" "as_bytes (lit ''.hint'') = [46, 104, 105, 110, 116]" "as_bytes (lit ''_'') = [95]"
  by (simp_all add: of_char_def)

lemma not_digit: "b < 48 \<or> 57 < b \<Longrightarrow> b \<notin> set (show_dec n)"
  using show_dec_set [of b n] by auto

lemma segment_filename_bytes:
  "as_bytes (segment_filename s) = (as_bytes (seg_name s) @ 95 # show_dec (unat (seg_timestamp s))) @ [46, 100, 98]"
  by (simp add: segment_filename_def lit_as_bytes del: lit.rep_eq)

lemma segment_parse_filename [simp]: "segment_parse (segment_filename s) = Some s"
proof -
  have "rsplit_once [95] (as_bytes (seg_name s) @ 95 # show_dec (unat (seg_timestamp s))) = Some (as_bytes (seg_name s), show_dec (unat (seg_timestamp s)))"
    using rsplit_once_last [of 95 "[]" "show_dec (unat (seg_timestamp s))" "as_bytes (seg_name s)"] not_digit [of 95]
    by (simp add: word_less_nat_alt)
  moreover have "unat (seg_timestamp s) < 2 ^ 64" using unsigned_less [of "seg_timestamp s"] by simp
  ultimately show ?thesis
    by (simp only: segment_parse_def segment_filename_bytes lit_as_bytes strip_suffix_append bind.bind_lunit prod.case parse_uint_show_dec) simp
qed

lemma segment_filename_inj [simp]: "segment_filename s = segment_filename s' \<longleftrightarrow> s = s'"
  by (metis option.inject segment_parse_filename)

lemma segment_hint_bytes:
  "as_bytes (segment_hint_filename s) = as_bytes (seg_name s) @ 95 # show_dec (unat (seg_timestamp s)) @ [46, 104, 105, 110, 116]"
  by (simp add: segment_hint_filename_def lit_as_bytes del: lit.rep_eq)

lemma segment_parse_hint [simp]: "segment_parse (segment_hint_filename s) = None"
proof -
  have "\<not> suffix [46, 100, 98] (as_bytes (segment_hint_filename s))"
  proof
    assume "suffix [46, 100, 98] (as_bytes (segment_hint_filename s))"
    then have "last (as_bytes (segment_hint_filename s)) = 98" by (auto simp: suffix_def)
    then show False by (simp add: segment_hint_bytes)
  qed
  then show ?thesis by (simp only: segment_parse_def strip_suffix_def lit_as_bytes if_False) simp
qed

lemma segment_hint_neq [simp]: "segment_hint_filename s \<noteq> segment_filename s'" "segment_filename s' \<noteq> segment_hint_filename s"
  by (metis option.distinct(1) segment_parse_filename segment_parse_hint)+

lemma segment_hint_inj [simp]: "segment_hint_filename s = segment_hint_filename s' \<longleftrightarrow> s = s'"
proof
  assume "segment_hint_filename s = segment_hint_filename s'"
  then have "as_bytes (segment_hint_filename s) = as_bytes (segment_hint_filename s')" by simp
  then have "as_bytes (segment_filename s) = as_bytes (segment_filename s')"
    by (simp add: segment_hint_bytes segment_filename_bytes)
  then show "s = s'" by (simp add: as_bytes_inject)
qed simp

section \<open>The directory scan\<close>

text \<open>A directory without stray names: each name once, and a name that parses as a segment is that segment's name.\<close>

definition dir_ok :: "dir \<Rightarrow> bool" where
  "dir_ok d \<longleftrightarrow> distinct (map fst d) \<and> (\<forall>name seg. name \<in> fst ` set d \<longrightarrow> segment_parse name = Some seg \<longrightarrow> name = segment_filename seg)"

lemma dir_ok_update_segment: "dir_ok d \<Longrightarrow> dir_ok (AList.update (segment_filename seg) bs d)"
  unfolding dir_ok_def by (auto simp: distinct_update dom_update)

lemma dir_ok_update_hint: "dir_ok d \<Longrightarrow> dir_ok (AList.update (segment_hint_filename seg) bs d)"
  unfolding dir_ok_def by (auto simp: distinct_update dom_update)

lemma dir_ok_delete: "dir_ok d \<Longrightarrow> dir_ok (AList.delete name d)"
  unfolding dir_ok_def by (auto simp: AList.delete_eq distinct_map_filter rev_image_eqI)

lemma dir_ok_Nil [simp]: "dir_ok []"
  by (simp add: dir_ok_def)

lemma set_get_segments:
  assumes "dir_ok d"
  shows "set (get_segments d db_name) = {seg. seg_name seg = db_name \<and> map_of d (segment_filename seg) \<noteq> None}"
proof (intro set_eqI iffI)
  fix seg assume "seg \<in> set (get_segments d db_name)"
  then obtain name bs where n: "(name, bs) \<in> set d" "segment_parse name = Some seg" "seg_name seg = db_name"
    by (auto simp: get_segments_def map_filter_def split: option.splits if_splits)
  with assms have "name = segment_filename seg" by (force simp: dir_ok_def)
  with n show "seg \<in> {seg. seg_name seg = db_name \<and> map_of d (segment_filename seg) \<noteq> None}"
    by (auto simp: map_of_eq_None_iff rev_image_eqI)
next
  fix seg assume "seg \<in> {seg. seg_name seg = db_name \<and> map_of d (segment_filename seg) \<noteq> None}"
  then obtain bs where "(segment_filename seg, bs) \<in> set d" "seg_name seg = db_name" by (auto dest: map_of_SomeD)
  then show "seg \<in> set (get_segments d db_name)"
    by (auto simp: get_segments_def map_filter_def intro!: rev_image_eqI)
qed

lemma segments_distinct:
  assumes "dir_ok d"
  shows "distinct (map seg_timestamp (get_segments d db_name))" and "sorted (map seg_timestamp (get_segments d db_name))"
proof -
  let ?f = "\<lambda>(name, _ :: bytes). case segment_parse name of
     Some segment \<Rightarrow> if seg_name segment = db_name then Some segment else None | None \<Rightarrow> None"
  have "distinct (map seg_timestamp (List.map_filter ?f d))"
    using assms
  proof (induction d)
    case Nil
    then show ?case by (simp add: map_filter_def)
  next
    case (Cons p d)
    obtain name bs where p: "p = (name, bs)" by (cases p)
    have ok: "dir_ok d" using Cons.prems by (auto simp: dir_ok_def p)
    show ?case
    proof (cases "?f p")
      case None
      then show ?thesis using Cons.IH [OF ok] by (simp add: List.map_filter_simps)
    next
      case (Some seg)
      then have seg: "segment_parse name = Some seg" "seg_name seg = db_name" by (auto simp: p split: option.splits if_splits)
      with Cons.prems have nm: "name = segment_filename seg" by (auto simp: dir_ok_def p)
      have "seg_timestamp seg \<notin> seg_timestamp ` set (List.map_filter ?f d)"
      proof
        assume "seg_timestamp seg \<in> seg_timestamp ` set (List.map_filter ?f d)"
        then obtain name' bs' seg' where s': "(name', bs') \<in> set d" "segment_parse name' = Some seg'" "seg_name seg' = db_name"
          "seg_timestamp seg' = seg_timestamp seg"
          by (auto simp: map_filter_def split: option.splits if_splits)
        then have "seg' = seg" using seg(2) by simp
        moreover have "name' \<in> fst ` set d" using s'(1) by (rule rev_image_eqI) simp
        ultimately have "name' = name" "name' \<in> fst ` set d" using ok s'(2) nm by (simp_all add: dir_ok_def)
        with Cons.prems show False by (simp add: dir_ok_def p)
      qed
      with Some Cons.IH [OF ok] show ?thesis by (simp add: List.map_filter_simps)
    qed
  qed
  then show "distinct (map seg_timestamp (get_segments d db_name))"
    by (simp add: get_segments_def distinct_map)
  show "sorted (map seg_timestamp (get_segments d db_name))" by (simp add: get_segments_def)
qed

section \<open>Scanning a segment\<close>

interpretation ix: map_ops "[] :: hash_index" AList.update AList.delete map_of "\<lambda>_ :: hash_index. True"
  by unfold_locales (simp_all add: update_conv' delete_conv')

fun with_offsets :: "nat \<Rightarrow> disk_record list \<Rightarrow> (nat \<times> disk_record) list" where
  "with_offsets off [] = []"
| "with_offsets off (r # rs) = (off, r) # with_offsets (off + length (record_bytes r)) rs"

lemma with_offsets_append:
  "with_offsets off (rs @ ss) = with_offsets off rs @ with_offsets (off + length (concat (map record_bytes rs))) ss"
  by (induction rs arbitrary: off) (simp_all add: add.assoc)

text \<open>What a record at an offset does to the index.\<close>

definition scan_op :: "u64 \<Rightarrow> nat \<times> disk_record \<Rightarrow> rstring \<times> index_entry option" where
  "scan_op ts = (\<lambda>(off, r). (rec_key r,
     if is_tombstone (rec_header r) then None
     else Some \<lparr>ie_segment_timestamp = ts, ie_offset = of_nat off, ie_record_size = 0, ie_expiry_ms = hdr_expiry_ms (rec_header r)\<rparr>))"

lemma scan_record_op: "scan_record ts (of_nat off) (stored r) ix = ix.apply_op (scan_op ts (off, r)) ix"
  by (simp add: scan_record_def scan_op_def ix.apply_op_def)

lemma scan_loop_records:
  assumes "\<forall>r \<in> set rs. record_ok r" and "n = off + length (concat (map record_bytes rs))"
  shows "scan_loop ts n (concat (map record_bytes rs)) ix = Inr (fold ix.apply_op (map (scan_op ts) (with_offsets off rs)) ix)"
  using assms
proof (induction rs arbitrary: off ix)
  case Nil
  then show ?case by (simp add: scan_loop.simps)
next
  case (Cons r rs)
  have ne: "record_bytes r \<noteq> []" by (simp add: length_record_bytes flip: length_greater_0_conv)
  have off: "n - length (concat (map record_bytes (r # rs))) = off" using Cons.prems(2) by simp
  have "read_next (concat (map record_bytes (r # rs))) = Inr (stored r, concat (map record_bytes rs))"
    using Cons.prems(1) by (simp add: read_next_record_bytes)
  with ne off have "scan_loop ts n (concat (map record_bytes (r # rs))) ix =
      scan_loop ts n (concat (map record_bytes rs)) (ix.apply_op (scan_op ts (off, r)) ix)"
    by (subst scan_loop.simps) (simp only: and_then.simps prod.case scan_record_op, simp)
  with Cons.IH [of "off + length (record_bytes r)" "ix.apply_op (scan_op ts (off, r)) ix"] Cons.prems show ?case by simp
qed

text \<open>A torn record at the end of a file: the error of the reader is the error of the scan.\<close>

lemma scan_loop_torn:
  assumes "\<forall>r \<in> set rs. record_ok r" and "record_ok t" and "0 < i" and "i < length (record_bytes t)"
  shows "scan_loop ts n (concat (map record_bytes rs) @ take i (record_bytes t)) ix = Inl (IoError UnexpectedEof OsError)"
  using assms(1)
proof (induction rs arbitrary: ix)
  case Nil
  have "take i (record_bytes t) \<noteq> []" using assms(3,4) by auto
  then show ?case using read_next_torn [OF assms(2,4)] by (simp add: scan_loop.simps)
next
  case (Cons r rs)
  have ne: "record_bytes r \<noteq> []" by (simp add: length_record_bytes flip: length_greater_0_conv)
  have "read_next (concat (map record_bytes (r # rs)) @ take i (record_bytes t)) = Inr (stored r, concat (map record_bytes rs) @ take i (record_bytes t))"
    using Cons.prems by (simp add: read_next_record_bytes)
  with ne Cons show ?case by (subst scan_loop.simps) simp
qed

lemma merge_records:
  assumes "\<forall>r \<in> set rs. record_ok r"
  shows "merge_from_file (concat (map record_bytes rs)) ts ix = Inr (fold ix.apply_op (map (scan_op ts) (with_offsets 0 rs)) ix)"
  unfolding merge_from_file_def using assms by (rule scan_loop_records) simp

end
