(* ===== verification/Hint_File.thy ===== *)
theory Hint_File
  imports Disk_Record
begin

text \<open>
  \<^verbatim>\<open>src/hint.rs\<close>: the hint file beside a compacted segment, which lists its live keys with their offsets.
  The entry codec is an \<open>item_codec\<close> (interpretation \<open>hint\<close>).
\<close>

section \<open>Operations\<close>

record hint_entry =
  he_key_size :: u64
  he_offset :: u64
  he_tombstone :: bool
  he_expiry_ms :: "u64 option"
  he_key :: rstring

definition hint_flags :: "hint_entry \<Rightarrow> u8" where
  "hint_flags e = (if he_tombstone e then FLAG_TOMBSTONE else 0) OR (if he_expiry_ms e \<noteq> None then FLAG_HAS_EXPIRY else 0)"

definition hint_entry_bytes :: "hint_entry \<Rightarrow> bytes" where
  "hint_entry_bytes e =
     be_bytes SIZE_FIELD_LEN (he_key_size e) @ be_bytes 8 (he_offset e) @ [hint_flags e] @
     (case he_expiry_ms e of Some ms \<Rightarrow> be_bytes TTL_LEN ms | None \<Rightarrow> []) @ as_bytes (he_key e)"

text \<open>\<open>Hint::write_file\<close> truncates the file and writes the entries one after the other.\<close>

definition hint_write_file :: "hint_entry list \<Rightarrow> bytes" where
  "hint_write_file entries = fold (\<lambda>e file. file @ hint_entry_bytes e) entries []"

text \<open>The body of the loop of \<open>Hint::read_file\<close>. A key size beyond \<open>isize::MAX\<close> cannot be allocated.\<close>

definition hint_read_entry :: "bytes \<Rightarrow> (hint_entry \<times> bytes) res" where
  "hint_read_entry bs =
     and_then (read_exact SIZE_FIELD_LEN bs) (\<lambda>(ks_buf, bs).
     and_then (read_exact SIZE_FIELD_LEN bs) (\<lambda>(o_buf, bs).
     and_then (read_exact FLAGS_LEN bs) (\<lambda>(f_buf, bs).
       let key_size = from_be ks_buf :: u64; offset = from_be o_buf; flags = hd f_buf;
           tombstone = (flags AND FLAG_TOMBSTONE \<noteq> 0) in
       and_then
         (if flags AND FLAG_HAS_EXPIRY \<noteq> 0
          then and_then (read_exact TTL_LEN bs) (\<lambda>(ttl_buf, bs). Inr (Some (from_be ttl_buf), bs))
          else Inr (None, bs))
         (\<lambda>(expiry_ms, bs).
            if 2 ^ 63 \<le> unat key_size then Inl (Panic ''capacity overflow'')
            else
              and_then (read_exact (unat key_size) bs) (\<lambda>(key_buf, bs).
              and_then (from_utf8 key_buf) (\<lambda>key.
                Inr (\<lparr>he_key_size = key_size, he_offset = offset, he_tombstone = tombstone,
                      he_expiry_ms = expiry_ms, he_key = key\<rparr>, bs)))))))"

lemma read_exact_shrinks: "read_exact n bs = Inr (xs, rest) \<Longrightarrow> length rest + n = length bs"
  by (auto simp: read_exact_Inr_iff)

lemma hint_read_entry_shrinks: "hint_read_entry bs = Inr (e, rest) \<Longrightarrow> length rest < length bs"
  by (auto simp: hint_read_entry_def and_then_Inr_iff Let_def split: prod.splits if_splits
      dest!: read_exact_shrinks)

function hint_read_loop :: "bytes \<Rightarrow> hint_entry list \<Rightarrow> hint_entry list res" where
  "hint_read_loop bs entries =
     (if bs = [] then Inr entries
      else and_then (hint_read_entry bs) (\<lambda>(e, rest). hint_read_loop rest (entries @ [e])))"
  by pat_completeness auto
termination
  by (relation "measure (\<lambda>(bs, es). length bs)") (auto dest: hint_read_entry_shrinks)

declare hint_read_loop.simps [simp del]

definition hint_read_file :: "bytes \<Rightarrow> hint_entry list res" where
  "hint_read_file file = hint_read_loop file []"

section \<open>The entry codec\<close>

definition hint_ok :: "hint_entry \<Rightarrow> bool" where
  "hint_ok e \<longleftrightarrow> unat (he_key_size e) = len (he_key e) \<and> len (he_key e) < 2 ^ 63"

lemma hint_flags_expiry: "hint_flags e AND FLAG_HAS_EXPIRY = 0 \<longleftrightarrow> he_expiry_ms e = None"
  and hint_flags_tombstone: "hint_flags e AND FLAG_TOMBSTONE = 0 \<longleftrightarrow> \<not> he_tombstone e"
  by (auto simp: hint_flags_def)

lemma hint_read_entry_bytes:
  assumes "hint_ok e"
  shows "hint_read_entry (hint_entry_bytes e @ rest) = Inr (e, rest)"
  using assms hint_flags_expiry [of e] hint_flags_tombstone [of e]
  by (cases "he_expiry_ms e") (auto simp: hint_read_entry_def hint_entry_bytes_def hint_ok_def Let_def)

lemma hint_read_entry_torn:
  assumes "hint_ok e" and "n < length (hint_entry_bytes e)"
  shows "hint_read_entry (take n (hint_entry_bytes e)) = Inl (IoError UnexpectedEof OsError)"
  using assms hint_flags_expiry [of e]
  by (cases "he_expiry_ms e")
    (auto simp: hint_read_entry_def hint_entry_bytes_def hint_ok_def Let_def read_exact_take
      read_exact_short take_Cons' simp del: take_append)

interpretation hint: item_codec hint_entry_bytes hint_read_entry "\<lambda>e. e" hint_ok
  by unfold_locales (auto intro: hint_read_entry_bytes hint_read_entry_torn hint_read_entry_shrinks)

lemma hint_read_loop_parse:
  "hint_read_loop bs es =
     (case parse_all hint_read_entry bs of (xs, None) \<Rightarrow> Inr (es @ xs) | (xs, Some f) \<Rightarrow> Inl f)"
proof (induction bs es rule: hint_read_loop.induct)
  case (1 bs es)
  show ?case
  proof (cases "bs = []")
    case True
    then show ?thesis by (simp add: hint_read_loop.simps)
  next
    case False
    then show ?thesis
      using "1.IH" hint_read_entry_shrinks [of bs]
      by (cases "hint_read_entry bs")
        (auto simp: hint_read_loop.simps [of bs es] parse_all.simps [of hint_read_entry bs]
          split: prod.split option.split)
  qed
qed

lemma hint_write_file_concat: "hint_write_file es = concat (map hint_entry_bytes es)"
proof -
  have "fold (\<lambda>e file. file @ hint_entry_bytes e) es f = f @ concat (map hint_entry_bytes es)" for f
    by (induction es arbitrary: f) auto
  then show ?thesis by (simp add: hint_write_file_def)
qed

text \<open>A hint file reads back as exactly the entries that were written, and a hint file cut off in
  the middle of an entry is rejected with an unexpected end of file (never read as a shorter list).\<close>

theorem hint_file_roundtrip:
  assumes "\<forall>e \<in> set es. hint_ok e"
  shows "hint_read_file (hint_write_file es) = Inr es
     \<and> (\<forall>e n. hint_ok e \<and> 0 < n \<and> n < length (hint_entry_bytes e) \<longrightarrow>
          hint_read_file (hint_write_file es @ take n (hint_entry_bytes e)) = Inl (IoError UnexpectedEof OsError))"
  using hint.parse_all_concat [OF assms] hint.parse_all_torn [OF assms]
  by (simp add: hint_read_file_def hint_read_loop_parse hint_write_file_concat)

theorem hint_file_roundtrip_witness:
  "hint_read_file (hint_write_file [\<lparr>he_key_size = 1, he_offset = 21, he_tombstone = False, he_expiry_ms = Some 4, he_key = lit ''k''\<rparr>])
     = Inr [\<lparr>he_key_size = 1, he_offset = 21, he_tombstone = False, he_expiry_ms = Some 4, he_key = lit ''k''\<rparr>]"
  using hint_file_roundtrip [of "[\<lparr>he_key_size = 1, he_offset = 21, he_tombstone = False, he_expiry_ms = Some 4, he_key = lit ''k''\<rparr>]"]
  by (simp add: hint_ok_def)

end
