(* ===== verification/Settings_Args.thy ===== *)
theory Settings_Args
  imports Data_Dir
begin

text \<open>
  The command line of the server (src/src/settings.rs): options, defaults, and the parsers of their values. Parsing and
  printing a socket address and parsing an \<open>f32\<close> are the standard library's and arguments of the model, in the record
  \<open>std_parsers\<close>; a \<open>Duration\<close> is its number of seconds; printing is left out.

  Main result: the settings that reach the server are well formed, whatever the arguments were.
\<close>

section \<open>Data\<close>

datatype fsync_strategy = FsyncAlways | FsyncEveryN u64 | FsyncPeriodic u64 | FsyncNever

datatype strategy_kind = SizeTieredK | LeveledK

datatype block_compression = CompressionNone | CompressionLz77

datatype engine_type = EngineKV | EngineLsm

record 'f settings =
  set_db_file_path :: rstring
  set_tcp_addr :: rstring
  set_db_name :: rstring
  set_max_segment_bytes :: u64
  set_sync_strategy :: fsync_strategy
  set_engine :: engine_type
  set_compaction_ratio :: 'f
  set_compaction_max_segment :: u64
  set_storage_strategy :: strategy_kind
  set_leveled_num_levels :: u64
  set_leveled_l0_threshold :: u64
  set_leveled_l1_max_bytes :: u64
  set_block_size_kb :: u64
  set_block_compression :: block_compression
  set_read_timeout_secs :: "u64 option"
  set_max_connections :: u64
  set_workers :: "u64 option"

text \<open>What is used of the standard library: a socket address in its printed form, if the text is one; an \<open>f32\<close>; the
  literal \<open>0.0\<close>.\<close>

record 'f std_parsers =
  parse_addr :: "rstring \<Rightarrow> rstring option"
  parse_f32 :: "rstring \<Rightarrow> 'f option"
  zero_f32 :: 'f

section \<open>Values\<close>

definition parse_u64 :: "rstring \<Rightarrow> u64 option" where
  "parse_u64 s = map_option of_nat (parse_uint (2 ^ 64) (as_bytes s))"

definition expect :: "string \<Rightarrow> 'a option \<Rightarrow> 'a res" where
  "expect msg r = (case r of Some x \<Rightarrow> Inr x | None \<Rightarrow> Inl (Panic msg))"

definition strip_prefix :: "bytes \<Rightarrow> bytes \<Rightarrow> bytes option" where
  "strip_prefix pre bs = (if prefix pre bs then Some (drop (length pre) bs) else None)"

definition parse_fsync :: "rstring \<Rightarrow> string + fsync_strategy" where
  "parse_fsync s =
     (if s = lit ''always'' then Inr FsyncAlways
      else if s = lit ''never'' then Inr FsyncNever
      else case strip_prefix (as_bytes (lit ''every:'')) (as_bytes s) of
        None \<Rightarrow> Inl ''unknown fsync policy''
      | Some val \<Rightarrow>
          (case strip_suffix (as_bytes (lit ''s'')) val of
             Some secs_str \<Rightarrow>
               (case parse_uint (2 ^ 64) secs_str of
                  None \<Rightarrow> Inl ''invalid fsync interval''
                | Some n \<Rightarrow> if n = 0 then Inl ''fsync interval must be > 0'' else Inr (FsyncPeriodic (of_nat n)))
           | None \<Rightarrow>
               (case parse_uint (2 ^ 64) val of
                  None \<Rightarrow> Inl ''invalid fsync interval''
                | Some n \<Rightarrow> if n = 0 then Inl ''fsync interval must be > 0'' else Inr (FsyncEveryN (of_nat n)))))"

definition parse_engine :: "rstring \<Rightarrow> string + engine_type" where
  "parse_engine s =
     (if s = lit ''kv'' then Inr EngineKV
      else if s = lit ''lsm'' then Inr EngineLsm
      else Inl ''Unsupported engine provided'')"

definition parse_storage_strategy :: "rstring \<Rightarrow> string + strategy_kind" where
  "parse_storage_strategy s =
     (if s = lit ''leveled'' then Inr LeveledK
      else if s = lit ''size-tiered'' then Inr SizeTieredK
      else Inl ''Unsupported storage strategy provided'')"

definition parse_block_compression :: "rstring \<Rightarrow> string + block_compression" where
  "parse_block_compression s =
     (if s = lit ''none'' then Inr CompressionNone
      else if s = lit ''lz77'' then Inr CompressionLz77
      else Inl ''Unsupported block compression provided'')"

text \<open>\<open>Result::unwrap\<close> on an error is a panic.\<close>

definition unwrap :: "string + 'a \<Rightarrow> 'a res" where
  "unwrap r = (case r of Inr x \<Rightarrow> Inr x | Inl msg \<Rightarrow> Inl (Panic msg))"

section \<open>Options\<close>

datatype option_kind =
  OptTcp | OptName | OptMaxSegmentBytes | OptFsync | OptEngine | OptCompactionRatio | OptCompactionMaxSegments | OptStorageStrategy |
  OptNumLevels | OptL0Threshold | OptL1MaxBytes | OptBlockSizeKb | OptBlockCompression | OptReadTimeout | OptMaxConnections | OptWorkers

text \<open>The patterns of the match on an argument.\<close>

definition option_names :: "(option_kind \<times> string list) list" where
  "option_names =
     [(OptTcp, [''-t'', ''--tcp'']), (OptName, [''-n'', ''--name'']), (OptMaxSegmentBytes, [''-msb'', ''--max-segments-bytes'']),
      (OptFsync, [''-fsync'', ''--fsync-interval'']), (OptEngine, [''-e'', ''--engine'']),
      (OptCompactionRatio, [''-cr'', ''--compaction-ratio'']), (OptCompactionMaxSegments, [''-cms'', ''--compaction-max-segments'']),
      (OptStorageStrategy, [''-ss'', ''--storage-strategy'']), (OptNumLevels, [''-lnl'', ''--leveled-num-levels'']),
      (OptL0Threshold, [''-ll0'', ''--leveled-l0-threshold'']), (OptL1MaxBytes, [''-ll1'', ''--leveled-l1-max-bytes'']),
      (OptBlockSizeKb, [''-bsk'', ''--block-size-kb'']), (OptBlockCompression, [''-bc'', ''--block-compression'']),
      (OptReadTimeout, [''-rts'', ''--read-timeout-secs'']), (OptMaxConnections, [''-mc'', ''--max-connections'']),
      (OptWorkers, [''-w'', ''--workers''])]"

definition option_of :: "rstring \<Rightarrow> option_kind option" where
  "option_of arg = map_option fst (find (\<lambda>(_, names). arg \<in> set (map lit names)) option_names)"

fun apply_option :: "'f std_parsers \<Rightarrow> option_kind \<Rightarrow> rstring \<Rightarrow> 'f settings \<Rightarrow> 'f settings res" where
  "apply_option P OptTcp v s =
     and_then (expect ''Invalid tcp address provided'' (parse_addr P v)) (\<lambda>addr. Inr (s\<lparr>set_tcp_addr := addr\<rparr>))"
| "apply_option P OptName v s = Inr (s\<lparr>set_db_name := v\<rparr>)"
| "apply_option P OptMaxSegmentBytes v s =
     and_then (expect ''Invalid max segments bytes provided'' (parse_u64 v)) (\<lambda>n. Inr (s\<lparr>set_max_segment_bytes := n\<rparr>))"
| "apply_option P OptFsync v s = and_then (unwrap (parse_fsync v)) (\<lambda>f. Inr (s\<lparr>set_sync_strategy := f\<rparr>))"
| "apply_option P OptEngine v s = and_then (unwrap (parse_engine v)) (\<lambda>e. Inr (s\<lparr>set_engine := e\<rparr>))"
| "apply_option P OptCompactionRatio v s =
     and_then (expect ''Invalid compaction ratio provided'' (parse_f32 P v)) (\<lambda>r. Inr (s\<lparr>set_compaction_ratio := r\<rparr>))"
| "apply_option P OptCompactionMaxSegments v s =
     and_then (expect ''Invalid compaction max segments provided'' (parse_u64 v)) (\<lambda>n. Inr (s\<lparr>set_compaction_max_segment := n\<rparr>))"
| "apply_option P OptStorageStrategy v s = and_then (unwrap (parse_storage_strategy v)) (\<lambda>k. Inr (s\<lparr>set_storage_strategy := k\<rparr>))"
| "apply_option P OptNumLevels v s =
     and_then (expect ''Invalid leveled num levels provided'' (parse_u64 v)) (\<lambda>n. Inr (s\<lparr>set_leveled_num_levels := n\<rparr>))"
| "apply_option P OptL0Threshold v s =
     and_then (expect ''Invalid leveled L0 threshold provided'' (parse_u64 v)) (\<lambda>n. Inr (s\<lparr>set_leveled_l0_threshold := n\<rparr>))"
| "apply_option P OptL1MaxBytes v s =
     and_then (expect ''Invalid leveled L1 max bytes provided'' (parse_u64 v)) (\<lambda>n. Inr (s\<lparr>set_leveled_l1_max_bytes := n\<rparr>))"
| "apply_option P OptBlockSizeKb v s =
     and_then (expect ''Invalid block size kb provided'' (parse_u64 v)) (\<lambda>kb.
       if \<not> (1 \<le> kb \<and> kb \<le> 1024) then Inl (Panic ''Block size must be between 1 and 1024 KB'')
       else Inr (s\<lparr>set_block_size_kb := kb\<rparr>))"
| "apply_option P OptBlockCompression v s = and_then (unwrap (parse_block_compression v)) (\<lambda>c. Inr (s\<lparr>set_block_compression := c\<rparr>))"
| "apply_option P OptReadTimeout v s =
     and_then (expect ''Invalid read timeout secs provided'' (parse_u64 v)) (\<lambda>n.
       Inr (s\<lparr>set_read_timeout_secs := if n = 0 then None else Some n\<rparr>))"
| "apply_option P OptMaxConnections v s =
     and_then (expect ''Invalid max connections provided'' (parse_u64 v)) (\<lambda>n. Inr (s\<lparr>set_max_connections := n\<rparr>))"
| "apply_option P OptWorkers v s =
     and_then (expect ''Invalid workers number provided'' (parse_u64 v)) (\<lambda>n.
       Inr (s\<lparr>set_workers := if n = 0 then None else Some n\<rparr>))"

text \<open>The loop: an option without a value is ignored, an unknown argument is reported and skipped.\<close>

fun apply_args :: "'f std_parsers \<Rightarrow> rstring list \<Rightarrow> 'f settings \<Rightarrow> 'f settings res" where
  "apply_args P [] s = Inr s"
| "apply_args P [arg] s = Inr s"
| "apply_args P (arg # v # rest) s =
     (case option_of arg of
        None \<Rightarrow> apply_args P (v # rest) s
      | Some k \<Rightarrow> and_then (apply_option P k v s) (apply_args P rest))"

definition default_settings :: "'f std_parsers \<Rightarrow> rstring \<Rightarrow> 'f settings" where
  "default_settings P f_path =
     \<lparr>set_db_file_path = f_path, set_tcp_addr = lit ''0.0.0.0:6666'', set_db_name = lit ''segment'',
      set_max_segment_bytes = 1048576 * 50, set_sync_strategy = FsyncAlways, set_engine = EngineKV,
      set_compaction_ratio = zero_f32 P, set_compaction_max_segment = 0, set_storage_strategy = SizeTieredK,
      set_leveled_num_levels = 4, set_leveled_l0_threshold = 4, set_leveled_l1_max_bytes = 10 * 1024 * 1024,
      set_block_size_kb = 4, set_block_compression = CompressionLz77, set_read_timeout_secs = Some 30,
      set_max_connections = 1000, set_workers = None\<rparr>"

datatype 'f startup = ShowHelp | Start "'f settings"

definition get_from_args :: "'f std_parsers \<Rightarrow> rstring list \<Rightarrow> 'f startup res" where
  "get_from_args P args =
     (if length args < 2 \<or> (\<exists>a \<in> set args. a = lit ''-h'' \<or> a = lit ''--help'')
      then and_then (idx args 0) (\<lambda>prog_name. Inr ShowHelp)
      else and_then (apply_args P (drop 2 args) (default_settings P (args ! 1))) (\<lambda>s. Inr (Start s)))"

section \<open>The settings are well formed\<close>

fun fsync_ok :: "fsync_strategy \<Rightarrow> bool" where
  "fsync_ok (FsyncEveryN n) \<longleftrightarrow> n \<noteq> 0"
| "fsync_ok (FsyncPeriodic n) \<longleftrightarrow> n \<noteq> 0"
| "fsync_ok FsyncAlways \<longleftrightarrow> True"
| "fsync_ok FsyncNever \<longleftrightarrow> True"

definition settings_ok :: "'f settings \<Rightarrow> bool" where
  "settings_ok s \<longleftrightarrow>
     1 \<le> set_block_size_kb s \<and> set_block_size_kb s \<le> 1024 \<and> fsync_ok (set_sync_strategy s) \<and>
     set_read_timeout_secs s \<noteq> Some 0 \<and> set_workers s \<noteq> Some 0"

lemma parse_digits_bound: "parse_digits limit acc bs = Some n \<Longrightarrow> acc < limit \<Longrightarrow> n < limit"
  by (induction bs arbitrary: acc) (auto simp: Let_def split: if_splits)

lemma parse_uint_bound: "parse_uint limit bs = Some n \<Longrightarrow> 0 < limit \<Longrightarrow> n < limit"
  by (auto simp: parse_uint_def Let_def split: if_splits list.splits dest: parse_digits_bound)

lemma of_nat_u64_nonzero: "n < 2 ^ 64 \<Longrightarrow> n \<noteq> 0 \<Longrightarrow> (of_nat n :: u64) \<noteq> 0"
proof
  assume n: "n < 2 ^ 64" "n \<noteq> 0" and "(of_nat n :: u64) = 0"
  then have "unat (of_nat n :: u64) = 0" by simp
  with n show False by (simp add: unat_of_nat)
qed

lemma parse_fsync_ok: "parse_fsync s = Inr f \<Longrightarrow> fsync_ok f"
  by (auto simp: parse_fsync_def split: if_splits option.splits dest!: parse_uint_bound dest: of_nat_u64_nonzero [simplified])

lemma apply_option_ok: "settings_ok s \<Longrightarrow> apply_option P k v s = Inr s' \<Longrightarrow> settings_ok s'"
proof (cases k)
  case OptFsync
  then show "settings_ok s \<Longrightarrow> apply_option P k v s = Inr s' \<Longrightarrow> settings_ok s'"
    using parse_fsync_ok [of v] by (cases "parse_fsync v") (auto simp: settings_ok_def unwrap_def)
next
  case OptBlockSizeKb
  then show "settings_ok s \<Longrightarrow> apply_option P k v s = Inr s' \<Longrightarrow> settings_ok s'"
    by (cases "parse_u64 v") (auto simp: settings_ok_def expect_def split: if_splits)
next
  case OptReadTimeout
  then show "settings_ok s \<Longrightarrow> apply_option P k v s = Inr s' \<Longrightarrow> settings_ok s'"
    by (cases "parse_u64 v") (auto simp: settings_ok_def expect_def split: if_splits)
next
  case OptWorkers
  then show "settings_ok s \<Longrightarrow> apply_option P k v s = Inr s' \<Longrightarrow> settings_ok s'"
    by (cases "parse_u64 v") (auto simp: settings_ok_def expect_def split: if_splits)
qed (auto simp: settings_ok_def and_then_Inr_iff)

lemma apply_args_ok: "settings_ok s \<Longrightarrow> apply_args P args s = Inr s' \<Longrightarrow> settings_ok s'"
  by (induction P args s rule: apply_args.induct)
    (auto simp: and_then_Inr_iff split: option.splits dest: apply_option_ok)

lemma started_settings_ok:
  assumes "get_from_args P args = Inr (Start s)"
  shows "settings_ok s"
proof -
  from assms have "apply_args P (drop 2 args) (default_settings P (args ! 1)) = Inr s"
    by (auto simp: get_from_args_def and_then_Inr_iff split: if_splits)
  moreover have "settings_ok (default_settings P (args ! 1))" by (simp add: settings_ok_def default_settings_def)
  ultimately show ?thesis using apply_args_ok by blast
qed

text \<open>C32. Whatever the command line is, settings that reach the server have a block size of 1 to 1024 KB, a positive fsync
  interval, no read timeout of zero and no worker count of zero. The other options are not checked: neither the number of levels
  and their sizes (see \<open>first_start\<close>), nor the limit of connections (see \<open>zero_limit_admits_nobody\<close>).\<close>

theorem settings_always_ok:
  assumes "get_from_args P args = Inr (Start s)"
  shows "1 \<le> set_block_size_kb s \<and> set_block_size_kb s \<le> 1024 \<and> fsync_ok (set_sync_strategy s) \<and>
         set_read_timeout_secs s \<noteq> Some 0 \<and> set_workers s \<noteq> Some 0"
  using started_settings_ok [OF assms] by (simp add: settings_ok_def)

definition no_parsers :: "unit std_parsers" where
  "no_parsers = \<lparr>parse_addr = (\<lambda>_. None), parse_f32 = (\<lambda>_. None), zero_f32 = ()\<rparr>"

theorem settings_always_ok_witness:
  "\<exists>s. get_from_args no_parsers [lit ''rustikv'', lit ''/db'', lit ''-w'', lit ''0'', lit ''-bsk'', lit ''64''] = Inr (Start s) \<and>
     set_block_size_kb s = 64 \<and> set_workers s \<noteq> Some 0"
proof -
  have neq: "lit a \<noteq> lit b" if "map (\<lambda>c. take_bit 7 (of_char c :: byte)) a \<noteq> map (\<lambda>c. take_bit 7 (of_char c :: byte)) b" for a b
    using that by (metis lit.rep_eq)
  have opts: "option_of (lit ''-w'') = Some OptWorkers" "option_of (lit ''-bsk'') = Some OptBlockSizeKb"
    by (simp_all add: option_of_def option_names_def neq of_char_def)
  have vals: "parse_u64 (lit ''0'') = Some 0" "parse_u64 (lit ''64'') = Some 64"
    by (simp_all add: parse_u64_def parse_uint_def Let_def of_char_def)
  let ?args = "[lit ''rustikv'', lit ''/db'', lit ''-w'', lit ''0'', lit ''-bsk'', lit ''64'']"
  have "\<exists>s. get_from_args no_parsers ?args = Inr (Start s) \<and> set_block_size_kb s = 64"
    by (simp add: get_from_args_def neq of_char_def opts vals expect_def)
  then show ?thesis using settings_always_ok by blast
qed

end
