(* ===== verification/Kv_Engine.thy ===== *)
theory Kv_Engine
  imports Segment_Index Wal_Log Hint_File Settings_Args Engine_Api
begin

text \<open>
  The hash-index engine (src/src/kvengine.rs). The data directory is part of the state; the log file and the open file of
  the active segment are fields of their own. Every operation runs under the engine's locks and is one step; the
  compaction is two steps, building the compacted segments (which takes no lock for long) and swapping them in, and other
  operations may run in between. Clock readings are arguments. \<open>fsync\<close> only counts: what the model keeps in a file is
  what the program wrote to it.
\<close>

section \<open>State\<close>

text \<open>The open file: the one the directory has under a name, or one that has been removed from the directory since.\<close>

datatype file_handle = Linked rstring | Unlinked bytes

record kv =
  kv_index :: hash_index
  kv_wal :: bytes
  kv_active_file :: file_handle
  kv_active_segment :: segment
  kv_db_name :: rstring
  kv_max_segment_bytes :: u64
  kv_writes_since_fsync :: u64
  kv_fsync_strategy :: fsync_strategy
  kv_dead_bytes :: u64
  kv_total_bytes :: u64
  kv_segment_count :: u64
  kv_dir :: dir

definition handle_bytes :: "dir \<Rightarrow> file_handle \<Rightarrow> bytes" where
  "handle_bytes d h = (case h of Linked name \<Rightarrow> (case map_of d name of Some bs \<Rightarrow> bs | None \<Rightarrow> []) | Unlinked bs \<Rightarrow> bs)"

text \<open>Appending a record to the open file: its offset, the handle and the directory.\<close>

definition handle_append :: "disk_record \<Rightarrow> file_handle \<Rightarrow> dir \<Rightarrow> u64 \<times> file_handle \<times> dir" where
  "handle_append r h d =
     (let (offset, bs) = record_append r (handle_bytes d h)
      in case h of
           Linked name \<Rightarrow> (offset, h, AList.update name bs d)
         | Unlinked _ \<Rightarrow> (offset, Unlinked bs, d))"

text \<open>Removing a name from the directory keeps the contents of an open file.\<close>

definition handle_unlink :: "rstring \<Rightarrow> dir \<Rightarrow> file_handle \<Rightarrow> file_handle" where
  "handle_unlink name d h = (if h = Linked name then Unlinked (handle_bytes d h) else h)"

section \<open>Lookup and append\<close>

definition kv_lookup :: "hash_index \<Rightarrow> dir \<Rightarrow> rstring \<Rightarrow> segment \<Rightarrow> rstring \<Rightarrow> u64 \<Rightarrow> rstring option res" where
  "kv_lookup index d db_name active_segment key now =
     (case index_get index key of
        None \<Rightarrow> Inr None
      | Some entry \<Rightarrow>
          if (case ie_expiry_ms entry of Some e \<Rightarrow> is_expired e now | None \<Rightarrow> False) then Inr None
          else
            and_then
              (if ie_segment_timestamp entry = seg_timestamp active_segment
               then open_read (segment_filename active_segment) d
               else open_read (segment_filename \<lparr>seg_name = db_name, seg_timestamp = ie_segment_timestamp entry\<rparr>) d)
              (\<lambda>bs. and_then (read_next (drop (unat (ie_offset entry)) bs)) (\<lambda>(record, _). Inr (Some (rec_value record)))))"

definition roll_active :: "u64 \<Rightarrow> kv \<Rightarrow> kv" where
  "roll_active ts s =
     (let segment = segment_new ts (kv_db_name s);
          d = open_create (segment_filename segment) (kv_dir s)
      in s\<lparr>kv_dir := d, kv_active_file := Linked (segment_filename segment), kv_active_segment := segment,
           kv_wal := wal_reset (kv_wal s), kv_segment_count := kv_segment_count s + 1\<rparr>)"

definition value_record :: "rstring \<Rightarrow> rstring \<Rightarrow> u64 option \<Rightarrow> disk_record" where
  "value_record key v expiry_ms = mk_record key v (if expiry_ms \<noteq> None then FLAG_HAS_EXPIRY else 0) expiry_ms"

definition tombstone_record :: "rstring \<Rightarrow> disk_record" where
  "tombstone_record key = mk_record key (lit []) FLAG_TOMBSTONE None"

text \<open>The sizes of the new record and of the one it replaces, and the state.\<close>

definition kv_append :: "u64 \<Rightarrow> rstring \<Rightarrow> rstring \<Rightarrow> u64 option \<Rightarrow> kv \<Rightarrow> (u64 \<times> u64 option \<times> kv) res" where
  "kv_append ts key v expiry_ms s =
     (let s = s\<lparr>kv_wal := snd (wal_append key v False expiry_ms (kv_wal s))\<rparr>;
          record = value_record key v expiry_ms;
          seg_size = of_nat (length (handle_bytes (kv_dir s) (kv_active_file s))) :: u64
      in and_then (checked_add64 seg_size (size_on_disk record)) (\<lambda>new_len.
           let s = (if kv_max_segment_bytes s < new_len then roll_active ts s else s);
               (offset, h, d) = handle_append record (kv_active_file s) (kv_dir s);
               new_size = size_on_disk record;
               (old, index) = index_set key offset (seg_timestamp (kv_active_segment s)) new_size expiry_ms (kv_index s)
           in Inr (new_size, map_option ie_record_size old, s\<lparr>kv_active_file := h, kv_dir := d, kv_index := index\<rparr>)))"

definition kv_fsync :: "kv \<Rightarrow> kv" where
  "kv_fsync s =
     (let n = kv_writes_since_fsync s + 1
      in case kv_fsync_strategy s of
           FsyncAlways \<Rightarrow> s\<lparr>kv_writes_since_fsync := 0\<rparr>
         | FsyncNever \<Rightarrow> s\<lparr>kv_writes_since_fsync := n\<rparr>
         | FsyncEveryN m \<Rightarrow> s\<lparr>kv_writes_since_fsync := if m \<le> n then 0 else n\<rparr>
         | FsyncPeriodic _ \<Rightarrow> s\<lparr>kv_writes_since_fsync := n\<rparr>)"

section \<open>Operations\<close>

definition kv_new :: "u64 \<Rightarrow> rstring \<Rightarrow> u64 \<Rightarrow> fsync_strategy \<Rightarrow> bytes \<Rightarrow> dir \<Rightarrow> kv" where
  "kv_new ts db_name max_segment_bytes fsync_strat wal d =
     (let segment = segment_new ts db_name
      in \<lparr>kv_index = index_new, kv_wal = wal, kv_active_file = Linked (segment_filename segment), kv_active_segment = segment,
          kv_db_name = db_name, kv_max_segment_bytes = max_segment_bytes, kv_writes_since_fsync = 0,
          kv_fsync_strategy = fsync_strat, kv_dead_bytes = 0, kv_total_bytes = 0, kv_segment_count = 1,
          kv_dir = open_create (segment_filename segment) d\<rparr>)"

definition kv_get :: "u64 \<Rightarrow> rstring \<Rightarrow> kv \<Rightarrow> (rstring \<times> rstring) option res" where
  "kv_get now key s =
     and_then (kv_lookup (kv_index s) (kv_dir s) (kv_db_name s) (kv_active_segment s) key now) (\<lambda>r.
       case r of Some v \<Rightarrow> Inr (Some (key, v)) | None \<Rightarrow> Inr None)"

text \<open>The counters after a write.\<close>

definition kv_count :: "u64 \<Rightarrow> u64 option \<Rightarrow> kv \<Rightarrow> kv" where
  "kv_count new_size replaced s =
     (let s = (case replaced of Some old_size \<Rightarrow> s\<lparr>kv_dead_bytes := kv_dead_bytes s + old_size\<rparr> | None \<Rightarrow> s)
      in s\<lparr>kv_total_bytes := kv_total_bytes s + new_size\<rparr>)"

definition kv_set_with_ttl :: "u64 \<Rightarrow> rstring \<Rightarrow> rstring \<Rightarrow> u64 option \<Rightarrow> kv \<Rightarrow> kv res" where
  "kv_set_with_ttl ts key v expiry_ms s =
     (if MAX_KEY_SIZE < len key \<or> MAX_VALUE_SIZE < len v
      then Inl (IoError InvalidInput (Message ''key or value exceeds maximum allowed size''))
      else and_then (kv_append ts key v expiry_ms s) (\<lambda>(new_size, replaced, s). Inr (kv_fsync (kv_count new_size replaced s))))"

definition kv_set :: "u64 \<Rightarrow> rstring \<Rightarrow> rstring \<Rightarrow> kv \<Rightarrow> kv res" where
  "kv_set ts key v s =
     (if MAX_KEY_SIZE < len key \<or> MAX_VALUE_SIZE < len v
      then Inl (IoError InvalidInput (Message ''key or value exceeds maximum allowed size''))
      else and_then (kv_append ts key v None s) (\<lambda>(new_size, replaced, s). Inr (kv_fsync (kv_count new_size replaced s))))"

definition kv_delete :: "rstring \<Rightarrow> kv \<Rightarrow> (unit option \<times> kv) res" where
  "kv_delete key s =
     (if MAX_KEY_SIZE < len key
      then Inl (IoError InvalidInput (Message ''key or value exceeds maximum allowed size''))
      else
        let s = s\<lparr>kv_wal := snd (wal_append key (lit []) True None (kv_wal s))\<rparr>;
            (old, index) = index_delete key (kv_index s);
            s = s\<lparr>kv_index := index\<rparr>
        in case old of
             Some entry \<Rightarrow>
               let record = tombstone_record key;
                   (offset, h, d) = handle_append record (kv_active_file s) (kv_dir s);
                   s = kv_fsync (s\<lparr>kv_active_file := h, kv_dir := d\<rparr>)
               in and_then (checked_add64 (ie_record_size entry) (size_on_disk record)) (\<lambda>dead.
                    Inr (Some (), s\<lparr>kv_dead_bytes := kv_dead_bytes s + dead, kv_total_bytes := kv_total_bytes s + size_on_disk record\<rparr>))
           | None \<Rightarrow> Inr (None, s))"

definition kv_ttl :: "u64 \<Rightarrow> u64 \<Rightarrow> rstring \<Rightarrow> u64 option \<Rightarrow> kv \<Rightarrow> (ttl_outcome \<times> kv) res" where
  "kv_ttl ts now key expiry_ms s =
     and_then (kv_lookup (kv_index s) (kv_dir s) (kv_db_name s) (kv_active_segment s) key now) (\<lambda>r.
       case r of
         None \<Rightarrow> Inr (TtlNotFound, s)
       | Some v \<Rightarrow>
           and_then (kv_append ts key v expiry_ms s) (\<lambda>(new_size, replaced, s).
             Inr (if expiry_ms \<noteq> None then TtlSet else TtlPersisted, kv_fsync (kv_count new_size replaced s))))"

definition kv_expired :: "u64 \<Rightarrow> index_entry \<Rightarrow> bool" where
  "kv_expired now e = (case ie_expiry_ms e of Some x \<Rightarrow> is_expired x now | None \<Rightarrow> False)"

definition kv_list_keys :: "(rstring list \<Rightarrow> rstring list) \<Rightarrow> u64 \<Rightarrow> kv \<Rightarrow> rstring list" where
  "kv_list_keys ord now s =
     filter (\<lambda>k. \<not> (case index_get (kv_index s) k of Some e \<Rightarrow> kv_expired now e | None \<Rightarrow> False)) (ls_keys ord (kv_index s))"

definition kv_exists :: "u64 \<Rightarrow> rstring \<Rightarrow> kv \<Rightarrow> bool" where
  "kv_exists now key s = (case index_get (kv_index s) key of Some e \<Rightarrow> \<not> kv_expired now e | None \<Rightarrow> False)"

fun kv_mget :: "(nat \<Rightarrow> u64) \<Rightarrow> nat \<Rightarrow> rstring list \<Rightarrow> kv \<Rightarrow> (rstring \<times> rstring option) list res" where
  "kv_mget clk i [] s = Inr []"
| "kv_mget clk i (key # keys) s =
     and_then (kv_get (clk i) key s) (\<lambda>r.
     and_then (kv_mget clk (i + 1) keys s) (\<lambda>res.
       Inr ((case r of Some (k, v) \<Rightarrow> (k, Some v) | None \<Rightarrow> (key, None)) # res)))"

fun kv_mset_with_ttl :: "(nat \<Rightarrow> u64) \<Rightarrow> nat \<Rightarrow> (rstring \<times> rstring \<times> u64 option) list \<Rightarrow> kv \<Rightarrow> kv res" where
  "kv_mset_with_ttl ts i [] s = Inr s"
| "kv_mset_with_ttl ts i ((k, v, expiry_ms) # items) s =
     and_then (kv_set_with_ttl (ts i) k v expiry_ms s) (kv_mset_with_ttl ts (i + 1) items)"

fun kv_mset :: "(nat \<Rightarrow> u64) \<Rightarrow> nat \<Rightarrow> (rstring \<times> rstring) list \<Rightarrow> kv \<Rightarrow> kv res" where
  "kv_mset ts i [] s = Inr s"
| "kv_mset ts i ((k, v) # items) s = and_then (kv_set (ts i) k v s) (kv_mset ts (i + 1) items)"

section \<open>Opening a directory\<close>

definition apply_hints :: "u64 \<Rightarrow> hint_entry list \<Rightarrow> hash_index \<Rightarrow> hash_index" where
  "apply_hints timestamp hints index =
     fold (\<lambda>entry index.
         if \<not> he_tombstone entry
         then snd (index_set (he_key entry) (he_offset entry) timestamp 0 (he_expiry_ms entry) index)
         else index) hints index"

text \<open>One segment of the loop: the index and the size so far. Any error of the hint file leads to the scan of the segment.\<close>

definition load_segment :: "dir \<Rightarrow> segment \<Rightarrow> hash_index \<times> u64 \<Rightarrow> (hash_index \<times> u64) res" where
  "load_segment d segment = (\<lambda>(index, size_sum).
     and_then (open_read (segment_filename segment) d) (\<lambda>bs.
     and_then
       (case and_then (open_read (segment_hint_filename segment) d) hint_read_file of
          Inr hints \<Rightarrow> Inr (apply_hints (seg_timestamp segment) hints index)
        | Inl (IoError _ _) \<Rightarrow> merge_from_file bs (seg_timestamp segment) index
        | Inl (Panic m) \<Rightarrow> Inl (Panic m))
       (\<lambda>index.
     and_then (file_len (segment_filename segment) d) (\<lambda>n.
     and_then (checked_add64 size_sum n) (\<lambda>size_sum. Inr (index, size_sum))))))"

text \<open>One entry of the replayed log, appended to the last segment.\<close>

definition replay_entry :: "segment \<Rightarrow> rstring \<times> memtable_entry \<Rightarrow> hash_index \<times> u64 \<times> dir \<Rightarrow> (hash_index \<times> u64 \<times> dir) res" where
  "replay_entry segment = (\<lambda>(key, entry) (index, size_sum, d).
     case me_value entry of
       Some val \<Rightarrow>
         let record = value_record key val (me_expiry_ms entry);
             (offset, _, d) = handle_append record (Linked (segment_filename segment)) d;
             index = snd (index_set key offset (seg_timestamp segment) (size_on_disk record) (me_expiry_ms entry) index)
         in and_then (checked_add64 size_sum (size_on_disk record)) (\<lambda>size_sum. Inr (index, size_sum, d))
     | None \<Rightarrow>
         let record = tombstone_record key;
             (_, _, d) = handle_append record (Linked (segment_filename segment)) d;
             index = snd (index_delete key index)
         in and_then (checked_add64 size_sum (size_on_disk record)) (\<lambda>size_sum. Inr (index, size_sum, d)))"

definition kv_from_dir :: "rstring \<Rightarrow> u64 \<Rightarrow> fsync_strategy \<Rightarrow> bytes \<Rightarrow> dir \<Rightarrow> kv option res" where
  "kv_from_dir db_name max_segment_bytes fsync_strat wal d =
     (let segments = get_segments d db_name
      in if segments = [] then Inr None
         else
           and_then (fold_res (load_segment d) segments (index_new, 0)) (\<lambda>(index, size_sum).
           and_then (wal_replay wal) (\<lambda>memtable.
             let segment = last segments
             in and_then (fold_res (replay_entry segment) (mt_entries memtable) (index, size_sum, d)) (\<lambda>(index, size_sum, d).
                  Inr (Some \<lparr>kv_index = index, kv_wal = wal_reset wal, kv_active_file = Linked (segment_filename segment),
                       kv_active_segment = segment, kv_db_name = db_name, kv_max_segment_bytes = max_segment_bytes,
                       kv_writes_since_fsync = 0, kv_fsync_strategy = fsync_strat, kv_dead_bytes = 0, kv_total_bytes = size_sum,
                       kv_segment_count = of_nat (length segments), kv_dir = d\<rparr>)))))"

section \<open>Compaction\<close>

text \<open>The clock readings of a compaction: of the new segment, of the filter of expired keys, and for the \<open>i\<close>-th key those
  of the read and of a possible roll.\<close>

record compact_clock =
  cc_new :: u64
  cc_now :: u64
  cc_get :: "nat \<Rightarrow> u64"
  cc_roll :: "nat \<Rightarrow> u64"

text \<open>The loop over the keys. The old engine and the new one share the directory and the log file.\<close>

fun copy_keys :: "compact_clock \<Rightarrow> nat \<Rightarrow> (rstring \<times> u64 option) list \<Rightarrow> kv \<Rightarrow> kv \<Rightarrow> kv res" where
  "copy_keys C i [] s new_db = Inr new_db"
| "copy_keys C i ((k, expiry_ms) # ks) s new_db =
     and_then (kv_get (cc_get C i) k (s\<lparr>kv_dir := kv_dir new_db\<rparr>)) (\<lambda>r.
       case r of
         None \<Rightarrow> copy_keys C (i + 1) ks s new_db
       | Some (_, v) \<Rightarrow> and_then (kv_set_with_ttl (cc_roll C i) k v expiry_ms new_db) (copy_keys C (i + 1) ks s))"

definition live_keys :: "(rstring list \<Rightarrow> rstring list) \<Rightarrow> u64 \<Rightarrow> hash_index \<Rightarrow> (rstring \<times> u64 option) list" where
  "live_keys ord now index =
     List.map_filter (\<lambda>k. case index_get index k of
         Some entry \<Rightarrow> if kv_expired now entry then None else Some (k, ie_expiry_ms entry)
       | None \<Rightarrow> None) (ls_keys ord index)"

definition hint_entries :: "(rstring list \<Rightarrow> rstring list) \<Rightarrow> segment \<Rightarrow> hash_index \<Rightarrow> hint_entry list" where
  "hint_entries ord segment index =
     List.map_filter (\<lambda>k. case index_get index k of
         Some entry \<Rightarrow>
           if ie_segment_timestamp entry = seg_timestamp segment
           then Some \<lparr>he_key_size = of_nat (len k), he_offset = ie_offset entry, he_tombstone = False,
                      he_expiry_ms = ie_expiry_ms entry, he_key = k\<rparr>
           else None
       | None \<Rightarrow> None) (ls_keys ord index)"

definition write_hints :: "(rstring list \<Rightarrow> rstring list) \<Rightarrow> hash_index \<Rightarrow> segment list \<Rightarrow> dir \<Rightarrow> dir" where
  "write_hints ord index segments d =
     fold (\<lambda>segment d. AList.update (segment_hint_filename segment) (hint_write_file (hint_entries ord segment index)) d) segments d"

definition build_compacted :: "(rstring list \<Rightarrow> rstring list) \<Rightarrow> compact_clock \<Rightarrow> kv \<Rightarrow> (kv \<times> segment list) res" where
  "build_compacted ord C s =
     (let old_segments = get_segments (kv_dir s) (kv_db_name s);
          new_db = kv_new (cc_new C) (kv_db_name s) (kv_max_segment_bytes s) (kv_fsync_strategy s) (kv_wal s) (kv_dir s)
      in and_then (copy_keys C 0 (live_keys ord (cc_now C) (kv_index s)) s new_db) (\<lambda>new_db.
           let new_segments = filter (\<lambda>seg. \<not> (\<exists>old \<in> set old_segments. seg_timestamp old = seg_timestamp seg))
                 (get_segments (kv_dir new_db) (kv_db_name s))
           in Inr (new_db\<lparr>kv_dir := write_hints ord (kv_index new_db) new_segments (kv_dir new_db)\<rparr>, old_segments)))"

text \<open>What the running engine sees of a compaction that is being built: the files.\<close>

definition share_files :: "kv \<Rightarrow> kv \<Rightarrow> kv" where
  "share_files new_db s = s\<lparr>kv_dir := kv_dir new_db, kv_wal := kv_wal new_db\<rparr>"

definition remove_segment :: "segment \<Rightarrow> file_handle \<times> dir \<Rightarrow> (file_handle \<times> dir) res" where
  "remove_segment segment = (\<lambda>(h, d).
     and_then (remove_file (segment_filename segment) d) (\<lambda>d'.
       Inr (handle_unlink (segment_filename segment) d h, AList.delete (segment_hint_filename segment) d')))"

definition swap_compacted :: "kv \<Rightarrow> segment list \<Rightarrow> kv \<Rightarrow> kv res" where
  "swap_compacted new_db old_segments s =
     (let s = s\<lparr>kv_active_file := kv_active_file new_db, kv_active_segment := kv_active_segment new_db, kv_index := kv_index new_db,
                kv_writes_since_fsync := 0, kv_segment_count := 1, kv_wal := wal_reset (kv_wal s)\<rparr>
      in and_then (fold_res remove_segment old_segments (kv_active_file s, kv_dir s)) (\<lambda>(h, d).
           Inr (s\<lparr>kv_active_file := h, kv_dir := d\<rparr>)))"

text \<open>A compaction that nothing interrupts.\<close>

definition kv_compact :: "(rstring list \<Rightarrow> rstring list) \<Rightarrow> compact_clock \<Rightarrow> kv \<Rightarrow> kv res" where
  "kv_compact ord C s =
     and_then (build_compacted ord C s) (\<lambda>(new_db, old_segments). swap_compacted new_db old_segments (share_files new_db s))"

end
