(* ===== verification/Kv_Correct.thy ===== *)
theory Kv_Correct
  imports Kv_Engine
begin

text \<open>
  Correctness of the hash-index engine between two restarts. The invariant says that every entry of the index points at a
  record of its key in a segment of the directory; writes only append to files, which keeps every entry valid. The engine
  satisfies the contract \<open>kv_store\<close>. Compaction keeps what every read returns, provided its segments are new.
\<close>

section \<open>Sizes\<close>

lemma value_record_ok:
  assumes "len k \<le> MAX_KEY_SIZE" and "len v \<le> MAX_VALUE_SIZE"
  shows "record_ok (value_record k v x)"
  using assms by (auto simp: value_record_def record_fits_def MAX_KEY_SIZE_def MAX_VALUE_SIZE_def intro!: record_wf_mk_record)

lemma tombstone_record_ok: "len k \<le> MAX_KEY_SIZE \<Longrightarrow> record_ok (tombstone_record k)"
  by (auto simp: tombstone_record_def record_fits_def MAX_KEY_SIZE_def MAX_VALUE_SIZE_def intro!: record_wf_mk_record)

lemma value_record_simps [simp]:
  "rec_key (value_record k v x) = k" "rec_value (value_record k v x) = v" "hdr_expiry_ms (rec_header (value_record k v x)) = x"
  "is_tombstone (rec_header (value_record k v x)) = False"
  by (simp_all add: value_record_def is_tombstone_def)

lemma tombstone_record_simps [simp]:
  "rec_key (tombstone_record k) = k" "is_tombstone (rec_header (tombstone_record k))"
  by (simp_all add: tombstone_record_def is_tombstone_def)

lemma size_on_disk_length:
  assumes "record_wf r"
  shows "size_on_disk r = of_nat (length (record_bytes r))"
proof -
  have "hdr_key_size (rec_header r) = of_nat (len (rec_key r))" "hdr_value_size (rec_header r) = of_nat (len (rec_value r))"
    using assms unfolding record_wf_def by (metis of_nat_unat ucast_id)+
  then show ?thesis by (simp add: size_on_disk_def length_record_bytes Let_def)
qed

lemma length_record_bound:
  "record_fits r \<Longrightarrow> length (record_bytes r) < 2 ^ 24"
  by (simp add: length_record_bytes record_fits_def MAX_KEY_SIZE_def MAX_VALUE_SIZE_def)

section \<open>Entries of the index\<close>

definition entry_at :: "dir \<Rightarrow> rstring \<Rightarrow> rstring \<Rightarrow> index_entry \<Rightarrow> rstring \<Rightarrow> bool" where
  "entry_at d name k e v \<longleftrightarrow>
     len k \<le> MAX_KEY_SIZE \<and> len v \<le> MAX_VALUE_SIZE \<and> unat (ie_record_size e) < 2 ^ 24 \<and>
     (\<exists>pre post. map_of d (segment_filename \<lparr>seg_name = name, seg_timestamp = ie_segment_timestamp e\<rparr>)
         = Some (pre @ record_bytes (value_record k v (ie_expiry_ms e)) @ post) \<and> unat (ie_offset e) = length pre)"

text \<open>Files only grow.\<close>

definition dir_extends :: "dir \<Rightarrow> dir \<Rightarrow> bool" where
  "dir_extends d d' \<longleftrightarrow> (\<forall>n bs. map_of d n = Some bs \<longrightarrow> (\<exists>post. map_of d' n = Some (bs @ post)))"

lemma dir_extends_refl [simp]: "dir_extends d d"
  by (simp add: dir_extends_def)

lemma dir_extends_trans: "dir_extends d d' \<Longrightarrow> dir_extends d' d'' \<Longrightarrow> dir_extends d d''"
  unfolding dir_extends_def by (metis append.assoc)

lemma dir_extends_create: "dir_extends d (open_create n d)"
  by (auto simp: dir_extends_def open_create_def)

lemma dir_extends_append: "map_of d n = Some bs \<Longrightarrow> dir_extends d (AList.update n (bs @ post) d)"
  by (auto simp: dir_extends_def)

text \<open>One file grows by less than the largest record; it is created when it does not exist.\<close>

definition file_or_empty :: "dir \<Rightarrow> rstring \<Rightarrow> bytes" where
  "file_or_empty d n = (case map_of d n of Some bs \<Rightarrow> bs | None \<Rightarrow> [])"

definition grows_only :: "rstring \<Rightarrow> dir \<Rightarrow> dir \<Rightarrow> bool" where
  "grows_only n d d' \<longleftrightarrow>
     (\<forall>m. m \<noteq> n \<longrightarrow> map_of d' m = map_of d m) \<and> (\<exists>post. map_of d' n = Some (file_or_empty d n @ post) \<and> length post < 2 ^ 24)"

lemma grows_only_extends: "grows_only n d d' \<Longrightarrow> dir_extends d d'"
  unfolding dir_extends_def
proof (intro allI impI)
  fix m bs assume g: "grows_only n d d'" and m: "map_of d m = Some bs"
  show "\<exists>post. map_of d' m = Some (bs @ post)"
    using g m by (cases "m = n") (auto simp: grows_only_def file_or_empty_def)
qed

lemma grows_only_create: "grows_only n (open_create n d) d' \<Longrightarrow> grows_only n d d'"
  by (auto simp: grows_only_def file_or_empty_def open_create_def)

lemma entry_at_extends: "entry_at d name k e v \<Longrightarrow> dir_extends d d' \<Longrightarrow> entry_at d' name k e v"
  unfolding entry_at_def dir_extends_def by (metis append.assoc)

definition index_ok :: "hash_index \<Rightarrow> dir \<Rightarrow> rstring \<Rightarrow> bool" where
  "index_ok index d name \<longleftrightarrow> (\<forall>k e. map_of index k = Some e \<longrightarrow> (\<exists>v. entry_at d name k e v))"

lemma index_okD: "index_ok index d name \<Longrightarrow> map_of index k = Some e \<Longrightarrow> \<exists>v. entry_at d name k e v"
  by (simp add: index_ok_def)

lemma index_ok_extends: "index_ok index d name \<Longrightarrow> dir_extends d d' \<Longrightarrow> index_ok index d' name"
  unfolding index_ok_def using entry_at_extends by blast

lemma index_ok_update: "index_ok index d name \<Longrightarrow> entry_at d name k e v \<Longrightarrow> index_ok (AList.update k e index) d name"
  unfolding index_ok_def by (auto simp: update_conv')

lemma index_ok_delete: "index_ok index d name \<Longrightarrow> index_ok (AList.delete k index) d name"
  unfolding index_ok_def by (auto simp: delete_conv' restrict_map_def split: if_splits)

definition kv_inv :: "kv \<Rightarrow> bool" where
  "kv_inv s \<longleftrightarrow>
     seg_name (kv_active_segment s) = kv_db_name s \<and> kv_active_file s = Linked (segment_filename (kv_active_segment s)) \<and>
     map_of (kv_dir s) (segment_filename (kv_active_segment s)) \<noteq> None \<and> distinct (map fst (kv_index s)) \<and>
     index_ok (kv_index s) (kv_dir s) (kv_db_name s)"

lemma lookup_entry:
  assumes "entry_at d name k e v" and "map_of index k = Some e" and "seg_name active = name"
  shows "kv_lookup index d name active k now = Inr (if kv_expired now e then None else Some v)"
proof -
  let ?seg = "\<lparr>seg_name = name, seg_timestamp = ie_segment_timestamp e\<rparr>"
  from assms(1) obtain pre post where f: "map_of d (segment_filename ?seg) = Some (pre @ record_bytes (value_record k v (ie_expiry_ms e)) @ post)"
    "unat (ie_offset e) = length pre" and ok: "record_ok (value_record k v (ie_expiry_ms e))"
    by (auto simp: entry_at_def value_record_ok)
  have "active = ?seg" if "ie_segment_timestamp e = seg_timestamp active" using that assms(3) by simp
  then have "(if ie_segment_timestamp e = seg_timestamp active then open_read (segment_filename active) d
      else open_read (segment_filename ?seg) d) = Inr (pre @ record_bytes (value_record k v (ie_expiry_ms e)) @ post)"
    using f(1) by (auto simp: open_read_def)
  then show ?thesis
    using f(2) assms(2) read_next_record_bytes [OF ok, of post]
    by (simp add: kv_lookup_def index_get_def kv_expired_def)
qed

section \<open>Reading\<close>

definition kv_val :: "u64 \<Rightarrow> kv \<Rightarrow> rstring \<Rightarrow> rstring option" where
  "kv_val t s k = (case kv_get t k s of Inr (Some (_, v)) \<Rightarrow> Some v | _ \<Rightarrow> None)"

lemma kv_get_entry:
  assumes "kv_inv s" and "map_of (kv_index s) k = Some e" and "entry_at (kv_dir s) (kv_db_name s) k e v"
  shows "kv_get t k s = Inr (if kv_expired t e then None else Some (k, v))"
    and "kv_val t s k = (if kv_expired t e then None else Some v)"
  using lookup_entry [OF assms(3,2)] assms(1) by (simp_all add: kv_get_def kv_val_def kv_inv_def)

lemma kv_get_absent:
  assumes "map_of (kv_index s) k = None"
  shows "kv_get t k s = Inr None" and "kv_val t s k = None"
  using assms by (simp_all add: kv_get_def kv_val_def kv_lookup_def index_get_def)

lemma kv_get_val:
  assumes "kv_inv s"
  shows "kv_get t k s = Inr (map_option (Pair k) (kv_val t s k))"
proof (cases "map_of (kv_index s) k")
  case None
  then show ?thesis by (simp add: kv_get_absent)
next
  case (Some e)
  with assms obtain v where "entry_at (kv_dir s) (kv_db_name s) k e v" unfolding kv_inv_def by (blast dest: index_okD)
  from kv_get_entry [OF assms Some this] show ?thesis by simp
qed

text \<open>Two states whose indexes agree on a key, the second with longer files.\<close>

lemma kv_val_extends:
  assumes "kv_inv s" and "kv_inv s'" and "map_of (kv_index s') k = map_of (kv_index s) k" and "dir_extends (kv_dir s) (kv_dir s')"
    and "kv_db_name s' = kv_db_name s"
  shows "kv_val t s' k = kv_val t s k"
proof (cases "map_of (kv_index s) k")
  case None
  then show ?thesis using assms(3) by (simp add: kv_get_absent)
next
  case (Some e)
  with assms(1) obtain v where v: "entry_at (kv_dir s) (kv_db_name s) k e v" unfolding kv_inv_def by (blast dest: index_okD)
  then have "entry_at (kv_dir s') (kv_db_name s') k e v" using assms(4,5) entry_at_extends by simp
  with kv_get_entry(2) [OF assms(2), of k e v t] kv_get_entry(2) [OF assms(1) Some v, of t] Some assms(3) show ?thesis by simp
qed

section \<open>Writing\<close>

definition small_files :: "dir \<Rightarrow> bool" where
  "small_files d \<longleftrightarrow> (\<forall>n bs. map_of d n = Some bs \<longrightarrow> length bs < 2 ^ 63)"

lemma kv_counters [simp]:
  "kv_index (kv_fsync s) = kv_index s" "kv_dir (kv_fsync s) = kv_dir s" "kv_db_name (kv_fsync s) = kv_db_name s"
  "kv_active_segment (kv_fsync s) = kv_active_segment s" "kv_active_file (kv_fsync s) = kv_active_file s" "kv_wal (kv_fsync s) = kv_wal s"
  "kv_index (kv_count n r s) = kv_index s" "kv_dir (kv_count n r s) = kv_dir s" "kv_db_name (kv_count n r s) = kv_db_name s"
  "kv_active_segment (kv_count n r s) = kv_active_segment s" "kv_active_file (kv_count n r s) = kv_active_file s" "kv_wal (kv_count n r s) = kv_wal s"
  by (auto simp: kv_fsync_def kv_count_def Let_def split: fsync_strategy.split option.split)

lemma kv_inv_counters [simp]: "kv_inv (kv_fsync s) = kv_inv s" "kv_inv (kv_count n r s) = kv_inv s"
  by (simp_all add: kv_inv_def)

lemma roll_active_facts:
  assumes "kv_inv s"
  shows "kv_inv (roll_active ts s)" and "dir_extends (kv_dir s) (kv_dir (roll_active ts s))"
    and "kv_index (roll_active ts s) = kv_index s" and "kv_db_name (roll_active ts s) = kv_db_name s"
    and "small_files (kv_dir s) \<Longrightarrow> small_files (kv_dir (roll_active ts s))"
    and "seg_timestamp (kv_active_segment (roll_active ts s)) = ts"
proof -
  let ?d = "kv_dir (roll_active ts s)"
  show ext: "dir_extends (kv_dir s) ?d" by (simp add: roll_active_def Let_def dir_extends_create)
  show "kv_index (roll_active ts s) = kv_index s" "kv_db_name (roll_active ts s) = kv_db_name s"
    "seg_timestamp (kv_active_segment (roll_active ts s)) = ts"
    by (simp_all add: roll_active_def Let_def segment_new_def)
  show "small_files (kv_dir s) \<Longrightarrow> small_files ?d"
    by (auto simp: roll_active_def Let_def small_files_def open_create_def)
  have "map_of (open_create n d) n \<noteq> None" for n d by (auto simp: open_create_def)
  then show "kv_inv (roll_active ts s)"
    using assms index_ok_extends [OF _ ext, of "kv_index s" "kv_db_name s"]
    by (simp add: kv_inv_def roll_active_def Let_def segment_new_def)
qed

lemma append_record:
  assumes "kv_inv s" and "small_files (kv_dir s)"
    and "handle_append r (kv_active_file s) (kv_dir s) = (offset, h, d)"
  shows "h = kv_active_file s" and "dir_extends (kv_dir s) d"
    and "record_fits r \<Longrightarrow> grows_only (segment_filename (kv_active_segment s)) (kv_dir s) d"
    and "\<exists>pre. map_of d (segment_filename (kv_active_segment s)) = Some (pre @ record_bytes r) \<and> unat offset = length pre"
proof -
  let ?n = "segment_filename (kv_active_segment s)"
  from assms(1) obtain bs where bs: "map_of (kv_dir s) ?n = Some bs" and h: "kv_active_file s = Linked ?n" by (auto simp: kv_inv_def)
  have "offset = of_nat (length bs)" "h = kv_active_file s" "d = AList.update ?n (bs @ record_bytes r) (kv_dir s)"
    using assms(3) by (simp_all add: handle_append_def handle_bytes_def record_append_def h bs)
  moreover have "length bs < 2 ^ 64" using assms(2) bs by (force simp: small_files_def)
  ultimately show "h = kv_active_file s" "dir_extends (kv_dir s) d" "record_fits r \<Longrightarrow> grows_only ?n (kv_dir s) d"
    "\<exists>pre. map_of d ?n = Some (pre @ record_bytes r) \<and> unat offset = length pre"
    using dir_extends_append [OF bs] length_record_bound [of r] bs by (auto simp: unat_of_nat grows_only_def file_or_empty_def)
qed

lemma kv_append_facts:
  assumes inv: "kv_inv s" and small: "small_files (kv_dir s)" and fits: "len k \<le> MAX_KEY_SIZE" "len v \<le> MAX_VALUE_SIZE"
  shows "\<exists>sz old s' e. kv_append ts k v x s = Inr (sz, old, s') \<and> kv_inv s' \<and> grows_only (segment_filename (kv_active_segment s')) (kv_dir s) (kv_dir s') \<and>
           map_of (kv_index s') = (map_of (kv_index s))(k \<mapsto> e) \<and> entry_at (kv_dir s') (kv_db_name s') k e v \<and>
           ie_expiry_ms e = x \<and> kv_db_name s' = kv_db_name s \<and> ie_segment_timestamp e = seg_timestamp (kv_active_segment s') \<and>
           (kv_active_segment s' = kv_active_segment s \<or> seg_timestamp (kv_active_segment s') = ts)"
proof -
  let ?r = "value_record k v x"
  let ?s0 = "s\<lparr>kv_wal := snd (wal_append k v False x (kv_wal s))\<rparr>"
  have ok: "record_ok ?r" using fits by (rule value_record_ok)
  have inv0: "kv_inv ?s0" and small0: "small_files (kv_dir ?s0)" using inv small by (simp_all add: kv_inv_def)
  from inv obtain bs where bs: "handle_bytes (kv_dir s) (kv_active_file s) = bs" "length bs < 2 ^ 63"
    using small by (auto simp: kv_inv_def handle_bytes_def small_files_def split: option.splits)
  have "length bs + length (record_bytes ?r) < 2 ^ 64" using bs(2) length_record_bound [of ?r] ok by simp
  then have len: "checked_add64 (of_nat (length bs)) (size_on_disk ?r) = Inr (of_nat (length bs + length (record_bytes ?r)))"
    using ok by (simp add: size_on_disk_length)
  define s1 where "s1 = (if kv_max_segment_bytes ?s0 < of_nat (length bs + length (record_bytes ?r)) then roll_active ts ?s0 else ?s0)"
  have s1: "kv_inv s1" "small_files (kv_dir s1)" "dir_extends (kv_dir s) (kv_dir s1)" "kv_index s1 = kv_index s" "kv_db_name s1 = kv_db_name s"
    "kv_active_segment s1 = kv_active_segment s \<or> seg_timestamp (kv_active_segment s1) = ts"
    using roll_active_facts [OF inv0, of ts] inv0 small0 by (simp_all add: s1_def)
  obtain offset h d where app: "handle_append ?r (kv_active_file s1) (kv_dir s1) = (offset, h, d)"
    by (cases "handle_append ?r (kv_active_file s1) (kv_dir s1)") auto
  note a = append_record [OF s1(1,2) app]
  define e where "e = \<lparr>ie_segment_timestamp = seg_timestamp (kv_active_segment s1), ie_offset = offset, ie_record_size = size_on_disk ?r, ie_expiry_ms = x\<rparr>"
  define s' where "s' = s1\<lparr>kv_active_file := h, kv_dir := d, kv_index := AList.update k e (kv_index s1)\<rparr>"
  have "kv_active_segment s1 = \<lparr>seg_name = kv_db_name s, seg_timestamp = seg_timestamp (kv_active_segment s1)\<rparr>"
    using s1(1,5) by (simp add: kv_inv_def)
  moreover have "unat (size_on_disk ?r) < 2 ^ 24"
    using ok length_record_bound [of ?r] by (simp add: size_on_disk_length unat_of_nat)
  ultimately have e: "entry_at (kv_dir s') (kv_db_name s') k e v"
    using a(4) fits by (simp add: entry_at_def e_def s'_def s1(5)) (metis append_Nil2)
  have upd: "map_of (kv_index s') = (map_of (kv_index s))(k \<mapsto> e)" by (simp add: s'_def s1(4) update_conv')
  have "index_ok (kv_index s1) d (kv_db_name s1)" using s1(1) index_ok_extends [OF _ a(2)] by (simp add: kv_inv_def)
  with e have "index_ok (kv_index s') (kv_dir s') (kv_db_name s')" by (simp add: s'_def index_ok_update)
  with s1(1) a have "kv_inv s'" by (auto simp: s'_def kv_inv_def distinct_update)
  moreover have "kv_append ts k v x s = Inr (size_on_disk ?r, map_option ie_record_size (map_of (kv_index s1) k), s')"
    using len by (simp add: kv_append_def bs Let_def s1_def [symmetric, simplified] app index_set_def s'_def e_def)
  moreover have "grows_only (segment_filename (kv_active_segment s')) (kv_dir s) (kv_dir s')"
  proof (cases "kv_max_segment_bytes ?s0 < of_nat (length bs + length (record_bytes ?r))")
    case True
    then have "kv_dir s1 = open_create (segment_filename (kv_active_segment s1)) (kv_dir s)"
      by (simp add: s1_def roll_active_def Let_def segment_new_def)
    with a(3) ok have "grows_only (segment_filename (kv_active_segment s1)) (open_create (segment_filename (kv_active_segment s1)) (kv_dir s)) d" by simp
    from grows_only_create [OF this] show ?thesis by (simp add: s'_def)
  next
    case False
    with a(3) ok show ?thesis by (simp add: s'_def s1_def)
  qed
  ultimately show ?thesis
    using upd e s1(5,6)
    by (intro exI [of _ "size_on_disk ?r"] exI [of _ "map_option ie_record_size (map_of (kv_index s1) k)"] exI [of _ s'] exI [of _ e])
      (simp add: s'_def e_def)
qed

lemma kv_set_facts:
  assumes inv: "kv_inv s" and small: "small_files (kv_dir s)" and fits: "len k \<le> MAX_KEY_SIZE" "len v \<le> MAX_VALUE_SIZE"
  shows "\<exists>s' e. kv_set_with_ttl ts k v x s = Inr s' \<and> kv_inv s' \<and> grows_only (segment_filename (kv_active_segment s')) (kv_dir s) (kv_dir s') \<and>
           map_of (kv_index s') = (map_of (kv_index s))(k \<mapsto> e) \<and> entry_at (kv_dir s') (kv_db_name s') k e v \<and>
           ie_expiry_ms e = x \<and> kv_db_name s' = kv_db_name s \<and> ie_segment_timestamp e = seg_timestamp (kv_active_segment s') \<and>
           (kv_active_segment s' = kv_active_segment s \<or> seg_timestamp (kv_active_segment s') = ts)"
  using kv_append_facts [OF assms, of ts x] fits
  by (elim exE conjE) (simp add: kv_set_with_ttl_def not_less, blast)

text \<open>What a change of one key of the index does to the values.\<close>

lemma kv_val_update:
  assumes "kv_inv s" and "kv_inv s'" and "dir_extends (kv_dir s) (kv_dir s')" and "kv_db_name s' = kv_db_name s"
    and "map_of (kv_index s') = (map_of (kv_index s))(k \<mapsto> e)" and "entry_at (kv_dir s') (kv_db_name s') k e v"
  shows "kv_val t s' j = (if j = k then (if kv_expired t e then None else Some v) else kv_val t s j)"
  using kv_get_entry(2) [OF assms(2) _ assms(6)] kv_val_extends [OF assms(1,2) _ assms(3,4)] assms(5) by simp

lemma kv_set_val:
  assumes "kv_inv s" and "small_files (kv_dir s)" and "len k \<le> MAX_KEY_SIZE" "len v \<le> MAX_VALUE_SIZE"
  shows "\<exists>s'. kv_set_with_ttl ts k v x s = Inr s' \<and> kv_inv s' \<and>
           (\<forall>t j. kv_val t s' j = (if j = k then (if (\<exists>e. x = Some e \<and> e \<le> t) then None else Some v) else kv_val t s j))"
proof -
  from kv_set_facts [OF assms, of ts x] obtain s' e where s': "kv_set_with_ttl ts k v x s = Inr s'" "kv_inv s'" "grows_only (segment_filename (kv_active_segment s')) (kv_dir s) (kv_dir s')"
    "map_of (kv_index s') = (map_of (kv_index s))(k \<mapsto> e)" "entry_at (kv_dir s') (kv_db_name s') k e v" "ie_expiry_ms e = x" "kv_db_name s' = kv_db_name s"
    by (elim exE conjE) (rule that)
  have "kv_expired t e = (\<exists>e. x = Some e \<and> e \<le> t)" for t
    using s'(6) by (auto simp: kv_expired_def is_expired_def split: option.split)
  with s'(1,2) kv_val_update [OF assms(1) s'(2) grows_only_extends [OF s'(3)] s'(7,4,5)] show ?thesis by simp
qed

lemma kv_delete_val:
  assumes inv: "kv_inv s" and small: "small_files (kv_dir s)" and fits: "len k \<le> MAX_KEY_SIZE"
  shows "\<exists>r s'. kv_delete k s = Inr (r, s') \<and> kv_inv s' \<and> (r = None \<longleftrightarrow> map_of (kv_index s) k = None) \<and>
           (\<forall>t j. kv_val t s' j = (if j = k then None else kv_val t s j))"
proof (cases "map_of (kv_index s) k")
  case None
  define s' where "s' = s\<lparr>kv_wal := snd (wal_append k (lit []) True None (kv_wal s)), kv_index := AList.delete k (kv_index s)\<rparr>"
  have inv': "kv_inv s'" using inv by (simp add: kv_inv_def s'_def index_ok_delete distinct_delete)
  have "kv_val t s' j = (if j = k then None else kv_val t s j)" for t j
    using kv_val_extends [OF inv inv', of j t] None by (auto simp: s'_def kv_get_absent)
  moreover have "kv_delete k s = Inr (None, s')" using fits None by (simp add: kv_delete_def index_delete_def s'_def)
  ultimately show ?thesis using inv' None by blast
next
  case (Some e)
  let ?r = "tombstone_record k"
  have ok: "record_ok ?r" using fits by (rule tombstone_record_ok)
  obtain offset h d where app: "handle_append ?r (kv_active_file s) (kv_dir s) = (offset, h, d)"
    by (cases "handle_append ?r (kv_active_file s) (kv_dir s)") auto
  note a = append_record [OF inv small app]
  from inv Some obtain v where "entry_at (kv_dir s) (kv_db_name s) k e v" unfolding kv_inv_def by (blast dest: index_okD)
  then have "unat (ie_record_size e) < 2 ^ 24" by (simp add: entry_at_def)
  moreover have "unat (size_on_disk ?r) < 2 ^ 24"
    using ok length_record_bound [of ?r] by (simp add: size_on_disk_length unat_of_nat)
  ultimately have sum: "checked_add64 (ie_record_size e) (size_on_disk ?r) = Inr (ie_record_size e + size_on_disk ?r)"
    by (simp add: checked_add64_def)
  define s1 where "s1 = kv_fsync (s\<lparr>kv_wal := snd (wal_append k (lit []) True None (kv_wal s)), kv_index := AList.delete k (kv_index s),
     kv_active_file := h, kv_dir := d\<rparr>)"
  define s' where "s' = s1\<lparr>kv_dead_bytes := kv_dead_bytes s1 + (ie_record_size e + size_on_disk ?r), kv_total_bytes := kv_total_bytes s1 + size_on_disk ?r\<rparr>"
  have idx: "index_ok (AList.delete k (kv_index s)) d (kv_db_name s)"
    using inv index_ok_extends [OF index_ok_delete a(2)] by (simp add: kv_inv_def)
  have inv': "kv_inv s'" using inv a idx by (auto simp: kv_inv_def s'_def s1_def distinct_delete)
  have "kv_val t s' j = (if j = k then None else kv_val t s j)" for t j
    using kv_val_extends [OF inv inv', of j t] a(2) by (auto simp: s'_def s1_def kv_get_absent)
  moreover have "kv_delete k s = Inr (Some (), s')"
    using fits Some app sum by (simp add: kv_delete_def index_delete_def s'_def s1_def Let_def)
  ultimately show ?thesis using inv' Some by (intro exI [of _ "Some ()"] exI [of _ s']) simp
qed

interpretation kv: kv_store kv_inv "\<lambda>_ s. small_files (kv_dir s)" kv_val "\<lambda>k v. len k \<le> MAX_KEY_SIZE \<and> len v \<le> MAX_VALUE_SIZE"
    kv_get kv_set_with_ttl "\<lambda>_ _. kv_delete"
proof
  fix s :: kv and ts now k v assume "kv_inv s" "small_files (kv_dir s)" "len k \<le> MAX_KEY_SIZE \<and> len v \<le> MAX_VALUE_SIZE"
  with kv_delete_val [of s k] show "\<exists>r s'. kv_delete k s = Inr (r, s') \<and> kv_inv s' \<and> (\<forall>t j. kv_val t s' j = (if j = k then None else kv_val t s j))"
    by blast
qed (use kv_get_val kv_set_val in auto)

end
