(* ===== verification/Kv_Compaction.thy ===== *)
theory Kv_Compaction
  imports Kv_Correct
begin

text \<open>
  Compaction of the hash-index engine: the loop that copies the live keys, the hint files, the swap and the removal of the
  old segments. When the new segments get names no old segment has, every read answers as before.
\<close>

section \<open>Copying the live keys\<close>

text \<open>The timestamp of a segment the old engine does not have.\<close>

definition new_seg :: "kv \<Rightarrow> u64 \<Rightarrow> bool" where
  "new_seg s ts \<longleftrightarrow> map_of (kv_dir s) (segment_filename \<lparr>seg_name = kv_db_name s, seg_timestamp = ts\<rparr>) = None"

definition old_files_kept :: "kv \<Rightarrow> dir \<Rightarrow> bool" where
  "old_files_kept s d \<longleftrightarrow> (\<forall>n bs. map_of (kv_dir s) n = Some bs \<longrightarrow> map_of d n = Some bs)"

definition new_files_small :: "kv \<Rightarrow> nat \<Rightarrow> dir \<Rightarrow> bool" where
  "new_files_small s i d \<longleftrightarrow> (\<forall>n bs. map_of (kv_dir s) n = None \<longrightarrow> map_of d n = Some bs \<longrightarrow> length bs \<le> i * 2 ^ 24)"

definition new_entries :: "kv \<Rightarrow> hash_index \<Rightarrow> bool" where
  "new_entries s index \<longleftrightarrow> (\<forall>k e. map_of index k = Some e \<longrightarrow> new_seg s (ie_segment_timestamp e))"

definition copy_inv :: "kv \<Rightarrow> nat \<Rightarrow> kv \<Rightarrow> bool" where
  "copy_inv s i db \<longleftrightarrow>
     kv_inv db \<and> kv_db_name db = kv_db_name s \<and> old_files_kept s (kv_dir db) \<and> new_files_small s i (kv_dir db) \<and>
     new_seg s (seg_timestamp (kv_active_segment db)) \<and> new_entries s (kv_index db)"

text \<open>The new engine answers for a key as the old one does, from a time on.\<close>

definition copied :: "u64 \<Rightarrow> kv \<Rightarrow> kv \<Rightarrow> rstring \<Rightarrow> bool" where
  "copied T s db k \<longleftrightarrow>
     (case map_of (kv_index db) k of
        None \<Rightarrow> (\<forall>t. T \<le> t \<longrightarrow> kv_val t s k = None)
      | Some e' \<Rightarrow> (\<exists>e v. map_of (kv_index s) k = Some e \<and> entry_at (kv_dir s) (kv_db_name s) k e v \<and>
                     entry_at (kv_dir db) (kv_db_name s) k e' v \<and> ie_expiry_ms e' = ie_expiry_ms e))"

lemma old_files_extends: "old_files_kept s d \<Longrightarrow> dir_extends (kv_dir s) d"
  by (auto simp: old_files_kept_def dir_extends_def)

lemma copy_inv_small:
  assumes "copy_inv s i db" and "small_files (kv_dir s)" and "i < 2 ^ 38"
  shows "small_files (kv_dir db)"
  unfolding small_files_def
proof (intro allI impI)
  fix n bs assume bs: "map_of (kv_dir db) n = Some bs"
  show "length bs < 2 ^ 63"
  proof (cases "map_of (kv_dir s) n")
    case None
    with assms(1) bs have "length bs \<le> i * 2 ^ 24" by (auto simp: copy_inv_def new_files_small_def)
    with assms(3) show ?thesis by simp
  next
    case (Some bs')
    with assms(1,2) bs show ?thesis by (auto simp: copy_inv_def old_files_kept_def small_files_def)
  qed
qed

text \<open>A write to a file the old engine does not have.\<close>

lemma grows_copy:
  assumes "grows_only (segment_filename \<lparr>seg_name = kv_db_name s, seg_timestamp = ts\<rparr>) d d'" and "new_seg s ts"
    and "old_files_kept s d" and "new_files_small s i d"
  shows "old_files_kept s d'" and "new_files_small s (Suc i) d'"
proof -
  let ?n = "segment_filename \<lparr>seg_name = kv_db_name s, seg_timestamp = ts\<rparr>"
  have new: "map_of (kv_dir s) ?n = None" using assms(2) by (simp add: new_seg_def)
  show "old_files_kept s d'"
    unfolding old_files_kept_def
  proof (intro allI impI)
    fix m bs assume m: "map_of (kv_dir s) m = Some bs"
    then have "m \<noteq> ?n" using new by auto
    with assms(1,3) m show "map_of d' m = Some bs" by (simp add: grows_only_def old_files_kept_def)
  qed
  show "new_files_small s (Suc i) d'"
    unfolding new_files_small_def
  proof (intro allI impI)
    fix m bs assume m: "map_of (kv_dir s) m = None" "map_of d' m = Some bs"
    show "length bs \<le> Suc i * 2 ^ 24"
    proof (cases "m = ?n")
      case True
      with assms(1) m obtain post where p: "bs = file_or_empty d ?n @ post" "length post < 2 ^ 24" by (auto simp: grows_only_def)
      have "length (file_or_empty d ?n) \<le> i * 2 ^ 24"
        using assms(4) new by (auto simp: file_or_empty_def new_files_small_def split: option.split)
      with p show ?thesis by simp
    next
      case False
      with assms(1,4) m have "length bs \<le> i * 2 ^ 24" by (auto simp: grows_only_def new_files_small_def)
      then show ?thesis by simp
    qed
  qed
qed

lemma copy_set:
  assumes inv: "copy_inv s i db" and small: "small_files (kv_dir s)" and i: "i < 2 ^ 38"
    and e: "map_of (kv_index s) k = Some e" "entry_at (kv_dir s) (kv_db_name s) k e v" and ts: "new_seg s ts"
  shows "\<exists>db'. kv_set_with_ttl ts k v (ie_expiry_ms e) db = Inr db' \<and> copy_inv s (Suc i) db' \<and> copied T s db' k \<and>
           (\<forall>j. j \<noteq> k \<longrightarrow> map_of (kv_index db') j = map_of (kv_index db) j) \<and> dir_extends (kv_dir db) (kv_dir db')"
proof -
  have kinv: "kv_inv db" and name: "kv_db_name db = kv_db_name s" using inv by (simp_all add: copy_inv_def)
  have fits: "len k \<le> MAX_KEY_SIZE" "len v \<le> MAX_VALUE_SIZE" using e(2) by (simp_all add: entry_at_def)
  from kv_set_facts [OF kinv copy_inv_small [OF inv small i] fits, of ts "ie_expiry_ms e"] obtain db' e' where
    db': "kv_set_with_ttl ts k v (ie_expiry_ms e) db = Inr db'" "kv_inv db'"
    "grows_only (segment_filename (kv_active_segment db')) (kv_dir db) (kv_dir db')"
    "map_of (kv_index db') = (map_of (kv_index db))(k \<mapsto> e')" "entry_at (kv_dir db') (kv_db_name db') k e' v"
    "ie_expiry_ms e' = ie_expiry_ms e" "kv_db_name db' = kv_db_name db" "ie_segment_timestamp e' = seg_timestamp (kv_active_segment db')"
    "kv_active_segment db' = kv_active_segment db \<or> seg_timestamp (kv_active_segment db') = ts"
    by (elim exE conjE) (rule that)
  have act: "new_seg s (seg_timestamp (kv_active_segment db'))" using db'(9) inv ts by (auto simp: copy_inv_def)
  have "kv_active_segment db' = \<lparr>seg_name = kv_db_name s, seg_timestamp = seg_timestamp (kv_active_segment db')\<rparr>"
    using db'(2,7) name by (simp add: kv_inv_def)
  with db'(3) have "grows_only (segment_filename \<lparr>seg_name = kv_db_name s, seg_timestamp = seg_timestamp (kv_active_segment db')\<rparr>) (kv_dir db) (kv_dir db')"
    by simp
  from grows_copy [OF this act, of i] inv have "old_files_kept s (kv_dir db')" "new_files_small s (Suc i) (kv_dir db')"
    by (simp_all add: copy_inv_def)
  moreover have "new_entries s (kv_index db')" using inv db'(4,8) act by (auto simp: copy_inv_def new_entries_def)
  ultimately have "copy_inv s (Suc i) db'" using db'(2,7) name act by (simp add: copy_inv_def)
  moreover have "copied T s db' k" using db'(4,5,6,7) e name by (auto simp: copied_def)
  ultimately show ?thesis using db'(1,4) grows_only_extends [OF db'(3)] by auto
qed

lemma copied_step:
  assumes "copied T s db k" and "map_of (kv_index db') k = map_of (kv_index db) k" and "dir_extends (kv_dir db) (kv_dir db')"
  shows "copied T s db' k"
proof (cases "map_of (kv_index db) k")
  case None
  with assms show ?thesis by (simp add: copied_def)
next
  case (Some e')
  with assms(1) obtain e v where "map_of (kv_index s) k = Some e" "entry_at (kv_dir s) (kv_db_name s) k e v"
    "entry_at (kv_dir db) (kv_db_name s) k e' v" "ie_expiry_ms e' = ie_expiry_ms e" by (auto simp: copied_def)
  with entry_at_extends [OF this(3) assms(3)] Some assms(2) show ?thesis by (auto simp: copied_def)
qed

lemma copy_keys_inv:
  assumes "kv_inv s" and "small_files (kv_dir s)" and "copy_inv s i db" and "i + length ks < 2 ^ 38" and "distinct (map fst ks)"
    and "\<forall>(k, x) \<in> set ks. \<exists>e. map_of (kv_index s) k = Some e \<and> x = ie_expiry_ms e"
    and "\<forall>k \<in> fst ` set ks. map_of (kv_index db) k = None"
    and "\<forall>j. cc_get C j \<le> T" and "\<forall>j. new_seg s (cc_roll C j)"
  shows "\<exists>db'. copy_keys C i ks s db = Inr db' \<and> (\<exists>n. copy_inv s n db') \<and> dir_extends (kv_dir db) (kv_dir db') \<and>
           (\<forall>k \<in> fst ` set ks. copied T s db' k) \<and> (\<forall>k. k \<notin> fst ` set ks \<longrightarrow> map_of (kv_index db') k = map_of (kv_index db) k)"
  using assms(3-7)
proof (induction ks arbitrary: i db)
  case Nil
  then show ?case by auto
next
  case (Cons p ks)
  obtain k x where p: "p = (k, x)" by (cases p)
  from Cons.prems(4) obtain e where e: "map_of (kv_index s) k = Some e" "x = ie_expiry_ms e" by (auto simp: p)
  with assms(1) obtain v where v: "entry_at (kv_dir s) (kv_db_name s) k e v" unfolding kv_inv_def by (blast dest: index_okD)
  have "entry_at (kv_dir db) (kv_db_name s) k e v"
    using Cons.prems(1) entry_at_extends [OF v old_files_extends] by (simp add: copy_inv_def)
  from lookup_entry [OF this e(1)] assms(1)
  have get: "kv_get (cc_get C i) k (s\<lparr>kv_dir := kv_dir db\<rparr>) = Inr (if kv_expired (cc_get C i) e then None else Some (k, v))"
    by (simp add: kv_get_def kv_inv_def)
  have "\<exists>db1. copy_keys C i (p # ks) s db = copy_keys C (Suc i) ks s db1 \<and> copy_inv s (Suc i) db1 \<and> copied T s db1 k \<and>
      (\<forall>j. j \<noteq> k \<longrightarrow> map_of (kv_index db1) j = map_of (kv_index db) j) \<and> dir_extends (kv_dir db) (kv_dir db1)"
  proof (cases "kv_expired (cc_get C i) e")
    case True
    have "kv_expired t e" if "T \<le> t" for t
      using True assms(8) that by (auto simp: kv_expired_def is_expired_def split: option.splits intro: order.trans)
    then have "kv_val t s k = None" if "T \<le> t" for t using kv_get_entry(2) [OF assms(1) e(1) v, of t] that by simp
    moreover have "map_of (kv_index db) k = None" using Cons.prems(5) by (simp add: p)
    ultimately have "copied T s db k" by (simp add: copied_def)
    moreover have "copy_inv s (Suc i) db"
      using Cons.prems(1) by (auto simp: copy_inv_def new_files_small_def intro!: trans_le_add2)
    ultimately show ?thesis using get True by (intro exI [of _ db]) (simp add: p)
  next
    case False
    have i: "i < 2 ^ 38" using Cons.prems(2) by simp
    have "new_seg s (cc_roll C i)" using assms(9) by simp
    from copy_set [OF Cons.prems(1) assms(2) i e(1) v this, of T] show ?thesis using e(2) get False by (auto simp: p)
  qed
  then obtain db1 where db1: "copy_keys C i (p # ks) s db = copy_keys C (Suc i) ks s db1" "copy_inv s (Suc i) db1" "copied T s db1 k"
    "\<forall>j. j \<noteq> k \<longrightarrow> map_of (kv_index db1) j = map_of (kv_index db) j" "dir_extends (kv_dir db) (kv_dir db1)" by blast
  have "\<exists>db'. copy_keys C (Suc i) ks s db1 = Inr db' \<and> (\<exists>n. copy_inv s n db') \<and> dir_extends (kv_dir db1) (kv_dir db') \<and>
         (\<forall>k \<in> fst ` set ks. copied T s db' k) \<and> (\<forall>k. k \<notin> fst ` set ks \<longrightarrow> map_of (kv_index db') k = map_of (kv_index db1) k)"
  proof (rule Cons.IH [OF db1(2)])
    show "\<forall>j \<in> fst ` set ks. map_of (kv_index db1) j = None"
    proof
      fix j assume j: "j \<in> fst ` set ks"
      with Cons.prems(3) have "j \<noteq> k" by (auto simp: p)
      with db1(4) j Cons.prems(5) show "map_of (kv_index db1) j = None" by auto
    qed
  qed (use Cons.prems in \<open>simp_all add: p\<close>)
  then obtain db' n where db': "copy_keys C (Suc i) ks s db1 = Inr db'" "copy_inv s n db'" "dir_extends (kv_dir db1) (kv_dir db')"
    "\<forall>k \<in> fst ` set ks. copied T s db' k" "\<forall>k. k \<notin> fst ` set ks \<longrightarrow> map_of (kv_index db') k = map_of (kv_index db1) k" by blast
  have "copied T s db' k" using copied_step [OF db1(3) _ db'(3)] db'(5) Cons.prems(3) by (simp add: p)
  with db' db1 show ?case
    by (intro exI [of _ db'] conjI exI [of _ n]) (auto simp: p intro: dir_extends_trans)
qed

section \<open>Keys and hint files\<close>

lemma iteration_order_keys:
  assumes "iteration_order ord"
  shows "set (ls_keys ord index) = fst ` set index" and "distinct (map fst index) \<Longrightarrow> distinct (ls_keys ord index)"
proof -
  have eq: "mset (ls_keys ord index) = mset (map fst index)" using assms by (simp add: iteration_order_def ls_keys_def)
  then show "set (ls_keys ord index) = fst ` set index" by (metis list.set_map mset_eq_setD)
  show "distinct (map fst index) \<Longrightarrow> distinct (ls_keys ord index)" using eq mset_eq_imp_distinct_iff by blast
qed

lemma live_keys_facts:
  assumes "iteration_order ord" and "distinct (map fst index)"
  shows "distinct (map fst (live_keys ord now index))"
    and "(k, x) \<in> set (live_keys ord now index) \<longleftrightarrow> (\<exists>e. map_of index k = Some e \<and> \<not> kv_expired now e \<and> x = ie_expiry_ms e)"
proof -
  let ?f = "\<lambda>k. case index_get index k of Some entry \<Rightarrow> if kv_expired now entry then None else Some (k, ie_expiry_ms entry) | None \<Rightarrow> None"
  have fst: "fst y = k" if "?f k = Some y" for k y using that by (auto split: option.splits if_splits)
  have "distinct ks \<Longrightarrow> distinct (map fst (List.map_filter ?f ks)) \<and> fst ` set (List.map_filter ?f ks) \<subseteq> set ks" for ks
    by (induction ks) (auto simp: List.map_filter_simps map_filter_def split: option.split dest: fst)
  then show "distinct (map fst (live_keys ord now index))"
    using iteration_order_keys [OF assms(1)] assms(2) by (simp add: live_keys_def)
  have "k \<in> set (ls_keys ord index)" if "map_of index k = Some e" for e
    using that iteration_order_keys(1) [OF assms(1)] by (force dest: map_of_SomeD)
  then show "(k, x) \<in> set (live_keys ord now index) \<longleftrightarrow> (\<exists>e. map_of index k = Some e \<and> \<not> kv_expired now e \<and> x = ie_expiry_ms e)"
    by (auto simp: live_keys_def map_filter_def index_get_def split: option.splits if_splits intro!: rev_image_eqI [of k])
qed

lemma write_hints_segment [simp]: "map_of (write_hints ord index segs d) (segment_filename x) = map_of d (segment_filename x)"
  unfolding write_hints_def by (induction segs arbitrary: d) simp_all

section \<open>Removing the old segments\<close>

lemma remove_segments:
  assumes "distinct segs" and "\<forall>seg \<in> set segs. map_of d (segment_filename seg) \<noteq> None" and "a \<notin> set segs"
  shows "\<exists>d'. fold_res remove_segment segs (Linked (segment_filename a), d) = Inr (Linked (segment_filename a), d') \<and>
           (\<forall>x. x \<notin> set segs \<longrightarrow> map_of d' (segment_filename x) = map_of d (segment_filename x))"
  using assms
proof (induction segs arbitrary: d)
  case (Cons seg segs)
  let ?d = "AList.delete (segment_hint_filename seg) (AList.delete (segment_filename seg) d)"
  have "remove_segment seg (Linked (segment_filename a), d) = Inr (Linked (segment_filename a), ?d)"
    using Cons.prems by (simp add: remove_segment_def remove_file_def handle_unlink_def)
  moreover have "\<forall>x \<in> set segs. map_of ?d (segment_filename x) \<noteq> None" using Cons.prems by auto
  ultimately show ?case using Cons.IH [of ?d] Cons.prems by auto
qed simp

section \<open>Compaction keeps every read\<close>

lemma kv_new_copy_inv:
  assumes "new_seg s ts"
  shows "copy_inv s 0 (kv_new ts (kv_db_name s) m f w (kv_dir s))"
  using assms
  by (auto simp: copy_inv_def kv_inv_def kv_new_def Let_def segment_new_def index_new_def index_ok_def open_create_def
      old_files_kept_def new_files_small_def new_seg_def new_entries_def)

lemma build_facts:
  assumes inv: "kv_inv s" and small: "small_files (kv_dir s)" and ord: "iteration_order ord" and keys: "length (kv_index s) < 2 ^ 38"
    and T: "cc_now C \<le> T" "\<forall>j. cc_get C j \<le> T" and fresh: "new_seg s (cc_new C)" "\<forall>j. new_seg s (cc_roll C j)"
  shows "\<exists>db. build_compacted ord C s = Inr (db, get_segments (kv_dir s) (kv_db_name s)) \<and> kv_inv db \<and> kv_db_name db = kv_db_name s \<and>
           (\<forall>x. map_of (kv_dir s) (segment_filename x) \<noteq> None \<longrightarrow> map_of (kv_dir db) (segment_filename x) = map_of (kv_dir s) (segment_filename x)) \<and>
           new_seg s (seg_timestamp (kv_active_segment db)) \<and> new_entries s (kv_index db) \<and> (\<forall>k. copied T s db k)"
proof -
  let ?db0 = "kv_new (cc_new C) (kv_db_name s) (kv_max_segment_bytes s) (kv_fsync_strategy s) (kv_wal s) (kv_dir s)"
  let ?ks = "live_keys ord (cc_now C) (kv_index s)"
  have dist: "distinct (map fst (kv_index s))" using inv by (simp add: kv_inv_def)
  note live = live_keys_facts [OF ord dist]
  have "set (map fst ?ks) \<subseteq> fst ` set (kv_index s)" using live(2) by (force dest: map_of_SomeD)
  then have "length ?ks \<le> length (kv_index s)"
    using card_mono [of "fst ` set (kv_index s)" "set (map fst ?ks)"] card_image_le [of "set (kv_index s)" fst] card_length [of "kv_index s"]
      distinct_card [OF live(1)] by simp
  then have len: "0 + length ?ks < 2 ^ 38" using keys by simp
  have ks1: "\<forall>(k, x) \<in> set ?ks. \<exists>e. map_of (kv_index s) k = Some e \<and> x = ie_expiry_ms e" using live(2) by auto
  have ks2: "\<forall>k \<in> fst ` set ?ks. map_of (kv_index ?db0) k = None" by (simp add: kv_new_def Let_def index_new_def)
  obtain db n where db: "copy_keys C 0 ?ks s ?db0 = Inr db" "copy_inv s n db" "\<forall>k \<in> fst ` set ?ks. copied T s db k"
    "\<forall>k. k \<notin> fst ` set ?ks \<longrightarrow> map_of (kv_index db) k = map_of (kv_index ?db0) k"
    using copy_keys_inv [OF inv small kv_new_copy_inv [OF fresh(1)] len live(1) ks1 ks2 T(2) fresh(2)]
    by (elim exE conjE) (rule that)
  have cop: "copied T s db k" for k
  proof (cases "k \<in> fst ` set ?ks")
    case True
    with db(3) show ?thesis by blast
  next
    case False
    then have none: "map_of (kv_index db) k = None" using db(4) by (simp add: kv_new_def Let_def index_new_def)
    have "kv_val t s k = None" if t: "T \<le> t" for t
    proof (cases "map_of (kv_index s) k")
      case None
      then show ?thesis by (simp add: kv_get_absent)
    next
      case (Some e)
      then obtain v where v: "entry_at (kv_dir s) (kv_db_name s) k e v" using inv unfolding kv_inv_def by (blast dest: index_okD)
      have "kv_expired (cc_now C) e" using False live(2) [of k "ie_expiry_ms e"] Some by force
      then have "kv_expired t e" using T(1) t by (auto simp: kv_expired_def is_expired_def split: option.splits intro: order.trans)
      then show ?thesis using kv_get_entry(2) [OF inv Some v, of t] by simp
    qed
    with none show ?thesis by (simp add: copied_def)
  qed
  define new_segs where "new_segs = filter (\<lambda>seg. \<not> (\<exists>old \<in> set (get_segments (kv_dir s) (kv_db_name s)). seg_timestamp old = seg_timestamp seg))
    (get_segments (kv_dir db) (kv_db_name s))"
  define db' where "db' = db\<lparr>kv_dir := write_hints ord (kv_index db) new_segs (kv_dir db)\<rparr>"
  have at: "entry_at (kv_dir db') nm k e v = entry_at (kv_dir db) nm k e v" for nm k e v by (simp add: entry_at_def db'_def)
  have "build_compacted ord C s = Inr (db', get_segments (kv_dir s) (kv_db_name s))"
    using db(1) by (simp add: build_compacted_def Let_def db'_def new_segs_def)
  moreover have "kv_inv db'"
  proof -
    have "kv_inv db" using db(2) by (simp add: copy_inv_def)
    moreover have "index_ok (kv_index db') (kv_dir db') (kv_db_name db') = index_ok (kv_index db) (kv_dir db) (kv_db_name db)"
      unfolding index_ok_def at by (simp add: db'_def)
    ultimately show ?thesis unfolding kv_inv_def by (simp add: db'_def)
  qed
  moreover have "copied T s db' k" for k using cop [of k] unfolding copied_def at by (simp add: db'_def)
  moreover have "\<forall>x. map_of (kv_dir s) (segment_filename x) \<noteq> None \<longrightarrow> map_of (kv_dir db') (segment_filename x) = map_of (kv_dir s) (segment_filename x)"
    using db(2) by (simp add: db'_def copy_inv_def old_files_kept_def) auto
  moreover have "kv_db_name db' = kv_db_name s" "new_seg s (seg_timestamp (kv_active_segment db'))" "new_entries s (kv_index db')"
    using db(2) by (simp_all add: db'_def copy_inv_def)
  ultimately show ?thesis by blast
qed

lemma copied_val:
  assumes "kv_inv s" and "kv_inv db" and "kv_db_name db = kv_db_name s" and "copied T s db k" and "T \<le> t"
  shows "kv_val t db k = kv_val t s k"
proof (cases "map_of (kv_index db) k")
  case None
  with assms(4,5) show ?thesis by (simp add: copied_def kv_get_absent)
next
  case (Some e')
  with assms(3,4) obtain e v where e: "map_of (kv_index s) k = Some e" "entry_at (kv_dir s) (kv_db_name s) k e v"
    "entry_at (kv_dir db) (kv_db_name db) k e' v" "ie_expiry_ms e' = ie_expiry_ms e" by (auto simp: copied_def)
  show ?thesis
    using kv_get_entry(2) [OF assms(1) e(1,2), of t] kv_get_entry(2) [OF assms(2) Some e(3), of t] e(4) by (simp add: kv_expired_def)
qed

lemma kv_compact_val:
  assumes inv: "kv_inv s" and dir: "dir_ok (kv_dir s)" and small: "small_files (kv_dir s)" and ord: "iteration_order ord"
    and keys: "length (kv_index s) < 2 ^ 38" and T: "cc_now C \<le> T" "\<forall>j. cc_get C j \<le> T"
    and fresh: "new_seg s (cc_new C)" "\<forall>j. new_seg s (cc_roll C j)"
  shows "\<exists>s'. kv_compact ord C s = Inr s' \<and> kv_inv s' \<and> kv_wal s' = [] \<and> (\<forall>t k. T \<le> t \<longrightarrow> kv_val t s' k = kv_val t s k)"
proof -
  let ?old = "get_segments (kv_dir s) (kv_db_name s)"
  from build_facts [OF inv small ord keys T fresh] obtain db where db: "build_compacted ord C s = Inr (db, ?old)" "kv_inv db" "kv_db_name db = kv_db_name s"
    "\<forall>x. map_of (kv_dir s) (segment_filename x) \<noteq> None \<longrightarrow> map_of (kv_dir db) (segment_filename x) = map_of (kv_dir s) (segment_filename x)"
    "new_seg s (seg_timestamp (kv_active_segment db))" "new_entries s (kv_index db)" "\<forall>k. copied T s db k" by (elim exE conjE) (rule that)
  have old: "set ?old = {seg. seg_name seg = kv_db_name s \<and> map_of (kv_dir s) (segment_filename seg) \<noteq> None}" "distinct ?old"
    using set_get_segments [OF dir] segments_distinct(1) [OF dir] by (auto simp: distinct_map)
  have new: "\<lparr>seg_name = kv_db_name s, seg_timestamp = ts\<rparr> \<notin> set ?old" if "new_seg s ts" for ts
    using that by (simp add: old(1) new_seg_def)
  have "kv_active_segment db = \<lparr>seg_name = kv_db_name s, seg_timestamp = seg_timestamp (kv_active_segment db)\<rparr>"
    using db(2,3) by (simp add: kv_inv_def)
  then have act: "kv_active_segment db \<notin> set ?old" using new [OF db(5)] by simp
  have "\<forall>seg \<in> set ?old. map_of (kv_dir db) (segment_filename seg) \<noteq> None" using old(1) db(4) by auto
  from remove_segments [OF old(2) this act] obtain d' where
    d': "fold_res remove_segment ?old (Linked (segment_filename (kv_active_segment db)), kv_dir db) = Inr (Linked (segment_filename (kv_active_segment db)), d')"
      "\<forall>x. x \<notin> set ?old \<longrightarrow> map_of d' (segment_filename x) = map_of (kv_dir db) (segment_filename x)" by blast
  define s' where "s' = s\<lparr>kv_active_file := Linked (segment_filename (kv_active_segment db)), kv_active_segment := kv_active_segment db,
    kv_index := kv_index db, kv_writes_since_fsync := 0, kv_segment_count := 1, kv_wal := [], kv_dir := d'\<rparr>"
  have run: "kv_compact ord C s = Inr s'"
    using db(1,2) d'(1) by (simp add: kv_compact_def swap_compacted_def share_files_def Let_def wal_reset_def s'_def kv_inv_def)
  have at: "entry_at d' (kv_db_name s) k e v" if "entry_at (kv_dir db) (kv_db_name s) k e v" "map_of (kv_index db) k = Some e" for k e v
    using that db(6) d'(2) new by (simp add: entry_at_def new_entries_def)
  have "index_ok (kv_index db) d' (kv_db_name s)"
    using db(2,3) at unfolding kv_inv_def index_ok_def by metis
  then have inv': "kv_inv s'" using db(2,3) d'(2) act by (simp add: kv_inv_def s'_def)
  have "copied T s s' k" for k
  proof -
    have "copied T s db k" using db(7) by blast
    then show ?thesis
      using at [of k] by (cases "map_of (kv_index db) k") (auto simp: copied_def s'_def)
  qed
  then have "kv_val t s' k = kv_val t s k" if "T \<le> t" for t k
    using copied_val [OF inv inv' _ _ that] by (simp add: s'_def)
  with run inv' show ?thesis by (auto simp: s'_def)
qed

end
