(* ===== verification/Kv_History.thy ===== *)
theory Kv_History
  imports Kv_Compaction Memtable_Model
begin

text \<open>
  The hash-index engine over time: writes, deletions, changes of expiry and uninterrupted compactions, in any order. Reads
  answer from the last write of a key; the listing and the existence test agree with the reads.
\<close>

section \<open>The directory stays free of stray names\<close>

definition linked_ok :: "kv \<Rightarrow> bool" where
  "linked_ok s \<longleftrightarrow> dir_ok (kv_dir s) \<and> (\<exists>seg. kv_active_file s = Linked (segment_filename seg))"

lemma dir_ok_open_create [simp]: "dir_ok d \<Longrightarrow> dir_ok (open_create (segment_filename seg) d)"
  by (simp add: open_create_def dir_ok_update_segment split: option.split)

lemma linked_ok_counters [simp]: "linked_ok (kv_fsync s) = linked_ok s" "linked_ok (kv_count n r s) = linked_ok s"
  by (simp_all add: linked_ok_def)

lemma linked_ok_wal [simp]: "linked_ok (s\<lparr>kv_wal := w\<rparr>) = linked_ok s"
  by (simp add: linked_ok_def)

lemma linked_ok_roll [simp]: "linked_ok s \<Longrightarrow> linked_ok (roll_active ts s)"
  by (auto simp: linked_ok_def roll_active_def Let_def)

lemma linked_ok_append:
  assumes "linked_ok s" and "handle_append r (kv_active_file s) (kv_dir s) = (offset, h, d)"
  shows "dir_ok d" and "\<exists>seg. h = Linked (segment_filename seg)"
proof -
  from assms(1) obtain seg where seg: "kv_active_file s = Linked (segment_filename seg)" "dir_ok (kv_dir s)" by (auto simp: linked_ok_def)
  then have "\<exists>bs. h = Linked (segment_filename seg) \<and> d = AList.update (segment_filename seg) bs (kv_dir s)"
    using assms(2) by (simp add: handle_append_def record_append_def) blast
  then show "dir_ok d" "\<exists>seg. h = Linked (segment_filename seg)" using seg(2) by (auto simp: dir_ok_update_segment)
qed

lemma kv_append_shape:
  assumes "kv_append ts k v x s = Inr (sz, old, s')"
  shows "\<exists>s1 offset h d index. (s1 = s\<lparr>kv_wal := snd (wal_append k v False x (kv_wal s))\<rparr> \<or>
           s1 = roll_active ts (s\<lparr>kv_wal := snd (wal_append k v False x (kv_wal s))\<rparr>)) \<and>
           handle_append (value_record k v x) (kv_active_file s1) (kv_dir s1) = (offset, h, d) \<and>
           s' = s1\<lparr>kv_active_file := h, kv_dir := d, kv_index := index\<rparr>"
proof -
  let ?s0 = "s\<lparr>kv_wal := snd (wal_append k v False x (kv_wal s))\<rparr>"
  from assms obtain n where n: "(let s = if kv_max_segment_bytes ?s0 < n then roll_active ts ?s0 else ?s0;
      (offset, h, d) = handle_append (value_record k v x) (kv_active_file s) (kv_dir s);
      new_size = size_on_disk (value_record k v x);
      (old, index) = index_set k offset (seg_timestamp (kv_active_segment s)) new_size x (kv_index s)
      in Inr (new_size, map_option ie_record_size old, s\<lparr>kv_active_file := h, kv_dir := d, kv_index := index\<rparr>)) = (Inr (sz, old, s') :: _ res)"
    by (auto simp: kv_append_def and_then_Inr_iff Let_def)
  define s1 where "s1 = (if kv_max_segment_bytes ?s0 < n then roll_active ts ?s0 else ?s0)"
  obtain offset h d where app: "handle_append (value_record k v x) (kv_active_file s1) (kv_dir s1) = (offset, h, d)"
    by (cases "handle_append (value_record k v x) (kv_active_file s1) (kv_dir s1)") auto
  have "\<exists>index. s' = s1\<lparr>kv_active_file := h, kv_dir := d, kv_index := index\<rparr>"
    using n [unfolded s1_def [symmetric]] app by (auto simp: index_set_def Let_def)
  moreover have "s1 = ?s0 \<or> s1 = roll_active ts ?s0" by (simp add: s1_def)
  ultimately show ?thesis using app by blast
qed

lemma linked_ok_kv_append:
  assumes "linked_ok s" and "kv_append ts k v x s = Inr (sz, old, s')"
  shows "linked_ok s'"
proof -
  from kv_append_shape [OF assms(2)] obtain s1 offset h d index where
    s1: "s1 = s\<lparr>kv_wal := snd (wal_append k v False x (kv_wal s))\<rparr> \<or> s1 = roll_active ts (s\<lparr>kv_wal := snd (wal_append k v False x (kv_wal s))\<rparr>)"
    and app: "handle_append (value_record k v x) (kv_active_file s1) (kv_dir s1) = (offset, h, d)"
    and s': "s' = s1\<lparr>kv_active_file := h, kv_dir := d, kv_index := index\<rparr>" by (elim exE conjE) (rule that)
  from s1 assms(1) have "linked_ok s1" by auto
  from linked_ok_append [OF this app] show ?thesis by (simp add: s' linked_ok_def)
qed

lemma linked_ok_set: "linked_ok s \<Longrightarrow> kv_set_with_ttl ts k v x s = Inr s' \<Longrightarrow> linked_ok s'"
  by (auto simp: kv_set_with_ttl_def and_then_Inr_iff dest: linked_ok_kv_append split: if_splits)

lemma linked_ok_delete:
  assumes "linked_ok s" and "kv_delete k s = Inr (r, s')"
  shows "linked_ok s'"
  using assms
  by (auto simp: kv_delete_def index_delete_def and_then_Inr_iff Let_def split: if_splits option.splits prod.splits)
    (auto simp: linked_ok_def dest: linked_ok_append [unfolded linked_ok_def, rotated])

lemma linked_ok_ttl: "linked_ok s \<Longrightarrow> kv_ttl ts now k x s = Inr (r, s') \<Longrightarrow> linked_ok s'"
  by (auto simp: kv_ttl_def and_then_Inr_iff split: option.splits) (erule (1) linked_ok_kv_append)

lemma linked_ok_copy: "linked_ok db \<Longrightarrow> copy_keys C i ks s db = Inr db' \<Longrightarrow> linked_ok db'"
proof (induction ks arbitrary: i db)
  case (Cons p ks)
  obtain k x where p: "p = (k, x)" by (cases p)
  from Cons.prems(2) consider "copy_keys C (Suc i) ks s db = Inr db'"
    | v db1 where "kv_set_with_ttl (cc_roll C i) k v x db = Inr db1" "copy_keys C (Suc i) ks s db1 = Inr db'"
    by (fastforce simp: p and_then_Inr_iff split: option.splits prod.splits)
  then show ?case using Cons.IH Cons.prems(1) linked_ok_set by cases blast+
qed simp

lemma dir_ok_write_hints: "dir_ok d \<Longrightarrow> dir_ok (write_hints ord index segs d)"
  unfolding write_hints_def by (induction segs arbitrary: d) (simp_all add: dir_ok_update_hint)

lemma remove_segment_shape:
  "remove_segment seg (h, d) = Inr y \<Longrightarrow> \<exists>h1. y = (h1, AList.delete (segment_hint_filename seg) (AList.delete (segment_filename seg) d))"
  by (auto simp: remove_segment_def remove_file_def and_then_Inr_iff split: option.splits if_splits)

lemma dir_ok_remove: "dir_ok d \<Longrightarrow> fold_res remove_segment segs (h, d) = Inr (h', d') \<Longrightarrow> dir_ok d'"
proof (induction segs arbitrary: h d)
  case (Cons seg segs)
  from Cons.prems(2) obtain h1 where
    "fold_res remove_segment segs (h1, AList.delete (segment_hint_filename seg) (AList.delete (segment_filename seg) d)) = Inr (h', d')"
    by (auto simp: and_then_Inr_iff dest!: remove_segment_shape)
  then show ?case by (rule Cons.IH [rotated]) (simp add: Cons.prems(1) dir_ok_delete)
qed simp

lemma dir_ok_compact:
  assumes "dir_ok (kv_dir s)" and "kv_compact ord C s = Inr s'"
  shows "dir_ok (kv_dir s')"
proof -
  let ?db0 = "kv_new (cc_new C) (kv_db_name s) (kv_max_segment_bytes s) (kv_fsync_strategy s) (kv_wal s) (kv_dir s)"
  from assms(2) obtain db segs where b: "build_compacted ord C s = Inr (db, segs)" "swap_compacted db segs (share_files db s) = Inr s'"
    by (auto simp: kv_compact_def and_then_Inr_iff)
  from b(1) obtain db1 segs' where "copy_keys C 0 (live_keys ord (cc_now C) (kv_index s)) s ?db0 = Inr db1"
    "db = db1\<lparr>kv_dir := write_hints ord (kv_index db1) segs' (kv_dir db1)\<rparr>"
    by (auto simp: build_compacted_def and_then_Inr_iff Let_def)
  moreover have "linked_ok ?db0" using assms(1) by (auto simp: linked_ok_def kv_new_def Let_def)
  ultimately have "dir_ok (kv_dir db)" using linked_ok_copy [of ?db0] by (auto simp: linked_ok_def dir_ok_write_hints)
  with b(2) show ?thesis by (auto simp: swap_compacted_def share_files_def and_then_Inr_iff Let_def dest: dir_ok_remove)
qed

section \<open>Histories\<close>

text \<open>The steps of a run, with the writes so far and the latest clock reading of a compaction. A compaction whose segments
  have new names runs without interruption.\<close>

inductive kv_run :: "kv \<Rightarrow> u64 \<Rightarrow> (rstring \<times> memtable_entry) list \<Rightarrow> kv \<Rightarrow> bool" for s0 where
  run_init: "kv_run s0 T [] s0"
| run_set: "kv_run s0 T ws s \<Longrightarrow> small_files (kv_dir s) \<Longrightarrow> kv_set_with_ttl ts k v x s = Inr s' \<Longrightarrow>
    kv_run s0 T (ws @ [(k, \<lparr>me_value = Some v, me_expiry_ms = x\<rparr>)]) s'"
| run_delete: "kv_run s0 T ws s \<Longrightarrow> small_files (kv_dir s) \<Longrightarrow> kv_delete k s = Inr (r, s') \<Longrightarrow> kv_run s0 T (ws @ [(k, tombstone_entry)]) s'"
| run_ttl: "kv_run s0 T ws s \<Longrightarrow> small_files (kv_dir s) \<Longrightarrow> kv_get now k s = Inr (Some (k, v)) \<Longrightarrow>
    kv_ttl ts now k x s = Inr (out, s') \<Longrightarrow> kv_run s0 T (ws @ [(k, \<lparr>me_value = Some v, me_expiry_ms = x\<rparr>)]) s'"
| run_compact: "kv_run s0 T ws s \<Longrightarrow> small_files (kv_dir s) \<Longrightarrow> iteration_order ord \<Longrightarrow> length (kv_index s) < 2 ^ 38 \<Longrightarrow>
    new_seg s (cc_new C) \<Longrightarrow> (\<And>j. new_seg s (cc_roll C j)) \<Longrightarrow> T \<le> T' \<Longrightarrow> cc_now C \<le> T' \<Longrightarrow> (\<And>j. cc_get C j \<le> T') \<Longrightarrow>
    kv_compact ord C s = Inr s' \<Longrightarrow> kv_run s0 T' ws s'"

definition history_val :: "u64 \<Rightarrow> (rstring \<times> memtable_entry) list \<Rightarrow> rstring \<Rightarrow> rstring option" where
  "history_val t ws k = Option.bind (map_of (rev ws) k) (entry_value t)"

definition run_inv :: "u64 \<Rightarrow> (rstring \<times> memtable_entry) list \<Rightarrow> kv \<Rightarrow> bool" where
  "run_inv T ws s \<longleftrightarrow> kv_inv s \<and> dir_ok (kv_dir s) \<and> (\<forall>t k. T \<le> t \<longrightarrow> kv_val t s k = history_val t ws k)"

lemma run_inv_linked: "run_inv T ws s \<Longrightarrow> linked_ok s"
  by (auto simp: run_inv_def linked_ok_def kv_inv_def)

lemma history_val_snoc [simp]: "history_val t (ws @ [(k, e)]) j = (if j = k then entry_value t e else history_val t ws j)"
  by (simp add: history_val_def)

lemma kv_ttl_val:
  assumes "kv_inv s" and "small_files (kv_dir s)" and "kv_val now s k = Some v"
  shows "\<exists>s'. kv_ttl ts now k x s = Inr (if x \<noteq> None then TtlSet else TtlPersisted, s') \<and> kv_inv s' \<and>
           (\<forall>t j. kv_val t s' j = (if j = k then (if (\<exists>e. x = Some e \<and> e \<le> t) then None else Some v) else kv_val t s j))"
proof -
  have "map_of (kv_index s) k \<noteq> None" using assms(3) kv_get_absent(2) [of s k now] by auto
  then obtain e0 v0 where e0: "map_of (kv_index s) k = Some e0" "entry_at (kv_dir s) (kv_db_name s) k e0 v0"
    using assms(1) unfolding kv_inv_def by (blast dest: index_okD)
  then have "v0 = v" using kv_get_entry(2) [OF assms(1) e0, of now] assms(3) by (simp split: if_splits)
  then have fits: "len k \<le> MAX_KEY_SIZE" "len v \<le> MAX_VALUE_SIZE" using e0(2) by (simp_all add: entry_at_def)
  have look: "kv_lookup (kv_index s) (kv_dir s) (kv_db_name s) (kv_active_segment s) k now = Inr (Some v)"
    using kv_get_val [OF assms(1), of now k] assms(3) by (auto simp: kv_get_def and_then_Inr_iff split: option.splits)
  from kv_set_val [OF assms(1,2) fits, of ts x] obtain s' where s': "kv_set_with_ttl ts k v x s = Inr s'" "kv_inv s'"
    "\<forall>t j. kv_val t s' j = (if j = k then (if (\<exists>e. x = Some e \<and> e \<le> t) then None else Some v) else kv_val t s j)" by blast
  have "kv_ttl ts now k x s = Inr (if x \<noteq> None then TtlSet else TtlPersisted, s')"
    using s'(1) fits look by (auto simp: kv_ttl_def kv_set_with_ttl_def and_then_Inr_iff)
  with s'(2,3) show ?thesis by blast
qed

lemma kv_set_fits: "kv_set_with_ttl ts k v x s = Inr s' \<Longrightarrow> len k \<le> MAX_KEY_SIZE \<and> len v \<le> MAX_VALUE_SIZE"
  by (auto simp: kv_set_with_ttl_def split: if_splits)

lemma kv_delete_fits: "kv_delete k s = Inr (r, s') \<Longrightarrow> len k \<le> MAX_KEY_SIZE"
  by (auto simp: kv_delete_def split: if_splits)

lemma kv_run_inv:
  assumes "kv_run s0 T ws s" and "kv_inv s0" and "dir_ok (kv_dir s0)" and "\<And>t k. kv_val t s0 k = None"
  shows "run_inv T ws s"
  using assms(1)
proof (induction rule: kv_run.induct)
  case (run_init T)
  then show ?case using assms(2-4) by (simp add: run_inv_def history_val_def)
next
  case (run_set T ws s ts k v x s')
  have inv: "kv_inv s" using run_set.IH by (simp add: run_inv_def)
  from kv_set_fits [OF run_set.hyps(3)] kv_set_val [OF inv run_set.hyps(2), of k v ts x] run_set.hyps(3)
  have "kv_inv s'" "\<forall>t j. kv_val t s' j = (if j = k then (if (\<exists>e. x = Some e \<and> e \<le> t) then None else Some v) else kv_val t s j)" by auto
  then show ?case using run_set.IH linked_ok_set [OF run_inv_linked [OF run_set.IH] run_set.hyps(3)]
    by (auto simp: run_inv_def linked_ok_def entry_value_def is_expired_def split: option.splits)
next
  case (run_delete T ws s k r s')
  have inv: "kv_inv s" using run_delete.IH by (simp add: run_inv_def)
  from kv_delete_val [OF inv run_delete.hyps(2) kv_delete_fits [OF run_delete.hyps(3)]] run_delete.hyps(3)
  have "kv_inv s'" "\<forall>t j. kv_val t s' j = (if j = k then None else kv_val t s j)" by auto
  then show ?case using run_delete.IH linked_ok_delete [OF run_inv_linked [OF run_delete.IH] run_delete.hyps(3)]
    by (auto simp: run_inv_def linked_ok_def entry_value_def)
next
  case (run_ttl T ws s now k v ts x out s')
  have inv: "kv_inv s" using run_ttl.IH by (simp add: run_inv_def)
  then have "kv_val now s k = Some v" using run_ttl.hyps(3) kv_get_val [OF inv, of now k] by auto
  from kv_ttl_val [OF inv run_ttl.hyps(2) this, of ts x] run_ttl.hyps(4)
  have "kv_inv s'" "\<forall>t j. kv_val t s' j = (if j = k then (if (\<exists>e. x = Some e \<and> e \<le> t) then None else Some v) else kv_val t s j)" by auto
  then show ?case using run_ttl.IH linked_ok_ttl [OF run_inv_linked [OF run_ttl.IH] run_ttl.hyps(4)]
    by (auto simp: run_inv_def linked_ok_def entry_value_def is_expired_def split: option.splits)
next
  case (run_compact T ws s ord C T' s')
  have inv: "kv_inv s" and dir: "dir_ok (kv_dir s)" using run_compact.IH by (simp_all add: run_inv_def)
  from kv_compact_val [OF inv dir run_compact.hyps(2-4,8) _ run_compact.hyps(5)] run_compact.hyps(6,9,10)
  have "kv_inv s'" "\<forall>t k. T' \<le> t \<longrightarrow> kv_val t s' k = kv_val t s k" by auto
  then show ?case using run_compact.IH dir_ok_compact [OF dir run_compact.hyps(10)] run_compact.hyps(7) by (auto simp: run_inv_def)
qed

lemma kv_new_facts:
  assumes "dir_ok d"
  shows "kv_inv (kv_new ts name m f w d)" and "dir_ok (kv_dir (kv_new ts name m f w d))" and "kv_val t (kv_new ts name m f w d) k = None"
  using assms by (auto simp: kv_inv_def kv_new_def Let_def segment_new_def index_new_def index_ok_def kv_get_absent open_create_def
      dir_ok_update_segment split: option.split)

text \<open>C5. reads of the hash-index engine return the last write: after any sequence of writes, deletions, changes of
  expiry and uninterrupted compactions on a new engine, \<open>get\<close> answers for every key from the last write to it, at
  every time from the last compaction on.\<close>

theorem kv_reads_last_write:
  assumes "kv_run (kv_new ts db_name max_bytes fsync wal d) T ws s" and "dir_ok d" and "T \<le> t"
  shows "kv_get t k s = Inr (map_option (Pair k) (history_val t ws k))"
proof -
  have "run_inv T ws s" using kv_run_inv [OF assms(1) kv_new_facts [OF assms(2)]] .
  then have "kv_inv s" "kv_val t s k = history_val t ws k" using assms(3) by (simp_all add: run_inv_def)
  then show ?thesis using kv_get_val [of s t k] by simp
qed

abbreviation kv_small :: kv where
  "kv_small \<equiv> kv_new 1 (lit ''db'') 1000 FsyncNever [] []"

abbreviation kv_clock :: compact_clock where
  "kv_clock \<equiv> \<lparr>cc_new = 2, cc_now = 5, cc_get = (\<lambda>_. 5), cc_roll = (\<lambda>_. 3)\<rparr>"

lemma iteration_order_id: "iteration_order (\<lambda>ks. ks)"
  by (simp add: iteration_order_def)

lemma kv_small_set:
  assumes "len k \<le> MAX_KEY_SIZE" and "len v \<le> MAX_VALUE_SIZE"
  shows "\<exists>s. kv_set_with_ttl 1 k v x kv_small = Inr s \<and> small_files (kv_dir s) \<and> length (kv_index s) = 1 \<and>
           (\<forall>ts. ts \<noteq> 1 \<longrightarrow> new_seg s ts)"
proof -
  have inv: "kv_inv kv_small" by (rule kv_new_facts) simp
  have small: "small_files (kv_dir kv_small)" by (simp add: small_files_def kv_new_def Let_def open_create_def)
  from kv_set_facts [OF inv small assms, of 1 x] obtain s e where s: "kv_set_with_ttl 1 k v x kv_small = Inr s" "kv_inv s"
    "grows_only (segment_filename (kv_active_segment s)) (kv_dir kv_small) (kv_dir s)"
    "map_of (kv_index s) = (map_of (kv_index kv_small))(k \<mapsto> e)" "kv_db_name s = kv_db_name kv_small"
    "kv_active_segment s = kv_active_segment kv_small \<or> seg_timestamp (kv_active_segment s) = 1"
    by (elim exE conjE) (rule that)
  have "seg_timestamp (kv_active_segment s) = 1" using s(6) by (auto simp: kv_new_def Let_def segment_new_def)
  moreover have "seg_name (kv_active_segment s) = lit ''db''" using s(2,5) by (simp add: kv_inv_def kv_new_def Let_def)
  ultimately have act: "kv_active_segment s = \<lparr>seg_name = lit ''db'', seg_timestamp = 1\<rparr>" by simp
  have dir: "map_of (kv_dir kv_small) n = (if n = segment_filename \<lparr>seg_name = lit ''db'', seg_timestamp = 1\<rparr> then Some [] else None)" for n
    by (simp add: kv_new_def Let_def open_create_def segment_new_def)
  have "small_files (kv_dir s)"
    unfolding small_files_def
  proof (intro allI impI)
    fix n bs assume "map_of (kv_dir s) n = Some bs"
    then show "length bs < 2 ^ 63"
      using s(3) dir [of n] unfolding grows_only_def act by (cases "n = segment_filename \<lparr>seg_name = lit ''db'', seg_timestamp = 1\<rparr>")
        (auto simp: file_or_empty_def dir)
  qed
  moreover have "new_seg s ts" if "ts \<noteq> 1" for ts
    using s(3,5) that unfolding new_seg_def grows_only_def act by (simp add: dir)
  moreover have "length (kv_index s) = 1"
  proof -
    have "fst ` set (kv_index s) = {k}" using s(4) dom_map_of_conv_image_fst [of "kv_index s"] by (auto simp: kv_new_def Let_def index_new_def)
    moreover have "distinct (map fst (kv_index s))" using s(2) by (simp add: kv_inv_def)
    ultimately show ?thesis using distinct_card [of "map fst (kv_index s)"] by simp
  qed
  ultimately show ?thesis using s(1) by blast
qed

theorem kv_reads_last_write_witness:
  "\<exists>s. kv_run kv_small 5 [(lit ''k'', \<lparr>me_value = Some (lit ''v''), me_expiry_ms = Some 9\<rparr>)] s \<and>
     kv_get 8 (lit ''k'') s = Inr (Some (lit ''k'', lit ''v'')) \<and> kv_get 9 (lit ''k'') s = Inr None"
proof -
  have sz: "len (lit ''k'') \<le> MAX_KEY_SIZE" "len (lit ''v'') \<le> MAX_VALUE_SIZE" by (simp_all add: MAX_KEY_SIZE_def MAX_VALUE_SIZE_def)
  from kv_small_set [OF sz, of "Some 9"] obtain s where s: "kv_set_with_ttl 1 (lit ''k'') (lit ''v'') (Some 9) kv_small = Inr s"
    "small_files (kv_dir s)" "length (kv_index s) = 1" "\<forall>ts. ts \<noteq> 1 \<longrightarrow> new_seg s ts" by blast
  have small: "small_files (kv_dir kv_small)" by (simp add: small_files_def kv_new_def Let_def open_create_def)
  have run: "kv_run kv_small 0 [(lit ''k'', \<lparr>me_value = Some (lit ''v''), me_expiry_ms = Some 9\<rparr>)] s"
    using run_set [OF run_init small s(1)] by simp
  have "run_inv 0 [(lit ''k'', \<lparr>me_value = Some (lit ''v''), me_expiry_ms = Some 9\<rparr>)] s" by (rule kv_run_inv [OF run kv_new_facts]) simp_all
  then have inv: "kv_inv s" "dir_ok (kv_dir s)" by (simp_all add: run_inv_def)
  have keys: "length (kv_index s) < 2 ^ 38" by (simp add: s(3))
  from kv_compact_val [OF inv s(2) iteration_order_id keys, of kv_clock 5] s(4)
  obtain s' where s': "kv_compact (\<lambda>ks. ks) kv_clock s = Inr s'" by auto
  have run': "kv_run kv_small 5 [(lit ''k'', \<lparr>me_value = Some (lit ''v''), me_expiry_ms = Some 9\<rparr>)] s'"
    by (rule run_compact [OF run s(2) iteration_order_id keys _ _ _ _ _ s']) (use s(4) in simp_all)
  from kv_reads_last_write [OF run', of 8] kv_reads_last_write [OF run', of 9] run' show ?thesis
    by (auto simp: history_val_def entry_value_def is_expired_def)
qed

section \<open>Listing keys\<close>

text \<open>C29. the key listing and the existence test agree with the reads: in every state of the invariant \<open>list_keys\<close>
  returns, each once, the keys that \<open>get\<close> finds at that time, and \<open>exists\<close> is true of exactly those.\<close>

theorem kv_list_keys_correct:
  assumes "kv_inv s" and "iteration_order ord"
  shows "distinct (kv_list_keys ord t s) \<and> set (kv_list_keys ord t s) = {k. kv_get t k s \<noteq> Inr None} \<and>
         kv_exists t k s = (kv_get t k s \<noteq> Inr None)"
proof -
  have dist: "distinct (map fst (kv_index s))" and iok: "index_ok (kv_index s) (kv_dir s) (kv_db_name s)" using assms(1) by (simp_all add: kv_inv_def)
  have ex: "kv_exists t k s = (kv_get t k s \<noteq> Inr None)" for k
  proof (cases "map_of (kv_index s) k")
    case None
    then show ?thesis by (simp add: kv_exists_def index_get_def kv_get_absent)
  next
    case (Some e)
    with iok obtain v where "entry_at (kv_dir s) (kv_db_name s) k e v" by (blast dest: index_okD)
    with Some show ?thesis using kv_get_entry(1) [OF assms(1) Some] by (simp add: kv_exists_def index_get_def)
  qed
  have "k \<in> set (kv_list_keys ord t s) \<longleftrightarrow> kv_exists t k s" for k
  proof -
    have "k \<in> set (ls_keys ord (kv_index s)) \<longleftrightarrow> map_of (kv_index s) k \<noteq> None"
      using iteration_order_keys(1) [OF assms(2)] by (simp add: map_of_eq_None_iff)
    then show ?thesis by (auto simp: kv_list_keys_def kv_exists_def index_get_def split: option.splits)
  qed
  then show ?thesis using ex iteration_order_keys(2) [OF assms(2) dist] by (auto simp: kv_list_keys_def)
qed

theorem kv_list_keys_correct_witness:
  "\<exists>s. kv_set_with_ttl 1 (lit ''k'') (lit ''v'') (Some 9) kv_small = Inr s \<and>
     set (kv_list_keys (\<lambda>ks. ks) 8 s) = {k. kv_get 8 k s \<noteq> Inr None} \<and> lit ''k'' \<in> set (kv_list_keys (\<lambda>ks. ks) 8 s) \<and> kv_list_keys (\<lambda>ks. ks) 9 s = []"
proof -
  have sz: "len (lit ''k'') \<le> MAX_KEY_SIZE" "len (lit ''v'') \<le> MAX_VALUE_SIZE" by (simp_all add: MAX_KEY_SIZE_def MAX_VALUE_SIZE_def)
  have inv: "kv_inv kv_small" by (rule kv_new_facts) simp
  have small: "small_files (kv_dir kv_small)" by (simp add: small_files_def kv_new_def Let_def open_create_def)
  from kv_set_val [OF inv small sz, of 1 "Some 9"] obtain s where s: "kv_set_with_ttl 1 (lit ''k'') (lit ''v'') (Some 9) kv_small = Inr s"
    "kv_inv s" "\<forall>t j. kv_val t s j = (if j = lit ''k'' then (if 9 \<le> t then None else Some (lit ''v'')) else kv_val t kv_small j)" by auto
  have "kv_val t kv_small j = None" for t j by (rule kv_new_facts) simp
  with s(3) have "kv_get 9 j s = Inr None" "kv_get 8 (lit ''k'') s = Inr (Some (lit ''k'', lit ''v''))" for j using kv_get_val [OF s(2)] by auto
  with s(1) kv_list_keys_correct [OF s(2) iteration_order_id, of 8] kv_list_keys_correct [OF s(2) iteration_order_id, of 9] show ?thesis by auto
qed

end
