(* ===== verification/Server_Dispatch.thy ===== *)
theory Server_Dispatch
  imports Bffp_Protocol Kv_History Lsm_History
begin

text \<open>
  The server's counters (src/src/stats.rs) and the execution of commands (src/src/server/dispatch.rs). The storage engine
  is a record of the operations of the trait \<open>StorageEngine\<close> (src/src/engine.rs), with the two engines as instances. A
  command is one step; a compaction thread is a list element that moves through its phases, one step each, so that the
  steps of several workers and of the compaction threads interleave. Text that the standard library makes of an error is a
  parameter, as is the arithmetic of \<open>f32\<close>.
\<close>

section \<open>Counters\<close>

record stats =
  st_compacting :: bool
  st_compaction_count :: u64
  st_last_compact_start_ms :: u64
  st_last_compact_end_ms :: u64
  st_write_blocked_attempts :: u64
  st_write_blocked_total_ms :: u64
  st_reads :: u64
  st_writes :: u64
  st_deletes :: u64
  st_active_connections :: "64 word"

definition stats_new :: stats where
  "stats_new =
     \<lparr>st_compacting = False, st_compaction_count = 0, st_last_compact_start_ms = 0, st_last_compact_end_ms = 0,
      st_write_blocked_attempts = 0, st_write_blocked_total_ms = 0, st_reads = 0, st_writes = 0, st_deletes = 0,
      st_active_connections = 0\<rparr>"

text \<open>\<open>format!\<close> of a flag, of an unsigned and of a signed counter.\<close>

definition show_bool :: "bool \<Rightarrow> rstring" where
  "show_bool b = (if b then lit ''true'' else lit ''false'')"

definition show_u64 :: "u64 \<Rightarrow> rstring" where
  "show_u64 w = dec_string (unat w)"

definition show_i64 :: "64 word \<Rightarrow> rstring" where
  "show_i64 w = (if sint w < 0 then str_append (lit ''-'') (dec_string (nat (- sint w))) else dec_string (nat (sint w)))"

definition str_concat :: "rstring list \<Rightarrow> rstring" where
  "str_concat ss = foldr str_append ss (lit '''')"

definition newline :: rstring where "newline = lit [CHR 0x0A]"

definition snapshot :: "stats \<Rightarrow> rstring" where
  "snapshot s =
     str_concat
       [lit ''compacting='', show_bool (st_compacting s), newline,
        lit ''compaction_count='', show_u64 (st_compaction_count s), newline,
        lit ''last_compact_start_ms='', show_u64 (st_last_compact_start_ms s), newline,
        lit ''last_compact_end_ms='', show_u64 (st_last_compact_end_ms s), newline,
        lit ''write_blocked_attempts='', show_u64 (st_write_blocked_attempts s), newline,
        lit ''write_blocked_total_ms='', show_u64 (st_write_blocked_total_ms s), newline,
        lit ''reads='', show_u64 (st_reads s), newline,
        lit ''writes='', show_u64 (st_writes s), newline,
        lit ''deletes='', show_u64 (st_deletes s), newline,
        lit ''active_connections='', show_i64 (st_active_connections s)]"

section \<open>The engine interface\<close>

text \<open>What an operation takes from its surroundings: its \<open>i\<close>-th clock reading, the timestamp of its \<open>i\<close>-th new file,
  and the order in which it iterates a hash map.\<close>

record op_clock =
  oc_now :: "nat \<Rightarrow> u64"
  oc_ts :: "nat \<Rightarrow> u64"
  oc_order :: "rstring list \<Rightarrow> rstring list"

text \<open>The trait. An operation that writes returns the state also with an error. \<open>eng_range\<close> is there when the engine is an
  \<open>LsmEngine\<close>.\<close>

record 's engine =
  eng_get :: "op_clock \<Rightarrow> rstring \<Rightarrow> 's \<Rightarrow> (rstring \<times> rstring) option res"
  eng_set_with_ttl :: "op_clock \<Rightarrow> rstring \<Rightarrow> rstring \<Rightarrow> u64 option \<Rightarrow> 's \<Rightarrow> unit res \<times> 's"
  eng_delete :: "op_clock \<Rightarrow> rstring \<Rightarrow> 's \<Rightarrow> unit option res \<times> 's"
  eng_ttl :: "op_clock \<Rightarrow> rstring \<Rightarrow> u64 option \<Rightarrow> 's \<Rightarrow> ttl_outcome res \<times> 's"
  eng_mget :: "op_clock \<Rightarrow> rstring list \<Rightarrow> 's \<Rightarrow> (rstring \<times> rstring option) list res"
  eng_mset_with_ttl :: "op_clock \<Rightarrow> (rstring \<times> rstring \<times> u64 option) list \<Rightarrow> 's \<Rightarrow> unit res \<times> 's"
  eng_list_keys :: "op_clock \<Rightarrow> 's \<Rightarrow> rstring list res"
  eng_exists :: "op_clock \<Rightarrow> rstring \<Rightarrow> 's \<Rightarrow> bool res"
  eng_range :: "(op_clock \<Rightarrow> rstring \<Rightarrow> rstring \<Rightarrow> 's \<Rightarrow> (rstring \<times> rstring) list res) option"
  eng_compact :: "op_clock \<Rightarrow> 's \<Rightarrow> unit res \<times> 's"
  eng_dead_bytes :: "'s \<Rightarrow> u64"
  eng_total_bytes :: "'s \<Rightarrow> u64"
  eng_segment_count :: "'s \<Rightarrow> u64"

text \<open>The result and the state of an operation whose model gives no state with an error; \<open>lost\<close> is that state.\<close>

definition with_state :: "('s \<Rightarrow> failure \<Rightarrow> 's) \<Rightarrow> 's \<Rightarrow> ('r \<times> 's) res \<Rightarrow> 'r res \<times> 's" where
  "with_state lost s r = (case r of Inr (x, s') \<Rightarrow> (Inr x, s') | Inl e \<Rightarrow> (Inl e, lost s e))"

definition no_result :: "'s res \<Rightarrow> (unit \<times> 's) res" where
  "no_result r = and_then r (\<lambda>s. Inr ((), s))"

text \<open>\<open>KVEngine\<close>: its writes fail before they change anything, except for the loop over several items, which stops at the
  first error, and for \<open>compact\<close>.\<close>

fun kv_mset_run :: "(nat \<Rightarrow> u64) \<Rightarrow> nat \<Rightarrow> (rstring \<times> rstring \<times> u64 option) list \<Rightarrow> kv \<Rightarrow> unit res \<times> kv" where
  "kv_mset_run ts i [] s = (Inr (), s)"
| "kv_mset_run ts i ((k, v, expiry_ms) # items) s =
     (case kv_set_with_ttl (ts i) k v expiry_ms s of
        Inr s' \<Rightarrow> kv_mset_run ts (i + 1) items s'
      | Inl e \<Rightarrow> (Inl e, s))"

definition kv_compact_clock :: "op_clock \<Rightarrow> compact_clock" where
  "kv_compact_clock c = \<lparr>cc_new = oc_ts c 0, cc_now = oc_now c 0, cc_get = (\<lambda>i. oc_now c (i + 1)), cc_roll = (\<lambda>i. oc_ts c (i + 1))\<rparr>"

definition kv_engine :: "(kv \<Rightarrow> failure \<Rightarrow> kv) \<Rightarrow> kv engine" where
  "kv_engine lost =
     \<lparr>eng_get = (\<lambda>c k s. kv_get (oc_now c 0) k s),
      eng_set_with_ttl = (\<lambda>c k v x s. with_state (\<lambda>s e. s) s (no_result (kv_set_with_ttl (oc_ts c 0) k v x s))),
      eng_delete = (\<lambda>c k s. with_state (\<lambda>s e. s) s (kv_delete k s)),
      eng_ttl = (\<lambda>c k x s. with_state (\<lambda>s e. s) s (kv_ttl (oc_ts c 0) (oc_now c 0) k x s)),
      eng_mget = (\<lambda>c ks s. kv_mget (oc_now c) 0 ks s),
      eng_mset_with_ttl = (\<lambda>c items s. kv_mset_run (oc_ts c) 0 items s),
      eng_list_keys = (\<lambda>c s. Inr (kv_list_keys (oc_order c) (oc_now c 0) s)),
      eng_exists = (\<lambda>c k s. Inr (kv_exists (oc_now c 0) k s)),
      eng_range = None,
      eng_compact = (\<lambda>c s. with_state lost s (no_result (kv_compact (oc_order c) (kv_compact_clock c) s))),
      eng_dead_bytes = kv_dead_bytes, eng_total_bytes = kv_total_bytes, eng_segment_count = kv_segment_count\<rparr>"

text \<open>\<open>LsmEngine\<close>. The listing and the range scan see one state here.\<close>

definition lsm_engine :: "'f f64 \<Rightarrow> (lsm \<Rightarrow> failure \<Rightarrow> lsm) \<Rightarrow> lsm engine" where
  "lsm_engine F lost =
     \<lparr>eng_get = (\<lambda>c k s. lsm_get (oc_now c 0) (\<lambda>i. oc_now c (i + 1)) k s),
      eng_set_with_ttl = (\<lambda>c k v x s. with_state lost s (no_result (lsm_set_with_ttl F (oc_ts c 0) k v x s))),
      eng_delete = (\<lambda>c k s. with_state lost s (lsm_delete F (oc_ts c 0) (oc_now c 0) (\<lambda>i. oc_now c (i + 1)) k s)),
      eng_ttl = (\<lambda>c k x s. with_state lost s (lsm_ttl F (oc_ts c 0) (oc_now c 0) (\<lambda>i. oc_now c (i + 1)) k x s)),
      eng_mget = (\<lambda>c ks s. lsm_mget (\<lambda>i. (oc_now c i, \<lambda>j. oc_now c (i + j + 1))) 0 ks s),
      eng_mset_with_ttl = (\<lambda>c items s. with_state lost s (no_result (lsm_mset_with_ttl F (oc_ts c) 0 items s))),
      eng_list_keys = (\<lambda>c s. and_then (lsm_list_keys (oc_now c 0) s s s) (\<lambda>keys. Inr (oc_order c (sorted_list_of_set keys)))),
      eng_exists = (\<lambda>c k s. lsm_exists (oc_now c 0) (\<lambda>i. oc_now c (i + 1)) k s),
      eng_range = Some (\<lambda>c start end_key s. lsm_range start end_key (oc_now c 0) s s s),
      eng_compact = (\<lambda>c s. with_state lost s (no_result (lsm_compact F (oc_ts c 0) (oc_ts c 1) (\<lambda>i. (oc_now c i, oc_ts c (i + 2))) s))),
      eng_dead_bytes = (\<lambda>s. 0), eng_total_bytes = (\<lambda>s. 0), eng_segment_count = (\<lambda>s. of_nat (lsm_segment_count s))\<rparr>"

section \<open>Server state\<close>

text \<open>The phases of a compaction thread, by what it does next.\<close>

datatype compact_phase = CompactRun | CompactStoreEnd | CompactClear | CompactCount

record 's server =
  srv_db :: 's
  srv_stats :: stats
  srv_threads :: "compact_phase list"

text \<open>The operations on \<open>f32\<close> that the trigger uses.\<close>

record 'f f32 =
  f32_of_u64 :: "u64 \<Rightarrow> 'f"
  f32_div :: "'f \<Rightarrow> 'f \<Rightarrow> 'f"
  f32_gt :: "'f \<Rightarrow> 'f \<Rightarrow> bool"
  f32_zero :: 'f

record 'f compaction_cfg =
  cfg_ratio :: 'f
  cfg_max_segment :: u64

text \<open>What a command takes from its surroundings: the clock for expiries, the duration of the engine's call, the clock of
  the counters, and the clock of the engine's call.\<close>

record dispatch_clock =
  dc_now_ms :: u64
  dc_elapsed :: u64
  dc_stats_now :: u64
  dc_op :: op_clock

text \<open>\<open>compare_exchange\<close> of the flag, and the new thread.\<close>

definition start_compaction :: "u64 \<Rightarrow> 's server \<Rightarrow> 's server option" where
  "start_compaction now s =
     (if st_compacting (srv_stats s) then None
      else Some (s\<lparr>srv_stats := (srv_stats s)\<lparr>st_compacting := True, st_last_compact_start_ms := now\<rparr>,
                   srv_threads := srv_threads s @ [CompactRun]\<rparr>))"

definition maybe_trigger_compaction :: "'f f32 \<Rightarrow> 's engine \<Rightarrow> 'f compaction_cfg \<Rightarrow> u64 \<Rightarrow> 's server \<Rightarrow> 's server" where
  "maybe_trigger_compaction F E cfg now s =
     (let should_compact =
            (f32_gt F (cfg_ratio cfg) (f32_zero F) \<and> 0 < eng_total_bytes E (srv_db s) \<and>
             f32_gt F (f32_div F (f32_of_u64 F (eng_dead_bytes E (srv_db s))) (f32_of_u64 F (eng_total_bytes E (srv_db s)))) (cfg_ratio cfg)) \<or>
            (0 < cfg_max_segment cfg \<and> cfg_max_segment cfg < eng_segment_count E (srv_db s))
      in if should_compact then (case start_compaction now s of Some s' \<Rightarrow> s' | None \<Rightarrow> s) else s)"

text \<open>The \<open>i\<close>-th compaction thread makes its next move. \<open>unwrap\<close> on a failed compaction ends the thread.\<close>

definition compaction_step :: "'s engine \<Rightarrow> op_clock \<Rightarrow> u64 \<Rightarrow> nat \<Rightarrow> 's server \<Rightarrow> 's server" where
  "compaction_step E c now i s =
     (let others = take i (srv_threads s) @ drop (i + 1) (srv_threads s)
      in case srv_threads s ! i of
        CompactRun \<Rightarrow>
          (case eng_compact E c (srv_db s) of
             (Inr _, db) \<Rightarrow> s\<lparr>srv_db := db, srv_threads := (srv_threads s)[i := CompactStoreEnd]\<rparr>
           | (Inl _, db) \<Rightarrow> s\<lparr>srv_db := db, srv_threads := others\<rparr>)
      | CompactStoreEnd \<Rightarrow>
          s\<lparr>srv_stats := (srv_stats s)\<lparr>st_last_compact_end_ms := now\<rparr>, srv_threads := (srv_threads s)[i := CompactClear]\<rparr>
      | CompactClear \<Rightarrow>
          s\<lparr>srv_stats := (srv_stats s)\<lparr>st_compacting := False\<rparr>, srv_threads := (srv_threads s)[i := CompactCount]\<rparr>
      | CompactCount \<Rightarrow>
          s\<lparr>srv_stats := (srv_stats s)\<lparr>st_compaction_count := st_compaction_count (srv_stats s) + 1\<rparr>, srv_threads := others\<rparr>)"

section \<open>Commands\<close>

text \<open>The expiry of a time to live in seconds: none for zero; the sum may overflow.\<close>

definition expiry_of :: "u64 \<Rightarrow> u32 \<Rightarrow> u64 option res" where
  "expiry_of now_ms seconds =
     (if seconds = 0 then Inr None
      else and_then (checked_add64 now_ms (ucast seconds * 1000)) (\<lambda>x. Inr (Some x)))"

definition expiry_opt :: "u64 \<Rightarrow> u32 option \<Rightarrow> u64 option res" where
  "expiry_opt now_ms ttl_seconds = (case ttl_seconds of None \<Rightarrow> Inr None | Some seconds \<Rightarrow> expiry_of now_ms seconds)"

text \<open>The answer to an operation: a failure becomes an error frame with its text, a panic ends the worker.\<close>

fun answer :: "(error_kind \<Rightarrow> payload \<Rightarrow> rstring) \<Rightarrow> 'r res \<Rightarrow> 's server \<Rightarrow> ('r \<Rightarrow> bytes \<times> 's server) \<Rightarrow> (bytes \<times> 's server) res" where
  "answer err_text (Inr x) s f = Inr (f x)"
| "answer err_text (Inl (IoError k p)) s f = Inr (encode_frame StError [err_text k p], s)"
| "answer err_text (Inl (Panic m)) s f = Inl (Panic m)"

abbreviation srv_count :: "(stats \<Rightarrow> stats) \<Rightarrow> 's server \<Rightarrow> 's server" where
  "srv_count f s \<equiv> s\<lparr>srv_stats := f (srv_stats s)\<rparr>"

text \<open>The common part of the two writing commands: the counters, the engine's call and the trigger.\<close>

definition count_blocked :: "'s server \<Rightarrow> 's server" where
  "count_blocked s =
     (if st_compacting (srv_stats s) then srv_count (\<lambda>t. t\<lparr>st_write_blocked_attempts := st_write_blocked_attempts t + 1\<rparr>) s else s)"

definition finish_write ::
  "(error_kind \<Rightarrow> payload \<Rightarrow> rstring) \<Rightarrow> 'f f32 \<Rightarrow> 's engine \<Rightarrow> 'f compaction_cfg \<Rightarrow> dispatch_clock \<Rightarrow> u64 \<Rightarrow> unit res \<times> 's \<Rightarrow> 's server \<Rightarrow>
    (bytes \<times> 's server) res" where
  "finish_write err_text F E cfg c n r s =
     (let s = srv_count (\<lambda>t. t\<lparr>st_write_blocked_total_ms := st_write_blocked_total_ms t + dc_elapsed c\<rparr>) (s\<lparr>srv_db := snd r\<rparr>)
      in answer err_text (fst r) s (\<lambda>_.
           (encode_frame StOk [],
            maybe_trigger_compaction F E cfg (dc_stats_now c) (srv_count (\<lambda>t. t\<lparr>st_writes := st_writes t + n\<rparr>) s))))"

definition mget_words :: "rstring \<times> rstring option \<Rightarrow> rstring list" where
  "mget_words = (\<lambda>(k, v). case v of Some value \<Rightarrow> [k, value] | None \<Rightarrow> [k, lit [CHR 0x00]])"

definition range_words :: "rstring \<times> rstring \<Rightarrow> rstring list" where
  "range_words = (\<lambda>(k, v). [k, v])"

fun dispatch ::
  "(error_kind \<Rightarrow> payload \<Rightarrow> rstring) \<Rightarrow> 'f f32 \<Rightarrow> 's engine \<Rightarrow> 'f compaction_cfg \<Rightarrow> dispatch_clock \<Rightarrow> command \<Rightarrow> 's server \<Rightarrow>
    (bytes \<times> 's server) res" where
  "dispatch err_text F E cfg c (CmdWrite key v ttl_seconds) s =
     (let s = count_blocked s
      in and_then (expiry_opt (dc_now_ms c) ttl_seconds) (\<lambda>ttl_ms.
           finish_write err_text F E cfg c 1 (eng_set_with_ttl E (dc_op c) key v ttl_ms (srv_db s)) s))"
| "dispatch err_text F E cfg c (CmdRead key) s =
     (let s = srv_count (\<lambda>t. t\<lparr>st_reads := st_reads t + 1\<rparr>) s
      in answer err_text (eng_get E (dc_op c) key (srv_db s)) s (\<lambda>r.
           (case r of Some (_, v) \<Rightarrow> encode_frame StOk [v] | None \<Rightarrow> encode_frame StNotFound [], s)))"
| "dispatch err_text F E cfg c (CmdDelete key) s =
     (let (r, db) = eng_delete E (dc_op c) key (srv_db s);
          s = s\<lparr>srv_db := db\<rparr>
      in answer err_text r s (\<lambda>r.
           case r of
             Some _ \<Rightarrow> (encode_frame StOk [],
               maybe_trigger_compaction F E cfg (dc_stats_now c) (srv_count (\<lambda>t. t\<lparr>st_deletes := st_deletes t + 1\<rparr>) s))
           | None \<Rightarrow> (encode_frame StNotFound [], s)))"
| "dispatch err_text F E cfg c CmdCompact s =
     (case start_compaction (dc_stats_now c) s of
        None \<Rightarrow> Inr (encode_frame StNoop [], s)
      | Some s' \<Rightarrow> Inr (encode_frame StOk [], s'))"
| "dispatch err_text F E cfg c CmdStats s = Inr (encode_frame StOk [snapshot (srv_stats s)], s)"
| "dispatch err_text F E cfg c (CmdInvalid op) s =
     Inr (encode_frame StError [str_append (lit ''Invalid op code: '') (dec_string (unat op))], s)"
| "dispatch err_text F E cfg c CmdList s =
     answer err_text (eng_list_keys E (dc_op c) (srv_db s)) s (\<lambda>keys. (encode_frame StOk keys, s))"
| "dispatch err_text F E cfg c (CmdExists key) s =
     answer err_text (eng_exists E (dc_op c) key (srv_db s)) s (\<lambda>b. (encode_frame (if b then StOk else StNotFound) [], s))"
| "dispatch err_text F E cfg c CmdPing s = Inr (encode_frame StOk [lit ''PONG''], s)"
| "dispatch err_text F E cfg c (CmdMget keys) s =
     answer err_text (eng_mget E (dc_op c) keys (srv_db s)) s (\<lambda>items.
       (encode_frame StOk (concat (map mget_words items)),
        srv_count (\<lambda>t. t\<lparr>st_reads := st_reads t + of_nat (length items)\<rparr>) s))"
| "dispatch err_text F E cfg c (CmdMset items) s =
     (let s = count_blocked s
      in and_then (map_res (\<lambda>(k, v, ttl_seconds). and_then (expiry_opt (dc_now_ms c) ttl_seconds) (\<lambda>ttl_ms. Inr (k, v, ttl_ms))) items) (\<lambda>items_ms.
           finish_write err_text F E cfg c (of_nat (length items)) (eng_mset_with_ttl E (dc_op c) items_ms (srv_db s)) s))"
| "dispatch err_text F E cfg c (CmdRange start end_key) s =
     (case eng_range E of
        Some scan \<Rightarrow> answer err_text (scan (dc_op c) start end_key (srv_db s)) s (\<lambda>results.
          (encode_frame StOk (concat (map range_words results)),
           srv_count (\<lambda>t. t\<lparr>st_reads := st_reads t + of_nat (length results)\<rparr>) s))
      | None \<Rightarrow> Inr (encode_frame StError [lit ''RANGE not supported by KV engine''], s))"
| "dispatch err_text F E cfg c (CmdTtl key seconds) s =
     and_then (expiry_of (dc_now_ms c) seconds) (\<lambda>expiry_ms.
       let (r, db) = eng_ttl E (dc_op c) key expiry_ms (srv_db s);
           s = s\<lparr>srv_db := db\<rparr>
       in answer err_text r s (\<lambda>outcome.
            (case outcome of TtlSet \<Rightarrow> encode_frame StOk [] | TtlPersisted \<Rightarrow> encode_frame StOk [] | TtlNotFound \<Rightarrow> encode_frame StNotFound [], s)))"

section \<open>Concrete servers\<close>

definition exact_f32 :: "rat f32" where
  "exact_f32 = \<lparr>f32_of_u64 = (\<lambda>w. of_nat (unat w)), f32_div = (/), f32_gt = (\<lambda>a b. b < a), f32_zero = 0\<rparr>"

abbreviation fixed_clock :: "u64 \<Rightarrow> u64 \<Rightarrow> dispatch_clock" where
  "fixed_clock ts t \<equiv> \<lparr>dc_now_ms = t, dc_elapsed = 0, dc_stats_now = t, dc_op = \<lparr>oc_now = (\<lambda>_. t), oc_ts = (\<lambda>_. ts), oc_order = (\<lambda>ks. ks)\<rparr>\<rparr>"

abbreviation fresh_server :: "'s \<Rightarrow> 's server" where
  "fresh_server db \<equiv> \<lparr>srv_db = db, srv_stats = stats_new, srv_threads = []\<rparr>"

lemma stats_new_idle [simp]: "\<not> st_compacting stats_new"
  by (simp add: stats_new_def)

end
