(* ===== verification/Kv_Recovery.thy ===== *)
theory Kv_Recovery
  imports Kv_History
begin

text \<open>
  Restarting the hash-index engine: an engine that has not been compacted is rebuilt from its segments and its log. The
  segments hold the writes in order (\<open>log_files\<close>), the index tracks the last one of each key (\<open>tracks\<close>), the log holds
  the writes since the last roll (\<open>wal_agrees\<close>).
\<close>

section \<open>The index tracks a map of entries\<close>

text \<open>The record a write leaves in a segment.\<close>

definition log_record :: "rstring \<times> memtable_entry \<Rightarrow> disk_record" where
  "log_record = (\<lambda>(k, e). case me_value e of Some v \<Rightarrow> value_record k v (me_expiry_ms e) | None \<Rightarrow> tombstone_record k)"

definition log_fits :: "rstring \<times> memtable_entry \<Rightarrow> bool" where
  "log_fits = (\<lambda>(k, e). len k \<le> MAX_KEY_SIZE \<and> (case me_value e of Some v \<Rightarrow> len v \<le> MAX_VALUE_SIZE | None \<Rightarrow> e = tombstone_entry))"

definition log_bytes :: "(rstring \<times> memtable_entry) list \<Rightarrow> bytes" where
  "log_bytes ws = concat (map (\<lambda>w. record_bytes (log_record w)) ws)"

lemma log_record_ok: "log_fits w \<Longrightarrow> record_ok (log_record w)"
  by (cases w) (use value_record_ok tombstone_record_ok in \<open>auto simp: log_fits_def log_record_def split: option.splits\<close>)

lemma log_bytes_simps [simp]:
  "log_bytes [] = []" "log_bytes (w # ws) = record_bytes (log_record w) @ log_bytes ws" "log_bytes (ws @ vs) = log_bytes ws @ log_bytes vs"
  by (simp_all add: log_bytes_def)

definition track_entry :: "dir \<Rightarrow> rstring \<Rightarrow> rstring \<Rightarrow> index_entry option \<Rightarrow> memtable_entry option \<Rightarrow> bool" where
  "track_entry d name k oie oe =
     (case Option.bind oe me_value of
        Some v \<Rightarrow> (\<exists>ie. oie = Some ie \<and> entry_at d name k ie v \<and> ie_expiry_ms ie = me_expiry_ms (the oe))
      | None \<Rightarrow> oie = None)"

definition tracks :: "hash_index \<Rightarrow> dir \<Rightarrow> rstring \<Rightarrow> (rstring \<Rightarrow> memtable_entry option) \<Rightarrow> bool" where
  "tracks index d name M \<longleftrightarrow> distinct (map fst index) \<and> (\<forall>k. track_entry d name k (map_of index k) (M k))"

lemma tracks_empty [simp]: "tracks [] d name (\<lambda>_. None)"
  by (simp add: tracks_def track_entry_def)

lemma track_entry_extends: "track_entry d name k oie oe \<Longrightarrow> dir_extends d d' \<Longrightarrow> track_entry d' name k oie oe"
  by (auto simp: track_entry_def dest: entry_at_extends split: option.splits)

lemma tracks_extends: "tracks index d name M \<Longrightarrow> dir_extends d d' \<Longrightarrow> tracks index d' name M"
  unfolding tracks_def using track_entry_extends by blast

lemma tracks_update:
  assumes "tracks index d name M" and "entry_at d name k ie v" and "ie_expiry_ms ie = x"
  shows "tracks (AList.update k ie index) d name (M(k \<mapsto> \<lparr>me_value = Some v, me_expiry_ms = x\<rparr>))"
proof -
  have "track_entry d name k (Some ie) (Some \<lparr>me_value = Some v, me_expiry_ms = x\<rparr>)" using assms(2,3) by (simp add: track_entry_def)
  with assms(1) show ?thesis by (simp add: tracks_def distinct_update update_conv')
qed

lemma tracks_delete:
  assumes "tracks index d name M"
  shows "tracks (AList.delete k index) d name (M(k \<mapsto> tombstone_entry))"
proof -
  have "track_entry d name k None (Some tombstone_entry)" by (simp add: track_entry_def)
  with assms show ?thesis by (simp add: tracks_def distinct_delete delete_conv')
qed

lemma tracks_index_ok: "tracks index d name M \<Longrightarrow> index_ok index d name"
  unfolding index_ok_def
proof (intro allI impI)
  fix k e assume t: "tracks index d name M" and e: "map_of index k = Some e"
  then have "track_entry d name k (Some e) (M k)" unfolding tracks_def by metis
  then show "\<exists>v. entry_at d name k e v" by (auto simp: track_entry_def split: option.splits)
qed

lemma tracks_val:
  assumes "kv_inv s" and "tracks (kv_index s) (kv_dir s) (kv_db_name s) M"
  shows "kv_val t s k = Option.bind (M k) (entry_value t)"
proof -
  have tr: "track_entry (kv_dir s) (kv_db_name s) k (map_of (kv_index s) k) (M k)" using assms(2) by (simp add: tracks_def)
  show ?thesis
  proof (cases "Option.bind (M k) me_value")
  case None
  with tr have "map_of (kv_index s) k = None" by (simp add: track_entry_def)
  moreover have "Option.bind (M k) (entry_value t) = None" using None by (cases "M k") (auto simp: entry_value_def split: option.splits)
  ultimately show ?thesis by (simp add: kv_get_absent)
next
  case (Some v)
  then obtain e where e: "M k = Some e" "me_value e = Some v" by (cases "M k") auto
  with tr obtain ie where ie: "map_of (kv_index s) k = Some ie" "entry_at (kv_dir s) (kv_db_name s) k ie v" "ie_expiry_ms ie = me_expiry_ms e"
    by (auto simp: track_entry_def)
  from kv_get_entry(2) [OF assms(1) ie(1,2), of t] ie(3) e show ?thesis
    by (auto simp: kv_expired_def entry_value_def split: option.splits)
  qed
qed

section \<open>Scanning the segments\<close>

lemma scan_tracks:
  assumes "map_of d (segment_filename \<lparr>seg_name = name, seg_timestamp = ts\<rparr>) = Some (pre @ log_bytes ws)"
    and "length (pre @ log_bytes ws) < 2 ^ 64" and "\<forall>w \<in> set ws. log_fits w" and "tracks index d name M"
  shows "tracks (fold ix.apply_op (map (scan_op ts) (with_offsets (length pre) (map log_record ws))) index) d name (M ++ map_of (rev ws))"
  using assms
proof (induction ws arbitrary: pre index M)
  case (Cons w ws)
  obtain k e where w: "w = (k, e)" by (cases w)
  let ?r = "log_record w"
  let ?index = "ix.apply_op (scan_op ts (length pre, ?r)) index"
  have "tracks ?index d name (M(k \<mapsto> e))"
  proof (cases "me_value e")
    case None
    then have "e = tombstone_entry" using Cons.prems(3) by (simp add: w log_fits_def)
    moreover have "?index = AList.delete k index" using None by (simp add: w log_record_def scan_op_def ix.apply_op_def)
    ultimately show ?thesis using tracks_delete [OF Cons.prems(4)] by simp
  next
    case (Some v)
    then have r: "?r = value_record k v (me_expiry_ms e)" by (simp add: w log_record_def)
    let ?ie = "\<lparr>ie_segment_timestamp = ts, ie_offset = of_nat (length pre), ie_record_size = 0, ie_expiry_ms = me_expiry_ms e\<rparr>"
    have "entry_at d name k ?ie v"
      using Cons.prems(1-3) Some r by (auto simp: w entry_at_def log_fits_def unat_of_nat)
    from tracks_update [OF Cons.prems(4) this, of "me_expiry_ms e"] Some r show ?thesis
      by (cases e) (simp add: scan_op_def ix.apply_op_def)
  qed
  then have "tracks (fold ix.apply_op (map (scan_op ts) (with_offsets (length (pre @ record_bytes ?r)) (map log_record ws))) ?index) d name
      (M(k \<mapsto> e) ++ map_of (rev ws))"
    by (rule Cons.IH [rotated 3]) (use Cons.prems(1-3) in simp_all)
  moreover have "M(k \<mapsto> e) ++ map_of (rev ws) = M ++ map_of (rev (w # ws))" by (simp add: w map_add_upd)
  ultimately show ?case by (simp only: list.map with_offsets.simps fold_simps length_append)
qed simp

text \<open>The segments of a database with the writes each holds; no segment has a hint file.\<close>

definition log_file :: "dir \<Rightarrow> rstring \<Rightarrow> segment \<times> (rstring \<times> memtable_entry) list \<Rightarrow> bool" where
  "log_file d name = (\<lambda>(seg, ws). seg_name seg = name \<and> map_of d (segment_filename seg) = Some (log_bytes ws) \<and>
     map_of d (segment_hint_filename seg) = None \<and> (\<forall>w \<in> set ws. log_fits w))"

definition log_files :: "dir \<Rightarrow> rstring \<Rightarrow> (segment \<times> (rstring \<times> memtable_entry) list) list \<Rightarrow> bool" where
  "log_files d name segs \<longleftrightarrow> (\<forall>p \<in> set segs. log_file d name p)"

definition log_all :: "(segment \<times> (rstring \<times> memtable_entry) list) list \<Rightarrow> (rstring \<times> memtable_entry) list" where
  "log_all segs = concat (map snd segs)"

definition log_size :: "(segment \<times> (rstring \<times> memtable_entry) list) list \<Rightarrow> nat" where
  "log_size segs = length (log_bytes (log_all segs))"

lemma log_simps [simp]:
  "log_all [] = []" "log_all ((seg, ws) # segs) = ws @ log_all segs" "log_size [] = 0"
  "log_size ((seg, ws) # segs) = length (log_bytes ws) + log_size segs"
  "log_all (segs @ segs') = log_all segs @ log_all segs'" "log_size (segs @ segs') = log_size segs + log_size segs'"
  by (simp_all add: log_all_def log_size_def)

lemma load_segments:
  assumes "log_files d name segs" and "n + log_size segs < 2 ^ 64" and "tracks index d name M"
  shows "\<exists>index'. fold_res (load_segment d) (map fst segs) (index, of_nat n) = Inr (index', of_nat (n + log_size segs)) \<and>
           tracks index' d name (M ++ map_of (rev (log_all segs)))"
  using assms
proof (induction segs arbitrary: index n M)
  case (Cons p segs)
  obtain seg ws where p: "p = (seg, ws)" by (cases p)
  have f: "seg_name seg = name" "map_of d (segment_filename seg) = Some (log_bytes ws)" "map_of d (segment_hint_filename seg) = None" "\<forall>w \<in> set ws. log_fits w"
    using Cons.prems(1) by (auto simp: log_files_def log_file_def p)
  let ?index = "fold ix.apply_op (map (scan_op (seg_timestamp seg)) (with_offsets 0 (map log_record ws))) index"
  have "merge_from_file (log_bytes ws) (seg_timestamp seg) index = Inr ?index"
    using merge_records [of "map log_record ws" "seg_timestamp seg" index] f(4) log_record_ok by (auto simp: log_bytes_def comp_def)
  then have load: "load_segment d seg (index, of_nat n) = Inr (?index, of_nat (n + length (log_bytes ws)))"
    using f(2,3) Cons.prems(2) by (simp add: load_segment_def open_read_def file_len_def p)
  have "seg = \<lparr>seg_name = name, seg_timestamp = seg_timestamp seg\<rparr>" using f(1) by simp
  with f(2) have "map_of d (segment_filename \<lparr>seg_name = name, seg_timestamp = seg_timestamp seg\<rparr>) = Some ([] @ log_bytes ws)" by simp
  from scan_tracks [OF this _ f(4) Cons.prems(3)] Cons.prems(2) have tr: "tracks ?index d name (M ++ map_of (rev ws))" by (simp add: p)
  have "log_files d name segs" using Cons.prems(1) by (simp add: log_files_def p)
  from Cons.IH [OF this _ tr, of "n + length (log_bytes ws)"] Cons.prems(2) load show ?case by (auto simp: p add.assoc)
qed simp

section \<open>Replaying the log\<close>

lemma handle_append_linked:
  "map_of d n = Some bs \<Longrightarrow> handle_append r (Linked n) d = (of_nat (length bs), Linked n, AList.update n (bs @ record_bytes r) d)"
  by (simp add: handle_append_def handle_bytes_def record_append_def)

lemma log_record_bound: "log_fits w \<Longrightarrow> length (record_bytes (log_record w)) < 2 ^ 24"
  using log_record_ok length_record_bound by blast

text \<open>Appending one write to a segment, as the replay and the running engine do.\<close>

lemma entry_at_append:
  assumes "map_of d (segment_filename seg) = Some bs" and "seg_name seg = name" and "length bs < 2 ^ 64"
    and "log_fits (k, e)" and "me_value e = Some v" and "unat sz < 2 ^ 24"
  shows "entry_at (AList.update (segment_filename seg) (bs @ record_bytes (log_record (k, e))) d) name k
    \<lparr>ie_segment_timestamp = seg_timestamp seg, ie_offset = of_nat (length bs), ie_record_size = sz, ie_expiry_ms = me_expiry_ms e\<rparr> v"
proof -
  have "seg = \<lparr>seg_name = name, seg_timestamp = seg_timestamp seg\<rparr>" using assms(2) by simp
  then have "segment_filename \<lparr>seg_name = name, seg_timestamp = seg_timestamp seg\<rparr> = segment_filename seg" by simp
  then show ?thesis using assms by (simp add: entry_at_def log_fits_def log_record_def unat_of_nat) (metis append_Nil2)
qed

lemma replay_entry_tracks:
  assumes f: "map_of d (segment_filename seg) = Some bs" and name: "seg_name seg = name" and fits: "log_fits w" and tr: "tracks index d name M"
    and sz: "n + 2 ^ 24 < 2 ^ 64" "length bs + 2 ^ 24 < 2 ^ 64"
  shows "\<exists>index'. replay_entry seg w (index, of_nat n, d) = Inr (index', of_nat (n + length (record_bytes (log_record w))),
             AList.update (segment_filename seg) (bs @ record_bytes (log_record w)) d) \<and>
           tracks index' (AList.update (segment_filename seg) (bs @ record_bytes (log_record w)) d) name (M(fst w \<mapsto> snd w))"
proof -
  obtain k e where w: "w = (k, e)" by (cases w)
  let ?d = "AList.update (segment_filename seg) (bs @ record_bytes (log_record w)) d"
  have len: "length (record_bytes (log_record w)) < 2 ^ 24" using fits by (rule log_record_bound)
  have size: "size_on_disk (log_record w) = of_nat (length (record_bytes (log_record w)))"
    using fits log_record_ok size_on_disk_length by blast
  then have add: "checked_add64 (of_nat n) (size_on_disk (log_record w)) = Inr (of_nat (n + length (record_bytes (log_record w))))"
    using len sz(1) by simp
  have tr': "tracks index ?d name M" by (rule tracks_extends [OF tr dir_extends_append [OF f]])
  show ?thesis
  proof (cases "me_value e")
    case None
    then have e: "e = tombstone_entry" "log_record w = tombstone_record k" using fits by (simp_all add: w log_fits_def log_record_def)
    have "replay_entry seg w (index, of_nat n, d) = Inr (AList.delete k index, of_nat (n + length (record_bytes (log_record w))), ?d)"
      using add None by (simp add: replay_entry_def w e(2) [unfolded w] handle_append_linked [OF f] index_delete_def Let_def)
    then show ?thesis using tracks_delete [OF tr', of k] e(1) by (auto simp: w)
  next
    case (Some v)
    let ?ie = "\<lparr>ie_segment_timestamp = seg_timestamp seg, ie_offset = of_nat (length bs), ie_record_size = size_on_disk (log_record w), ie_expiry_ms = me_expiry_ms e\<rparr>"
    have r: "log_record w = value_record k v (me_expiry_ms e)" using Some by (simp add: w log_record_def)
    have "replay_entry seg w (index, of_nat n, d) = Inr (AList.update k ?ie index, of_nat (n + length (record_bytes (log_record w))), ?d)"
      using add Some by (simp add: replay_entry_def w r [unfolded w] handle_append_linked [OF f] index_set_def Let_def)
    moreover have "unat (size_on_disk (log_record w)) < 2 ^ 24" using len by (simp add: size unat_of_nat)
    then have "entry_at ?d name k ?ie v"
      using entry_at_append [OF f name _ _ Some, of k] fits sz(2) by (simp add: w)
    from tracks_update [OF tr' this, of "me_expiry_ms e"] have "tracks (AList.update k ?ie index) ?d name (M(k \<mapsto> e))"
      using Some by (cases e) simp
    ultimately show ?thesis by (auto simp: w)
  qed
qed

lemma replay_entries:
  assumes "map_of d (segment_filename seg) = Some bs" and "seg_name seg = name" and "\<forall>w \<in> set es. log_fits w" and "tracks index d name M"
    and "n + length es * 2 ^ 24 < 2 ^ 64" and "length bs + length es * 2 ^ 24 < 2 ^ 64"
  shows "\<exists>index' d'. fold_res (replay_entry seg) es (index, of_nat n, d) = Inr (index', of_nat (n + length (log_bytes es)), d') \<and>
           tracks index' d' name (M ++ map_of (rev es)) \<and> map_of d' (segment_filename seg) = Some (bs @ log_bytes es) \<and>
           (\<forall>m. m \<noteq> segment_filename seg \<longrightarrow> map_of d' m = map_of d m) \<and> (dir_ok d \<longrightarrow> dir_ok d')"
  using assms
proof (induction es arbitrary: d bs index n M)
  case (Cons w es)
  let ?d = "AList.update (segment_filename seg) (bs @ record_bytes (log_record w)) d"
  let ?n = "n + length (record_bytes (log_record w))"
  have "length (record_bytes (log_record w)) < 2 ^ 24" using log_record_bound Cons.prems(3) by simp
  then have sz: "?n + length es * 2 ^ 24 < 2 ^ 64" "length (bs @ record_bytes (log_record w)) + length es * 2 ^ 24 < 2 ^ 64"
    using Cons.prems(5,6) by simp_all
  have fits: "log_fits w" and sz0: "n + 2 ^ 24 < 2 ^ 64" "length bs + 2 ^ 24 < 2 ^ 64" using Cons.prems(3,5,6) by simp_all
  from replay_entry_tracks [OF Cons.prems(1,2) fits Cons.prems(4) sz0] obtain index1 where
    1: "replay_entry seg w (index, of_nat n, d) = Inr (index1, of_nat ?n, ?d)" "tracks index1 ?d name (M(fst w \<mapsto> snd w))" by blast
  have f: "map_of ?d (segment_filename seg) = Some (bs @ record_bytes (log_record w))" and fits': "\<forall>w \<in> set es. log_fits w" using Cons.prems(3) by simp_all
  from Cons.IH [OF f Cons.prems(2) fits' 1(2) sz] obtain index' d' where
    2: "fold_res (replay_entry seg) es (index1, of_nat ?n, ?d) = Inr (index', of_nat (?n + length (log_bytes es)), d')"
      "tracks index' d' name (M(fst w \<mapsto> snd w) ++ map_of (rev es))" "map_of d' (segment_filename seg) = Some ((bs @ record_bytes (log_record w)) @ log_bytes es)"
      "\<forall>m. m \<noteq> segment_filename seg \<longrightarrow> map_of d' m = map_of ?d m" "dir_ok ?d \<longrightarrow> dir_ok d'"
    by (elim exE conjE) (rule that)
  have eq: "M(fst w \<mapsto> snd w) ++ map_of (rev es) = M ++ map_of (rev (w # es))" by (cases w) (simp add: map_add_upd)
  show ?case
  proof (intro exI conjI)
    show "fold_res (replay_entry seg) (w # es) (index, of_nat n, d) = Inr (index', of_nat (n + length (log_bytes (w # es))), d')"
      using 1(1) 2(1) by (simp add: add.assoc)
    show "tracks index' d' name (M ++ map_of (rev (w # es)))" using 2(2) by (simp only: eq)
    show "map_of d' (segment_filename seg) = Some (bs @ log_bytes (w # es))" using 2(3) by simp
    show "\<forall>m. m \<noteq> segment_filename seg \<longrightarrow> map_of d' m = map_of d m" using 2(4) by simp
    show "dir_ok d \<longrightarrow> dir_ok d'" using 2(5) dir_ok_update_segment by blast
  qed
qed simp

section \<open>The list of segments\<close>

lemma segments_from_timestamps: "\<forall>seg \<in> set xs. seg_name seg = name \<Longrightarrow> map (\<lambda>ts. \<lparr>seg_name = name, seg_timestamp = ts\<rparr>) (map seg_timestamp xs) = xs"
  by (induction xs) simp_all

lemma get_segments_eqI:
  assumes "dir_ok d" and "sorted (map seg_timestamp xs)" and "distinct (map seg_timestamp xs)"
    and "set xs = {seg. seg_name seg = name \<and> map_of d (segment_filename seg) \<noteq> None}"
  shows "get_segments d name = xs"
proof -
  have set: "set (get_segments d name) = set xs" using set_get_segments [OF assms(1)] assms(4) by simp
  then have "set (map seg_timestamp (get_segments d name)) = set (map seg_timestamp xs)" by simp
  with segments_distinct [OF assms(1), of name] assms(2,3)
  have "map seg_timestamp (get_segments d name) = map seg_timestamp xs" by (intro sorted_distinct_set_unique)
  then show ?thesis using segments_from_timestamps [of "get_segments d name" name] segments_from_timestamps [of xs name] set assms(4) by auto
qed

lemma get_segments_cong:
  assumes "dir_ok d" and "dir_ok d'" and "\<forall>seg. map_of d' (segment_filename seg) = None \<longleftrightarrow> map_of d (segment_filename seg) = None"
  shows "get_segments d' name = get_segments d name"
  by (rule get_segments_eqI) (use assms set_get_segments [OF assms(1)] segments_distinct [OF assms(1)] in auto)

lemma get_segments_snoc:
  assumes "dir_ok d" and "\<forall>seg \<in> set (get_segments d name). seg_timestamp seg < ts"
  shows "get_segments (AList.update (segment_filename \<lparr>seg_name = name, seg_timestamp = ts\<rparr>) bs d) name =
    get_segments d name @ [\<lparr>seg_name = name, seg_timestamp = ts\<rparr>]"
proof (rule get_segments_eqI)
  show "dir_ok (AList.update (segment_filename \<lparr>seg_name = name, seg_timestamp = ts\<rparr>) bs d)" using assms(1) by (rule dir_ok_update_segment)
  show "sorted (map seg_timestamp (get_segments d name @ [\<lparr>seg_name = name, seg_timestamp = ts\<rparr>]))"
    using segments_distinct(2) [OF assms(1), of name] assms(2) by (auto simp: sorted_append)
  show "distinct (map seg_timestamp (get_segments d name @ [\<lparr>seg_name = name, seg_timestamp = ts\<rparr>]))"
    using segments_distinct(1) [OF assms(1), of name] assms(2) by auto
  show "set (get_segments d name @ [\<lparr>seg_name = name, seg_timestamp = ts\<rparr>]) =
      {seg. seg_name seg = name \<and> map_of (AList.update (segment_filename \<lparr>seg_name = name, seg_timestamp = ts\<rparr>) bs d) (segment_filename seg) \<noteq> None}"
    using set_get_segments [OF assms(1), of name] by auto
qed

end
