(* ===== verification/Kv_Durable.thy ===== *)
theory Kv_Durable
  imports Kv_Recovery
begin

text \<open>
  Histories of the hash-index engine with crashes: \<open>durable\<close> says that the segments hold the writes of the history, and
  every write, deletion, change of expiry and restart keeps it. The theorems also say what compaction does to the promise:
  its hint files hide later writes from the next restart, and a write between its two halves is lost.
\<close>

section \<open>What is on disk\<close>

type_synonym history = "rstring \<Rightarrow> memtable_entry option"

definition same_reads :: "history \<Rightarrow> history \<Rightarrow> bool" where
  "same_reads L H \<longleftrightarrow> (\<forall>t k. Option.bind (L k) (entry_value t) = Option.bind (H k) (entry_value t))"

definition wal_agrees :: "bytes \<Rightarrow> history \<Rightarrow> bool" where
  "wal_agrees wal H \<longleftrightarrow>
     (\<exists>ops. wal = wal_of ops \<and> (\<forall>opn \<in> set ops. op_fits opn) \<and> (\<forall>k e. map_of (rev (map op_entry ops)) k = Some e \<longrightarrow> H k = Some e))"

definition durable :: "history \<Rightarrow> kv \<Rightarrow> (segment \<times> (rstring \<times> memtable_entry) list) list \<Rightarrow> bool" where
  "durable H s segs \<longleftrightarrow>
     kv_inv s \<and> dir_ok (kv_dir s) \<and> (\<forall>seg. map_of (kv_dir s) (segment_hint_filename seg) = None) \<and>
     get_segments (kv_dir s) (kv_db_name s) = map fst segs \<and> segs \<noteq> [] \<and> fst (last segs) = kv_active_segment s \<and>
     log_files (kv_dir s) (kv_db_name s) segs \<and> tracks (kv_index s) (kv_dir s) (kv_db_name s) (map_of (rev (log_all segs))) \<and>
     same_reads (map_of (rev (log_all segs))) H"

text \<open>The write at the end of the last segment.\<close>

definition log_snoc :: "(segment \<times> (rstring \<times> memtable_entry) list) list \<Rightarrow> (rstring \<times> memtable_entry) list \<Rightarrow>
    (segment \<times> (rstring \<times> memtable_entry) list) list" where
  "log_snoc segs ws = butlast segs @ [(fst (last segs), snd (last segs) @ ws)]"

lemma log_snoc_simps [simp]:
  assumes "segs \<noteq> []"
  shows "map fst (log_snoc segs ws) = map fst segs" "log_all (log_snoc segs ws) = log_all segs @ ws" "log_snoc segs ws \<noteq> []"
    "fst (last (log_snoc segs ws)) = fst (last segs)"
  using assms by (induction segs rule: rev_induct) (auto simp: log_snoc_def)

lemma same_reads_upd: "same_reads L H \<Longrightarrow> same_reads (L(k \<mapsto> e)) (H(k \<mapsto> e))"
  by (simp add: same_reads_def)

lemma wal_agrees_Nil [simp]: "wal_agrees [] H"
  by (auto simp: wal_agrees_def wal_of_def intro!: exI [of _ "[]"])

lemma wal_agrees_append:
  assumes "wal_agrees wal H" and "op_fits (k, v, t, x)" and "op_entry (k, v, t, x) = (k, e)"
  shows "wal_agrees (snd (wal_append k v t x wal)) (H(k \<mapsto> e))"
proof -
  from assms(1) obtain ops where "wal = wal_of ops" "\<forall>opn \<in> set ops. op_fits opn" "\<forall>k e. map_of (rev (map op_entry ops)) k = Some e \<longrightarrow> H k = Some e"
    by (auto simp: wal_agrees_def)
  then show ?thesis using assms(2,3) by (auto simp: wal_agrees_def wal_of_def intro!: exI [of _ "ops @ [(k, v, t, x)]"])
qed

lemma durable_val: "durable H s segs \<Longrightarrow> kv_val t s k = Option.bind (H k) (entry_value t)"
  using tracks_val [of s "map_of (rev (log_all segs))" t k] by (simp add: durable_def same_reads_def)

lemma durable_wal [simp]: "durable H (s\<lparr>kv_wal := w\<rparr>) segs = durable H s segs"
  by (simp add: durable_def kv_inv_def)

lemma durable_counters [simp]: "durable H (kv_fsync s) segs = durable H s segs" "durable H (kv_count n r s) segs = durable H s segs"
  by (simp_all add: durable_def)

lemma durable_cong:
  "kv_dir s' = kv_dir s \<Longrightarrow> kv_index s' = kv_index s \<Longrightarrow> kv_db_name s' = kv_db_name s \<Longrightarrow> kv_active_segment s' = kv_active_segment s \<Longrightarrow>
    kv_active_file s' = kv_active_file s \<Longrightarrow> durable H s' segs = durable H s segs"
  by (simp add: durable_def kv_inv_def)

lemma durable_last:
  assumes "durable H s segs"
  shows "map_of (kv_dir s) (segment_filename (kv_active_segment s)) = Some (log_bytes (snd (last segs)))"
    and "seg_name (kv_active_segment s) = kv_db_name s" and "kv_active_file s = Linked (segment_filename (kv_active_segment s))"
proof -
  have seg: "fst (last segs) = kv_active_segment s" and "last segs \<in> set segs" using assms by (simp_all add: durable_def)
  then have "log_file (kv_dir s) (kv_db_name s) (last segs)" using assms by (simp add: durable_def log_files_def)
  with seg show "map_of (kv_dir s) (segment_filename (kv_active_segment s)) = Some (log_bytes (snd (last segs)))"
    "seg_name (kv_active_segment s) = kv_db_name s" "kv_active_file s = Linked (segment_filename (kv_active_segment s))"
    using assms by (simp_all add: durable_def log_file_def kv_inv_def case_prod_unfold)
qed

section \<open>Writes\<close>

lemma distinct_mapI: "distinct (map f xs) \<Longrightarrow> distinct xs"
  by (simp add: distinct_map)

lemma log_files_snoc:
  assumes "log_files d name segs" and "segs \<noteq> []" and "distinct (map fst segs)" and "fst (last segs) = seg" and "\<forall>w \<in> set ws. log_fits w"
    and "map_of d' (segment_filename seg) = Some (log_bytes (snd (last segs) @ ws))" and "\<forall>m. m \<noteq> segment_filename seg \<longrightarrow> map_of d' m = map_of d m"
  shows "log_files d' name (log_snoc segs ws)"
proof -
  obtain ini vs where segs: "segs = ini @ [(seg, vs)]" using assms(2,4) by (cases segs rule: rev_cases) auto
  have "log_file d' name p" if p: "p \<in> set ini" for p
  proof -
    have "fst p \<noteq> seg" using assms(3) p by (auto simp: segs)
    then have "map_of d' (segment_filename (fst p)) = map_of d (segment_filename (fst p))" using assms(7) by simp
    moreover have "log_file d name p" using assms(1) p by (simp add: segs log_files_def)
    ultimately show ?thesis using assms(7) by (simp add: log_file_def case_prod_unfold)
  qed
  moreover have "log_file d' name (seg, vs @ ws)"
    using assms(1,5-7) by (auto simp: segs log_files_def log_file_def)
  ultimately show ?thesis by (auto simp: segs log_snoc_def log_files_def)
qed

lemma durable_write:
  assumes dur: "durable H s segs" and fits: "log_fits w" and d: "d = AList.update (segment_filename (kv_active_segment s)) (log_bytes (snd (last segs) @ [w])) (kv_dir s)"
    and tr: "tracks index d (kv_db_name s) ((map_of (rev (log_all segs)))(fst w \<mapsto> snd w))"
  shows "durable (H(fst w \<mapsto> snd w)) (s\<lparr>kv_dir := d, kv_index := index\<rparr>) (log_snoc segs [w])"
proof -
  note last = durable_last [OF dur]
  have dir: "dir_ok (kv_dir s)" and ne: "segs \<noteq> []" and fst: "fst (last segs) = kv_active_segment s" and files: "log_files (kv_dir s) (kv_db_name s) segs"
    and segs: "get_segments (kv_dir s) (kv_db_name s) = map fst segs"
    using dur by (simp_all add: durable_def)
  have dir': "dir_ok d" unfolding d using dir by (rule dir_ok_update_segment)
  have "get_segments d (kv_db_name s) = get_segments (kv_dir s) (kv_db_name s)"
    by (rule get_segments_cong [OF dir dir']) (use last(1) in \<open>auto simp: d\<close>)
  moreover have "log_files d (kv_db_name s) (log_snoc segs [w])"
  proof (rule log_files_snoc [OF files ne _ fst])
    show "distinct (map fst segs)"
      using segments_distinct(1) [OF dir, of "kv_db_name s"] distinct_mapI [of seg_timestamp "get_segments (kv_dir s) (kv_db_name s)"] by (simp only: segs)
  qed (use fits in \<open>simp_all add: d\<close>)
  moreover have "kv_inv (s\<lparr>kv_dir := d, kv_index := index\<rparr>)"
    using last dur tr tracks_index_ok [OF tr] by (simp add: kv_inv_def tracks_def d)
  moreover have "same_reads ((map_of (rev (log_all segs)))(fst w \<mapsto> snd w)) (H(fst w \<mapsto> snd w))"
    using dur by (intro same_reads_upd) (simp add: durable_def)
  moreover have "(map_of (rev (log_all (log_snoc segs [w])))) = (map_of (rev (log_all segs)))(fst w \<mapsto> snd w)"
    using ne by (cases w) simp
  moreover have "\<forall>seg. map_of d (segment_hint_filename seg) = None" using dur by (simp add: durable_def d)
  ultimately show ?thesis using dir' ne fst segs tr by (simp add: durable_def)
qed

text \<open>The timestamp of a segment later than all those on disk.\<close>

definition later_seg :: "kv \<Rightarrow> u64 \<Rightarrow> bool" where
  "later_seg s ts \<longleftrightarrow> (\<forall>seg \<in> set (get_segments (kv_dir s) (kv_db_name s)). seg_timestamp seg < ts)"

lemma durable_roll:
  assumes dur: "durable H s segs" and later: "later_seg s ts"
  shows "durable H (roll_active ts s) (segs @ [(\<lparr>seg_name = kv_db_name s, seg_timestamp = ts\<rparr>, [])])"
proof -
  let ?seg = "\<lparr>seg_name = kv_db_name s, seg_timestamp = ts\<rparr>"
  let ?d = "AList.update (segment_filename ?seg) [] (kv_dir s)"
  have dir: "dir_ok (kv_dir s)" and inv: "kv_inv s" using dur by (simp_all add: durable_def)
  have "?seg \<notin> set (get_segments (kv_dir s) (kv_db_name s))" using later by (auto simp: later_seg_def)
  then have new: "map_of (kv_dir s) (segment_filename ?seg) = None" using set_get_segments [OF dir] by simp
  then have roll: "kv_dir (roll_active ts s) = ?d" "kv_active_segment (roll_active ts s) = ?seg"
    by (simp_all add: roll_active_def Let_def segment_new_def open_create_def)
  note facts = roll_active_facts [OF inv, of ts]
  have "get_segments ?d (kv_db_name s) = get_segments (kv_dir s) (kv_db_name s) @ [?seg]"
    by (rule get_segments_snoc [OF dir]) (use later in \<open>simp add: later_seg_def\<close>)
  moreover have "log_files ?d (kv_db_name s) (segs @ [(?seg, [])])"
  proof -
    have "log_file ?d (kv_db_name s) p" if "p \<in> set segs" for p
    proof -
      have p: "log_file (kv_dir s) (kv_db_name s) p" using dur that by (simp add: durable_def log_files_def)
      then have "fst p \<noteq> ?seg" using new by (auto simp: log_file_def case_prod_unfold)
      with p show ?thesis by (simp add: log_file_def case_prod_unfold)
    qed
    moreover have "map_of (kv_dir s) (segment_hint_filename ?seg) = None" using dur by (simp add: durable_def)
    ultimately show ?thesis by (simp add: log_files_def log_file_def [of ?d "kv_db_name s"])
  qed
  moreover have "tracks (kv_index s) ?d (kv_db_name s) (map_of (rev (log_all segs)))"
    using dur tracks_extends [OF _ facts(2) [unfolded roll(1)]] by (simp add: durable_def)
  ultimately show ?thesis
    using dur facts(1,3,4) dir by (simp add: durable_def roll dir_ok_update_segment)
qed

lemma tracks_map:
  assumes "tracks index d name M" and "distinct (map fst index')" and "map_of index' = (map_of index)(k \<mapsto> ie)"
    and "entry_at d name k ie v" and "ie_expiry_ms ie = x"
  shows "tracks index' d name (M(k \<mapsto> \<lparr>me_value = Some v, me_expiry_ms = x\<rparr>))"
proof -
  have "tracks (AList.update k ie index) d name (M(k \<mapsto> \<lparr>me_value = Some v, me_expiry_ms = x\<rparr>))" using assms(1,4,5) by (rule tracks_update)
  then show ?thesis using assms(2,3) by (simp add: tracks_def update_conv')
qed

lemma durable_append:
  assumes dur: "durable H s segs" and wal: "wal_agrees (kv_wal s) H" and small: "small_files (kv_dir s)" and later: "later_seg s ts"
    and fits: "len k \<le> MAX_KEY_SIZE" "len v \<le> MAX_VALUE_SIZE" and app: "kv_append ts k v x s = Inr (sz, old, s')"
  shows "\<exists>segs'. durable (H(k \<mapsto> \<lparr>me_value = Some v, me_expiry_ms = x\<rparr>)) s' segs' \<and> wal_agrees (kv_wal s') (H(k \<mapsto> \<lparr>me_value = Some v, me_expiry_ms = x\<rparr>))"
proof -
  let ?e = "\<lparr>me_value = Some v, me_expiry_ms = x\<rparr>"
  let ?s0 = "s\<lparr>kv_wal := snd (wal_append k v False x (kv_wal s))\<rparr>"
  have inv: "kv_inv s" using dur by (simp add: durable_def)
  have rec: "log_record (k, ?e) = value_record k v x" "log_fits (k, ?e)" using fits by (simp_all add: log_record_def log_fits_def)
  from kv_append_shape [OF app] obtain s1 offset h d index where s1: "s1 = ?s0 \<or> s1 = roll_active ts ?s0"
    and h: "handle_append (value_record k v x) (kv_active_file s1) (kv_dir s1) = (offset, h, d)"
    and s': "s' = s1\<lparr>kv_active_file := h, kv_dir := d, kv_index := index\<rparr>" by (elim exE conjE) (rule that)
  have wal0: "wal_agrees (kv_wal ?s0) (H(k \<mapsto> ?e))"
    using wal_agrees_append [OF wal, of k v False x ?e] fits by (simp add: op_fits_def op_entry_def)
  have later0: "later_seg ?s0 ts" using later by (simp add: later_seg_def)
  obtain segs1 where dur1: "durable H s1 segs1" and wal1: "wal_agrees (kv_wal s1) (H(k \<mapsto> ?e))" and idx1: "kv_index s1 = kv_index s" "kv_db_name s1 = kv_db_name s"
  proof (cases "s1 = ?s0")
    case True
    then show thesis using dur wal0 by (intro that [of segs]) simp_all
  next
    case False
    then have "s1 = roll_active ts ?s0" using s1 by blast
    moreover have "durable H ?s0 segs" using dur by simp
    from durable_roll [OF this later0] obtain segs1 where "durable H (roll_active ts ?s0) segs1" by blast
    ultimately show thesis by (intro that [of segs1]) (simp_all add: roll_active_def wal_reset_def Let_def)
  qed
  note last = durable_last [OF dur1]
  have hd: "h = kv_active_file s1" "d = AList.update (segment_filename (kv_active_segment s1)) (log_bytes (snd (last segs1) @ [(k, ?e)])) (kv_dir s1)"
    using h handle_append_linked [OF last(1), of "value_record k v x"] by (simp_all add: last(3) rec(1))
  from kv_append_facts [OF inv small fits, of ts x] app obtain ie where ie: "kv_inv s'" "map_of (kv_index s') = (map_of (kv_index s))(k \<mapsto> ie)"
    "entry_at (kv_dir s') (kv_db_name s') k ie v" "ie_expiry_ms ie = x" by auto
  have "tracks (kv_index s1) d (kv_db_name s1) (map_of (rev (log_all segs1)))"
    using dur1 tracks_extends [OF _ dir_extends_append [OF last(1), of "record_bytes (value_record k v x)"]] by (simp add: durable_def hd(2) rec(1))
  from tracks_map [OF this _ _ _ ie(4), of index k v] ie(1-3) idx1
  have "tracks index d (kv_db_name s1) ((map_of (rev (log_all segs1)))(k \<mapsto> ?e))" by (simp add: s' kv_inv_def)
  from durable_write [OF dur1 rec(2) hd(2)] this have "durable (H(k \<mapsto> ?e)) (s1\<lparr>kv_dir := d, kv_index := index\<rparr>) (log_snoc segs1 [(k, ?e)])" by simp
  moreover have "s' = s1\<lparr>kv_dir := d, kv_index := index\<rparr>" by (cases s1) (simp add: s' hd(1))
  moreover have "kv_wal s' = kv_wal s1" by (simp add: s')
  ultimately show ?thesis using wal1 by auto
qed

lemma durable_delete:
  assumes dur: "durable H s segs" and wal: "wal_agrees (kv_wal s) H" and del: "kv_delete k s = Inr (r, s')"
  shows "\<exists>segs'. durable (H(k \<mapsto> tombstone_entry)) s' segs' \<and> wal_agrees (kv_wal s') (H(k \<mapsto> tombstone_entry))"
proof -
  let ?w = "snd (wal_append k (lit []) True None (kv_wal s))"
  have fits: "len k \<le> MAX_KEY_SIZE" using del by (rule kv_delete_fits)
  then have wal': "wal_agrees ?w (H(k \<mapsto> tombstone_entry))"
    using wal_agrees_append [OF wal, of k "lit []" True None tombstone_entry] by (simp add: op_fits_def op_entry_def MAX_VALUE_SIZE_def)
  have tr: "tracks (kv_index s) (kv_dir s) (kv_db_name s) (map_of (rev (log_all segs)))" using dur by (simp add: durable_def)
  note last = durable_last [OF dur]
  show ?thesis
  proof (cases "map_of (kv_index s) k")
    case None
    then have s': "s' = s\<lparr>kv_wal := ?w, kv_index := AList.delete k (kv_index s)\<rparr>" using del fits by (simp add: kv_delete_def index_delete_def not_less)
    have same: "AList.delete k (kv_index s) = kv_index s" using None by (simp add: delete_notin_dom map_of_eq_None_iff)
    have "kv_val t s k = None" for t using None by (rule kv_get_absent)
    then have "Option.bind (H k) (entry_value t) = None" for t using durable_val [OF dur] by simp
    then have "same_reads (map_of (rev (log_all segs))) (H(k \<mapsto> tombstone_entry))"
      using dur by (simp add: durable_def same_reads_def entry_value_def)
    then have "durable (H(k \<mapsto> tombstone_entry)) s segs" using dur by (simp add: durable_def)
    then show ?thesis using wal' by (intro exI [of _ segs]) (simp add: s' same)
  next
    case (Some e)
    let ?d = "AList.update (segment_filename (kv_active_segment s)) (log_bytes (snd (last segs) @ [(k, tombstone_entry)])) (kv_dir s)"
    let ?s = "s\<lparr>kv_dir := ?d, kv_index := AList.delete k (kv_index s)\<rparr>"
    have rec: "log_record (k, tombstone_entry) = tombstone_record k" "log_fits (k, tombstone_entry)" using fits by (simp_all add: log_record_def log_fits_def)
    have ext: "dir_extends (kv_dir s) ?d" using dir_extends_append [OF last(1), of "record_bytes (tombstone_record k)"] by (simp add: rec)
    have "durable (H(k \<mapsto> tombstone_entry)) ?s (log_snoc segs [(k, tombstone_entry)])"
      using durable_write [OF dur rec(2) refl, of "AList.delete k (kv_index s)"] tracks_delete [OF tracks_extends [OF tr ext]] by simp
    moreover have "kv_dir s' = kv_dir ?s \<and> kv_index s' = kv_index ?s \<and> kv_db_name s' = kv_db_name ?s \<and>
        kv_active_segment s' = kv_active_segment ?s \<and> kv_active_file s' = kv_active_file ?s \<and> kv_wal s' = ?w"
      using del fits Some handle_append_linked [OF last(1), of "tombstone_record k"] last(3)
      by (auto simp: kv_delete_def index_delete_def and_then_Inr_iff Let_def rec not_less)
    ultimately show ?thesis using wal' durable_cong [of s' ?s] by auto
  qed
qed

section \<open>Restart\<close>

definition dir_bytes :: "dir \<Rightarrow> nat" where
  "dir_bytes d = sum_list (map (\<lambda>p. length (snd p)) d)"

lemma log_size_le:
  assumes "dir_ok d" and "log_files d name segs" and "distinct (map fst segs)"
  shows "log_size segs \<le> dir_bytes d"
proof -
  have inj: "distinct segs" "inj_on (\<lambda>p. (segment_filename (fst p), log_bytes (snd p))) (set segs)"
    using assms(3) by (auto simp: distinct_map inj_on_def)
  have "log_size segs = sum_list (map (\<lambda>p. length (log_bytes (snd p))) segs)" by (induction segs) auto
  also have "\<dots> = (\<Sum>p \<in> set segs. length (log_bytes (snd p)))" using inj(1) by (simp add: sum_list_distinct_conv_sum_set)
  also have "\<dots> = (\<Sum>q \<in> (\<lambda>p. (segment_filename (fst p), log_bytes (snd p))) ` set segs. length (snd q))" using inj(2) by (simp add: sum.reindex)
  also have "\<dots> \<le> (\<Sum>q \<in> set d. length (snd q))"
    using assms(2) by (intro sum_mono2) (auto simp: log_files_def log_file_def dest!: bspec map_of_SomeD)
  also have "\<dots> = dir_bytes d" using assms(1) by (simp add: dir_bytes_def dir_ok_def distinct_map sum_list_distinct_conv_sum_set)
  finally show ?thesis .
qed

text \<open>What the log rebuilds fits in a segment.\<close>

lemma replayed_entries:
  assumes "\<forall>opn \<in> set ops. op_fits opn" and "mt_ok m" and "\<forall>k. memtable_get_entry m k = map_of (rev (map op_entry ops)) k"
  shows "\<forall>w \<in> set (mt_entries m). log_fits w" and "length (mt_entries m) \<le> length (wal_of ops)"
proof -
  have dist: "distinct (map fst (mt_entries m))" using assms(2) bt_ok_distinct by (auto simp: mt_ok_def)
  have sub: "w \<in> op_entry ` set ops" if "w \<in> set (mt_entries m)" for w
  proof -
    obtain k e where w: "w = (k, e)" by (cases w)
    with that dist have "map_of (mt_entries m) k = Some e" by simp
    with assms(3) have "map_of (rev (map op_entry ops)) k = Some e" by (simp add: memtable_get_entry_def)
    then show ?thesis by (auto simp: w dest!: map_of_SomeD)
  qed
  have "log_fits (op_entry opn)" if "op_fits opn" for opn using that by (cases opn) (auto simp: op_fits_def op_entry_def log_fits_def)
  with sub assms(1) show "\<forall>w \<in> set (mt_entries m). log_fits w" by fastforce
  have "length (mt_entries m) = card (set (mt_entries m))" using dist by (simp add: distinct_map distinct_card)
  also have "\<dots> \<le> card (op_entry ` set ops)" using sub by (intro card_mono) auto
  also have "\<dots> \<le> length ops" using card_image_le [of "set ops" op_entry] card_length [of ops] by simp
  also have "\<dots> \<le> length (wal_of ops)"
    unfolding wal_of_concat
  proof (induction ops)
    case (Cons opn ops)
    have "0 < length (record_bytes (op_record opn))" by (simp add: length_record_bytes)
    with Cons show ?case by (simp del: length_greater_0_conv)
  qed simp
  finally show "length (mt_entries m) \<le> length (wal_of ops)" .
qed

lemma durable_restart:
  assumes dur: "durable H s segs" and wal: "wal_agrees (kv_wal s) H" and torn: "op_fits torn" "i < length (record_bytes (op_record torn))"
    and size: "dir_bytes (kv_dir s) + length (kv_wal s) * 2 ^ 24 < 2 ^ 64"
  shows "\<exists>s' segs'. kv_from_dir (kv_db_name s) max_bytes fsync (kv_wal s @ take i (record_bytes (op_record torn))) (kv_dir s) = Inr (Some s') \<and>
           durable H s' segs' \<and> wal_agrees (kv_wal s') H"
proof -
  let ?name = "kv_db_name s"
  let ?L = "map_of (rev (log_all segs))"
  have dir: "dir_ok (kv_dir s)" and ne: "segs \<noteq> []" and seg: "fst (last segs) = kv_active_segment s" and files: "log_files (kv_dir s) ?name segs"
    and segs: "get_segments (kv_dir s) ?name = map fst segs" using dur by (simp_all add: durable_def)
  have dist: "distinct (map fst segs)"
    using segments_distinct(1) [OF dir, of ?name] distinct_mapI [of seg_timestamp "get_segments (kv_dir s) ?name"] by (simp only: segs)
  note last = durable_last [OF dur]
  from wal obtain ops where ops: "kv_wal s = wal_of ops" "\<forall>opn \<in> set ops. op_fits opn" "\<forall>k e. map_of (rev (map op_entry ops)) k = Some e \<longrightarrow> H k = Some e"
    by (auto simp: wal_agrees_def)
  from wal_replay_torn [OF ops(2) torn] obtain m where m: "wal_replay (kv_wal s @ take i (record_bytes (op_record torn))) = Inr m" "mt_ok m"
    "\<forall>k. memtable_get_entry m k = map_of (rev (map op_entry ops)) k" unfolding ops(1) by blast
  note es = replayed_entries [OF ops(2) m(2,3)]
  have sz: "log_size segs + length (mt_entries m) * 2 ^ 24 < 2 ^ 64"
    using log_size_le [OF dir files dist] es(2) size by (simp add: ops(1))
  have lastsz: "length (log_bytes (snd (last segs))) \<le> log_size segs"
    using ne by (cases segs rule: rev_cases) (auto simp: log_size_def)
  from load_segments [OF files _ tracks_empty, of 0] sz obtain ix1 where
    load: "fold_res (load_segment (kv_dir s)) (map fst segs) ([], 0) = Inr (ix1, of_nat (log_size segs))" "tracks ix1 (kv_dir s) ?name ?L" by auto
  have seg_last: "last (map fst segs) = kv_active_segment s" using ne seg by (simp add: last_map)
  from replay_entries [OF last(1,2) es(1) load(2), of "log_size segs"] sz lastsz obtain ix' d' where
    rep: "fold_res (replay_entry (kv_active_segment s)) (mt_entries m) (ix1, of_nat (log_size segs), kv_dir s) =
          Inr (ix', of_nat (log_size segs + length (log_bytes (mt_entries m))), d')"
      "tracks ix' d' ?name (?L ++ map_of (rev (mt_entries m)))"
      "map_of d' (segment_filename (kv_active_segment s)) = Some (log_bytes (snd (last segs)) @ log_bytes (mt_entries m))"
      "\<forall>n. n \<noteq> segment_filename (kv_active_segment s) \<longrightarrow> map_of d' n = map_of (kv_dir s) n" "dir_ok (kv_dir s) \<longrightarrow> dir_ok d'" by auto
  define s' where "s' = \<lparr>kv_index = ix', kv_wal = [], kv_active_file = Linked (segment_filename (kv_active_segment s)),
     kv_active_segment = kv_active_segment s, kv_db_name = ?name, kv_max_segment_bytes = max_bytes, kv_writes_since_fsync = 0, kv_fsync_strategy = fsync,
     kv_dead_bytes = 0, kv_total_bytes = of_nat (log_size segs + length (log_bytes (mt_entries m))), kv_segment_count = of_nat (length segs), kv_dir = d'\<rparr>"
  have run: "kv_from_dir ?name max_bytes fsync (kv_wal s @ take i (record_bytes (op_record torn))) (kv_dir s) = Inr (Some s')"
    using load(1) m(1) rep(1) ne by (simp add: kv_from_dir_def segs index_new_def seg_last wal_reset_def s'_def Let_def)
  have dir': "dir_ok d'" using rep(5) dir by blast
  have "get_segments d' ?name = map fst segs"
    unfolding segs [symmetric] by (rule get_segments_cong [OF dir dir']) (metis last(1) option.distinct(1) rep(3,4))
  moreover have "log_files d' ?name (log_snoc segs (mt_entries m))"
    by (rule log_files_snoc [OF files ne dist seg es(1)]) (use rep(3,4) in auto)
  moreover have same: "map_of (rev (mt_entries m)) = map_of (rev (map op_entry ops))"
    using m(2,3) bt_ok_distinct map_of_rev_distinct [of "mt_entries m"] by (auto simp: mt_ok_def memtable_get_entry_def fun_eq_iff)
  moreover have "same_reads (?L ++ map_of (rev (mt_entries m))) H"
    using dur ops(3) by (auto simp: durable_def same_reads_def same map_add_def split: option.splits)
  moreover have "\<forall>x. map_of d' (segment_hint_filename x) = None" using dur rep(4) by (simp add: durable_def)
  moreover have "kv_inv s'" using rep(2,3) last(2) tracks_index_ok [OF rep(2)] by (simp add: kv_inv_def s'_def tracks_def)
  ultimately have "durable H s' (log_snoc segs (mt_entries m))"
    using dir' ne seg rep(2) by (simp add: durable_def s'_def)
  then show ?thesis using run by (auto simp: s'_def)
qed

section \<open>Histories with crashes\<close>

text \<open>The writes that returned, and the engine. A crash happens between two operations or within the append to the log, where
  it leaves a torn record; the engine is opened again on what is on disk. A crash within the append to a segment is treated below. New segments get timestamps later than the ones on disk.\<close>

inductive kv_crash_run :: "kv \<Rightarrow> (rstring \<times> memtable_entry) list \<Rightarrow> kv \<Rightarrow> bool" for s0 where
  crash_init: "kv_crash_run s0 [] s0"
| crash_set: "kv_crash_run s0 ws s \<Longrightarrow> small_files (kv_dir s) \<Longrightarrow> later_seg s ts \<Longrightarrow> kv_set_with_ttl ts k v x s = Inr s' \<Longrightarrow>
    kv_crash_run s0 (ws @ [(k, \<lparr>me_value = Some v, me_expiry_ms = x\<rparr>)]) s'"
| crash_delete: "kv_crash_run s0 ws s \<Longrightarrow> kv_delete k s = Inr (r, s') \<Longrightarrow> kv_crash_run s0 (ws @ [(k, tombstone_entry)]) s'"
| crash_ttl: "kv_crash_run s0 ws s \<Longrightarrow> small_files (kv_dir s) \<Longrightarrow> later_seg s ts \<Longrightarrow> kv_get now k s = Inr (Some (k, v)) \<Longrightarrow>
    kv_ttl ts now k x s = Inr (out, s') \<Longrightarrow> kv_crash_run s0 (ws @ [(k, \<lparr>me_value = Some v, me_expiry_ms = x\<rparr>)]) s'"
| crash_restart: "kv_crash_run s0 ws s \<Longrightarrow> op_fits torn \<Longrightarrow> i < length (record_bytes (op_record torn)) \<Longrightarrow>
    dir_bytes (kv_dir s) + length (kv_wal s) * 2 ^ 24 < 2 ^ 64 \<Longrightarrow>
    kv_from_dir (kv_db_name s) max_bytes fsync (kv_wal s @ take i (record_bytes (op_record torn))) (kv_dir s) = Inr (Some s') \<Longrightarrow>
    kv_crash_run s0 ws s'"

lemma kv_set_append:
  assumes "kv_set_with_ttl ts k v x s = Inr s'"
  shows "\<exists>sz old s1. kv_append ts k v x s = Inr (sz, old, s1) \<and> s' = kv_fsync (kv_count sz old s1)"
  using assms by (auto simp: kv_set_with_ttl_def and_then_Inr_iff split: if_splits)

lemma kv_ttl_append:
  assumes "kv_ttl ts now k x s = Inr (out, s')" and "kv_get now k s = Inr (Some (k, v))"
  shows "\<exists>sz old s1. kv_append ts k v x s = Inr (sz, old, s1) \<and> s' = kv_fsync (kv_count sz old s1)"
  using assms by (auto simp: kv_ttl_def kv_get_def and_then_Inr_iff split: option.splits)

lemma durable_value_fits:
  assumes "durable H s segs" and "kv_get now k s = Inr (Some (k, v))"
  shows "len k \<le> MAX_KEY_SIZE" and "len v \<le> MAX_VALUE_SIZE"
proof -
  have inv: "kv_inv s" using assms(1) by (simp add: durable_def)
  have "map_of (kv_index s) k \<noteq> None" using assms(2) kv_get_absent(1) [of s k now] by auto
  then obtain e v' where e: "map_of (kv_index s) k = Some e" "entry_at (kv_dir s) (kv_db_name s) k e v'"
    using inv unfolding kv_inv_def by (blast dest: index_okD)
  with kv_get_entry(1) [OF inv e, of now] assms(2) show "len k \<le> MAX_KEY_SIZE" "len v \<le> MAX_VALUE_SIZE"
    by (auto simp: entry_at_def split: if_splits)
qed

lemma map_of_snoc: "map_of (rev (ws @ [(k, e)])) = (map_of (rev ws))(k \<mapsto> e)"
  by simp

lemma crash_run_durable:
  assumes "kv_crash_run s0 ws s" and "durable (\<lambda>_. None) s0 segs0" and "kv_wal s0 = []"
  shows "\<exists>segs. durable (map_of (rev ws)) s segs \<and> wal_agrees (kv_wal s) (map_of (rev ws))"
  using assms(1)
proof (induction rule: kv_crash_run.induct)
  case crash_init
  then show ?case using assms(2,3) by auto
next
  case (crash_set ws s ts k v x s')
  from crash_set.IH obtain segs where IH: "durable (map_of (rev ws)) s segs" "wal_agrees (kv_wal s) (map_of (rev ws))" by blast
  from kv_set_append [OF crash_set.hyps(4)] obtain sz old s1 where app: "kv_append ts k v x s = Inr (sz, old, s1)" "s' = kv_fsync (kv_count sz old s1)" by blast
  from kv_set_fits [OF crash_set.hyps(4)] durable_append [OF IH crash_set.hyps(2,3) _ _ app(1)] show ?case
    unfolding map_of_snoc app(2) durable_counters kv_counters by blast
next
  case (crash_delete ws s k r s')
  then obtain segs where "durable (map_of (rev ws)) s segs" "wal_agrees (kv_wal s) (map_of (rev ws))" by blast
  from durable_delete [OF this crash_delete.hyps(2)] show ?case unfolding map_of_snoc by blast
next
  case (crash_ttl ws s ts now k v x out s')
  from crash_ttl.IH obtain segs where IH: "durable (map_of (rev ws)) s segs" "wal_agrees (kv_wal s) (map_of (rev ws))" by blast
  from kv_ttl_append [OF crash_ttl.hyps(5,4)] obtain sz old s1 where app: "kv_append ts k v x s = Inr (sz, old, s1)" "s' = kv_fsync (kv_count sz old s1)" by blast
  from durable_append [OF IH crash_ttl.hyps(2,3) durable_value_fits [OF IH(1) crash_ttl.hyps(4)] app(1)] show ?case
    unfolding map_of_snoc app(2) durable_counters kv_counters by blast
next
  case (crash_restart ws s torn i max_bytes fsync s')
  then obtain segs where "durable (map_of (rev ws)) s segs" "wal_agrees (kv_wal s) (map_of (rev ws))" by blast
  from durable_restart [OF this crash_restart.hyps(2-4), of max_bytes fsync] crash_restart.hyps(5) show ?case by auto
qed

lemma durable_new:
  assumes "dir_ok d" and "get_segments d name = []" and "\<And>seg. map_of d (segment_hint_filename seg) = None"
  shows "durable (\<lambda>_. None) (kv_new ts name m f [] d) [(\<lparr>seg_name = name, seg_timestamp = ts\<rparr>, [])]"
proof -
  let ?seg = "\<lparr>seg_name = name, seg_timestamp = ts\<rparr>"
  have "set (get_segments d name) = {}" using assms(2) by simp
  then have "map_of d (segment_filename ?seg) = None" using set_get_segments [OF assms(1)] by auto
  then have new: "kv_dir (kv_new ts name m f [] d) = AList.update (segment_filename ?seg) [] d" by (simp add: kv_new_def Let_def segment_new_def open_create_def)
  have "get_segments (AList.update (segment_filename ?seg) [] d) name = [?seg]" using get_segments_snoc [OF assms(1), of name ts "[]"] assms(2) by simp
  then show ?thesis using kv_new_facts(1) [OF assms(1)] assms(1,3)
    by (simp add: durable_def new dir_ok_update_segment) (simp add: kv_new_def Let_def segment_new_def index_new_def log_files_def log_file_def same_reads_def)
qed

text \<open>C4. Crash safety of the hash-index engine without compaction: start in a directory without segments of the
  database and write, delete, change expiries and crash in any order, where a crash happens between two operations or in the
  middle of the append to the log with which an operation begins, so that the log may end in a torn record. Every read answers
  from the last write that returned, and opening the directory again succeeds. A crash in the append to the segment, which
  follows that to the log, is not among them: the directory cannot be opened after it (\<open>kv_torn_segment_blocks_open\<close>).\<close>

theorem kv_survives_crashes:
  assumes "kv_crash_run (kv_new ts db_name max_bytes fsync [] d) ws s" and "dir_ok d" and "get_segments d db_name = []"
    and "\<And>seg. map_of d (segment_hint_filename seg) = None" and "op_fits torn" and "i < length (record_bytes (op_record torn))"
    and "dir_bytes (kv_dir s) + length (kv_wal s) * 2 ^ 24 < 2 ^ 64"
  shows "kv_get t k s = Inr (map_option (Pair k) (history_val t ws k)) \<and>
    (\<exists>s'. kv_from_dir (kv_db_name s) max_bytes' fsync' (kv_wal s @ take i (record_bytes (op_record torn))) (kv_dir s) = Inr (Some s') \<and>
       kv_get t k s' = Inr (map_option (Pair k) (history_val t ws k)))"
proof -
  have "kv_wal (kv_new ts db_name max_bytes fsync [] d) = []" by (simp add: kv_new_def Let_def)
  from crash_run_durable [OF assms(1) durable_new [OF assms(2-4)] this]
  obtain segs where d: "durable (map_of (rev ws)) s segs" "wal_agrees (kv_wal s) (map_of (rev ws))" by blast
  have get: "kv_get t k s = Inr (map_option (Pair k) (history_val t ws k))" if "durable (map_of (rev ws)) s segs" for s segs
    using that durable_val [OF that, of t k] kv_get_val [of s t k] by (simp add: durable_def history_val_def)
  from durable_restart [OF d assms(5-7), of max_bytes' fsync'] get d(1) show ?thesis by blast
qed

section \<open>A torn segment\<close>

lemma durable_torn_segment:
  assumes dur: "durable H s segs" and r: "record_ok r" "0 < i" "i < length (record_bytes r)" and size: "dir_bytes (kv_dir s) < 2 ^ 64"
    and bs: "map_of (kv_dir s) (segment_filename (kv_active_segment s)) = Some bs"
  shows "kv_from_dir (kv_db_name s) max_bytes fsync wal
    (AList.update (segment_filename (kv_active_segment s)) (bs @ take i (record_bytes r)) (kv_dir s)) = Inl (IoError UnexpectedEof OsError)"
proof -
  let ?seg = "kv_active_segment s" and ?name = "kv_db_name s"
  let ?d = "AList.update (segment_filename ?seg) (bs @ take i (record_bytes r)) (kv_dir s)"
  have dir: "dir_ok (kv_dir s)" and files: "log_files (kv_dir s) ?name segs" and hints: "\<forall>x. map_of (kv_dir s) (segment_hint_filename x) = None"
    and segs: "get_segments (kv_dir s) ?name = map fst segs" using dur by (simp_all add: durable_def)
  from dur obtain pre ws where s: "segs = pre @ [(?seg, ws)]" by (cases segs rule: rev_cases) (auto simp: durable_def)
  have dist: "distinct (map fst segs)"
    using segments_distinct(1) [OF dir, of ?name] distinct_mapI [of seg_timestamp "get_segments (kv_dir s) ?name"] by (simp only: segs)
  have ws: "bs = concat (map record_bytes (map log_record ws))" "\<forall>w \<in> set ws. log_fits w"
    using files bs by (auto simp: s log_files_def log_file_def log_bytes_def comp_def)
  have dir': "dir_ok ?d" using dir by (cases ?seg) (auto intro: dir_ok_update_segment)
  have segs': "get_segments ?d ?name = map fst segs"
    unfolding segs [symmetric] by (rule get_segments_cong [OF dir dir']) (use bs in auto)
  have pre: "log_files ?d ?name pre" using files dist by (force simp: s log_files_def log_file_def)
  have "0 + log_size pre < 2 ^ 64" using log_size_le [OF dir files dist] size by (simp add: s)
  from load_segments [OF pre this tracks_empty] obtain ix where
    load: "fold_res (load_segment ?d) (map fst pre) ([], 0) = Inr (ix, of_nat (log_size pre))" by auto
  have "merge_from_file (bs @ take i (record_bytes r)) (seg_timestamp ?seg) ix = Inl (IoError UnexpectedEof OsError)"
    unfolding merge_from_file_def ws(1) by (rule scan_loop_torn) (use ws(2) log_record_ok r in auto)
  then have "load_segment ?d ?seg (ix, of_nat (log_size pre)) = Inl (IoError UnexpectedEof OsError)"
    using hints by (simp add: load_segment_def open_read_def)
  then show ?thesis using load by (simp add: kv_from_dir_def segs' index_new_def fold_res_append s)
qed

text \<open>C28. A crash in the middle of an append to the active segment makes the database unreadable: after any run as in
  \<open>kv_crash_run\<close>, if the last record of the active segment is cut short, opening the directory fails with the error of
  the reader, whatever the log holds.\<close>

theorem kv_torn_segment_blocks_open:
  assumes "kv_crash_run (kv_new ts db_name max_bytes fsync [] d) ws s" and "dir_ok d" and "get_segments d db_name = []"
    and "\<And>seg. map_of d (segment_hint_filename seg) = None" and "record_ok r" and "0 < i" and "i < length (record_bytes r)"
    and "dir_bytes (kv_dir s) < 2 ^ 64" and "map_of (kv_dir s) (segment_filename (kv_active_segment s)) = Some bs"
  shows "kv_from_dir (kv_db_name s) max_bytes' fsync' wal
    (AList.update (segment_filename (kv_active_segment s)) (bs @ take i (record_bytes r)) (kv_dir s)) = Inl (IoError UnexpectedEof OsError)"
proof -
  have "kv_wal (kv_new ts db_name max_bytes fsync [] d) = []" by (simp add: kv_new_def Let_def)
  from crash_run_durable [OF assms(1) durable_new [OF assms(2-4)] this]
  obtain segs where "durable (map_of (rev ws)) s segs" by blast
  from durable_torn_segment [OF this assms(5-9)] show ?thesis .
qed

section \<open>Concrete runs\<close>

text \<open>A write that stays in the active segment.\<close>

lemma kv_set_plain:
  assumes fits: "len k \<le> MAX_KEY_SIZE" "len v \<le> MAX_VALUE_SIZE" and act: "kv_active_file s = Linked n" "map_of (kv_dir s) n = Some bs"
    and room: "length bs + length (record_bytes (value_record k v x)) \<le> unat (kv_max_segment_bytes s)"
  shows "\<exists>s'. kv_set_with_ttl ts k v x s = Inr s' \<and> kv_wal s' = kv_wal s @ record_bytes (op_record (k, v, False, x)) \<and>
    kv_dir s' = AList.update n (bs @ record_bytes (value_record k v x)) (kv_dir s) \<and> kv_db_name s' = kv_db_name s \<and>
    kv_active_segment s' = kv_active_segment s \<and> kv_active_file s' = kv_active_file s"
proof -
  have lt: "length bs + length (record_bytes (value_record k v x)) < 2 ^ 64"
    using room le_less_trans [OF _ unsigned_less [of "kv_max_segment_bytes s", where ?'a = nat]] by simp
  have ok: "record_wf (value_record k v x)" using value_record_ok [OF fits] by simp
  have add: "checked_add64 (of_nat (length bs)) (size_on_disk (value_record k v x)) = Inr (of_nat (length bs + length (record_bytes (value_record k v x))))"
    using lt ok by (simp add: size_on_disk_length)
  have "\<not> kv_max_segment_bytes s < of_nat (length bs + length (record_bytes (value_record k v x)))"
    using room lt by (simp add: word_less_nat_alt unat_of_nat del: of_nat_add)
  with add act fits show ?thesis
    by (simp add: kv_set_with_ttl_def kv_append_def handle_bytes_def handle_append_def record_append_def Let_def index_set_def wal_append_def op_record_def
        del: of_nat_add)
qed

lemma small_files_no_hints: "small_files d \<Longrightarrow> small_files (write_hints (\<lambda>ks. ks) [] segs d)"
proof -
  have "small_files (fold (\<lambda>segment d. AList.update (segment_hint_filename segment) [] d) segs d)" if "small_files d" for d
    using that
  proof (induction segs arbitrary: d)
    case (Cons seg segs)
    have "small_files (AList.update (segment_hint_filename seg) [] d)" using Cons.prems by (simp add: small_files_def)
    from Cons.IH [OF this] show ?case by simp
  qed simp
  then show "small_files d \<Longrightarrow> small_files (write_hints (\<lambda>ks. ks) [] segs d)"
    by (simp add: write_hints_def hint_entries_def ls_keys_def map_filter_def hint_write_file_def)
qed

lemma kv_small_dir: "kv_dir kv_small = [(segment_filename \<lparr>seg_name = lit ''db'', seg_timestamp = 1\<rparr>, [])]"
  by (simp add: kv_new_def Let_def segment_new_def open_create_def)

theorem kv_survives_crashes_witness:
  "\<exists>s s'. kv_crash_run kv_small [(lit ''k'', \<lparr>me_value = Some (lit ''v''), me_expiry_ms = Some 9\<rparr>)] s \<and>
     kv_from_dir (lit ''db'') 1000 FsyncNever (kv_wal s @ take 7 (record_bytes (op_record (lit ''k'', lit [], True, None)))) (kv_dir s) = Inr (Some s') \<and>
     kv_get 8 (lit ''k'') s' = Inr (Some (lit ''k'', lit ''v''))"
proof -
  let ?torn = "(lit ''k'', lit [], True, None)"
  have sz: "len (lit ''k'') \<le> MAX_KEY_SIZE" "len (lit ''v'') \<le> MAX_VALUE_SIZE" by (simp_all add: MAX_KEY_SIZE_def MAX_VALUE_SIZE_def)
  have len: "length (record_bytes (value_record (lit ''k'') (lit ''v'') (Some 9))) = 31" "length (record_bytes (op_record (lit ''k'', lit ''v'', False, Some 9))) = 31"
    by (simp_all add: length_record_bytes op_record_def)
  let ?f = "segment_filename \<lparr>seg_name = lit ''db'', seg_timestamp = 1\<rparr>"
  have act: "kv_active_file kv_small = Linked ?f" "map_of (kv_dir kv_small) ?f = Some []"
    "length ([] :: bytes) + length (record_bytes (value_record (lit ''k'') (lit ''v'') (Some 9))) \<le> unat (kv_max_segment_bytes kv_small)"
    by (simp_all add: len) (simp_all add: kv_new_def Let_def segment_new_def open_create_def)
  from kv_set_plain [OF sz act, of 2] obtain s where s: "kv_set_with_ttl 2 (lit ''k'') (lit ''v'') (Some 9) kv_small = Inr s"
    "kv_wal s = record_bytes (op_record (lit ''k'', lit ''v'', False, Some 9))" "kv_dir s = [(?f, record_bytes (value_record (lit ''k'') (lit ''v'') (Some 9)))]"
    "kv_db_name s = lit ''db''" by (auto simp: kv_small_dir) (simp add: kv_new_def Let_def)
  have segs: "get_segments (kv_dir kv_small) (lit ''db'') = [\<lparr>seg_name = lit ''db'', seg_timestamp = 1\<rparr>]"
    unfolding kv_small_dir by (rule get_segments_eqI) (auto simp: dir_ok_def)
  have "later_seg kv_small 2" unfolding later_seg_def using segs by (simp add: kv_new_def Let_def)
  moreover have "small_files (kv_dir kv_small)" by (simp add: small_files_def kv_small_dir)
  ultimately have run: "kv_crash_run kv_small [(lit ''k'', \<lparr>me_value = Some (lit ''v''), me_expiry_ms = Some 9\<rparr>)] s"
    using crash_set [OF crash_init _ _ s(1)] by simp
  have torn: "op_fits ?torn" "7 < length (record_bytes (op_record ?torn))"
    by (simp_all add: op_fits_def MAX_KEY_SIZE_def MAX_VALUE_SIZE_def length_record_bytes op_record_def)
  have "get_segments [] (lit ''db'') = []" by (simp add: get_segments_def map_filter_def)
  moreover have "dir_bytes (kv_dir s) + length (kv_wal s) * 2 ^ 24 < 2 ^ 64" by (simp add: s(2,3) dir_bytes_def len)
  ultimately show ?thesis
    using kv_survives_crashes [OF run _ _ _ torn, of 8 "lit ''k''" 1000 FsyncNever] run by (auto simp: s(4) history_val_def entry_value_def is_expired_def)
qed

theorem kv_torn_segment_blocks_open_witness:
  "kv_from_dir (lit ''db'') 1000 FsyncNever (record_bytes (op_record (lit ''k'', lit ''v'', False, None)))
     [(segment_filename \<lparr>seg_name = lit ''db'', seg_timestamp = 1\<rparr>, take 9 (record_bytes (value_record (lit ''k'') (lit ''v'') None)))] =
   Inl (IoError UnexpectedEof OsError)"
proof -
  let ?r = "value_record (lit ''k'') (lit ''v'') None" and ?f = "segment_filename \<lparr>seg_name = lit ''db'', seg_timestamp = 1\<rparr>"
  have act: "kv_active_segment kv_small = \<lparr>seg_name = lit ''db'', seg_timestamp = 1\<rparr>" "kv_db_name kv_small = lit ''db''"
    by (simp_all add: kv_new_def Let_def segment_new_def)
  have r: "record_ok ?r" "(0 :: nat) < 9" "9 < length (record_bytes ?r)"
    using value_record_ok [of "lit ''k''" "lit ''v''" None] by (simp_all add: length_record_bytes MAX_KEY_SIZE_def MAX_VALUE_SIZE_def)
  have "get_segments [] (lit ''db'') = []" by (simp add: get_segments_def map_filter_def)
  note fails = kv_torn_segment_blocks_open [OF crash_init _ this _ r, where bs = "[]", of 1, where max_bytes' = 1000 and fsync' = FsyncNever]
  have "dir_bytes (kv_dir kv_small) < 2 ^ 64" "map_of (kv_dir kv_small) (segment_filename (kv_active_segment kv_small)) = Some []"
    unfolding act kv_small_dir by (simp_all add: dir_bytes_def)
  from fails [OF _ _ this] show ?thesis unfolding act kv_small_dir by (simp add: dir_ok_def)
qed

text \<open>A write during a compaction is lost: on a new engine, a write that returns after the compaction has copied the
  keys and before it swaps the index is found by reads until the swap, and by none after it.\<close>

theorem kv_compact_loses_concurrent_write:
  "\<exists>new_db old s1 s2. build_compacted (\<lambda>ks. ks) kv_clock kv_small = Inr (new_db, old) \<and>
     kv_set_with_ttl 3 (lit ''k'') (lit ''v'') None (share_files new_db kv_small) = Inr s1 \<and>
     kv_get 9 (lit ''k'') s1 = Inr (Some (lit ''k'', lit ''v'')) \<and>
     swap_compacted new_db old s1 = Inr s2 \<and> (\<forall>t. kv_get t (lit ''k'') s2 = Inr None)"
proof -
  let ?k = "lit ''k''" and ?v = "lit ''v''"
  let ?seg = "\<lparr>seg_name = lit ''db'', seg_timestamp = 1\<rparr>"
  have sz: "len ?k \<le> MAX_KEY_SIZE" "len ?v \<le> MAX_VALUE_SIZE" by (simp_all add: MAX_KEY_SIZE_def MAX_VALUE_SIZE_def)
  have segs: "get_segments (kv_dir kv_small) (lit ''db'') = [?seg]"
    unfolding kv_small_dir by (rule get_segments_eqI) (auto simp: dir_ok_def)
  have none: "kv_index kv_small = []" "kv_db_name kv_small = lit ''db''" by (simp_all add: kv_new_def Let_def index_new_def)
  have lk: "live_keys (\<lambda>ks. ks) t [] = []" for t by (simp add: live_keys_def ls_keys_def map_filter_def)
  let ?db0 = "kv_new 2 (lit ''db'') (kv_max_segment_bytes kv_small) (kv_fsync_strategy kv_small) (kv_wal kv_small) (kv_dir kv_small)"
  obtain segs' where build: "build_compacted (\<lambda>ks. ks) kv_clock kv_small = Inr (?db0\<lparr>kv_dir := write_hints (\<lambda>ks. ks) [] segs' (kv_dir ?db0)\<rparr>, [?seg])"
    using segs by (auto simp: build_compacted_def Let_def none lk) (simp add: kv_new_def Let_def index_new_def)
  define db where "db = ?db0\<lparr>kv_dir := write_hints (\<lambda>ks. ks) [] segs' (kv_dir ?db0)\<rparr>"
  let ?s = "share_files db kv_small"
  have act: "kv_active_file ?s = Linked (segment_filename ?seg)" "map_of (kv_dir ?s) (segment_filename ?seg) = Some []"
    by (simp_all add: share_files_def db_def) (simp_all add: kv_new_def Let_def segment_new_def open_create_def)
  have room: "length ([] :: bytes) + length (record_bytes (value_record ?k ?v None)) \<le> unat (kv_max_segment_bytes ?s)"
    by (simp add: length_record_bytes share_files_def) (simp add: kv_new_def Let_def)
  from kv_set_plain [OF sz act room, of 3] obtain s1 where s1: "kv_set_with_ttl 3 ?k ?v None ?s = Inr s1"
    "map_of (kv_dir s1) (segment_filename ?seg) \<noteq> None" by auto
  have "kv_inv ?s" using act by (simp add: kv_inv_def share_files_def) (simp add: kv_new_def Let_def segment_new_def index_new_def index_ok_def)
  moreover have "small_files (kv_dir ?db0)" by (auto simp: kv_small_dir small_files_def) (auto simp: kv_new_def Let_def open_create_def split: if_splits)
  then have "small_files (kv_dir ?s)" by (simp add: share_files_def db_def small_files_no_hints)
  ultimately have "kv_get 9 ?k s1 = Inr (Some (?k, ?v))"
    using kv_set_val [OF _ _ sz, of ?s 3 None] s1(1) kv_get_val [of s1 9 ?k] by auto
  moreover have "\<exists>s2. swap_compacted db [?seg] s1 = Inr s2 \<and> kv_index s2 = []"
    using s1(2) by (auto simp: swap_compacted_def Let_def remove_segment_def remove_file_def db_def) (simp add: kv_new_def Let_def index_new_def)
  ultimately show ?thesis using build s1(1) by (fastforce simp: db_def [symmetric] kv_get_absent)
qed

text \<open>A directory with one segment and its hint file, which is empty.\<close>

abbreviation hinted_dir :: "segment \<Rightarrow> bytes \<Rightarrow> dir" where
  "hinted_dir seg bs \<equiv> [(segment_filename seg, bs), (segment_hint_filename seg, [])]"

lemma hinted_segments: "get_segments (hinted_dir seg bs) (seg_name seg) = [seg]"
proof (rule get_segments_eqI)
  show "set [seg] = {x. seg_name x = seg_name seg \<and> map_of (hinted_dir seg bs) (segment_filename x) \<noteq> None}" by auto
qed (auto simp: dir_ok_def)

text \<open>The hint file hides every record of the segment.\<close>

lemma hinted_load:
  assumes "length bs < 2 ^ 64"
  shows "fold_res (load_segment (hinted_dir seg bs)) [seg] (index_new, 0) = Inr ([], of_nat (length bs))"
proof -
  have "hint_read_file [] = Inr []" by (simp add: hint_read_file_def hint_read_loop_parse)
  moreover have "checked_add64 0 (of_nat (length bs)) = Inr (of_nat (length bs))" using checked_add64_of_nat [of 0 "length bs"] assms by simp
  ultimately show ?thesis by (simp add: load_segment_def open_read_def file_len_def apply_hints_def index_new_def)
qed

lemma hinted_restart:
  assumes "length bs < 2 ^ 64"
  shows "\<exists>s. kv_from_dir (seg_name seg) m f [] (hinted_dir seg bs) = Inr (Some s) \<and> kv_index s = []"
proof -
  obtain mt where "wal_replay [] = Inr mt" "mt_ok mt" "\<forall>k. memtable_get_entry mt k = None"
    using wal_replay_clean [of "[]" "[]" None] by (auto simp: wal_of_def replay_stop_def fun_eq_iff)
  then have mt: "wal_replay [] = Inr mt" "mt_entries mt = []" by (auto simp: memtable_get_entry_def map_of_eq_None_iff)
  show ?thesis using hinted_load [OF assms, of seg] by (simp add: kv_from_dir_def hinted_segments mt Let_def)
qed

lemma hinted_replay:
  assumes fits: "len k \<le> MAX_KEY_SIZE" "len v \<le> MAX_VALUE_SIZE" and len: "length bs < 2 ^ 63"
  shows "\<exists>s. kv_from_dir (seg_name seg) m f (record_bytes (op_record (k, v, False, x))) (hinted_dir seg bs) = Inr (Some s) \<and> kv_wal s = [] \<and>
    kv_dir s = hinted_dir seg (bs @ record_bytes (value_record k v x)) \<and> (\<forall>t. kv_get t k s = Inr (if \<exists>e. x = Some e \<and> e \<le> t then None else Some (k, v)))"
proof -
  let ?op = "(k, v, False, x)" and ?e = "\<lparr>me_value = Some v, me_expiry_ms = x\<rparr>"
  let ?d = "hinted_dir seg bs"
  have op: "\<forall>opn \<in> set [?op]. op_fits opn" "wal_of [?op] = record_bytes (op_record ?op)" using fits by (simp_all add: op_fits_def wal_of_concat)
  have log: "log_record (k, ?e) = value_record k v x" "log_fits (k, ?e)" using fits by (simp_all add: log_record_def log_fits_def)
  from wal_replay_clean [OF op(1), of "[]" None] obtain mt where mt: "wal_replay (record_bytes (op_record ?op)) = Inr mt" "mt_ok mt"
    "\<forall>j. memtable_get_entry mt j = map_of (rev (map op_entry [?op])) j" by (auto simp: op(2) replay_stop_def fun_eq_iff)
  have "map_of (mt_entries mt) = map_of [(k, ?e)]" using mt(3) by (simp add: memtable_get_entry_def op_entry_def fun_eq_iff)
  moreover have "distinct (map fst (mt_entries mt))" using mt(2) bt_ok_distinct by (auto simp: mt_ok_def)
  ultimately have "set (mt_entries mt) = {(k, ?e)}" "distinct (mt_entries mt)" using map_of_inject_set [of "mt_entries mt" "[(k, ?e)]"] by (simp_all add: distinct_map)
  then have es: "mt_entries mt = [(k, ?e)]" by (cases "mt_entries mt"; cases "tl (mt_entries mt)") auto
  have f: "map_of ?d (segment_filename seg) = Some bs" by simp
  have sz: "length bs + 2 ^ 24 < 2 ^ 64" "length bs < 2 ^ 64" using len by simp_all
  have upd: "AList.update (segment_filename seg) (bs @ record_bytes (value_record k v x)) ?d = hinted_dir seg (bs @ record_bytes (value_record k v x))" by simp
  from replay_entry_tracks [OF f refl log(2) tracks_empty sz(1) sz(1)] obtain index where
    rep: "replay_entry seg (k, ?e) ([], of_nat (length bs), ?d) = Inr (index, of_nat (length bs + length (record_bytes (value_record k v x))), hinted_dir seg (bs @ record_bytes (value_record k v x)))"
      "tracks index (hinted_dir seg (bs @ record_bytes (value_record k v x))) (seg_name seg) (Map.empty(k \<mapsto> ?e))"
    by (auto simp: log(1) upd)
  obtain s where s: "kv_from_dir (seg_name seg) m f (record_bytes (op_record ?op)) ?d = Inr (Some s)" "kv_index s = index" "kv_wal s = []"
    "kv_dir s = hinted_dir seg (bs @ record_bytes (value_record k v x))" "kv_db_name s = seg_name seg" "kv_active_segment s = seg" "kv_active_file s = Linked (segment_filename seg)"
    using hinted_load [OF sz(2), of seg] rep(1) by (simp add: kv_from_dir_def hinted_segments mt(1) es wal_reset_def Let_def)
  have inv: "kv_inv s" using s rep(2) tracks_index_ok [OF rep(2)] by (simp add: kv_inv_def tracks_def)
  have "kv_val t s k = entry_value t ?e" for t using tracks_val [OF inv, of "Map.empty(k \<mapsto> ?e)" t k] rep(2) s by simp
  then have "kv_get t k s = Inr (if \<exists>e. x = Some e \<and> e \<le> t then None else Some (k, v))" for t
    using kv_get_val [OF inv, of t k] by (auto simp: entry_value_def is_expired_def split: option.splits)
  with s show ?thesis by blast
qed

lemma kv_small_compact:
  fixes seg :: segment
  defines "seg \<equiv> \<lparr>seg_name = lit ''db'', seg_timestamp = 2\<rparr>"
  shows "\<exists>s1. kv_compact (\<lambda>ks. ks) kv_clock kv_small = Inr s1 \<and> kv_active_file s1 = Linked (segment_filename seg) \<and>
      kv_dir s1 = hinted_dir seg [] \<and> kv_wal s1 = [] \<and> kv_max_segment_bytes s1 = 1000"
proof -
  let ?old = "\<lparr>seg_name = lit ''db'', seg_timestamp = 1\<rparr>" and ?seg = "\<lparr>seg_name = lit ''db'', seg_timestamp = 2\<rparr>"
  have segs: "get_segments [(segment_filename ?old, [])] (lit ''db'') = [?old]" by (rule get_segments_eqI) (auto simp: dir_ok_def)
  have segs': "get_segments [(segment_filename ?old, []), (segment_filename ?seg, [])] (lit ''db'') = [?old, ?seg]"
    by (rule get_segments_eqI) (auto simp: dir_ok_def)
  have hints: "hint_entries (\<lambda>ks. ks) seg [] = []" "live_keys (\<lambda>ks. ks) t [] = []" for seg t
    by (simp_all add: hint_entries_def live_keys_def ls_keys_def map_filter_def)
  show ?thesis
    unfolding seg_def
    by (simp add: kv_compact_def build_compacted_def swap_compacted_def share_files_def kv_new_def Let_def index_new_def segment_new_def open_create_def
        segs segs' hints write_hints_def hint_write_file_def remove_segment_def remove_file_def handle_unlink_def wal_reset_def)
qed

text \<open>The hint file of a compaction hides later writes: after the compaction of a new engine, a write that returned is
  found by reads and survives one restart, which replays the log; the next restart takes the index from the hint file of
  the segment, and the write is gone.\<close>

theorem kv_hint_hides_writes:
  "\<exists>s1 s2 s3 s4. kv_compact (\<lambda>ks. ks) kv_clock kv_small = Inr s1 \<and>
     kv_set_with_ttl 3 (lit ''k'') (lit ''v'') None s1 = Inr s2 \<and>
     kv_from_dir (lit ''db'') 1000 FsyncNever (kv_wal s2) (kv_dir s2) = Inr (Some s3) \<and> kv_get 9 (lit ''k'') s3 = Inr (Some (lit ''k'', lit ''v'')) \<and>
     kv_from_dir (lit ''db'') 1000 FsyncNever (kv_wal s3) (kv_dir s3) = Inr (Some s4) \<and> kv_get 9 (lit ''k'') s4 = Inr None"
proof -
  let ?k = "lit ''k''" and ?v = "lit ''v''"
  let ?seg = "\<lparr>seg_name = lit ''db'', seg_timestamp = 2\<rparr>"
  have sz: "len ?k \<le> MAX_KEY_SIZE" "len ?v \<le> MAX_VALUE_SIZE" by (simp_all add: MAX_KEY_SIZE_def MAX_VALUE_SIZE_def)
  from kv_small_compact obtain s1 where s1: "kv_compact (\<lambda>ks. ks) kv_clock kv_small = Inr s1" "kv_active_file s1 = Linked (segment_filename ?seg)"
    "kv_dir s1 = hinted_dir ?seg []" "kv_wal s1 = []" "kv_max_segment_bytes s1 = 1000" by blast
  have "map_of (kv_dir s1) (segment_filename ?seg) = Some []" by (simp add: s1(3))
  from kv_set_plain [OF sz s1(2) this, of None 3] obtain s2 where s2: "kv_set_with_ttl 3 ?k ?v None s1 = Inr s2"
    "kv_wal s2 = record_bytes (op_record (?k, ?v, False, None))" "kv_dir s2 = hinted_dir ?seg (record_bytes (value_record ?k ?v None))"
    by (auto simp: s1(3-5) length_record_bytes)
  have len: "length (record_bytes (value_record ?k ?v None)) = 23" by (simp add: length_record_bytes)
  from hinted_replay [OF sz, of "record_bytes (value_record ?k ?v None)" ?seg 1000 FsyncNever None] obtain s3 where
    s3: "kv_from_dir (lit ''db'') 1000 FsyncNever (kv_wal s2) (kv_dir s2) = Inr (Some s3)" "kv_wal s3 = []" "kv_get 9 ?k s3 = Inr (Some (?k, ?v))"
      "kv_dir s3 = hinted_dir ?seg (record_bytes (value_record ?k ?v None) @ record_bytes (value_record ?k ?v None))"
    by (auto simp: s2(2,3) len)
  from hinted_restart [of "record_bytes (value_record ?k ?v None) @ record_bytes (value_record ?k ?v None)" ?seg 1000 FsyncNever] obtain s4 where
    s4: "kv_from_dir (lit ''db'') 1000 FsyncNever (kv_wal s3) (kv_dir s3) = Inr (Some s4)" "kv_index s4 = []" by (auto simp: s3(2,4) len)
  then have "kv_get 9 ?k s4 = Inr None" by (simp add: kv_get_absent)
  with s1(1) s2(1) s3(1,3) s4(1) show ?thesis by blast
qed

end
