(* ===== verification/Server_Threads.thy ===== *)
theory Server_Threads
  imports Server_Dispatch Kv_Durable
begin

text \<open>
  The compaction threads of the server, with commands from any number of workers in between: \<open>server_run\<close> is the step
  relation. The flag \<open>compacting\<close> admits one thread at a time; a thread whose compaction succeeds ends and clears it; a
  thread whose compaction fails leaves it set. The compaction of the engine is one step here, which returns a result or a
  failure.
\<close>

inductive server_run :: "(error_kind \<Rightarrow> payload \<Rightarrow> rstring) \<Rightarrow> 'f f32 \<Rightarrow> 's engine \<Rightarrow> 'f compaction_cfg \<Rightarrow> 's server \<Rightarrow> 's server \<Rightarrow> bool"
  for err_text F E cfg S0 where
  run_start: "server_run err_text F E cfg S0 S0"
| run_command: "server_run err_text F E cfg S0 S \<Longrightarrow> dispatch err_text F E cfg c cmd S = Inr (frame, S') \<Longrightarrow> server_run err_text F E cfg S0 S'"
| run_thread: "server_run err_text F E cfg S0 S \<Longrightarrow> i < length (srv_threads S) \<Longrightarrow> server_run err_text F E cfg S0 (compaction_step E c now i S)"

text \<open>A thread that holds the flag.\<close>

fun busy :: "compact_phase \<Rightarrow> bool" where
  "busy CompactCount = False"
| "busy _ = True"

abbreviation busy_threads :: "'s server \<Rightarrow> nat" where
  "busy_threads S \<equiv> length (filter busy (srv_threads S))"

abbreviation active_connections :: "'s server \<Rightarrow> 64 word" where
  "active_connections S \<equiv> st_active_connections (srv_stats S)"

abbreviation compacting :: "'s server \<Rightarrow> bool" where
  "compacting S \<equiv> st_compacting (srv_stats S)"

section \<open>What a command does to the threads and to the connection count\<close>

definition same_threads :: "'s server \<Rightarrow> 's server \<Rightarrow> bool" where
  "same_threads S S' \<longleftrightarrow> srv_threads S' = srv_threads S \<and> compacting S' = compacting S \<and> active_connections S' = active_connections S"

definition new_thread :: "'s server \<Rightarrow> 's server \<Rightarrow> bool" where
  "new_thread S S' \<longleftrightarrow> \<not> compacting S \<and> compacting S' \<and> srv_threads S' = srv_threads S @ [CompactRun] \<and>
     active_connections S' = active_connections S"

lemma same_threads_simps [simp]:
  "same_threads S S" "same_threads S (S\<lparr>srv_db := db\<rparr>)"
  by (simp_all add: same_threads_def)

lemma start_compaction_thread: "start_compaction now S = Some S' \<Longrightarrow> new_thread S S'"
  by (auto simp: start_compaction_def new_thread_def split: if_splits)

lemma trigger_threads:
  "same_threads S (maybe_trigger_compaction F E cfg now S) \<or> new_thread S (maybe_trigger_compaction F E cfg now S)"
  by (auto simp: maybe_trigger_compaction_def Let_def split: option.split dest: start_compaction_thread)

lemma threads_trans: "same_threads S T \<Longrightarrow> same_threads T U \<or> new_thread T U \<Longrightarrow> same_threads S U \<or> new_thread S U"
  by (auto simp: same_threads_def new_thread_def)

lemma trigger_after: "same_threads S T \<Longrightarrow>
    same_threads S (maybe_trigger_compaction F E cfg now T) \<or> new_thread S (maybe_trigger_compaction F E cfg now T)"
  using threads_trans trigger_threads by blast

lemma answer_Inr: "answer err_text r s f = Inr y \<Longrightarrow> (\<exists>x. r = Inr x \<and> y = f x) \<or> snd y = s"
  by (cases "(err_text, r, s, f)" rule: answer.cases) auto

lemma finish_write_threads:
  assumes "finish_write err_text F E cfg c n r S = Inr (frame, S')"
  shows "same_threads S S' \<or> new_thread S S'"
proof -
  let ?T = "srv_count (\<lambda>t. t\<lparr>st_write_blocked_total_ms := st_write_blocked_total_ms t + dc_elapsed c\<rparr>) (S\<lparr>srv_db := snd r\<rparr>)"
  let ?U = "srv_count (\<lambda>t. t\<lparr>st_writes := st_writes t + n\<rparr>) ?T"
  have "same_threads S ?T" "same_threads S ?U" by (simp_all add: same_threads_def)
  moreover have "S' = maybe_trigger_compaction F E cfg (dc_stats_now c) ?U \<or> S' = ?T"
    using answer_Inr [OF assms [unfolded finish_write_def Let_def]] by auto
  ultimately show ?thesis using trigger_after [of S ?U F E cfg "dc_stats_now c"] by blast
qed

lemma count_blocked_threads [simp]: "same_threads S (count_blocked S)"
  by (simp add: same_threads_def count_blocked_def)

lemma dispatch_threads:
  assumes "dispatch err_text F E cfg c cmd S = Inr (frame, S')"
  shows "same_threads S S' \<or> new_thread S S'"
proof (cases cmd)
  case (CmdWrite k v ttl)
  with assms have "\<exists>r. finish_write err_text F E cfg c 1 r (count_blocked S) = Inr (frame, S')"
    by (auto simp: Let_def and_then_Inr_iff simp del: split_paired_Ex)
  then obtain r where "finish_write err_text F E cfg c 1 r (count_blocked S) = Inr (frame, S')" by blast
  from finish_write_threads [OF this] show ?thesis by (rule threads_trans [OF count_blocked_threads])
next
  case (CmdMset items)
  with assms have "\<exists>r. finish_write err_text F E cfg c (of_nat (length items)) r (count_blocked S) = Inr (frame, S')"
    by (auto simp: Let_def and_then_Inr_iff simp del: split_paired_Ex)
  then obtain r where "finish_write err_text F E cfg c (of_nat (length items)) r (count_blocked S) = Inr (frame, S')" by blast
  from finish_write_threads [OF this] show ?thesis by (rule threads_trans [OF count_blocked_threads])
next
  case (CmdDelete k)
  obtain r db where del: "eng_delete E (dc_op c) k (srv_db S) = (r, db)" by (cases "eng_delete E (dc_op c) k (srv_db S)")
  let ?T = "srv_count (\<lambda>t. t\<lparr>st_deletes := st_deletes t + 1\<rparr>) (S\<lparr>srv_db := db\<rparr>)"
  have "same_threads S ?T" by (simp add: same_threads_def)
  moreover have "S' = maybe_trigger_compaction F E cfg (dc_stats_now c) ?T \<or> S' = S\<lparr>srv_db := db\<rparr>"
    using assms CmdDelete by (auto simp: del Let_def dest!: answer_Inr split: option.splits)
  ultimately show ?thesis using trigger_after [of S ?T F E cfg "dc_stats_now c"] by auto
next
  case CmdCompact
  with assms show ?thesis by (auto split: option.splits dest: start_compaction_thread)
next
  case (CmdRange a b)
  with assms show ?thesis by (auto simp: same_threads_def split: option.splits dest!: answer_Inr)
next
  case (CmdTtl k n)
  from assms CmdTtl obtain x where x: "(let (r, db) = eng_ttl E (dc_op c) k x (srv_db S); s = S\<lparr>srv_db := db\<rparr>
     in answer err_text r s (\<lambda>outcome.
          (case outcome of TtlSet \<Rightarrow> encode_frame StOk [] | TtlPersisted \<Rightarrow> encode_frame StOk [] | TtlNotFound \<Rightarrow> encode_frame StNotFound [], s))) = Inr (frame, S')"
    by (auto simp: and_then_Inr_iff)
  obtain r db where "eng_ttl E (dc_op c) k x (srv_db S) = (r, db)" by (cases "eng_ttl E (dc_op c) k x (srv_db S)")
  with x show ?thesis by (auto simp: same_threads_def Let_def dest!: answer_Inr)
qed (use assms in \<open>auto simp: same_threads_def Let_def dest!: answer_Inr\<close>)

section \<open>One compaction at a time\<close>

lemma thread_split: "i < length ts \<Longrightarrow> ts = take i ts @ ts ! i # drop (i + 1) ts"
  by (simp add: id_take_nth_drop)

text \<open>The threads after a step of the \<open>i\<close>-th.\<close>

lemma compaction_step_threads:
  assumes "i < length (srv_threads S)"
  defines "others \<equiv> take i (srv_threads S) @ drop (i + 1) (srv_threads S)"
  shows "busy_threads S = length (filter busy others) + (if busy (srv_threads S ! i) then 1 else 0)"
    and "srv_threads S ! i = CompactRun \<Longrightarrow>
      compacting (compaction_step E c now i S) = compacting S \<and>
      busy_threads (compaction_step E c now i S) = length (filter busy others) + (case fst (eng_compact E c (srv_db S)) of Inr _ \<Rightarrow> 1 | Inl _ \<Rightarrow> 0)"
    and "srv_threads S ! i = CompactStoreEnd \<Longrightarrow>
      compacting (compaction_step E c now i S) = compacting S \<and> busy_threads (compaction_step E c now i S) = length (filter busy others) + 1"
    and "srv_threads S ! i = CompactClear \<Longrightarrow>
      \<not> compacting (compaction_step E c now i S) \<and> busy_threads (compaction_step E c now i S) = length (filter busy others)"
    and "srv_threads S ! i = CompactCount \<Longrightarrow>
      compacting (compaction_step E c now i S) = compacting S \<and> busy_threads (compaction_step E c now i S) = length (filter busy others)"
proof -
  have upd: "(srv_threads S)[i := p] = take i (srv_threads S) @ p # drop (i + 1) (srv_threads S)" for p
    using assms(1) by (simp add: upd_conv_take_nth_drop)
  have "length (filter busy (srv_threads S)) = length (filter busy (take i (srv_threads S) @ srv_threads S ! i # drop (i + 1) (srv_threads S)))"
    using thread_split [OF assms(1)] by simp
  then show "busy_threads S = length (filter busy others) + (if busy (srv_threads S ! i) then 1 else 0)"
    by (simp add: others_def)
qed (use assms(1) in \<open>auto simp: compaction_step_def others_def upd_conv_take_nth_drop split: prod.split sum.split\<close>)

definition one_compaction :: "'s server \<Rightarrow> bool" where
  "one_compaction S \<longleftrightarrow> busy_threads S \<le> 1 \<and> (busy_threads S = 1 \<longrightarrow> compacting S)"

lemma one_compaction_command:
  assumes "one_compaction S" and "same_threads S S' \<or> new_thread S S'"
  shows "one_compaction S'"
  using assms by (auto simp: one_compaction_def same_threads_def new_thread_def le_Suc_eq simp flip: length_0_conv)

lemma one_compaction_thread:
  assumes "one_compaction S" and "i < length (srv_threads S)"
  shows "one_compaction (compaction_step E c now i S)"
proof (cases "srv_threads S ! i")
  case CompactRun
  with assms compaction_step_threads(1,2) [OF assms(2)] show ?thesis by (auto simp: one_compaction_def split: sum.splits)
next
  case CompactStoreEnd
  with assms compaction_step_threads(1,3) [OF assms(2)] show ?thesis by (simp add: one_compaction_def)
next
  case CompactClear
  with assms compaction_step_threads(1,4) [OF assms(2)] show ?thesis by (simp add: one_compaction_def)
next
  case CompactCount
  with assms compaction_step_threads(1,5) [OF assms(2)] show ?thesis by (simp add: one_compaction_def)
qed

lemma run_one_compaction:
  assumes "server_run err_text F E cfg S0 S" and "srv_threads S0 = []"
  shows "one_compaction S"
  using assms(1)
proof (induction rule: server_run.induct)
  case run_start
  then show ?case using assms(2) by (simp add: one_compaction_def)
next
  case (run_command S c cmd frame S')
  then show ?case using dispatch_threads one_compaction_command by blast
next
  case (run_thread S i c now)
  from run_thread.IH run_thread.hyps(2) show ?case by (rule one_compaction_thread)
qed

text \<open>C9. Compactions exclude each other: starting from a server without compaction threads, whatever commands the workers
  execute and however the compaction threads interleave with them, at most one thread is between taking the flag and
  clearing it, and the flag is set while there is one.\<close>

theorem at_most_one_compaction:
  assumes "server_run err_text F E cfg S0 S" and "srv_threads S0 = []"
  shows "length (filter busy (srv_threads S)) \<le> 1 \<and> (filter busy (srv_threads S) \<noteq> [] \<longrightarrow> st_compacting (srv_stats S))"
  using run_one_compaction [OF assms] by (auto simp: one_compaction_def filter_empty_conv le_Suc_eq)

text \<open>A server with a compaction that the command \<open>COMPACT\<close> has started.\<close>

abbreviation started_server :: "kv \<Rightarrow> kv server" where
  "started_server db \<equiv> (fresh_server db)\<lparr>srv_stats := stats_new\<lparr>st_compacting := True, st_last_compact_start_ms := 5\<rparr>, srv_threads := [CompactRun]\<rparr>"

lemma started_run:
  "server_run (\<lambda>_ _. lit ''error'') exact_f32 (kv_engine (\<lambda>s e. s)) \<lparr>cfg_ratio = 0, cfg_max_segment = 0\<rparr> (fresh_server db) (started_server db)"
proof -
  have "dispatch (\<lambda>_ _. lit ''error'') exact_f32 (kv_engine (\<lambda>s e. s)) \<lparr>cfg_ratio = 0, cfg_max_segment = 0\<rparr> (fixed_clock 2 5) CmdCompact (fresh_server db) =
      Inr (encode_frame StOk [], started_server db)"
    by (simp add: start_compaction_def)
  from run_command [OF run_start this] show ?thesis .
qed

theorem at_most_one_compaction_witness:
  "\<exists>S. server_run (\<lambda>_ _. lit ''error'') exact_f32 (kv_engine (\<lambda>s e. s)) \<lparr>cfg_ratio = 0, cfg_max_segment = 0\<rparr> (fresh_server kv_small) S \<and>
     length (filter busy (srv_threads S)) = 1 \<and> st_compacting (srv_stats S)"
proof -
  from at_most_one_compaction [OF started_run [of kv_small]] have "st_compacting (srv_stats (started_server kv_small))" by simp
  with started_run [of kv_small] show ?thesis by (intro exI [of _ "started_server kv_small"]) simp
qed

section \<open>Compactions end\<close>

text \<open>A schedule of the compaction threads: each number picks one of the threads that are left.\<close>

fun run_schedule :: "'s engine \<Rightarrow> (nat \<Rightarrow> op_clock) \<Rightarrow> (nat \<Rightarrow> u64) \<Rightarrow> nat list \<Rightarrow> 's server \<Rightarrow> 's server" where
  "run_schedule E c now [] S = S"
| "run_schedule E c now (i # sched) S =
     (if srv_threads S = [] then S
      else run_schedule E c now sched (compaction_step E (c (length sched)) (now (length sched)) (i mod length (srv_threads S)) S))"

text \<open>Every compaction on the way succeeds.\<close>

fun schedule_ok :: "'s engine \<Rightarrow> (nat \<Rightarrow> op_clock) \<Rightarrow> (nat \<Rightarrow> u64) \<Rightarrow> nat list \<Rightarrow> 's server \<Rightarrow> bool" where
  "schedule_ok E c now [] S = True"
| "schedule_ok E c now (i # sched) S =
     (if srv_threads S = [] then True
      else (srv_threads S ! (i mod length (srv_threads S)) = CompactRun \<longrightarrow> fst (eng_compact E (c (length sched)) (srv_db S)) = Inr ()) \<and>
           schedule_ok E c now sched (compaction_step E (c (length sched)) (now (length sched)) (i mod length (srv_threads S)) S))"

fun rank :: "compact_phase \<Rightarrow> nat" where
  "rank CompactRun = 4" | "rank CompactStoreEnd = 3" | "rank CompactClear = 2" | "rank CompactCount = 1"

abbreviation total_rank :: "'s server \<Rightarrow> nat" where
  "total_rank S \<equiv> sum_list (map rank (srv_threads S))"

lemma rank_decreases:
  assumes "i < length (srv_threads S)"
  shows "total_rank (compaction_step E c now i S) < total_rank S"
proof -
  obtain as p bs where ts: "srv_threads S = as @ p # bs" "length as = i" using assms by (metis id_take_nth_drop length_take min.absorb2 less_imp_le)
  then have nth: "srv_threads S ! i = p" "take i (srv_threads S) = as" "drop (Suc i) (srv_threads S) = bs" "(srv_threads S)[i := q] = as @ q # bs" for q
    by (simp_all add: nth_append list_update_append)
  have "total_rank S = sum_list (map rank as) + rank p + sum_list (map rank bs)" by (simp add: ts(1))
  then show ?thesis by (cases p) (auto simp: compaction_step_def nth Let_def split: prod.split sum.split)
qed

lemma schedule_ends: "total_rank S \<le> length sched \<Longrightarrow> srv_threads (run_schedule E c now sched S) = []"
proof (induction sched arbitrary: S)
  case Nil
  then have "\<forall>p \<in> set (srv_threads S). rank p = 0" by simp
  moreover have "rank p \<noteq> 0" for p by (cases p) simp_all
  ultimately show ?case by (cases "srv_threads S") auto
next
  case (Cons i sched)
  show ?case
  proof (cases "srv_threads S = []")
    case False
    then have "i mod length (srv_threads S) < length (srv_threads S)" by simp
    from rank_decreases [OF this, of E "c (length sched)" "now (length sched)"] Cons.prems False show ?thesis
      by (simp add: Cons.IH)
  qed simp
qed

text \<open>The flag after a step, when the thread is in a phase in which it holds the flag, or is not.\<close>

lemma step_flag:
  assumes one: "one_compaction S" and i: "i < length (srv_threads S)"
  shows "compacting (compaction_step E c now i S) \<and> busy_threads (compaction_step E c now i S) = 0 \<longleftrightarrow>
    (compacting S \<and> busy_threads S = 0) \<or> (srv_threads S ! i = CompactRun \<and> fst (eng_compact E c (srv_db S)) \<noteq> Inr ())"
proof (cases "srv_threads S ! i")
  case CompactRun
  have "\<exists>e. r = Inl e" if "r \<noteq> Inr ()" for r :: "failure + unit" using that by (cases r) auto
  with CompactRun compaction_step_threads(1) [OF i] compaction_step_threads(2) [OF i CompactRun, of E c now] one show ?thesis
    by (auto simp: one_compaction_def split: sum.splits)
next
  case CompactStoreEnd
  with compaction_step_threads(1) [OF i] compaction_step_threads(3) [OF i CompactStoreEnd, of E c now] show ?thesis by simp
next
  case CompactClear
  with compaction_step_threads(1) [OF i] compaction_step_threads(4) [OF i CompactClear, of E c now] show ?thesis by simp
next
  case CompactCount
  with compaction_step_threads(1) [OF i] compaction_step_threads(5) [OF i CompactCount, of E c now] show ?thesis by simp
qed

lemma schedule_flag:
  "one_compaction S \<Longrightarrow> total_rank S \<le> length sched \<Longrightarrow>
     compacting (run_schedule E c now sched S) \<longleftrightarrow> (compacting S \<and> busy_threads S = 0) \<or> \<not> schedule_ok E c now sched S"
proof (induction sched arbitrary: S)
  case Nil
  then have "srv_threads S = []" using schedule_ends [of S "[]" E c now] by simp
  then show ?case by simp
next
  case (Cons i sched)
  show ?case
  proof (cases "srv_threads S = []")
    case False
    let ?i = "i mod length (srv_threads S)"
    let ?S = "compaction_step E (c (length sched)) (now (length sched)) ?i S"
    have i: "?i < length (srv_threads S)" using False by simp
    have "total_rank ?S \<le> length sched" using rank_decreases [OF i, of E "c (length sched)" "now (length sched)"] Cons.prems(2) by simp
    from Cons.IH [OF one_compaction_thread [OF Cons.prems(1) i] this] step_flag [OF Cons.prems(1) i, of E "c (length sched)" "now (length sched)"]
    show ?thesis using False by auto
  qed simp
qed

lemma rank_le: "total_rank S \<le> 4 * length (srv_threads S)"
proof -
  have "rank p \<le> 4" for p by (cases p) simp_all
  then have "sum_list (map rank ts) \<le> 4 * length ts" for ts by (induction ts) (simp_all add: add_le_mono)
  then show ?thesis by blast
qed

text \<open>C10. Compaction threads end: in every state that the server reaches, under every schedule with four moves for each
  thread, all of them have ended, whether their compactions succeed or not; and the flag is then set exactly if it was
  set before with no thread that holds it, or if a compaction on the way has failed. A compaction of the engine is taken to
  return; the threads are the only ones to move meanwhile.\<close>

theorem compactions_end:
  assumes "server_run err_text F E cfg S0 S" and "srv_threads S0 = []" and "4 * length (srv_threads S) \<le> length sched"
  shows "srv_threads (run_schedule E c now sched S) = [] \<and>
    (st_compacting (srv_stats (run_schedule E c now sched S)) \<longleftrightarrow>
       (st_compacting (srv_stats S) \<and> filter busy (srv_threads S) = []) \<or> \<not> schedule_ok E c now sched S)"
proof -
  have "total_rank S \<le> length sched" using rank_le [of S] assms(3) by simp
  with schedule_flag [OF run_one_compaction [OF assms(1,2)] this] schedule_ends [OF this] show ?thesis by simp
qed

text \<open>A compaction that was started by a command, to its end.\<close>

theorem compactions_end_witness:
  "\<exists>S S'. server_run (\<lambda>_ _. lit ''error'') exact_f32 (kv_engine (\<lambda>s e. s)) \<lparr>cfg_ratio = 0, cfg_max_segment = 0\<rparr> (fresh_server kv_small) S \<and>
     st_compacting (srv_stats S) \<and>
     run_schedule (kv_engine (\<lambda>s e. s)) (\<lambda>_. \<lparr>oc_now = (\<lambda>_. 5), oc_ts = (\<lambda>i. if i = 0 then 2 else 3), oc_order = (\<lambda>ks. ks)\<rparr>) (\<lambda>_. 6) [0, 0, 0, 0] S = S' \<and>
     srv_threads S' = [] \<and> \<not> st_compacting (srv_stats S')"
proof -
  let ?c = "\<lparr>oc_now = (\<lambda>_. 5), oc_ts = (\<lambda>i. if i = 0 then 2 else 3), oc_order = (\<lambda>ks. ks)\<rparr>"
  let ?S = "started_server kv_small"
  from kv_small_compact obtain s1 where s1: "kv_compact (\<lambda>ks. ks) kv_clock kv_small = Inr s1" by blast
  have "eng_compact (kv_engine (\<lambda>s e. s)) ?c kv_small = (Inr (), s1)"
    using s1 by (simp add: kv_engine_def kv_compact_clock_def with_state_def no_result_def)
  then have ok: "schedule_ok (kv_engine (\<lambda>s e. s)) (\<lambda>_. ?c) (\<lambda>_. 6) [0, 0, 0, 0] ?S" by (simp add: compaction_step_def)
  have "srv_threads (run_schedule (kv_engine (\<lambda>s e. s)) (\<lambda>_. ?c) (\<lambda>_. 6) [0, 0, 0, 0] ?S) = [] \<and>
      \<not> st_compacting (srv_stats (run_schedule (kv_engine (\<lambda>s e. s)) (\<lambda>_. ?c) (\<lambda>_. 6) [0, 0, 0, 0] ?S))"
    using compactions_end [OF started_run [of kv_small], of "[0, 0, 0, 0]" "\<lambda>_. ?c" "\<lambda>_. 6"] ok by (simp del: run_schedule.simps schedule_ok.simps)
  moreover have "st_compacting (srv_stats ?S)" by simp
  ultimately show ?thesis using started_run [of kv_small] by blast
qed

section \<open>A failed compaction\<close>

lemma blocked_run:
  assumes "server_run err_text F E cfg S0 S" and "compacting S0" and "busy_threads S0 = 0"
  shows "compacting S \<and> busy_threads S = 0"
  using assms(1)
proof (induction rule: server_run.induct)
  case run_start
  then show ?case using assms(2,3) by simp
next
  case (run_command S c cmd frame S')
  from dispatch_threads [OF run_command.hyps(2)] run_command.IH show ?case by (auto simp: same_threads_def new_thread_def)
next
  case (run_thread S i c now)
  then have "\<not> busy (srv_threads S ! i)" using nth_mem [OF run_thread.hyps(2)] by (auto simp: filter_empty_conv)
  then have "srv_threads S ! i = CompactCount" by (cases "srv_threads S ! i") auto
  with run_thread.IH compaction_step_threads(1) [OF run_thread.hyps(2)] compaction_step_threads(5) [OF run_thread.hyps(2), of E c now] show ?case by simp
qed

text \<open>C12. A failed compaction blocks all later ones: when, in any state the server reaches, the compaction of a thread returns
  an error, then from then on, whatever the server executes, the flag stays set, no thread compacts, and \<open>COMPACT\<close> is
  answered with \<open>Noop\<close>.\<close>

theorem failed_compaction_blocks:
  assumes "server_run err_text F E cfg S0 S" and "srv_threads S0 = []"
    and "i < length (srv_threads S)" and "srv_threads S ! i = CompactRun" and "fst (eng_compact E oc (srv_db S)) = Inl e"
    and "server_run err_text F E cfg (compaction_step E oc now i S) S'"
  shows "st_compacting (srv_stats S') \<and> filter busy (srv_threads S') = [] \<and>
    dispatch err_text F E cfg c CmdCompact S' = Inr (encode_frame StNoop [], S')"
proof -
  have "compacting (compaction_step E oc now i S) \<and> busy_threads (compaction_step E oc now i S) = 0"
    using step_flag [OF run_one_compaction [OF assms(1,2)] assms(3), of E oc now] assms(4,5) by simp
  with blocked_run [OF assms(6)] show ?thesis by (simp add: start_compaction_def)
qed

text \<open>An index entry without its file, so that the compaction fails.\<close>

abbreviation broken_kv :: kv where
  "broken_kv \<equiv> kv_small\<lparr>kv_index := [(lit ''k'', \<lparr>ie_segment_timestamp = 9, ie_offset = 0, ie_record_size = 0, ie_expiry_ms = None\<rparr>)]\<rparr>"

theorem failed_compaction_blocks_witness:
  "\<exists>S. compaction_step (kv_engine (\<lambda>s e. s)) (dc_op (fixed_clock 2 5)) 6 0 (started_server broken_kv) = S \<and>
     dispatch (\<lambda>_ _. lit ''error'') exact_f32 (kv_engine (\<lambda>s e. s)) \<lparr>cfg_ratio = 0, cfg_max_segment = 0\<rparr> (fixed_clock 2 7) CmdCompact S =
       Inr (encode_frame StNoop [], S)"
proof -
  let ?c = "dc_op (fixed_clock 2 5)"
  have get: "kv_get 5 (lit ''k'') (broken_kv\<lparr>kv_dir := kv_dir (kv_new 2 n m f w (kv_dir broken_kv))\<rparr>) = Inl (IoError NotFound OsError)"
    if "n = lit ''db''" for n m f w
    by (simp add: that kv_get_def kv_lookup_def index_get_def kv_new_def Let_def segment_new_def open_create_def open_read_def)
  have live: "live_keys (\<lambda>ks. ks) 5 (kv_index broken_kv) = [(lit ''k'', None)]"
    by (simp add: live_keys_def ls_keys_def index_get_def map_filter_def kv_expired_def)
  have name: "kv_db_name broken_kv = lit ''db''" by (simp add: kv_new_def Let_def)
  have "kv_compact (\<lambda>ks. ks) (kv_compact_clock ?c) broken_kv = Inl (IoError NotFound OsError)"
    using get live name by (simp add: kv_compact_def build_compacted_def kv_compact_clock_def)
  then have fails: "fst (eng_compact (kv_engine (\<lambda>s e. s)) ?c (srv_db (started_server broken_kv))) = Inl (IoError NotFound OsError)"
    by (simp add: kv_engine_def with_state_def no_result_def)
  from failed_compaction_blocks [OF started_run _ _ _ fails run_start, where c = "fixed_clock 2 7" and now = 6 and i = 0]
  show ?thesis by (simp del: dispatch.simps)
qed

end
