(* ===== verification/Connection_Io.thy ===== *)
theory Connection_Io
  imports Bffp_Protocol Disk_Record
begin

text \<open>
  One client connection (src/src/server/connection.rs): the incremental frame parser, the loop that reads the socket, and
  the buffer of responses. The socket is an argument: \<open>on_readable\<close> gets what the successive calls of \<open>read\<close> return,
  \<open>on_writable\<close> how much room the socket has at the successive calls of \<open>write\<close> (which returns the smaller of this room
  and of the length of its argument); the end of such a list stands for \<open>WouldBlock\<close>.

  Main results: what the parser delivers does not depend on how the bytes were cut into readiness events and reads, a
  stream of frames is delivered command by command, and the bytes of the responses leave in the order in which they were enqueued, none
  lost and none twice.
\<close>

section \<open>The frame parser\<close>

definition MAX_REQUEST_BYTES :: nat where "MAX_REQUEST_BYTES = MAX_KEY_SIZE + MAX_VALUE_SIZE + 1024"
definition LEN_PREFIX_BYTES :: nat where "LEN_PREFIX_BYTES = 4"

datatype parse_state = AwaitingLength | AwaitingBody u32

datatype connection_action = ActContinue | ActClose

record frame_parser =
  fp_state :: parse_state
  fp_buf :: bytes

lemma not_close [simp]: "action \<noteq> ActClose \<longleftrightarrow> action = ActContinue"
  by (cases action) simp_all

definition frame_parser_new :: frame_parser where
  "frame_parser_new = \<lparr>fp_state = AwaitingLength, fp_buf = []\<rparr>"

function advance :: "frame_parser \<Rightarrow> command list \<Rightarrow> (connection_action \<times> command list \<times> frame_parser) res" where
  "advance p parsed =
     (case fp_state p of
        AwaitingLength \<Rightarrow>
          if LEN_PREFIX_BYTES \<le> length (fp_buf p) then
            (let n = from_be (take LEN_PREFIX_BYTES (fp_buf p)) :: u32
             in if MAX_REQUEST_BYTES < unat n then Inr (ActClose, parsed, p)
                else advance (p\<lparr>fp_state := AwaitingBody n\<rparr>) parsed)
          else Inr (ActContinue, parsed, p)
      | AwaitingBody n \<Rightarrow>
          if LEN_PREFIX_BYTES + unat n \<le> length (fp_buf p) then
            and_then (decode_input_frame (take (LEN_PREFIX_BYTES + unat n) (fp_buf p))) (\<lambda>cmd.
              advance (p\<lparr>fp_buf := drop (LEN_PREFIX_BYTES + unat n) (fp_buf p), fp_state := AwaitingLength\<rparr>) (parsed @ [cmd]))
          else Inr (ActContinue, parsed, p))"
  by pat_completeness auto
termination
  by (relation "measure (\<lambda>(p, parsed). 2 * length (fp_buf p) + (case fp_state p of AwaitingLength \<Rightarrow> 1 | AwaitingBody _ \<Rightarrow> 0))")
    (auto simp: LEN_PREFIX_BYTES_def)

declare advance.simps [simp del]

definition feed :: "frame_parser \<Rightarrow> bytes \<Rightarrow> (command list \<times> connection_action \<times> frame_parser) res" where
  "feed p bytes =
     and_then (advance (p\<lparr>fp_buf := fp_buf p @ bytes\<rparr>) []) (\<lambda>(action, parsed, p). Inr (parsed, action, p))"

section \<open>Connections\<close>

record connection =
  conn_parser :: frame_parser
  conn_write_buf :: bytes
  conn_write_offset :: nat
  conn_last_activity :: u64
  conn_pending_close :: bool

definition connection_new :: "u64 \<Rightarrow> connection" where
  "connection_new now =
     \<lparr>conn_parser = frame_parser_new, conn_write_buf = [], conn_write_offset = 0, conn_last_activity = now, conn_pending_close = False\<rparr>"

text \<open>What a call of \<open>read\<close> returns; with bytes, also the time. No bytes: the peer has closed.\<close>

datatype read_outcome = ReadOk u64 bytes | ReadWouldBlock | ReadInterrupted | ReadError failure

fun on_readable_loop ::
  "read_outcome list \<Rightarrow> command list \<Rightarrow> connection \<Rightarrow> (command list \<times> connection_action \<times> connection) res" where
  "on_readable_loop [] all_parsed c = Inr (all_parsed, ActContinue, c)"
| "on_readable_loop (ReadWouldBlock # outs) all_parsed c = Inr (all_parsed, ActContinue, c)"
| "on_readable_loop (ReadInterrupted # outs) all_parsed c = on_readable_loop outs all_parsed c"
| "on_readable_loop (ReadError e # outs) all_parsed c = Inl e"
| "on_readable_loop (ReadOk now bs # outs) all_parsed c =
     (if bs = [] then Inr (all_parsed, ActClose, c)
      else
        and_then (feed (conn_parser c) bs) (\<lambda>(parsed, action, p).
          let c = c\<lparr>conn_last_activity := now, conn_parser := p\<rparr>
          in if action = ActClose then Inr (all_parsed @ parsed, ActClose, c)
             else on_readable_loop outs (all_parsed @ parsed) c))"

definition on_readable :: "read_outcome list \<Rightarrow> connection \<Rightarrow> (command list \<times> connection_action \<times> connection) res" where
  "on_readable outs c = on_readable_loop outs [] c"

datatype write_outcome = WriteRoom nat | WriteWouldBlock | WriteInterrupted | WriteError failure

definition write_drained :: "connection \<Rightarrow> connection" where
  "write_drained c = c\<lparr>conn_write_buf := [], conn_write_offset := 0\<rparr>"

text \<open>Also gives the bytes that were sent.\<close>

fun on_writable :: "write_outcome list \<Rightarrow> connection \<Rightarrow> (bytes \<times> connection) res" where
  "on_writable [] c =
     Inr ([], if length (conn_write_buf c) \<le> conn_write_offset c then write_drained c else c)"
| "on_writable (w # ws) c =
     (if length (conn_write_buf c) \<le> conn_write_offset c then Inr ([], write_drained c)
      else case w of
        WriteRoom room \<Rightarrow>
          let n = min room (length (conn_write_buf c) - conn_write_offset c)
          in if n = 0 then Inr ([], c)
             else and_then (on_writable ws (c\<lparr>conn_write_offset := conn_write_offset c + n\<rparr>)) (\<lambda>(sent, c').
                    Inr (take n (drop (conn_write_offset c) (conn_write_buf c)) @ sent, c'))
      | WriteWouldBlock \<Rightarrow> Inr ([], c)
      | WriteInterrupted \<Rightarrow> on_writable ws c
      | WriteError e \<Rightarrow> Inl e)"

definition enqueue_response :: "bytes \<Rightarrow> connection \<Rightarrow> connection" where
  "enqueue_response bs c = c\<lparr>conn_write_buf := conn_write_buf c @ bs\<rparr>"

definition has_pending_writes :: "connection \<Rightarrow> bool" where
  "has_pending_writes c \<longleftrightarrow> conn_write_offset c < length (conn_write_buf c)"

section \<open>The parser does not see how the bytes were cut\<close>

text \<open>More bytes behind the buffer: what was parsed before is parsed all the same.\<close>

definition more :: "bytes \<Rightarrow> frame_parser \<Rightarrow> frame_parser" where
  "more bs p = p\<lparr>fp_buf := fp_buf p @ bs\<rparr>"

lemma more_simps [simp]:
  "fp_state (more bs p) = fp_state p" "fp_buf (more bs p) = fp_buf p @ bs" "more bs (more as p) = more (as @ bs) p" "more [] p = p"
  by (simp_all add: more_def)

lemma advance_more:
  "advance (more bs p) acc =
     and_then (advance p acc) (\<lambda>(action, cs, p'). if action = ActClose then Inr (ActClose, cs, more bs p') else advance (more bs p') cs)"
proof (induction p acc rule: advance.induct)
  case (1 p acc)
  show ?case
  proof (cases "fp_state p")
    case AwaitingLength
    show ?thesis
    proof (cases "LEN_PREFIX_BYTES \<le> length (fp_buf p)")
      case True
      let ?n = "from_be (take LEN_PREFIX_BYTES (fp_buf p)) :: u32"
      have same: "take LEN_PREFIX_BYTES (fp_buf p @ bs) = take LEN_PREFIX_BYTES (fp_buf p)" using True by simp
      have upd: "(more bs p)\<lparr>fp_state := AwaitingBody ?n\<rparr> = more bs (p\<lparr>fp_state := AwaitingBody ?n\<rparr>)" by (simp add: more_def)
      show ?thesis
        using True AwaitingLength 1(1) [OF AwaitingLength True refl]
        by (subst (1 2) advance.simps) (auto simp: same upd Let_def simp del: take_append)
    next
      case False
      then show ?thesis by (subst (2) advance.simps) (simp add: AwaitingLength)
    qed
  next
    case (AwaitingBody n)
    show ?thesis
    proof (cases "LEN_PREFIX_BYTES + unat n \<le> length (fp_buf p)")
      case True
      let ?t = "LEN_PREFIX_BYTES + unat n"
      have same: "take ?t (fp_buf p @ bs) = take ?t (fp_buf p)" "drop ?t (fp_buf p @ bs) = drop ?t (fp_buf p) @ bs"
        using True by simp_all
      let ?q = "p\<lparr>fp_buf := drop ?t (fp_buf p), fp_state := AwaitingLength\<rparr>"
      have upd: "(more bs p)\<lparr>fp_buf := drop ?t (fp_buf p) @ bs, fp_state := AwaitingLength\<rparr> = more bs ?q" by (simp add: more_def)
      show ?thesis
      proof (cases "decode_input_frame (take ?t (fp_buf p))")
        case (Inl e)
        then show ?thesis
          using True AwaitingBody by (subst (1 2) advance.simps) (simp add: same del: take_append drop_append)
      next
        case (Inr cmd)
        then show ?thesis
          using True AwaitingBody 1(2) [OF AwaitingBody True, of cmd]
          by (subst (1 2) advance.simps) (simp add: same upd del: take_append drop_append)
      qed
    next
      case False
      then show ?thesis by (subst (2) advance.simps) (simp add: AwaitingBody)
    qed
  qed
qed

lemma advance_acc: "advance p (acc @ cs) = and_then (advance p cs) (\<lambda>(action, ds, p'). Inr (action, acc @ ds, p'))"
proof (induction p cs rule: advance.induct)
  case (1 p cs)
  show ?case
  proof (cases "fp_state p")
    case AwaitingLength
    then show ?thesis using 1(1) [OF AwaitingLength] by (subst (1 2) advance.simps) (simp add: Let_def)
  next
    case (AwaitingBody n)
    then show ?thesis
      using 1(2) [OF AwaitingBody]
      by (subst (1 2) advance.simps) (cases "decode_input_frame (take (LEN_PREFIX_BYTES + unat n) (fp_buf p))"; simp)
  qed
qed

lemma feed_append:
  "feed p (as @ bs) =
     and_then (feed p as) (\<lambda>(cs, action, p').
       if action = ActClose then Inr (cs, ActClose, more bs p')
       else and_then (feed p' bs) (\<lambda>(ds, action, p''). Inr (cs @ ds, action, p'')))"
proof -
  have f: "feed q zs = and_then (advance (more zs q) []) (\<lambda>(action, parsed, p). Inr (parsed, action, p))" for q zs
    by (simp add: feed_def more_def)
  have acc: "advance (more bs p') cs = and_then (advance (more bs p') []) (\<lambda>(action, ds, p''). Inr (action, cs @ ds, p''))" for p' cs
    using advance_acc [of "more bs p'" cs "[]"] by simp
  show ?thesis
  proof (cases "advance (more as p) []")
    case (Inl e)
    then show ?thesis using advance_more [of bs "more as p" "[]"] by (simp add: f)
  next
    case (Inr r)
    then obtain action cs p' where r: "advance (more as p) [] = Inr (action, cs, p')" by (cases r) auto
    have all: "advance (more (as @ bs) p) [] = (if action = ActClose then Inr (ActClose, cs, more bs p') else advance (more bs p') cs)"
      using advance_more [of bs "more as p" "[]"] r by simp
    show ?thesis
    proof (cases "action = ActClose")
      case True
      then show ?thesis using r all by (simp add: f)
    next
      case False
      then have "advance (more (as @ bs) p) [] = and_then (advance (more bs p') []) (\<lambda>(action, ds, p''). Inr (action, cs @ ds, p''))"
        using all acc [of p' cs] by simp
      then show ?thesis using r False by (cases "advance (more bs p') []") (auto simp: f)
    qed
  qed
qed

text \<open>The bytes that the reads of an event bring, up to the end of the list or to a read that ends the loop.\<close>

fun bytes_read :: "read_outcome list \<Rightarrow> bytes" where
  "bytes_read [] = []"
| "bytes_read (ReadOk now bs # outs) = (if bs = [] then [] else bs @ bytes_read outs)"
| "bytes_read (ReadInterrupted # outs) = bytes_read outs"
| "bytes_read (ReadWouldBlock # outs) = []"
| "bytes_read (ReadError e # outs) = []"

text \<open>Whether the reads end the connection: the peer has closed, or a read has failed.\<close>

fun reads_end :: "read_outcome list \<Rightarrow> connection_action res" where
  "reads_end [] = Inr ActContinue"
| "reads_end (ReadOk now bs # outs) = (if bs = [] then Inr ActClose else reads_end outs)"
| "reads_end (ReadInterrupted # outs) = reads_end outs"
| "reads_end (ReadWouldBlock # outs) = Inr ActContinue"
| "reads_end (ReadError e # outs) = Inl e"

lemma feed_Nil_advance: "feed p [] = and_then (advance p []) (\<lambda>(action, parsed, p). Inr (parsed, action, p))"
  by (simp add: feed_def)

text \<open>Once \<open>advance\<close> has returned, it has nothing to do on the parser it returned.\<close>

lemma advance_idle: "advance p acc = Inr (ActContinue, cs, p') \<Longrightarrow> advance p' ds = Inr (ActContinue, ds, p')"
proof (induction p acc rule: advance.induct)
  case (1 p acc)
  show ?case
  proof (cases "fp_state p")
    case AwaitingLength
    show ?thesis
    proof (cases "LEN_PREFIX_BYTES \<le> length (fp_buf p)")
      case True
      with 1(3) show ?thesis
        using 1(1) [OF AwaitingLength True refl] AwaitingLength by (subst (asm) advance.simps) (auto simp: Let_def split: if_splits)
    next
      case False
      with 1(3) AwaitingLength show ?thesis by (subst (asm) advance.simps, subst advance.simps) auto
    qed
  next
    case (AwaitingBody n)
    show ?thesis
    proof (cases "LEN_PREFIX_BYTES + unat n \<le> length (fp_buf p)")
      case True
      with 1(3) show ?thesis
        using 1(2) [OF AwaitingBody True] AwaitingBody by (subst (asm) advance.simps) (auto simp: and_then_Inr_iff)
    next
      case False
      with 1(3) AwaitingBody show ?thesis by (subst (asm) advance.simps, subst advance.simps) auto
    qed
  qed
qed

definition parser_idle :: "frame_parser \<Rightarrow> bool" where
  "parser_idle p \<longleftrightarrow> advance p [] = Inr (ActContinue, [], p)"

lemma parser_idle_new: "parser_idle frame_parser_new"
  by (simp add: parser_idle_def frame_parser_new_def advance.simps LEN_PREFIX_BYTES_def)

lemma feed_idle: "feed p bs = Inr (cs, ActContinue, p') \<Longrightarrow> parser_idle p'"
  using advance_idle by (auto simp: feed_def and_then_Inr_iff parser_idle_def)

lemma feed_Nil: "parser_idle p \<Longrightarrow> feed p [] = Inr ([], ActContinue, p)"
  by (simp add: feed_Nil_advance parser_idle_def)

lemma on_readable_loop_feed:
  assumes "parser_idle (conn_parser c)" and "feed (conn_parser c) (bytes_read outs) = Inr (cs, ActContinue, p)" and "reads_end outs = Inr action"
  shows "\<exists>t. on_readable_loop outs acc c = Inr (acc @ cs, action, c\<lparr>conn_last_activity := t, conn_parser := p\<rparr>)"
  using assms
proof (induction outs acc c arbitrary: cs rule: on_readable_loop.induct)
  case (1 acc c)
  then show ?case by (intro exI [of _ "conn_last_activity c"]) (auto simp: feed_Nil)
next
  case (2 outs acc c)
  then show ?case by (intro exI [of _ "conn_last_activity c"]) (auto simp: feed_Nil)
next
  case (5 now bs outs acc c)
  show ?case
  proof (cases "bs = []")
    case True
    with 5 show ?thesis by (intro exI [of _ "conn_last_activity c"]) (auto simp: feed_Nil)
  next
    case False
    with 5(3) obtain ds1 p1 ds2 where f: "feed (conn_parser c) bs = Inr (ds1, ActContinue, p1)"
      "feed p1 (bytes_read outs) = Inr (ds2, ActContinue, p)" "cs = ds1 @ ds2"
      by (auto simp: feed_append and_then_Inr_iff split: if_splits)
    let ?c = "c\<lparr>conn_last_activity := now, conn_parser := p1\<rparr>"
    have "\<exists>t. on_readable_loop outs (acc @ ds1) ?c = Inr ((acc @ ds1) @ ds2, action, ?c\<lparr>conn_last_activity := t, conn_parser := p\<rparr>)"
      using 5(1) [OF False, of "(ds1, ActContinue, p1)" ds1 "(ActContinue, p1)" ActContinue p1 ?c ds2] f feed_idle [OF f(1)] 5(4) False
      by simp
    with f(1,3) False show ?thesis by simp
  qed
qed simp_all

section \<open>A stream of frames\<close>

lemma feed_frame:
  assumes "command_ok c" and "encode_command c = Inr bs" and "length bs \<le> LEN_PREFIX_BYTES + MAX_REQUEST_BYTES"
  shows "feed frame_parser_new bs = Inr ([c], ActContinue, frame_parser_new)"
proof -
  from command_frame [OF assms(1)] assms(2) obtain opc body where f: "bs = frame_of opc body" "1 + length body < 2 ^ 32"
    "decode_input_frame bs = Inr c" by auto
  let ?n = "from_be (take LEN_PREFIX_BYTES bs) :: u32"
  have "unat (from_be (u32_bytes (1 + length body)) :: u32) = 1 + length body" using f(2) by (rule unat_from_u32_bytes)
  then have n: "LEN_PREFIX_BYTES + unat ?n = length bs" by (simp add: f(1) frame_of_def LEN_PREFIX_BYTES_def)
  have body: "advance \<lparr>fp_state = AwaitingBody ?n, fp_buf = bs\<rparr> [] = Inr (ActContinue, [c], frame_parser_new)"
    using parser_idle_new n f(3) advance_acc [of frame_parser_new "[c]" "[]"]
    by (subst advance.simps) (simp add: parser_idle_def frame_parser_new_def)
  have "advance \<lparr>fp_state = AwaitingLength, fp_buf = bs\<rparr> [] = Inr (ActContinue, [c], frame_parser_new)"
    using n assms(3) body by (subst advance.simps) (simp add: Let_def)
  then show ?thesis by (simp add: feed_def frame_parser_new_def)
qed

definition fits_request :: "command \<Rightarrow> bool" where
  "fits_request c \<longleftrightarrow> command_ok c \<and> (\<exists>bs. encode_command c = Inr bs \<and> length bs \<le> LEN_PREFIX_BYTES + MAX_REQUEST_BYTES)"

lemma feed_frames:
  assumes "\<forall>c \<in> set cmds. fits_request c" and "map_res encode_command cmds = Inr frames"
  shows "feed frame_parser_new (concat frames) = Inr (cmds, ActContinue, frame_parser_new)"
  using assms
proof (induction cmds arbitrary: frames)
  case Nil
  then show ?case by (simp add: feed_Nil parser_idle_new)
next
  case (Cons c cmds)
  from Cons.prems(2) obtain bs fs where fs: "encode_command c = Inr bs" "map_res encode_command cmds = Inr fs" "frames = bs # fs"
    by (auto simp: and_then_Inr_iff)
  with Cons.prems(1) feed_frame [of c bs] have "feed frame_parser_new bs = Inr ([c], ActContinue, frame_parser_new)"
    by (auto simp: fits_request_def)
  with fs Cons show ?case by (simp add: feed_append)
qed

lemma readable_frames:
  assumes "\<forall>c \<in> set cmds. fits_request c" and "map_res encode_command cmds = Inr frames"
    and "bytes_read outs = concat frames" and "reads_end outs = Inr action" and "conn_parser c = frame_parser_new"
  shows "\<exists>t. on_readable outs c = Inr (cmds, action, c\<lparr>conn_last_activity := t\<rparr>)"
proof -
  have "feed (conn_parser c) (bytes_read outs) = Inr (cmds, ActContinue, frame_parser_new)"
    using feed_frames [OF assms(1,2)] assms(3,5) by simp
  moreover have "parser_idle (conn_parser c)" using assms(5) parser_idle_new by simp
  ultimately obtain t where "on_readable_loop outs [] c = Inr ([] @ cmds, action, c\<lparr>conn_last_activity := t, conn_parser := frame_parser_new\<rparr>)"
    using on_readable_loop_feed [OF _ _ assms(4)] by blast
  moreover have "c\<lparr>conn_last_activity := t, conn_parser := frame_parser_new\<rparr> = c\<lparr>conn_last_activity := t\<rparr>"
    using assms(5) by (cases c) simp
  ultimately show ?thesis by (auto simp: on_readable_def)
qed

text \<open>What happens to a connection over its life: the socket becomes readable, responses are enqueued, the socket becomes
  writable. The commands that are delivered, in order; nothing more happens to a connection that is to be closed.\<close>

datatype conn_event = EvReadable "read_outcome list" | EvEnqueue bytes | EvWritable "write_outcome list"

fun conn_events :: "conn_event list \<Rightarrow> connection \<Rightarrow> (command list \<times> connection) res" where
  "conn_events [] c = Inr ([], c)"
| "conn_events (EvReadable outs # evs) c =
     and_then (on_readable outs c) (\<lambda>(cmds, action, c).
       if action = ActClose then Inr (cmds, c) else and_then (conn_events evs c) (\<lambda>(more_cmds, c). Inr (cmds @ more_cmds, c)))"
| "conn_events (EvEnqueue bs # evs) c = conn_events evs (enqueue_response bs c)"
| "conn_events (EvWritable ws # evs) c = and_then (on_writable ws c) (\<lambda>(sent, c). conn_events evs c)"

text \<open>The bytes an event brings. The sockets do not fail, and the peer does not close.\<close>

fun event_bytes :: "conn_event \<Rightarrow> bytes" where
  "event_bytes (EvReadable outs) = bytes_read outs"
| "event_bytes _ = []"

fun event_ok :: "conn_event \<Rightarrow> bool" where
  "event_ok (EvReadable outs) \<longleftrightarrow> reads_end outs = Inr ActContinue"
| "event_ok (EvEnqueue bs) \<longleftrightarrow> True"
| "event_ok (EvWritable ws) \<longleftrightarrow> (\<forall>e. WriteError e \<notin> set ws)"

lemma on_writable_parser:
  "\<forall>e. WriteError e \<notin> set ws \<Longrightarrow> \<exists>sent c'. on_writable ws c = Inr (sent, c') \<and> conn_parser c' = conn_parser c"
proof (induction ws c rule: on_writable.induct)
  case (2 w ws c)
  show ?case
  proof (cases "length (conn_write_buf c) \<le> conn_write_offset c")
    case False
    then show ?thesis
    proof (cases w)
      case (WriteRoom room)
      define n where "n = min room (length (conn_write_buf c) - conn_write_offset c)"
      show ?thesis
      proof (cases "n = 0")
        case pos: False
        with 2(1) [OF False WriteRoom n_def] 2(3) obtain sent c' where
          "on_writable ws (c\<lparr>conn_write_offset := conn_write_offset c + n\<rparr>) = Inr (sent, c')" "conn_parser c' = conn_parser c" by auto
        then show ?thesis using False WriteRoom pos by (simp add: n_def [symmetric] Let_def)
      qed (use False WriteRoom in \<open>simp add: n_def [symmetric] Let_def\<close>)
    next
      case WriteInterrupted
      then show ?thesis using 2(2) [OF False WriteInterrupted] 2(3) False by simp
    qed (use 2(3) False in auto)
  qed (simp add: write_drained_def)
qed (simp add: write_drained_def)

lemma conn_events_feed:
  assumes "\<forall>ev \<in> set evs. event_ok ev" and "parser_idle (conn_parser c)"
    and "feed (conn_parser c) (concat (map event_bytes evs)) = Inr (cmds, ActContinue, p)"
  shows "\<exists>c'. conn_events evs c = Inr (cmds, c') \<and> conn_parser c' = p"
  using assms
proof (induction evs arbitrary: c cmds)
  case Nil
  then show ?case by (simp add: feed_Nil)
next
  case (Cons ev evs)
  show ?case
  proof (cases ev)
    case (EvReadable outs)
    with Cons.prems(3) obtain cs1 p1 cs2 where f: "feed (conn_parser c) (bytes_read outs) = Inr (cs1, ActContinue, p1)"
      "feed p1 (concat (map event_bytes evs)) = Inr (cs2, ActContinue, p)" "cmds = cs1 @ cs2"
      by (auto simp: feed_append and_then_Inr_iff split: if_splits)
    from on_readable_loop_feed [OF Cons.prems(2) f(1), of ActContinue "[]"] Cons.prems(1) EvReadable obtain t where
      r: "on_readable outs c = Inr (cs1, ActContinue, c\<lparr>conn_last_activity := t, conn_parser := p1\<rparr>)" by (auto simp: on_readable_def)
    from Cons.IH [of "c\<lparr>conn_last_activity := t, conn_parser := p1\<rparr>" cs2] Cons.prems(1) feed_idle [OF f(1)] f(2) r f(3) EvReadable
    show ?thesis by auto
  next
    case (EvEnqueue bs)
    then show ?thesis using Cons.IH [of "enqueue_response bs c" cmds] Cons.prems by (simp add: enqueue_response_def)
  next
    case (EvWritable ws)
    with Cons.prems(1) on_writable_parser [of ws c] obtain sent c1 where "on_writable ws c = Inr (sent, c1)" "conn_parser c1 = conn_parser c" by auto
    then show ?thesis using Cons.IH [of c1 cmds] Cons.prems EvWritable by simp
  qed
qed

text \<open>C19. Every command a client sends is delivered, in order and exactly once, over the whole life of a connection: however
  the bytes of the frames are cut into readiness events and into reads within an event, however often a read is
  interrupted, and whatever responses are enqueued and written in between; the parser is then ready for the next frame.
  The peer does not close meanwhile, and the socket does not fail.\<close>

theorem connection_delivers_commands:
  assumes "\<forall>c \<in> set cmds. fits_request c" and "map_res encode_command cmds = Inr frames"
    and "concat (map event_bytes evs) = concat frames" and "\<forall>ev \<in> set evs. event_ok ev" and "conn_parser c = frame_parser_new"
  shows "\<exists>c'. conn_events evs c = Inr (cmds, c') \<and> conn_parser c' = frame_parser_new"
  using conn_events_feed [of evs c cmds frame_parser_new] feed_frames [OF assms(1,2)] assms(3-5) parser_idle_new by simp

text \<open>The length prefix of a frame in one event, a response written, and the rest of the frame in the next event.\<close>

theorem connection_delivers_commands_witness:
  "\<exists>bs c'. encode_command CmdPing = Inr bs \<and>
     conn_events [EvReadable [ReadOk 1 (take 3 bs), ReadWouldBlock], EvEnqueue [7], EvWritable [WriteRoom 1],
       EvReadable [ReadInterrupted, ReadOk 2 (drop 3 bs), ReadWouldBlock]] (connection_new 0) = Inr ([CmdPing], c')"
proof -
  let ?bs = "u32_bytes OP_CODE_SIZE @ [op_byte OpPing]"
  let ?evs = "[EvReadable [ReadOk 1 (take 3 ?bs), ReadWouldBlock], EvEnqueue [7], EvWritable [WriteRoom 1],
       EvReadable [ReadInterrupted, ReadOk 2 (drop 3 ?bs), ReadWouldBlock]]"
  have l: "take 3 ?bs \<noteq> []" "drop 3 ?bs \<noteq> []" by (simp_all flip: length_greater_0_conv)
  have "\<forall>c \<in> set [CmdPing]. fits_request c"
    by (auto simp: fits_request_def command_ok_def LEN_PREFIX_BYTES_def MAX_REQUEST_BYTES_def)
  moreover have "map_res encode_command [CmdPing] = Inr [?bs]" by simp
  moreover have "concat (map event_bytes ?evs) = concat [?bs]"
    using l by (simp only: bytes_read.simps event_bytes.simps list.map concat.simps if_False append_take_drop_id append_Nil append_Nil2)
  moreover have "\<forall>ev \<in> set ?evs. event_ok ev" using l by simp
  moreover have "conn_parser (connection_new 0) = frame_parser_new" by (simp add: connection_new_def)
  ultimately have "\<exists>c'. conn_events ?evs (connection_new 0) = Inr ([CmdPing], c') \<and> conn_parser c' = frame_parser_new"
    by (rule connection_delivers_commands)
  moreover have "encode_command CmdPing = Inr ?bs" by simp
  ultimately show ?thesis by blast
qed

section \<open>The parser's buffer is bounded\<close>

definition parser_ok :: "frame_parser \<Rightarrow> bool" where
  "parser_ok p \<longleftrightarrow> (case fp_state p of AwaitingLength \<Rightarrow> True | AwaitingBody n \<Rightarrow> unat n \<le> MAX_REQUEST_BYTES)"

lemma advance_bounded:
  "parser_ok p \<Longrightarrow> advance p acc = Inr (ActContinue, cs, p') \<Longrightarrow>
     parser_ok p' \<and> length (fp_buf p') < LEN_PREFIX_BYTES + MAX_REQUEST_BYTES"
proof (induction p acc rule: advance.induct)
  case (1 p acc)
  show ?case
  proof (cases "fp_state p")
    case AwaitingLength
    then show ?thesis
      using 1(1) [OF AwaitingLength] 1(3,4)
      by (subst (asm) (2) advance.simps) (auto simp: Let_def parser_ok_def MAX_REQUEST_BYTES_def split: if_splits)
  next
    case (AwaitingBody n)
    then show ?thesis
      using 1(2) [OF AwaitingBody] 1(3,4)
      by (subst (asm) (2) advance.simps) (auto simp: and_then_Inr_iff parser_ok_def split: if_splits)
  qed
qed

text \<open>C33. Between two reads the parser never holds a whole request: what is left in its buffer is shorter than the largest
  frame it accepts, however many bytes it is fed.\<close>

theorem parser_buffer_bounded:
  assumes "parser_ok p" and "feed p bs = Inr (cs, ActContinue, p')"
  shows "parser_ok p' \<and> length (fp_buf p') < LEN_PREFIX_BYTES + MAX_REQUEST_BYTES"
proof -
  have "parser_ok (p\<lparr>fp_buf := fp_buf p @ bs\<rparr>)" using assms(1) by (simp add: parser_ok_def)
  with advance_bounded assms(2) show ?thesis by (auto simp: feed_def and_then_Inr_iff)
qed

theorem parser_buffer_bounded_witness:
  "feed frame_parser_new [0, 0] = Inr ([], ActContinue, \<lparr>fp_state = AwaitingLength, fp_buf = [0, 0]\<rparr>) \<and>
   length (fp_buf \<lparr>fp_state = AwaitingLength, fp_buf = [0, 0]\<rparr>) < LEN_PREFIX_BYTES + MAX_REQUEST_BYTES"
proof -
  have "feed frame_parser_new [0, 0] = Inr ([], ActContinue, \<lparr>fp_state = AwaitingLength, fp_buf = [0, 0]\<rparr>)"
    by (simp add: feed_def frame_parser_new_def advance.simps LEN_PREFIX_BYTES_def)
  moreover have "parser_ok frame_parser_new" by (simp add: parser_ok_def frame_parser_new_def)
  ultimately show ?thesis using parser_buffer_bounded by blast
qed

section \<open>Responses leave in order\<close>

definition pending :: "connection \<Rightarrow> bytes" where
  "pending c = drop (conn_write_offset c) (conn_write_buf c)"

definition conn_ok :: "connection \<Rightarrow> bool" where
  "conn_ok c \<longleftrightarrow> conn_write_offset c \<le> length (conn_write_buf c)"

lemma conn_ok_new [simp]: "conn_ok (connection_new now)"
  by (simp add: conn_ok_def connection_new_def)

lemma on_writable_pending:
  "conn_ok c \<Longrightarrow> on_writable ws c = Inr (sent, c') \<Longrightarrow>
     conn_ok c' \<and> sent @ pending c' = pending c \<and> conn_parser c' = conn_parser c \<and> conn_pending_close c' = conn_pending_close c"
proof (induction ws c arbitrary: sent rule: on_writable.induct)
  case (1 c)
  then show ?case by (auto simp: pending_def write_drained_def conn_ok_def split: if_splits)
next
  case (2 w ws c)
  show ?case
  proof (cases "length (conn_write_buf c) \<le> conn_write_offset c")
    case True
    with 2 show ?thesis by (auto simp: pending_def write_drained_def conn_ok_def)
  next
    case False
    show ?thesis
    proof (cases w)
      case (WriteRoom room)
      define n where "n = min room (length (conn_write_buf c) - conn_write_offset c)"
      show ?thesis
      proof (cases "n = 0")
        case True
        with 2(3,4) False WriteRoom show ?thesis by (simp add: n_def [symmetric] Let_def)
      next
        case pos: False
        let ?c = "c\<lparr>conn_write_offset := conn_write_offset c + n\<rparr>"
        from 2(4) False WriteRoom pos obtain rest where r: "on_writable ws ?c = Inr (rest, c')"
          "sent = take n (drop (conn_write_offset c) (conn_write_buf c)) @ rest"
          by (auto simp: n_def [symmetric] Let_def and_then_Inr_iff)
        have "conn_ok ?c" using False by (simp add: conn_ok_def n_def)
        with 2(1) [OF False WriteRoom n_def] pos r(1) have "conn_ok c' \<and> rest @ pending c' = pending ?c \<and>
            conn_parser c' = conn_parser ?c \<and> conn_pending_close c' = conn_pending_close ?c" by blast
        moreover have "take n (drop (conn_write_offset c) (conn_write_buf c)) @ pending ?c = pending c"
          by (simp add: pending_def add.commute [of _ n] flip: drop_drop)
        ultimately show ?thesis using r(2) by auto
      qed
    next
      case WriteInterrupted
      with 2(2) [OF False WriteInterrupted] 2(3,4) False show ?thesis by simp
    qed (use 2(3,4) False in simp_all)
  qed
qed

lemma enqueue_pending: "conn_ok c \<Longrightarrow> conn_ok (enqueue_response bs c) \<and> pending (enqueue_response bs c) = pending c @ bs"
  by (simp add: conn_ok_def pending_def enqueue_response_def)

text \<open>What a connection sends: responses are enqueued and the socket becomes writable, in any order.\<close>

inductive conn_run :: "connection \<Rightarrow> bytes \<Rightarrow> bytes \<Rightarrow> connection \<Rightarrow> bool" for c0 where
  conn_init: "conn_run c0 [] [] c0"
| conn_enqueue: "conn_run c0 queued sent c \<Longrightarrow> conn_run c0 (queued @ bs) sent (enqueue_response bs c)"
| conn_write: "conn_run c0 queued sent c \<Longrightarrow> on_writable ws c = Inr (more_sent, c') \<Longrightarrow> conn_run c0 queued (sent @ more_sent) c'"

text \<open>C23. On a connection the bytes that have been sent, followed by those that are pending, are the enqueued responses in
  order: none is lost, repeated or reordered, whatever the socket accepts at each write. When nothing is pending, all
  has been sent.\<close>

theorem connection_sends_in_order:
  assumes "conn_run (connection_new now) queued sent c"
  shows "sent @ pending c = queued \<and> (\<not> has_pending_writes c \<longrightarrow> sent = queued)"
proof -
  from assms have "conn_ok c \<and> sent @ pending c = queued"
  proof induction
    case conn_init
    then show ?case by (simp add: pending_def connection_new_def conn_ok_def)
  next
    case (conn_enqueue queued sent c bs)
    then show ?case using enqueue_pending [of c bs] by (metis append.assoc)
  next
    case (conn_write queued sent c ws more_sent c')
    then show ?case using on_writable_pending [of c ws more_sent c'] by auto
  qed
  then show ?thesis by (auto simp: has_pending_writes_def pending_def)
qed

theorem connection_sends_in_order_witness:
  "\<exists>c. conn_run (connection_new 0) [1, 2, 3] [1, 2] c \<and> pending c = [3]"
proof -
  have "conn_run (connection_new 0) ([] @ [1, 2, 3]) [] (enqueue_response [1, 2, 3] (connection_new 0))"
    by (intro conn_enqueue conn_init)
  moreover have "\<exists>c'. on_writable [WriteRoom 2, WriteWouldBlock] (enqueue_response [1, 2, 3] (connection_new 0)) = Inr ([1, 2], c')"
    by (simp add: enqueue_response_def connection_new_def Let_def numeral_2_eq_2)
  ultimately obtain c' where "conn_run (connection_new 0) ([] @ [1, 2, 3]) ([] @ [1, 2]) c'"
    using conn_write by blast
  with connection_sends_in_order [OF this] show ?thesis by auto
qed

end
