(* ===== verification/Server_Worker.thy ===== *)
theory Server_Worker
  imports Server_Threads Connection_Io
begin

text \<open>
  The worker's event handler (src/src/server/workerhandler.rs) and the acceptor (src/src/server/acceptor.rs). The event
  loop is a third-party library: the events it delivers, whether its registrations succeed and the identifiers of its
  timers are arguments. The connections are an association list from tokens. A duration is its number of nanoseconds. The
  handling of an event is one step, with all commands that it brings: what other workers and the compaction threads do
  comes before or after it, while in the program they can also move between two of its commands.

  Main results: a batch of requests that arrives on a connection is executed in order and answered in order on the same
  connection; the counter of active connections is the number of open connections of the workers.
\<close>

section \<open>The handler\<close>

datatype interest = Readable | Writable | ReadWrite

record worker =
  wh_incoming :: nat
  wh_conns :: "(u64 \<times> connection) list"
  wh_next_token :: u64
  wh_read_timeout :: "nat option"
  wh_sweep_timer :: "nat option"

definition worker_new :: "nat option \<Rightarrow> worker" where
  "worker_new read_timeout = \<lparr>wh_incoming = 0, wh_conns = [], wh_next_token = 0, wh_read_timeout = read_timeout, wh_sweep_timer = None\<rparr>"

text \<open>The counter that \<open>Connection::new\<close> and \<open>drop\<close> keep.\<close>

definition count_connections :: "64 word \<Rightarrow> 's server \<Rightarrow> 's server" where
  "count_connections n S = srv_count (\<lambda>t. t\<lparr>st_active_connections := st_active_connections t + n\<rparr>) S"

text \<open>The loop over the commands of one event: the clock readings of the \<open>i\<close>-th command are \<open>clk i\<close>.\<close>

fun serve_commands ::
  "(command \<Rightarrow> dispatch_clock \<Rightarrow> 's server \<Rightarrow> (bytes \<times> 's server) res) \<Rightarrow> (nat \<Rightarrow> dispatch_clock) \<Rightarrow> nat \<Rightarrow> command list \<Rightarrow>
    connection \<times> 's server \<Rightarrow> (connection \<times> 's server) res" where
  "serve_commands disp clk i [] (conn, S) = Inr (conn, S)"
| "serve_commands disp clk i (cmd # cmds) (conn, S) =
     and_then (disp cmd (clk i) S) (\<lambda>(frame, S'). serve_commands disp clk (i + 1) cmds (enqueue_response frame conn, S'))"

text \<open>The readable part: the connection, the server, and whether to close hard.\<close>

definition handle_readable ::
  "(command \<Rightarrow> dispatch_clock \<Rightarrow> 's server \<Rightarrow> (bytes \<times> 's server) res) \<Rightarrow> (nat \<Rightarrow> dispatch_clock) \<Rightarrow> bool \<Rightarrow> read_outcome list \<Rightarrow>
    connection \<times> 's server \<Rightarrow> (bool \<times> connection \<times> 's server) res" where
  "handle_readable disp clk readable outs = (\<lambda>(conn, S).
     if readable \<and> \<not> conn_pending_close conn then
       (case on_readable outs conn of
          Inr (cmds, action, conn') \<Rightarrow>
            and_then (serve_commands disp clk 0 cmds (conn', S)) (\<lambda>(conn, S).
              Inr (False, if action = ActClose then conn\<lparr>conn_pending_close := True\<rparr> else conn, S))
        | Inl (IoError _ _) \<Rightarrow> Inr (True, conn, S)
        | Inl (Panic m) \<Rightarrow> Inl (Panic m))
     else Inr (False, conn, S))"

text \<open>The drain attempt: what was sent, whether to close hard, the connection.\<close>

definition handle_pending :: "write_outcome list \<Rightarrow> bool \<Rightarrow> connection \<Rightarrow> bytes \<times> bool \<times> connection" where
  "handle_pending ws hard_close conn =
     (if \<not> hard_close \<and> has_pending_writes conn then
        (case on_writable ws conn of Inr (sent, conn') \<Rightarrow> (sent, False, conn') | Inl _ \<Rightarrow> ([], True, conn))
      else ([], hard_close, conn))"

definition interest_of :: "connection \<Rightarrow> interest" where
  "interest_of conn = (if conn_pending_close conn then Writable else if has_pending_writes conn then ReadWrite else Readable)"

text \<open>\<open>on_event\<close>: what was sent, the interest the connection is registered with (none when it is closed), and the states.\<close>

definition on_event ::
  "(command \<Rightarrow> dispatch_clock \<Rightarrow> 's server \<Rightarrow> (bytes \<times> 's server) res) \<Rightarrow> (nat \<Rightarrow> dispatch_clock) \<Rightarrow> bool \<Rightarrow> read_outcome list \<Rightarrow>
    write_outcome list \<Rightarrow> bool \<Rightarrow> u64 \<Rightarrow> worker \<times> 's server \<Rightarrow> (bytes \<times> interest option \<times> worker \<times> 's server) res" where
  "on_event disp clk readable outs ws reregister_ok token = (\<lambda>(w, S).
     case map_of (wh_conns w) token of
       None \<Rightarrow> Inr ([], None, w, S)
     | Some conn \<Rightarrow>
         let w = w\<lparr>wh_conns := AList.delete token (wh_conns w)\<rparr>
         in and_then (handle_readable disp clk readable outs (conn, S)) (\<lambda>(hard_close, conn, S).
              let (sent, hard_close, conn) = handle_pending ws hard_close conn
              in if hard_close \<or> (conn_pending_close conn \<and> \<not> has_pending_writes conn) then Inr (sent, None, w, count_connections (- 1) S)
                 else if \<not> reregister_ok then Inr (sent, None, w, count_connections (- 1) S)
                 else Inr (sent, Some (interest_of conn), w\<lparr>wh_conns := AList.update token conn (wh_conns w)\<rparr>, S)))"

text \<open>The stale connections are dropped: \<open>elapsed\<close> gives the time since the last activity.\<close>

definition drop_conn :: "u64 \<Rightarrow> worker \<times> 's server \<Rightarrow> worker \<times> 's server" where
  "drop_conn token = (\<lambda>(w, S).
     if map_of (wh_conns w) token \<noteq> None then (w\<lparr>wh_conns := AList.delete token (wh_conns w)\<rparr>, count_connections (- 1) S) else (w, S))"

definition sweep_stale :: "(connection \<Rightarrow> nat) \<Rightarrow> nat \<Rightarrow> worker \<times> 's server \<Rightarrow> worker \<times> 's server" where
  "sweep_stale elapsed timeout = (\<lambda>(w, S).
     let stale = map fst (filter (\<lambda>(_, c). timeout < elapsed c) (wh_conns w)) in fold drop_conn stale (w, S))"

text \<open>\<open>on_timer\<close>: \<open>new_timer\<close> is the identifier of the next timer.\<close>

definition on_timer :: "(connection \<Rightarrow> nat) \<Rightarrow> nat \<Rightarrow> nat \<Rightarrow> worker \<times> 's server \<Rightarrow> worker \<times> 's server" where
  "on_timer elapsed new_timer timer_id = (\<lambda>(w, S).
     if Some timer_id \<noteq> wh_sweep_timer w then (w, S)
     else
       let (w, S) = (case wh_read_timeout w of Some timeout \<Rightarrow> sweep_stale elapsed timeout (w, S) | None \<Rightarrow> (w, S))
       in (w\<lparr>wh_sweep_timer := map_option (\<lambda>_. new_timer) (wh_read_timeout w)\<rparr>, S))"

text \<open>\<open>on_wake\<close>: the loop over the streams that have arrived; \<open>regs\<close> says for each whether its registration succeeds, with
  the time. The token counter is not expected to reach its maximum.\<close>

fun accept_streams :: "(bool \<times> u64) list \<Rightarrow> worker \<times> 's server \<Rightarrow> (worker \<times> 's server) res" where
  "accept_streams [] (w, S) = Inr (w, S)"
| "accept_streams ((register_ok, now) # regs) (w, S) =
     (if wh_incoming w = 0 then Inr (w, S)
      else
        let token = wh_next_token w
        in and_then (checked_add64 token 1) (\<lambda>next_token.
             let w = w\<lparr>wh_incoming := wh_incoming w - 1, wh_next_token := next_token\<rparr>
             in if register_ok
                then accept_streams regs (w\<lparr>wh_conns := AList.update token (connection_new now) (wh_conns w)\<rparr>, count_connections 1 S)
                else accept_streams regs (w, S)))"

definition on_wake :: "nat \<Rightarrow> (bool \<times> u64) list \<Rightarrow> worker \<times> 's server \<Rightarrow> (worker \<times> 's server) res" where
  "on_wake new_timer regs = (\<lambda>(w, S).
     accept_streams regs
       (if wh_sweep_timer w = None \<and> wh_read_timeout w \<noteq> None then w\<lparr>wh_sweep_timer := Some new_timer\<rparr> else w, S))"

section \<open>The acceptor\<close>

record acceptor =
  ac_num_workers :: nat
  ac_max_connections :: u64
  ac_next_worker :: nat

definition acceptor_new :: "nat \<Rightarrow> u64 \<Rightarrow> acceptor" where
  "acceptor_new num_workers max_connections = \<lparr>ac_num_workers = num_workers, ac_max_connections = max_connections, ac_next_worker = 0\<rparr>"

text \<open>One incoming connection: the worker it is sent to, if it is admitted. \<open>setup_ok\<close> says whether the socket options could
  be set. The comparison is signed.\<close>

definition accept_one :: "bool \<Rightarrow> stats \<Rightarrow> acceptor \<Rightarrow> (nat option \<times> acceptor) res" where
  "accept_one setup_ok st a =
     (if sint (ac_max_connections a) \<le> sint (st_active_connections st) then Inr (None, a)
      else if \<not> setup_ok then Inr (None, a)
      else if ac_num_workers a = 0 then Inl (Panic ''attempt to calculate the remainder with a divisor of zero'')
      else Inr (Some (ac_next_worker a), a\<lparr>ac_next_worker := (ac_next_worker a + 1) mod ac_num_workers a\<rparr>))"


text \<open>The body of the loop of \<open>run\<close>, with the channel to the worker: \<open>send_ok\<close> says whether the worker still receives. A
  worker that cannot be woken has got the stream all the same.\<close>

record 's pool =
  pool_acceptor :: acceptor
  pool_workers :: "worker list"
  pool_server :: "'s server"

definition accept_stream :: "bool \<Rightarrow> bool \<Rightarrow> 's pool \<Rightarrow> 's pool res" where
  "accept_stream setup_ok send_ok P =
     and_then (accept_one setup_ok (srv_stats (pool_server P)) (pool_acceptor P)) (\<lambda>(target, a).
       Inr (case target of
              Some i \<Rightarrow> P\<lparr>pool_workers :=
                if send_ok then (pool_workers P)[i := (pool_workers P ! i)\<lparr>wh_incoming := wh_incoming (pool_workers P ! i) + 1\<rparr>] else pool_workers P,
                pool_acceptor := a\<rparr>
            | None \<Rightarrow> P\<lparr>pool_acceptor := a\<rparr>))"

definition pool_new :: "nat \<Rightarrow> u64 \<Rightarrow> nat option \<Rightarrow> 's \<Rightarrow> 's pool" where
  "pool_new num_workers max_connections read_timeout db =
     \<lparr>pool_acceptor = acceptor_new num_workers max_connections, pool_workers = replicate num_workers (worker_new read_timeout),
      pool_server = fresh_server db\<rparr>"

section \<open>Requests are answered in order\<close>

text \<open>The reference: the commands are executed one after the other, the answers are collected.\<close>

fun execute ::
  "(command \<Rightarrow> dispatch_clock \<Rightarrow> 's server \<Rightarrow> (bytes \<times> 's server) res) \<Rightarrow> (nat \<Rightarrow> dispatch_clock) \<Rightarrow> nat \<Rightarrow> command list \<Rightarrow> 's server \<Rightarrow>
    (bytes list \<times> 's server) res" where
  "execute disp clk i [] S = Inr ([], S)"
| "execute disp clk i (cmd # cmds) S =
     and_then (disp cmd (clk i) S) (\<lambda>(frame, S'). and_then (execute disp clk (i + 1) cmds S') (\<lambda>(frames, S''). Inr (frame # frames, S'')))"

lemma enqueue_fields [simp]:
  "conn_parser (enqueue_response bs c) = conn_parser c" "conn_pending_close (enqueue_response bs c) = conn_pending_close c"
  by (simp_all add: enqueue_response_def)

lemma serve_commands_execute:
  assumes "execute disp clk i cmds S = Inr (frames, S')" and "conn_ok c"
  shows "\<exists>c'. serve_commands disp clk i cmds (c, S) = Inr (c', S') \<and> conn_ok c' \<and> pending c' = pending c @ concat frames \<and>
    conn_parser c' = conn_parser c \<and> conn_pending_close c' = conn_pending_close c"
  using assms
proof (induction cmds arbitrary: i S c frames)
  case (Cons cmd cmds)
  from Cons.prems(1) obtain frame S1 rest where e: "disp cmd (clk i) S = Inr (frame, S1)" "execute disp clk (i + 1) cmds S1 = Inr (rest, S')"
    "frames = frame # rest" by (auto simp: and_then_Inr_iff)
  note q = enqueue_pending [OF Cons.prems(2), of frame]
  from Cons.IH [OF e(2) q [THEN conjunct1]] e q show ?case by auto
qed simp

lemma has_pending_iff: "has_pending_writes c \<longleftrightarrow> pending c \<noteq> []"
  by (auto simp: has_pending_writes_def pending_def)

lemma on_writable_ok: "\<forall>e. WriteError e \<notin> set ws \<Longrightarrow> on_writable ws c \<noteq> Inl e"
  by (induction ws arbitrary: c) (auto simp: Let_def split: write_outcome.split sum.splits elim!: and_then.elims)

lemma handle_pending_sends:
  assumes "\<forall>e. WriteError e \<notin> set ws" and "conn_ok c"
  shows "\<exists>sent c'. handle_pending ws False c = (sent, False, c') \<and> conn_ok c' \<and> sent @ pending c' = pending c \<and>
    conn_parser c' = conn_parser c \<and> conn_pending_close c' = conn_pending_close c"
proof (cases "has_pending_writes c")
  case True
  from on_writable_ok [OF assms(1), of c] obtain sent c' where "on_writable ws c = Inr (sent, c')"
    by (cases "on_writable ws c") auto
  with True on_writable_pending [OF assms(2) this] show ?thesis by (auto simp: handle_pending_def)
next
  case False
  with assms(2) show ?thesis by (simp add: handle_pending_def)
qed


text \<open>C6. A batch of requests is served: when the bytes that arrive on a connection are the frames of some commands, cut
  into reads in any way, the worker executes exactly these commands in their order, and the bytes it sends followed by
  those that stay pending are the bytes that were pending before followed by the answers in that order. The connection
  stays open, unless the peer has closed and everything is sent.\<close>

theorem worker_serves_in_order:
  assumes "map_of (wh_conns w) token = Some c" and "conn_parser c = frame_parser_new" and "conn_ok c" and "\<not> conn_pending_close c"
    and "\<forall>cmd \<in> set cmds. fits_request cmd" and "map_res encode_command cmds = Inr frames"
    and "bytes_read outs = concat frames" and "reads_end outs = Inr action" and "\<forall>e. WriteError e \<notin> set ws"
    and "execute (\<lambda>cmd clk. dispatch err_text F E cfg clk cmd) clk 0 cmds S = Inr (answers, S')"
  shows "\<exists>sent interest w' S'' rest.
    on_event (\<lambda>cmd clk. dispatch err_text F E cfg clk cmd) clk True outs ws True token (w, S) = Inr (sent, interest, w', S'') \<and>
    sent @ rest = pending c @ concat answers \<and> srv_db S'' = srv_db S' \<and>
    (if action = ActClose \<and> rest = [] then map_of (wh_conns w') token = None
     else \<exists>c'. map_of (wh_conns w') token = Some c' \<and> pending c' = rest \<and> conn_parser c' = frame_parser_new \<and>
       interest = Some (if action = ActClose then Writable else if rest \<noteq> [] then ReadWrite else Readable))"
proof -
  let ?disp = "\<lambda>cmd clk. dispatch err_text F E cfg clk cmd"
  from readable_frames [OF assms(5-8,2)] obtain t where r: "on_readable outs c = Inr (cmds, action, c\<lparr>conn_last_activity := t\<rparr>)" ..
  have "conn_ok (c\<lparr>conn_last_activity := t\<rparr>)" "pending (c\<lparr>conn_last_activity := t\<rparr>) = pending c"
    using assms(3) by (simp_all add: conn_ok_def pending_def)
  with serve_commands_execute [OF assms(10)] obtain c1 where c1: "serve_commands ?disp clk 0 cmds (c\<lparr>conn_last_activity := t\<rparr>, S) = Inr (c1, S')"
    "conn_ok c1" "pending c1 = pending c @ concat answers" "conn_parser c1 = frame_parser_new" "\<not> conn_pending_close c1"
    using assms(2,4) by fastforce
  define c2 where "c2 = (if action = ActClose then c1\<lparr>conn_pending_close := True\<rparr> else c1)"
  have c2: "conn_ok c2" "pending c2 = pending c @ concat answers" "conn_parser c2 = frame_parser_new" "conn_pending_close c2 \<longleftrightarrow> action = ActClose"
    using c1 by (simp_all add: c2_def conn_ok_def pending_def)
  have hr: "handle_readable ?disp clk True outs (c, S) = Inr (False, c2, S')"
    using assms(4) r c1(1) by (simp add: handle_readable_def c2_def)
  from handle_pending_sends [OF assms(9) c2(1)] obtain sent c3 where hp: "handle_pending ws False c2 = (sent, False, c3)"
    "sent @ pending c3 = pending c2" "conn_parser c3 = conn_parser c2" "conn_pending_close c3 = conn_pending_close c2" by blast
  show ?thesis
  proof (cases "action = ActClose \<and> pending c3 = []")
    case True
    with assms(1) hr hp c2 show ?thesis
      by (auto simp: on_event_def has_pending_iff count_connections_def delete_conv' intro!: exI [of _ "[]"])
  next
    case False
    let ?w = "w\<lparr>wh_conns := AList.update token c3 (AList.delete token (wh_conns w))\<rparr>"
    have "on_event ?disp clk True outs ws True token (w, S) = Inr (sent, Some (interest_of c3), ?w, S')"
      using assms(1) hr hp c2(4) False by (auto simp: on_event_def has_pending_iff Let_def)
    moreover have "map_of (wh_conns ?w) token = Some c3" by (simp add: update_conv')
    ultimately show ?thesis
      using hp c2 False
      by (intro exI [of _ sent] exI [of _ "Some (interest_of c3)"] exI [of _ ?w] exI [of _ S'] exI [of _ "pending c3"])
        (auto simp: interest_of_def has_pending_iff)
  qed
qed

theorem worker_serves_in_order_witness:
  "\<exists>sent rest interest w' S''.
     on_event (\<lambda>cmd clk. dispatch (\<lambda>_ _. lit ''error'') exact_f32 (kv_engine (\<lambda>s e. s)) \<lparr>cfg_ratio = 0, cfg_max_segment = 0\<rparr> clk cmd)
       (\<lambda>_. fixed_clock 2 5) True [ReadOk 1 (u32_bytes OP_CODE_SIZE @ [op_byte OpPing])] [WriteRoom 1000] True 0
       ((worker_new None)\<lparr>wh_conns := [(0, connection_new 0)]\<rparr>, fresh_server kv_small) = Inr (sent, interest, w', S'') \<and>
     sent @ rest = encode_frame StOk [lit ''PONG'']"
proof -
  let ?d = "\<lambda>cmd clk. dispatch (\<lambda>_ _. lit ''error'') exact_f32 (kv_engine (\<lambda>s e. s)) \<lparr>cfg_ratio = 0, cfg_max_segment = 0\<rparr> clk cmd"
  let ?bs = "u32_bytes OP_CODE_SIZE @ [op_byte OpPing]"
  have c: "map_of (wh_conns ((worker_new None)\<lparr>wh_conns := [(0, connection_new 0)]\<rparr>)) 0 = Some (connection_new 0)"
    "conn_parser (connection_new 0) = frame_parser_new" "conn_ok (connection_new 0)" "\<not> conn_pending_close (connection_new 0)"
    by (simp_all, simp_all add: connection_new_def)
  have fit: "\<forall>c \<in> set [CmdPing]. fits_request c"
    by (auto simp: fits_request_def command_ok_def LEN_PREFIX_BYTES_def MAX_REQUEST_BYTES_def)
  have io: "map_res encode_command [CmdPing] = Inr [?bs]" "bytes_read [ReadOk 1 ?bs] = concat [?bs]" "reads_end [ReadOk 1 ?bs] = Inr ActContinue"
    "\<forall>e. WriteError e \<notin> set [WriteRoom 1000]"
    by simp_all
  have "execute ?d (\<lambda>_. fixed_clock 2 5) 0 [CmdPing] (fresh_server kv_small) = Inr ([encode_frame StOk [lit ''PONG'']], fresh_server kv_small)"
    by simp
  moreover have "pending (connection_new 0) @ concat [encode_frame StOk [lit ''PONG'']] = encode_frame StOk [lit ''PONG'']"
    by (simp add: pending_def connection_new_def)
  ultimately show ?thesis using worker_serves_in_order [OF c fit io] by metis
qed

section \<open>The connection count\<close>

definition worker_ok :: "worker \<Rightarrow> bool" where
  "worker_ok w \<longleftrightarrow> distinct (map fst (wh_conns w)) \<and> (\<forall>token \<in> fst ` set (wh_conns w). token < wh_next_token w)"

text \<open>The count less the connections of this worker: no handler changes it.\<close>

definition others_count :: "worker \<times> 's server \<Rightarrow> 64 word" where
  "others_count = (\<lambda>(w, S). active_connections S - of_nat (length (wh_conns w)))"

lemma count_connections_active [simp]: "active_connections (count_connections n S) = active_connections S + n"
  by (simp add: count_connections_def)

lemma length_delete:
  "distinct (map fst al) \<Longrightarrow> map_of al k = Some c \<Longrightarrow> Suc (length (AList.delete k al)) = length al"
proof (induction al)
  case (Cons p al)
  then show ?case using delete_idem [of k al] by (cases p) (auto simp: dom_map_of_conv_image_fst [symmetric] domIff)
qed simp

lemma update_fresh: "k \<notin> fst ` set al \<Longrightarrow> AList.update k c al = al @ [(k, c)]"
  by (induction al) auto

lemma delete_subset: "set (AList.delete k al) \<subseteq> set al"
  by (induction al) auto

lemma delete_worker_ok:
  assumes "worker_ok w" and "map_of (wh_conns w) token = Some c"
  shows "worker_ok (w\<lparr>wh_conns := AList.delete token (wh_conns w)\<rparr>)"
    and "of_nat (length (wh_conns w)) = (of_nat (length (AList.delete token (wh_conns w))) + 1 :: 64 word)"
    and "token < wh_next_token w"
proof -
  show "worker_ok (w\<lparr>wh_conns := AList.delete token (wh_conns w)\<rparr>)"
    using assms(1) distinct_delete [of "wh_conns w" token] delete_subset [of token "wh_conns w"] by (auto simp: worker_ok_def)
  from assms have "length (wh_conns w) = Suc (length (AList.delete token (wh_conns w)))"
    using length_delete by (fastforce simp: worker_ok_def)
  then show "of_nat (length (wh_conns w)) = (of_nat (length (AList.delete token (wh_conns w))) + 1 :: 64 word)" by simp
  show "token < wh_next_token w" using assms map_of_SomeD [OF assms(2)] by (force simp: worker_ok_def)
qed

lemma insert_worker_ok:
  assumes "worker_ok w" and "token \<notin> fst ` set (wh_conns w)" and "token < n" and "wh_next_token w \<le> n"
  shows "worker_ok (w\<lparr>wh_next_token := n, wh_conns := AList.update token c (wh_conns w)\<rparr>)"
    and "length (AList.update token c (wh_conns w)) = length (wh_conns w) + 1"
  using assms by (auto simp: worker_ok_def update_fresh)

text \<open>What a handler keeps.\<close>

definition kept :: "worker \<times> 's server \<Rightarrow> worker \<times> 's server \<Rightarrow> bool" where
  "kept wS wS' \<longleftrightarrow> (worker_ok (fst wS) \<longrightarrow> worker_ok (fst wS') \<and> others_count wS' = others_count wS)"

lemma kept_refl [simp]: "kept wS wS" and kept_trans: "kept wS1 wS2 \<Longrightarrow> kept wS2 wS3 \<Longrightarrow> kept wS1 wS3"
  by (auto simp: kept_def)

lemma kept_drop:
  assumes "map_of (wh_conns w) token = Some c" and "active_connections S' = active_connections S"
  shows "kept (w, S) (w\<lparr>wh_conns := AList.delete token (wh_conns w)\<rparr>, count_connections (- 1) S')"
  using assms delete_worker_ok [of w token c] by (auto simp: kept_def others_count_def)

lemma kept_fields: "wh_conns w' = wh_conns w \<Longrightarrow> wh_next_token w' = wh_next_token w \<Longrightarrow> kept (w, S) (w', S)"
  by (simp add: kept_def worker_ok_def others_count_def)

lemma kept_replace:
  assumes "map_of (wh_conns w) token = Some c" and "active_connections S' = active_connections S"
  shows "kept (w, S) (w\<lparr>wh_conns := AList.update token c' (AList.delete token (wh_conns w))\<rparr>, S')"
proof -
  let ?w = "w\<lparr>wh_conns := AList.delete token (wh_conns w)\<rparr>"
  have "token \<notin> fst ` set (wh_conns ?w)" by (simp add: delete_notin_dom)
  with delete_worker_ok [OF _ assms(1)] insert_worker_ok [of ?w token "wh_next_token w" c'] assms(2) show ?thesis
    by (auto simp: kept_def others_count_def)
qed

text \<open>The handlers.\<close>

lemma serve_commands_active:
  "serve_commands (\<lambda>cmd clk. dispatch err_text F E cfg clk cmd) clk i cmds (c, S) = Inr (c', S') \<Longrightarrow> active_connections S' = active_connections S"
proof (induction cmds arbitrary: i c S)
  case (Cons cmd cmds)
  then obtain frame S1 where d: "dispatch err_text F E cfg (clk i) cmd S = Inr (frame, S1)"
    "serve_commands (\<lambda>cmd clk. dispatch err_text F E cfg clk cmd) clk (i + 1) cmds (enqueue_response frame c, S1) = Inr (c', S')"
    by (auto simp: and_then_Inr_iff)
  from dispatch_threads [OF d(1)] Cons.IH [OF d(2)] show ?case by (auto simp: same_threads_def new_thread_def)
qed simp

lemma handle_readable_active:
  assumes "handle_readable (\<lambda>cmd clk. dispatch err_text F E cfg clk cmd) clk readable outs (c, S) = Inr (hard, c', S')"
  shows "active_connections S' = active_connections S"
  using assms
  by (auto simp: handle_readable_def and_then_Inr_iff dest: serve_commands_active split: if_splits sum.splits failure.splits)

lemma on_event_kept:
  assumes "on_event (\<lambda>cmd clk. dispatch err_text F E cfg clk cmd) clk readable outs ws ok token (w, S) = Inr (sent, interest, w', S')"
  shows "kept (w, S) (w', S')"
proof (cases "map_of (wh_conns w) token")
  case None
  with assms show ?thesis by (simp add: on_event_def)
next
  case (Some c)
  with assms obtain hard c1 S1 where h: "handle_readable (\<lambda>cmd clk. dispatch err_text F E cfg clk cmd) clk readable outs (c, S) = Inr (hard, c1, S1)"
    by (auto simp: on_event_def and_then_Inr_iff Let_def)
  note act = handle_readable_active [OF h]
  obtain sent1 hard1 c2 where p: "handle_pending ws hard c1 = (sent1, hard1, c2)" by (cases "handle_pending ws hard c1") auto
  from assms have "(w', S') = (w\<lparr>wh_conns := AList.delete token (wh_conns w)\<rparr>, count_connections (- 1) S1) \<or>
      (w', S') = (w\<lparr>wh_conns := AList.update token c2 (AList.delete token (wh_conns w))\<rparr>, S1)"
    by (auto simp: on_event_def Some h p Let_def split: if_splits)
  then show ?thesis using kept_drop [OF Some act] kept_replace [OF Some act, of c2] by auto
qed

lemma drops_kept: "kept wS (fold drop_conn tokens wS)"
proof (induction tokens arbitrary: wS)
  case (Cons token tokens)
  have "kept wS (drop_conn token wS)" by (cases wS) (auto simp: drop_conn_def intro: kept_drop)
  from kept_trans [OF this Cons.IH] show ?case by simp
qed simp

lemma on_timer_kept: "kept (w, S) (on_timer elapsed new_timer timer_id (w, S))"
proof -
  let ?wS = "case wh_read_timeout w of Some timeout \<Rightarrow> sweep_stale elapsed timeout (w, S) | None \<Rightarrow> (w, S)"
  obtain w' S' where wS: "?wS = (w', S')" by fastforce
  have "kept (w, S) ?wS" by (auto simp: sweep_stale_def Let_def drops_kept split: option.split)
  then have "kept (w, S) (w', S')" by (simp only: wS)
  from kept_trans [OF this kept_fields] show ?thesis by (simp add: on_timer_def wS)
qed

lemma checked_add64_next: "checked_add64 t 1 = Inr n \<Longrightarrow> t < n"
  by (auto simp: checked_add64_def word_less_nat_alt unat_word_ariths split: if_splits)

lemma accept_streams_kept: "accept_streams regs (w, S) = Inr (w', S') \<Longrightarrow> kept (w, S) (w', S')"
proof (induction regs arbitrary: w S)
  case (Cons reg regs)
  obtain ok now where reg: "reg = (ok, now)" by fastforce
  show ?case
  proof (cases "wh_incoming w = 0")
    case False
    with Cons.prems obtain n where n: "checked_add64 (wh_next_token w) 1 = Inr n"
      "accept_streams regs
         (if ok then (w\<lparr>wh_incoming := wh_incoming w - 1, wh_next_token := n, wh_conns := AList.update (wh_next_token w) (connection_new now) (wh_conns w)\<rparr>,
                      count_connections 1 S)
          else (w\<lparr>wh_incoming := wh_incoming w - 1, wh_next_token := n\<rparr>, S)) = Inr (w', S')"
      by (auto simp: reg and_then_Inr_iff Let_def split: if_splits)
    let ?w = "w\<lparr>wh_incoming := wh_incoming w - 1\<rparr>"
    have less: "wh_next_token w < n" using n(1) by (rule checked_add64_next)
    have "kept (w, S) (?w\<lparr>wh_next_token := n, wh_conns := AList.update (wh_next_token w) (connection_new now) (wh_conns ?w)\<rparr>, count_connections 1 S)"
    proof (unfold kept_def fst_conv, intro impI)
      assume "worker_ok w"
      then have "worker_ok ?w" "wh_next_token w \<notin> fst ` set (wh_conns ?w)" by (auto simp: worker_ok_def)
      from insert_worker_ok [OF this less, of "connection_new now"] less
      show "worker_ok (?w\<lparr>wh_next_token := n, wh_conns := AList.update (wh_next_token w) (connection_new now) (wh_conns ?w)\<rparr>) \<and>
        others_count (?w\<lparr>wh_next_token := n, wh_conns := AList.update (wh_next_token w) (connection_new now) (wh_conns ?w)\<rparr>, count_connections 1 S) =
        others_count (w, S)"
        by (simp add: others_count_def)
    qed
    moreover have "kept (w, S) (?w\<lparr>wh_next_token := n\<rparr>, S)"
      using less by (auto simp: kept_def others_count_def worker_ok_def)
    ultimately show ?thesis using n(2) Cons.IH kept_trans by (cases ok) (simp_all, blast+)
  qed (use Cons.prems reg in simp)
qed simp

lemma on_wake_kept:
  assumes "on_wake new_timer regs (w, S) = Inr (w', S')"
  shows "kept (w, S) (w', S')"
proof -
  have "kept (w, S) (if wh_sweep_timer w = None \<and> wh_read_timeout w \<noteq> None then w\<lparr>wh_sweep_timer := Some new_timer\<rparr> else w, S)"
    by (rule kept_fields) simp_all
  from kept_trans [OF this accept_streams_kept] assms show ?thesis by (simp add: on_wake_def)
qed

section \<open>The acceptor and its workers\<close>

text \<open>The steps of the whole pool: the acceptor takes a connection, a worker handles a wake-up, an event or a timer, a
  compaction thread moves.\<close>

inductive pool_run :: "(error_kind \<Rightarrow> payload \<Rightarrow> rstring) \<Rightarrow> 'f f32 \<Rightarrow> 's engine \<Rightarrow> 'f compaction_cfg \<Rightarrow> 's pool \<Rightarrow> 's pool \<Rightarrow> bool"
  for err_text F E cfg P0 where
  pool_start: "pool_run err_text F E cfg P0 P0"
| pool_accept: "pool_run err_text F E cfg P0 P \<Longrightarrow> accept_stream setup_ok send_ok P = Inr P' \<Longrightarrow> pool_run err_text F E cfg P0 P'"
| pool_wake: "pool_run err_text F E cfg P0 P \<Longrightarrow> i < length (pool_workers P) \<Longrightarrow>
    on_wake new_timer regs (pool_workers P ! i, pool_server P) = Inr (w, S) \<Longrightarrow>
    pool_run err_text F E cfg P0 (P\<lparr>pool_workers := (pool_workers P)[i := w], pool_server := S\<rparr>)"
| pool_event: "pool_run err_text F E cfg P0 P \<Longrightarrow> i < length (pool_workers P) \<Longrightarrow>
    on_event (\<lambda>cmd clk. dispatch err_text F E cfg clk cmd) clk readable outs ws ok token (pool_workers P ! i, pool_server P) = Inr (sent, interest, w, S) \<Longrightarrow>
    pool_run err_text F E cfg P0 (P\<lparr>pool_workers := (pool_workers P)[i := w], pool_server := S\<rparr>)"
| pool_timer: "pool_run err_text F E cfg P0 P \<Longrightarrow> i < length (pool_workers P) \<Longrightarrow>
    on_timer elapsed new_timer timer_id (pool_workers P ! i, pool_server P) = (w, S) \<Longrightarrow>
    pool_run err_text F E cfg P0 (P\<lparr>pool_workers := (pool_workers P)[i := w], pool_server := S\<rparr>)"
| pool_thread: "pool_run err_text F E cfg P0 P \<Longrightarrow> i < length (srv_threads (pool_server P)) \<Longrightarrow>
    pool_run err_text F E cfg P0 (P\<lparr>pool_server := compaction_step E c now i (pool_server P)\<rparr>)"

abbreviation open_connections :: "worker list \<Rightarrow> nat" where
  "open_connections ws \<equiv> sum_list (map (\<lambda>w. length (wh_conns w)) ws)"

definition pool_ok :: "'s pool \<Rightarrow> bool" where
  "pool_ok P \<longleftrightarrow>
     (\<forall>w \<in> set (pool_workers P). worker_ok w) \<and> active_connections (pool_server P) = of_nat (open_connections (pool_workers P)) \<and>
     ac_num_workers (pool_acceptor P) = length (pool_workers P) \<and> ac_next_worker (pool_acceptor P) < length (pool_workers P)"

lemma open_connections_split:
  "i < length ws \<Longrightarrow> \<exists>n. \<forall>w. open_connections (ws[i := w]) = n + length (wh_conns w)"
proof (induction ws arbitrary: i)
  case (Cons v ws)
  then show ?case by (cases i) (auto, metis add.assoc)
qed simp

lemma pool_ok_worker:
  assumes "pool_ok P" and "i < length (pool_workers P)" and "kept (pool_workers P ! i, pool_server P) (w, S)"
  shows "pool_ok (P\<lparr>pool_workers := (pool_workers P)[i := w], pool_server := S\<rparr>)"
proof -
  from open_connections_split [OF assms(2)] obtain n where n: "open_connections ((pool_workers P)[i := v]) = n + length (wh_conns v)" for v by blast
  then have old: "open_connections (pool_workers P) = n + length (wh_conns (pool_workers P ! i))" by (metis list_update_id)
  have "worker_ok (pool_workers P ! i)" using assms(1,2) by (simp add: pool_ok_def)
  with assms(3) have w: "worker_ok w" "active_connections S = active_connections (pool_server P) - of_nat (length (wh_conns (pool_workers P ! i))) + of_nat (length (wh_conns w))"
    by (auto simp: kept_def others_count_def algebra_simps)
  then have "active_connections S = of_nat (open_connections ((pool_workers P)[i := w]))"
    using assms(1) by (simp add: pool_ok_def n old)
  with assms(1) w(1) show ?thesis by (auto simp: pool_ok_def dest: set_update_subset_insert [THEN subsetD])
qed

lemma pool_ok_accept:
  assumes "pool_ok P" and "accept_stream setup_ok send_ok P = Inr P'"
  shows "pool_ok P'"
proof -
  let ?a = "pool_acceptor P" and ?i = "ac_next_worker (pool_acceptor P)"
  let ?a' = "?a\<lparr>ac_next_worker := (?i + 1) mod ac_num_workers ?a\<rparr>"
  let ?w = "(pool_workers P ! ?i)\<lparr>wh_incoming := wh_incoming (pool_workers P ! ?i) + 1\<rparr>"
  let ?Q = "P\<lparr>pool_workers := (pool_workers P)[?i := ?w], pool_server := pool_server P\<rparr>"
  have turn: "pool_ok (Q\<lparr>pool_acceptor := ?a'\<rparr>)" if "pool_ok Q" "pool_acceptor Q = ?a" for Q :: "'a pool"
    using that by (auto simp: pool_ok_def intro!: mod_less_divisor)
  have "pool_ok ?Q" using assms(1) by (intro pool_ok_worker kept_fields) (simp_all add: pool_ok_def)
  with assms turn [of P] turn [of ?Q] show ?thesis
    by (auto simp: accept_stream_def accept_one_def split: if_splits)
qed

lemma compaction_step_active [simp]: "active_connections (compaction_step E c now i S) = active_connections S"
  by (cases "srv_threads S ! i") (simp_all add: compaction_step_def Let_def split: prod.split sum.split)

lemma pool_new_ok: "0 < n \<Longrightarrow> pool_ok (pool_new n max_connections read_timeout db)"
  by (auto simp: pool_ok_def pool_new_def acceptor_new_def worker_new_def worker_ok_def stats_new_def sum_list_replicate)

text \<open>C11. The counter of active connections is exact: whatever the acceptor, the workers and the compaction threads do, in
  any interleaving, and whichever registrations, reads and writes fail, it is the number of the connections that the
  workers hold (as a 64-bit integer), no two connections of a worker share a token, tokens in use lie below the next
  one, and the acceptor points at an existing worker.\<close>

theorem connections_accounted:
  assumes "pool_run err_text F E cfg (pool_new n max_connections read_timeout db) P" and "0 < n"
  shows "st_active_connections (srv_stats (pool_server P)) = of_nat (sum_list (map (\<lambda>w. length (wh_conns w)) (pool_workers P))) \<and>
    (\<forall>w \<in> set (pool_workers P). distinct (map fst (wh_conns w)) \<and> (\<forall>token \<in> fst ` set (wh_conns w). token < wh_next_token w)) \<and>
    ac_next_worker (pool_acceptor P) < length (pool_workers P)"
proof -
  from assms(1) have "pool_ok P"
  proof induction
    case pool_start
    show ?case using assms(2) by (rule pool_new_ok)
  next
    case pool_accept
    then show ?case using pool_ok_accept by blast
  next
    case (pool_wake P i new_timer regs w S)
    show ?case using pool_ok_worker [OF pool_wake.IH pool_wake.hyps(2)] on_wake_kept [OF pool_wake.hyps(3)] .
  next
    case (pool_event P i clk readable outs ws ok token sent interest w S)
    show ?case using pool_ok_worker [OF pool_event.IH pool_event.hyps(2)] on_event_kept [OF pool_event.hyps(3)] .
  next
    case (pool_timer P i elapsed new_timer timer_id w S)
    show ?case
      using pool_ok_worker [OF pool_timer.IH pool_timer.hyps(2)] on_timer_kept [of "pool_workers P ! i" "pool_server P" elapsed new_timer timer_id]
      unfolding pool_timer.hyps(3) .
  next
    case (pool_thread P i c now)
    then show ?case by (simp add: pool_ok_def)
  qed
  then show ?thesis unfolding pool_ok_def worker_ok_def by blast
qed

text \<open>A pool of one worker with a limit of one connection, to which two clients connect before the worker wakes up.\<close>

lemma burst_run:
  defines "P0 \<equiv> pool_new 1 1 None kv_small"
  shows "\<exists>P. pool_run (\<lambda>_ _. lit ''error'') exact_f32 (kv_engine (\<lambda>s e. s)) \<lparr>cfg_ratio = 0, cfg_max_segment = 0\<rparr> P0 P \<and>
    ac_max_connections (pool_acceptor P) = 1 \<and> sum_list (map (\<lambda>w. length (wh_conns w)) (pool_workers P)) = 2"
proof -
  let ?run = "pool_run (\<lambda>_ _. lit ''error'') exact_f32 (kv_engine (\<lambda>s e. s)) \<lparr>cfg_ratio = 0, cfg_max_segment = 0\<rparr> P0"
  let ?w = "\<lambda>k. (worker_new None)\<lparr>wh_incoming := k\<rparr>"
  let ?P = "\<lambda>k. P0\<lparr>pool_workers := [?w k]\<rparr>"
  have acc: "accept_stream True True (?P k) = Inr (?P (k + 1))" for k
    by (simp add: accept_stream_def accept_one_def P0_def pool_new_def acceptor_new_def stats_new_def)
  have "?run (?P 0)" using pool_start [of _ _ _ _ P0] by (simp add: P0_def pool_new_def worker_new_def)
  from pool_accept [OF pool_accept [OF this acc] acc] have two: "?run (?P 2)" by (simp add: numeral_2_eq_2)
  let ?w' = "(?w 0)\<lparr>wh_next_token := 2, wh_conns := [(0, connection_new 5), (1, connection_new 5)]\<rparr>"
  have "on_wake 0 [(True, 5), (True, 5)] (pool_workers (?P 2) ! 0, pool_server (?P 2)) =
      Inr (?w', count_connections 1 (count_connections 1 (pool_server P0)))"
    by (simp add: on_wake_def worker_new_def checked_add64_def Let_def)
  from pool_wake [OF two _ this] show ?thesis by (fastforce simp: P0_def pool_new_def acceptor_new_def)
qed

theorem connections_accounted_witness:
  "\<exists>P. pool_run (\<lambda>_ _. lit ''error'') exact_f32 (kv_engine (\<lambda>s e. s)) \<lparr>cfg_ratio = 0, cfg_max_segment = 0\<rparr> (pool_new 1 1 None kv_small) P \<and>
    st_active_connections (srv_stats (pool_server P)) = 2"
proof -
  from burst_run obtain P where P: "pool_run (\<lambda>_ _. lit ''error'') exact_f32 (kv_engine (\<lambda>s e. s)) \<lparr>cfg_ratio = 0, cfg_max_segment = 0\<rparr> (pool_new 1 1 None kv_small) P"
    "sum_list (map (\<lambda>w. length (wh_conns w)) (pool_workers P)) = 2" by blast
  from connections_accounted [OF P(1)] P show ?thesis by (intro exI [of _ P]) simp
qed

text \<open>The limit on connections is not exact: the acceptor compares it with a counter that the workers increase later, so
  that with a limit of one connection, two clients that connect before the worker wakes up are both admitted.\<close>

theorem connection_limit_exceeded:
  "\<exists>P. pool_run (\<lambda>_ _. lit ''error'') exact_f32 (kv_engine (\<lambda>s e. s)) \<lparr>cfg_ratio = 0, cfg_max_segment = 0\<rparr> (pool_new 1 1 None kv_small) P \<and>
    unat (ac_max_connections (pool_acceptor P)) < sum_list (map (\<lambda>w. length (wh_conns w)) (pool_workers P))"
  using burst_run by fastforce

text \<open>A limit of zero admits nobody, as long as the counter is not negative.\<close>

theorem zero_limit_admits_nobody:
  assumes "0 \<le> sint (st_active_connections st)"
  shows "accept_one setup_ok st (acceptor_new num_workers 0) = Inr (None, acceptor_new num_workers 0)"
  using assms by (simp add: accept_one_def acceptor_new_def)

end
