(* ===== verification/Server_Serving.thy ===== *)
theory Server_Serving
  imports Server_Dispatch
begin

text \<open>
  What a client gets from \<open>dispatch\<close>. The contract of an engine behind the server is the locale \<open>engine_contract\<close>; both
  engines are interpretations of it, and of \<open>kv_store\<close>, on which they rest. The second part is about compaction threads:
  at most one is at work, it ends, and a failed one blocks all later ones.
\<close>

section \<open>The LSM engine as a store\<close>

definition lsm_val :: "u64 \<Rightarrow> lsm \<Rightarrow> rstring \<Rightarrow> rstring option" where
  "lsm_val t s k = (case lsm_get t (\<lambda>_. t) k s of Inr (Some (_, v)) \<Rightarrow> Some v | _ \<Rightarrow> None)"

definition lsm_ready :: "lsm \<Rightarrow> bool" where
  "lsm_ready s \<longleftrightarrow> (\<exists>n ess. lsm_inv n s ess)"

definition lsm_room :: "u64 \<Rightarrow> lsm \<Rightarrow> bool" where
  "lsm_room ts s \<longleftrightarrow> fresh_name ts s \<and> (\<exists>n ess. lsm_inv n s ess \<and> Suc n < 2 ^ 40)"

lemma lsm_val_view: "lsm_inv n s ess \<Longrightarrow> lsm_val t s k = value_at t (lsm_view s ess) k"
  using lsm_inv_get [of n s ess t k] by (cases "value_at t (lsm_view s ess) k") (simp_all add: lsm_val_def)

lemma lsm_get_val: "lsm_ready s \<Longrightarrow> lsm_get t (\<lambda>_. t) k s = Inr (map_option (Pair k) (lsm_val t s k))"
  using lsm_inv_get lsm_val_view by (auto simp: lsm_ready_def)

lemma lsm_write_val:
  assumes "lsm_room ts s" and "entry_fits (k, write_entry v x)"
  shows "\<exists>s'. lsm_write F ts k v x s = Inr s' \<and> lsm_ready s' \<and>
    (\<forall>t j. lsm_val t s' j = (if j = k then entry_value t (write_entry v x) else lsm_val t s j))"
proof -
  from assms(1) obtain n ess where inv: "lsm_inv n s ess" "Suc n < 2 ^ 40" "fresh_name ts s" by (auto simp: lsm_room_def)
  from lsm_write_inv [OF inv assms(2), of F] obtain s' ess' where w: "lsm_write F ts k v x s = Inr s'" "lsm_inv (Suc n) s' ess'"
    "map_of (lsm_view s' ess') = (map_of (lsm_view s ess))(k \<mapsto> write_entry v x)" by blast
  have "lsm_val t s' j = (if j = k then entry_value t (write_entry v x) else lsm_val t s j)" for t j
    using lsm_val_view [OF inv(1)] lsm_val_view [OF w(2)] by (simp add: value_at_def w(3))
  with w(1,2) show ?thesis by (auto simp: lsm_ready_def)
qed

lemma entry_value_write: "entry_value t (write_entry (Some v) x) = (if \<exists>e. x = Some e \<and> e \<le> t then None else Some v)"
  "entry_value t (write_entry None x) = None"
  by (auto simp: write_entry_def entry_value_def is_expired_def split: option.split)

lemma lsm_delete_val:
  assumes "lsm_ready s" and "lsm_room ts s" and "len k \<le> MAX_KEY_SIZE"
  shows "\<exists>r s'. lsm_delete F ts now (\<lambda>_. now) k s = Inr (r, s') \<and> lsm_ready s' \<and> (\<forall>t j. lsm_val t s' j = (if j = k then None else lsm_val t s j))"
proof -
  have "entry_fits (k, write_entry None None)" using assms(3) by (simp add: entry_fits_def write_entry_def)
  from lsm_write_val [OF assms(2) this, of F] lsm_get_val [OF assms(1), of now k] show ?thesis
    by (auto simp: lsm_delete_def entry_value_write)
qed

interpretation lsm: kv_store lsm_ready lsm_room lsm_val "\<lambda>k v. len k \<le> MAX_KEY_SIZE \<and> len v \<le> MAX_VALUE_SIZE"
    "\<lambda>t. lsm_get t (\<lambda>_. t)" "lsm_set_with_ttl F" "\<lambda>ts now. lsm_delete F ts now (\<lambda>_. now)" for F :: "'f f64"
proof
  fix s ts k v x assume "lsm_ready s" "lsm_room ts s" "len k \<le> MAX_KEY_SIZE \<and> len v \<le> MAX_VALUE_SIZE"
  moreover from this have "entry_fits (k, write_entry (Some v) x)" by (simp add: entry_fits_def write_entry_def)
  ultimately show "\<exists>s'. lsm_set_with_ttl F ts k v x s = Inr s' \<and> lsm_ready s' \<and>
      (\<forall>t j. lsm_val t s' j = (if j = k then (if \<exists>e. x = Some e \<and> e \<le> t then None else Some v) else lsm_val t s j))"
    using lsm_write_val [of ts s k "Some v" x F] unfolding lsm_set_with_ttl_def entry_value_write by blast
qed (use lsm_get_val lsm_delete_val in blast)+

section \<open>Any engine behind the server\<close>

abbreviation at_time :: "op_clock \<Rightarrow> u64 \<Rightarrow> bool" where
  "at_time c t \<equiv> \<forall>i. oc_now c i = t"

locale engine_contract =
  fixes E :: "'s engine"
    and inv :: "'s \<Rightarrow> bool"
    and room :: "op_clock \<Rightarrow> 's \<Rightarrow> bool"
    and val :: "u64 \<Rightarrow> 's \<Rightarrow> rstring \<Rightarrow> rstring option"
  assumes get_law: "inv s \<Longrightarrow> at_time c t \<Longrightarrow> eng_get E c k s = Inr (map_option (Pair k) (val t s k))"
    and set_law: "inv s \<Longrightarrow> room c s \<Longrightarrow> len k \<le> MAX_KEY_SIZE \<Longrightarrow> len v \<le> MAX_VALUE_SIZE \<Longrightarrow>
      \<exists>s'. eng_set_with_ttl E c k v x s = (Inr (), s') \<and> inv s' \<and>
        (\<forall>t j. val t s' j = (if j = k then (if \<exists>e. x = Some e \<and> e \<le> t then None else Some v) else val t s j))"
    and delete_law: "inv s \<Longrightarrow> room c s \<Longrightarrow> at_time c t \<Longrightarrow> len k \<le> MAX_KEY_SIZE \<Longrightarrow>
      \<exists>r s'. eng_delete E c k s = (Inr r, s') \<and> inv s' \<and> (\<forall>t j. val t s' j = (if j = k then None else val t s j))"
begin

text \<open>What a read answers.\<close>

lemma read_answer:
  assumes "inv (srv_db S)" and "at_time (dc_op c) t"
  shows "\<exists>S'. dispatch err_text G E cfg c (CmdRead k) S =
           Inr (case val t (srv_db S) k of Some v \<Rightarrow> encode_frame StOk [v] | None \<Rightarrow> encode_frame StNotFound [], S') \<and> srv_db S' = srv_db S"
  using get_law [OF assms, of k] by (cases "val t (srv_db S) k") (simp_all add: Let_def)

lemma trigger_db [simp]: "srv_db (maybe_trigger_compaction G E cfg now S) = srv_db S"
  by (auto simp: maybe_trigger_compaction_def start_compaction_def Let_def split: option.split)

lemma count_blocked_db [simp]: "srv_db (count_blocked S) = srv_db S"
  by (simp add: count_blocked_def)

lemma write_answer:
  assumes "inv (srv_db S)" and "room (dc_op c) (srv_db S)" and "len k \<le> MAX_KEY_SIZE" and "len v \<le> MAX_VALUE_SIZE"
    and "expiry_opt (dc_now_ms c) ttl = Inr x"
  shows "\<exists>S'. dispatch err_text G E cfg c (CmdWrite k v ttl) S = Inr (encode_frame StOk [], S') \<and> inv (srv_db S') \<and>
           (\<forall>t j. val t (srv_db S') j = (if j = k then (if \<exists>e. x = Some e \<and> e \<le> t then None else Some v) else val t (srv_db S) j))"
  using set_law [OF assms(1-4), of x] assms(5) by (auto simp: Let_def finish_write_def)

lemma delete_answer:
  assumes "inv (srv_db S)" and "room (dc_op c) (srv_db S)" and "at_time (dc_op c) t" and "len k \<le> MAX_KEY_SIZE"
  shows "\<exists>frame S'. dispatch err_text G E cfg c (CmdDelete k) S = Inr (frame, S') \<and> inv (srv_db S') \<and>
           (\<forall>t j. val t (srv_db S') j = (if j = k then None else val t (srv_db S) j))"
proof -
  from delete_law [OF assms] obtain r s' where "eng_delete E (dc_op c) k (srv_db S) = (Inr r, s')" "inv s'"
    "\<forall>t j. val t s' j = (if j = k then None else val t (srv_db S) j)" by blast
  then show ?thesis by (cases r) (simp_all add: Let_def)
qed

text \<open>A write followed by a read, as a client sees them.\<close>

lemma write_then_read:
  assumes "inv (srv_db S)" and "room (dc_op c) (srv_db S)" and "len k \<le> MAX_KEY_SIZE" and "len v \<le> MAX_VALUE_SIZE"
    and "expiry_opt (dc_now_ms c) ttl = Inr x" and "at_time (dc_op c') t"
  shows "\<exists>S' S''. dispatch err_text G E cfg c (CmdWrite k v ttl) S = Inr (encode_frame StOk [], S') \<and>
           dispatch err_text G E cfg c' (CmdRead k) S' =
             Inr (if \<exists>e. x = Some e \<and> e \<le> t then encode_frame StNotFound [] else encode_frame StOk [v], S'')"
proof -
  from write_answer [OF assms(1-5)] obtain S' where S': "dispatch err_text G E cfg c (CmdWrite k v ttl) S = Inr (encode_frame StOk [], S')"
    "inv (srv_db S')" "\<forall>t j. val t (srv_db S') j = (if j = k then (if \<exists>e. x = Some e \<and> e \<le> t then None else Some v) else val t (srv_db S) j)" by blast
  from read_answer [OF S'(2) assms(6), of err_text G cfg k] S'(1,3) show ?thesis by auto
qed

end

interpretation kv_served: engine_contract "kv_engine lost" kv_inv "\<lambda>_ s. small_files (kv_dir s)" kv_val for lost
proof
  fix s :: kv and c t k v x
  show "kv_inv s \<Longrightarrow> at_time c t \<Longrightarrow> eng_get (kv_engine lost) c k s = Inr (map_option (Pair k) (kv_val t s k))"
    using kv.get_val [of s t k] by (simp add: kv_engine_def)
  assume a: "kv_inv s" "small_files (kv_dir s)" "len k \<le> MAX_KEY_SIZE"
  { assume "len v \<le> MAX_VALUE_SIZE"
    with kv.set_law [OF a(1,2), of k v "oc_ts c 0" x] a(3)
    show "\<exists>s'. eng_set_with_ttl (kv_engine lost) c k v x s = (Inr (), s') \<and> kv_inv s' \<and>
        (\<forall>t j. kv_val t s' j = (if j = k then (if \<exists>e. x = Some e \<and> e \<le> t then None else Some v) else kv_val t s j))"
      by (auto simp: kv_engine_def with_state_def no_result_def) }
  have "len (lit []) \<le> MAX_VALUE_SIZE" by (simp add: MAX_VALUE_SIZE_def)
  with kv.delete_law [OF a(1,2), of k "lit []"] a(3)
  show "\<exists>r s'. eng_delete (kv_engine lost) c k s = (Inr r, s') \<and> kv_inv s' \<and> (\<forall>t j. kv_val t s' j = (if j = k then None else kv_val t s j))"
    by (fastforce simp: kv_engine_def with_state_def)
qed

interpretation lsm_served: engine_contract "lsm_engine F lost" lsm_ready "\<lambda>c. lsm_room (oc_ts c 0)" lsm_val for F :: "'f f64" and lost
proof
  fix s :: lsm and c t k v x
  have clk: "(\<lambda>i. oc_now c (i + 1)) = (\<lambda>_. t)" "oc_now c 0 = t" if "at_time c t" using that by auto
  show "lsm_ready s \<Longrightarrow> at_time c t \<Longrightarrow> eng_get (lsm_engine F lost) c k s = Inr (map_option (Pair k) (lsm_val t s k))"
    using lsm.get_val [of s t k] by (simp add: lsm_engine_def)
  assume a: "lsm_ready s" "lsm_room (oc_ts c 0) s" "len k \<le> MAX_KEY_SIZE"
  { assume "len v \<le> MAX_VALUE_SIZE"
    with lsm.set_law [OF a(1,2), of k v F x] a(3)
    show "\<exists>s'. eng_set_with_ttl (lsm_engine F lost) c k v x s = (Inr (), s') \<and> lsm_ready s' \<and>
        (\<forall>t j. lsm_val t s' j = (if j = k then (if \<exists>e. x = Some e \<and> e \<le> t then None else Some v) else lsm_val t s j))"
      by (auto simp: lsm_engine_def with_state_def no_result_def) }
  assume "at_time c t"
  with lsm_delete_val [OF a, of F t]
  show "\<exists>r s'. eng_delete (lsm_engine F lost) c k s = (Inr r, s') \<and> lsm_ready s' \<and> (\<forall>t j. lsm_val t s' j = (if j = k then None else lsm_val t s j))"
    by (fastforce simp: lsm_engine_def with_state_def)
qed

section \<open>What a client sees\<close>

text \<open>The answer to a read that finds a value, or none.\<close>

lemma read_frame_decodes:
  assumes "len v \<le> MAX_VALUE_SIZE"
  shows "decode_response_frame (if P then encode_frame StNotFound [] else encode_frame StOk [v]) =
    Inr (if P then \<lparr>dr_payload = [], dr_status = StNotFound\<rparr> else \<lparr>dr_payload = [v], dr_status = StOk\<rparr>)"
  using assms by (simp add: response_decodes MAX_VALUE_SIZE_def)

lemma two_seconds: "expiry_opt 1000 (Some 2) = Inr (Some 3000)"
  by (simp add: expiry_opt_def expiry_of_def checked_add64_def)

text \<open>C7. A client of the hash-index engine reads its own write: \<open>WRITE\<close> of a key and a value within the size limits is
  answered with \<open>Ok\<close>, and a \<open>READ\<close> of the key that follows is answered, in a frame the client decodes, with the value
  until the expiry that the time to live gives, and with \<open>NotFound\<close> from then on.\<close>

theorem kv_client_reads_write:
  assumes "kv_inv (srv_db S)" and "small_files (kv_dir (srv_db S))" and "len k \<le> MAX_KEY_SIZE" and "len v \<le> MAX_VALUE_SIZE"
    and "expiry_opt (dc_now_ms c) ttl = Inr x" and "at_time (dc_op c') t"
  shows "\<exists>S' S'' frame. dispatch err_text F (kv_engine lost) cfg c (CmdWrite k v ttl) S = Inr (encode_frame StOk [], S') \<and>
    dispatch err_text F (kv_engine lost) cfg c' (CmdRead k) S' = Inr (frame, S'') \<and>
    decode_response_frame frame =
      Inr (if \<exists>e. x = Some e \<and> e \<le> t then \<lparr>dr_payload = [], dr_status = StNotFound\<rparr> else \<lparr>dr_payload = [v], dr_status = StOk\<rparr>)"
  using kv_served.write_then_read [OF assms, where err_text = err_text and G = F and cfg = cfg and lost = lost] read_frame_decodes [OF assms(4)] by blast

theorem kv_client_reads_write_witness:
  "\<exists>S' S'' frame. dispatch (\<lambda>_ _. lit ''error'') exact_f32 (kv_engine (\<lambda>s e. s)) \<lparr>cfg_ratio = 0, cfg_max_segment = 0\<rparr> (fixed_clock 2 1000)
      (CmdWrite (lit ''k'') (lit ''v'') (Some 2)) (fresh_server kv_small) = Inr (encode_frame StOk [], S') \<and>
    dispatch (\<lambda>_ _. lit ''error'') exact_f32 (kv_engine (\<lambda>s e. s)) \<lparr>cfg_ratio = 0, cfg_max_segment = 0\<rparr> (fixed_clock 2 2999)
      (CmdRead (lit ''k'')) S' = Inr (frame, S'') \<and>
    decode_response_frame frame = Inr \<lparr>dr_payload = [lit ''v''], dr_status = StOk\<rparr>"
proof -
  have inv: "kv_inv (srv_db (fresh_server kv_small))" using kv_new_facts(1) [of "[]"] by simp
  have small: "small_files (kv_dir (srv_db (fresh_server kv_small)))" by (simp add: small_files_def kv_new_def Let_def open_create_def)
  have sz: "len (lit ''k'') \<le> MAX_KEY_SIZE" "len (lit ''v'') \<le> MAX_VALUE_SIZE" by (simp_all add: MAX_KEY_SIZE_def MAX_VALUE_SIZE_def)
  have x: "expiry_opt (dc_now_ms (fixed_clock 2 1000)) (Some 2) = Inr (Some 3000)" using two_seconds by simp
  have t: "at_time (dc_op (fixed_clock 2 2999)) 2999" by simp
  from kv_client_reads_write [OF inv small sz x t, where err_text = "\<lambda>_ _. lit ''error''" and F = exact_f32 and lost = "\<lambda>s e. s" and cfg = "\<lparr>cfg_ratio = 0, cfg_max_segment = 0\<rparr>"]
  show ?thesis by simp
qed

text \<open>C8. A client of a leveled LSM engine reads its own write, in the same sense, while the flush thread may be running.\<close>

theorem lsm_client_reads_write:
  assumes "lsm_ready (srv_db S)" and "lsm_room (oc_ts (dc_op c) 0) (srv_db S)" and "len k \<le> MAX_KEY_SIZE" and "len v \<le> MAX_VALUE_SIZE"
    and "expiry_opt (dc_now_ms c) ttl = Inr x" and "at_time (dc_op c') t"
  shows "\<exists>S' S'' frame. dispatch err_text G (lsm_engine F lost) cfg c (CmdWrite k v ttl) S = Inr (encode_frame StOk [], S') \<and>
    dispatch err_text G (lsm_engine F lost) cfg c' (CmdRead k) S' = Inr (frame, S'') \<and>
    decode_response_frame frame =
      Inr (if \<exists>e. x = Some e \<and> e \<le> t then \<lparr>dr_payload = [], dr_status = StNotFound\<rparr> else \<lparr>dr_payload = [v], dr_status = StOk\<rparr>)"
  using lsm_served.write_then_read [OF assms, where err_text = err_text and F = F and G = G and cfg = cfg and lost = lost] read_frame_decodes [OF assms(4)] by blast

theorem lsm_client_reads_write_witness:
  "\<exists>S' S'' frame. dispatch (\<lambda>_ _. lit ''error'') exact_f32 (lsm_engine exact_f64 (\<lambda>s e. s)) \<lparr>cfg_ratio = 0, cfg_max_segment = 0\<rparr> (fixed_clock 2 1000)
      (CmdWrite (lit ''k'') (lit ''long value'') (Some 2)) (fresh_server small_engine) = Inr (encode_frame StOk [], S') \<and>
    dispatch (\<lambda>_ _. lit ''error'') exact_f32 (lsm_engine exact_f64 (\<lambda>s e. s)) \<lparr>cfg_ratio = 0, cfg_max_segment = 0\<rparr> (fixed_clock 2 3000)
      (CmdRead (lit ''k'')) S' = Inr (frame, S'') \<and>
    decode_response_frame frame = Inr \<lparr>dr_payload = [], dr_status = StNotFound\<rparr>"
proof -
  have inv: "lsm_ready (srv_db (fresh_server small_engine))" using small_engine_inv by (auto simp: lsm_ready_def)
  have room: "lsm_room (oc_ts (dc_op (fixed_clock 2 1000)) 0) (srv_db (fresh_server small_engine))"
    using small_engine_inv small_engine_fresh by (auto simp: lsm_room_def intro!: exI [of _ 0])
  have sz: "len (lit ''k'') \<le> MAX_KEY_SIZE" "len (lit ''long value'') \<le> MAX_VALUE_SIZE" by (simp_all add: MAX_KEY_SIZE_def MAX_VALUE_SIZE_def)
  have x: "expiry_opt (dc_now_ms (fixed_clock 2 1000)) (Some 2) = Inr (Some 3000)" using two_seconds by simp
  have t: "at_time (dc_op (fixed_clock 2 3000)) 3000" by simp
  from lsm_client_reads_write [OF inv room sz x t, where err_text = "\<lambda>_ _. lit ''error''" and G = exact_f32 and F = exact_f64 and lost = "\<lambda>s e. s" and cfg = "\<lparr>cfg_ratio = 0, cfg_max_segment = 0\<rparr>"]
  show ?thesis by simp
qed

end
