(* ===== verification/Cli_Parser.thy ===== *)
theory Cli_Parser
  imports Settings_Args Connection_Io
begin

text \<open>
  The command language of the client (src/src/cli.rs): a line is split into words at Unicode white space and parsed into
  a command of the protocol.

  Of the standard library this uses \<open>split_whitespace\<close>, modelled on the characters of a UTF-8 string, \<open>join\<close>,
  \<open>chunks_exact\<close>, \<open>parse::<u32>\<close> and \<open>to_uppercase\<close>. The upper-case word is only compared with ASCII names, so it is
  modelled as far as it is ASCII: \<open>upper_char\<close> gives the upper case of the characters whose upper case is ASCII, and a
  word with any other character equals no name.

  Main results: every command that comes out of a line is well formed (keys are non-empty and free of white space, no time
  to live of zero, no empty batch), and the server decodes from the frame of the command what was typed.
\<close>

section \<open>Characters and words\<close>

text \<open>The bytes that follow the first one of a character.\<close>

definition extra_len :: "byte \<Rightarrow> nat" where
  "extra_len b = (if b < 0x80 then 0 else if b < 0xE0 then 1 else if b < 0xF0 then 2 else 3)"

fun chars :: "bytes \<Rightarrow> bytes list" where
  "chars [] = []"
| "chars (b # bs) = (b # take (extra_len b) bs) # chars (drop (extra_len b) bs)"

text \<open>The property \<open>White_Space\<close>: U+0009 to U+000D, U+0020, U+0085, U+00A0, U+1680, U+2000 to U+200A, U+2028, U+2029,
  U+202F, U+205F, U+3000.\<close>

definition is_whitespace :: "bytes \<Rightarrow> bool" where
  "is_whitespace c \<longleftrightarrow>
     c \<in> set [[0x09], [0x0A], [0x0B], [0x0C], [0x0D], [0x20], [0xC2, 0x85], [0xC2, 0xA0], [0xE1, 0x9A, 0x80],
       [0xE2, 0x80, 0x80], [0xE2, 0x80, 0x81], [0xE2, 0x80, 0x82], [0xE2, 0x80, 0x83], [0xE2, 0x80, 0x84], [0xE2, 0x80, 0x85],
       [0xE2, 0x80, 0x86], [0xE2, 0x80, 0x87], [0xE2, 0x80, 0x88], [0xE2, 0x80, 0x89], [0xE2, 0x80, 0x8A], [0xE2, 0x80, 0xA8],
       [0xE2, 0x80, 0xA9], [0xE2, 0x80, 0xAF], [0xE2, 0x81, 0x9F], [0xE3, 0x80, 0x80]]"

text \<open>The maximal runs of characters that are no white space; \<open>cur\<close> is the current one.\<close>

fun runs :: "bytes list \<Rightarrow> bytes list \<Rightarrow> bytes list list" where
  "runs cur [] = (if cur = [] then [] else [cur])"
| "runs cur (c # cs) =
     (if is_whitespace c then (if cur = [] then [] else [cur]) @ runs [] cs else runs (cur @ [c]) cs)"

definition split_whitespace :: "rstring \<Rightarrow> rstring list" where
  "split_whitespace s = map (\<lambda>cs. mk_string (concat cs)) (runs [] (chars (as_bytes s)))"

fun join_spaces :: "rstring list \<Rightarrow> rstring" where
  "join_spaces [] = lit ''''"
| "join_spaces [w] = w"
| "join_spaces (w # ws) = str_append w (str_append (lit '' '') (join_spaces ws))"

text \<open>The characters whose upper case is ASCII: ASCII itself, dotless i, long s, sharp s, and the Latin ligatures.\<close>

definition upper_char :: "bytes \<Rightarrow> bytes option" where
  "upper_char c =
     (case c of
        [b] \<Rightarrow> Some [if 97 \<le> b \<and> b \<le> 122 then b - 32 else b]
      | _ \<Rightarrow>
          map_of
            [([0xC4, 0xB1], as_bytes (lit ''I'')), ([0xC5, 0xBF], as_bytes (lit ''S'')), ([0xC3, 0x9F], as_bytes (lit ''SS'')),
             ([0xEF, 0xAC, 0x80], as_bytes (lit ''FF'')), ([0xEF, 0xAC, 0x81], as_bytes (lit ''FI'')),
             ([0xEF, 0xAC, 0x82], as_bytes (lit ''FL'')), ([0xEF, 0xAC, 0x83], as_bytes (lit ''FFI'')),
             ([0xEF, 0xAC, 0x84], as_bytes (lit ''FFL'')), ([0xEF, 0xAC, 0x85], as_bytes (lit ''ST'')),
             ([0xEF, 0xAC, 0x86], as_bytes (lit ''ST''))] c)"

text \<open>Whether the upper case of a word is the given name.\<close>

definition is_name :: "rstring \<Rightarrow> string \<Rightarrow> bool" where
  "is_name w name \<longleftrightarrow>
     (let us = map upper_char (chars (as_bytes w))
      in None \<notin> set us \<and> concat (map the us) = as_bytes (lit name))"

definition parse_u32 :: "rstring \<Rightarrow> u32 option" where
  "parse_u32 s = map_option of_nat (parse_uint (2 ^ 32) (as_bytes s))"

text \<open>\<open>chunks_exact(2)\<close>: an odd last word is left out.\<close>

fun chunk_pairs :: "rstring list \<Rightarrow> (rstring \<times> rstring) list" where
  "chunk_pairs (k # v # ws) = (k, v) # chunk_pairs ws"
| "chunk_pairs _ = []"

section \<open>Commands\<close>

datatype parse_result = ParsedCmd command | ParsedQuit | InvalidInputMsg rstring

definition usage :: "string \<Rightarrow> parse_result" where
  "usage msg = InvalidInputMsg (lit msg)"

definition parse_words :: "rstring \<Rightarrow> rstring list \<Rightarrow> parse_result" where
  "parse_words w args =
     (if is_name w ''WRITE'' then
        (case args of
           key # v # vs \<Rightarrow> ParsedCmd (CmdWrite key (join_spaces (v # vs)) None)
         | _ \<Rightarrow> usage ''Usage: WRITE <key> <value>'')
      else if is_name w ''READ'' then
        (case args of [key] \<Rightarrow> ParsedCmd (CmdRead key) | _ \<Rightarrow> usage ''Usage: READ <key>'')
      else if is_name w ''DELETE'' then
        (case args of [key] \<Rightarrow> ParsedCmd (CmdDelete key) | _ \<Rightarrow> usage ''Usage: DELETE <key>'')
      else if is_name w ''EXISTS'' then
        (case args of [key] \<Rightarrow> ParsedCmd (CmdExists key) | _ \<Rightarrow> usage ''Usage: EXISTS <key>'')
      else if is_name w ''COMPACT'' then ParsedCmd CmdCompact
      else if is_name w ''STATS'' then ParsedCmd CmdStats
      else if is_name w ''LIST'' then ParsedCmd CmdList
      else if is_name w ''PING'' then ParsedCmd CmdPing
      else if is_name w ''QUIT'' then ParsedQuit
      else if is_name w ''MGET'' then
        (if args = [] then usage ''Usage: MGET <key1> <key2> <keyn>'' else ParsedCmd (CmdMget args))
      else if is_name w ''MSET'' then
        (if length args < 2 then usage ''Usage: MSET <key1> <value1> <keyn> <valuen>''
         else ParsedCmd (CmdMset (map (\<lambda>(k, v). (k, v, None)) (chunk_pairs args))))
      else if is_name w ''RANGE'' then
        (case args of [start, end_key] \<Rightarrow> ParsedCmd (CmdRange start end_key) | _ \<Rightarrow> usage ''Usage: RANGE <start> <end>'')
      else if is_name w ''TTL'' then
        (case args of
           [key, secs] \<Rightarrow>
             (case parse_u32 secs of
                Some expiry \<Rightarrow> ParsedCmd (CmdTtl key expiry)
              | None \<Rightarrow> usage ''Invalid expiry time'')
         | _ \<Rightarrow> usage ''Usage: TTL <key> <seconds>'')
      else if is_name w ''WRITETTL'' then
        (case args of
           key # secs # v # vs \<Rightarrow>
             (case parse_u32 secs of
                Some expiry \<Rightarrow>
                  if expiry = 0 then usage ''Usage: WRITETTL <key> <seconds> <value> (seconds must be >= 1)''
                  else ParsedCmd (CmdWrite key (join_spaces (v # vs)) (Some expiry))
              | None \<Rightarrow> usage ''Invalid expiry time'')
         | _ \<Rightarrow> usage ''Usage: WRITETTL <key> <seconds> <value>'')
      else if is_name w ''MWRITETTL'' then
        (if length args < 3 \<or> odd (length args - 1) then usage ''Usage: MWRITETTL <seconds> <key1> <value1> <keyn> <valuen>''
         else
           (case parse_u32 (hd args) of
              Some expiry \<Rightarrow>
                if expiry = 0 then usage ''Usage: MWRITETTL <seconds> <key1> <value1> <keyn> <valuen> (seconds must be >= 1)''
                else ParsedCmd (CmdMset (map (\<lambda>(k, v). (k, v, Some expiry)) (chunk_pairs (tl args))))
            | None \<Rightarrow> usage ''Invalid expiry time''))
      else InvalidInputMsg (str_append (lit ''Unknown command: '') w))"

definition parse_command :: "rstring \<Rightarrow> parse_result" where
  "parse_command line =
     (case split_whitespace line of
        [] \<Rightarrow> InvalidInputMsg (lit '''')
      | w # args \<Rightarrow> parse_words w args)"

section \<open>The words of a line\<close>

definition full_char :: "bytes \<Rightarrow> bool" where
  "full_char c \<longleftrightarrow> utf8_valid c \<and> (\<exists>b bs. c = b # bs \<and> length bs = extra_len b)"

lemma concat_chars [simp]: "concat (chars bs) = bs"
  by (induction bs rule: chars.induct) simp_all

lemma chars_full_append: "full_char c \<Longrightarrow> chars (c @ bs) = c # chars bs"
  by (auto simp: full_char_def)

lemma chars_concat: "\<forall>c \<in> set cs. full_char c \<Longrightarrow> chars (concat cs) = cs"
  by (induction cs) (simp_all add: chars_full_append)

lemma extra_len_simps:
  "a < 0x80 \<Longrightarrow> extra_len a = 0"
  "0xC2 \<le> a \<Longrightarrow> a \<le> 0xDF \<Longrightarrow> extra_len a = 1"
  "utf8_lead3 a b \<Longrightarrow> extra_len a = 2"
  "utf8_lead4 a b \<Longrightarrow> extra_len a = 3"
  by (auto simp: extra_len_def utf8_lead3_def utf8_lead4_def word_less_nat_alt word_le_nat_alt)

lemma chars_full: "utf8_valid bs \<Longrightarrow> c \<in> set (chars bs) \<Longrightarrow> full_char c"
proof (induction bs rule: utf8_valid.induct)
  case (2 a)
  then show ?case by (auto simp: full_char_def extra_len_simps)
next
  case (3 a b)
  then show ?case by (auto simp: full_char_def extra_len_simps utf8_valid_two split: if_splits)
next
  case (4 a b c)
  then show ?case
    by (auto simp: full_char_def extra_len_simps utf8_valid_two utf8_valid_three numeral_2_eq_2 split: if_splits)
next
  case (5 a b c d es)
  then show ?case
    by (auto simp: full_char_def extra_len_simps utf8_valid_two utf8_valid_three utf8_valid_four numeral_2_eq_2 numeral_3_eq_3 split: if_splits)
qed simp

lemma runs_spec:
  assumes "\<forall>c \<in> set cur. \<not> is_whitespace c" and "r \<in> set (runs cur cs)"
  shows "r \<noteq> [] \<and> set r \<subseteq> set cur \<union> set cs \<and> (\<forall>c \<in> set r. \<not> is_whitespace c)"
  using assms by (induction cur cs rule: runs.induct) (fastforce split: if_splits)+

text \<open>A word: not empty, and without white space.\<close>

definition is_word :: "rstring \<Rightarrow> bool" where
  "is_word w \<longleftrightarrow> as_bytes w \<noteq> [] \<and> (\<forall>c \<in> set (chars (as_bytes w)). \<not> is_whitespace c)"

lemma utf8_valid_concat: "\<forall>c \<in> set cs. utf8_valid c \<Longrightarrow> utf8_valid (concat cs)"
  by (induction cs) (simp_all add: utf8_valid_append)

lemma as_bytes_mk_string [simp]: "utf8_valid bs \<Longrightarrow> as_bytes (mk_string bs) = bs"
  by (simp add: mk_string.rep_eq)

lemma run_full:
  assumes "r \<in> set (runs [] (chars (as_bytes line)))"
  shows "r \<noteq> []" and "\<forall>c \<in> set r. full_char c \<and> \<not> is_whitespace c" and "utf8_valid (concat r)"
proof -
  from runs_spec [OF _ assms] show *: "r \<noteq> []" "\<forall>c \<in> set r. full_char c \<and> \<not> is_whitespace c"
    using chars_full [of "as_bytes line"] by fastforce+
  then show "utf8_valid (concat r)" by (intro utf8_valid_concat) (auto simp: full_char_def)
qed

lemma split_whitespace_words: "w \<in> set (split_whitespace line) \<Longrightarrow> is_word w"
proof -
  assume "w \<in> set (split_whitespace line)"
  then obtain r where r: "r \<in> set (runs [] (chars (as_bytes line)))" "w = mk_string (concat r)" by (auto simp: split_whitespace_def)
  note f = run_full [OF r(1)]
  have "concat r \<noteq> []" using f(1,2) by (cases r) (auto simp: full_char_def)
  with f r(2) show ?thesis by (auto simp: is_word_def chars_concat)
qed

text \<open>The words of a line and the separators between them fit into the line.\<close>

abbreviation weight :: "rstring list \<Rightarrow> nat" where
  "weight ws \<equiv> sum_list (map (\<lambda>w. Suc (len w)) ws)"

lemma whitespace_nonempty: "is_whitespace c \<Longrightarrow> 1 \<le> length c"
  by (auto simp: is_whitespace_def)

lemma runs_weight: "sum_list (map (\<lambda>r. Suc (length (concat r))) (runs cur cs)) \<le> Suc (length (concat cur) + length (concat cs))"
proof (induction cs arbitrary: cur)
  case (Cons c cs)
  show ?case
  proof (cases "is_whitespace c")
    case True
    with whitespace_nonempty [OF True] Cons.IH [of "[]"] show ?thesis by simp
  next
    case False
    with Cons.IH [of "cur @ [c]"] show ?thesis by simp
  qed
qed simp

lemma split_whitespace_weight: "weight (split_whitespace line) \<le> Suc (len line)"
proof -
  have "map (\<lambda>w. Suc (len w)) (split_whitespace line) = map (\<lambda>r. Suc (length (concat r))) (runs [] (chars (as_bytes line)))"
    using run_full(3) by (auto simp: split_whitespace_def simp flip: length_as_bytes)
  with runs_weight [of "[]" "chars (as_bytes line)"] show ?thesis by simp
qed

lemma member_weight: "w \<in> set ws \<Longrightarrow> len w < weight ws"
  by (induction ws) auto

lemma len_str_append [simp]: "len (str_append s t) = len s + len t"
  by (simp flip: length_as_bytes)

lemma join_spaces_weight: "ws \<noteq> [] \<Longrightarrow> Suc (len (join_spaces ws)) = weight ws"
  by (induction ws rule: join_spaces.induct) simp_all

lemma chunk_pairs_weight: "sum_list (map (\<lambda>(k, v). len k + len v + 2) (chunk_pairs ws)) \<le> weight ws"
  by (induction ws rule: chunk_pairs.induct) simp_all

lemma chunk_pairs_set: "(k, v) \<in> set (chunk_pairs ws) \<Longrightarrow> k \<in> set ws \<and> v \<in> set ws"
  by (induction ws rule: chunk_pairs.induct) auto

lemma chunk_pairs_nonempty: "2 \<le> length ws \<Longrightarrow> chunk_pairs ws \<noteq> []"
  by (induction ws rule: chunk_pairs.induct) simp_all

section \<open>What a line is parsed into\<close>

text \<open>The command language: the arguments behind the name, and the command.\<close>

inductive cli_shape :: "rstring list \<Rightarrow> command \<Rightarrow> bool" where
  shape_read: "cli_shape [k] (CmdRead k)"
| shape_delete: "cli_shape [k] (CmdDelete k)"
| shape_exists: "cli_shape [k] (CmdExists k)"
| shape_ttl: "cli_shape [k, secs] (CmdTtl k t)"
| shape_range: "cli_shape [a, b] (CmdRange a b)"
| shape_compact: "cli_shape args CmdCompact"
| shape_stats: "cli_shape args CmdStats"
| shape_list: "cli_shape args CmdList"
| shape_ping: "cli_shape args CmdPing"
| shape_mget: "args \<noteq> [] \<Longrightarrow> cli_shape args (CmdMget args)"
| shape_write: "cli_shape (k # v # vs) (CmdWrite k (join_spaces (v # vs)) None)"
| shape_writettl: "t \<noteq> 0 \<Longrightarrow> cli_shape (k # secs # v # vs) (CmdWrite k (join_spaces (v # vs)) (Some t))"
| shape_mset: "2 \<le> length args \<Longrightarrow> cli_shape args (CmdMset (map (\<lambda>(k, v). (k, v, None)) (chunk_pairs args)))"
| shape_mwritettl: "t \<noteq> 0 \<Longrightarrow> 2 \<le> length args \<Longrightarrow> cli_shape (secs # args) (CmdMset (map (\<lambda>(k, v). (k, v, Some t)) (chunk_pairs args)))"

lemma parse_words_shape:
  assumes "parse_words w args = ParsedCmd c"
  shows "cli_shape args c"
proof (cases args)
  case Nil
  with assms show ?thesis by (auto simp: parse_words_def usage_def intro: cli_shape.intros split: if_splits)
next
  case (Cons a as)
  have two: "as \<noteq> [] \<Longrightarrow> 2 \<le> length (a # as)" by (cases as) auto
  with Cons assms show ?thesis
    by (auto simp: parse_words_def usage_def intro: cli_shape.intros split: if_splits list.splits option.splits)
qed

fun cli_ok :: "command \<Rightarrow> bool" where
  "cli_ok (CmdRead k) \<longleftrightarrow> is_word k"
| "cli_ok (CmdDelete k) \<longleftrightarrow> is_word k"
| "cli_ok (CmdExists k) \<longleftrightarrow> is_word k"
| "cli_ok (CmdTtl k t) \<longleftrightarrow> is_word k"
| "cli_ok (CmdRange a b) \<longleftrightarrow> is_word a \<and> is_word b"
| "cli_ok (CmdWrite k v t) \<longleftrightarrow> is_word k \<and> 0 < len v \<and> t \<noteq> Some 0"
| "cli_ok (CmdMget ks) \<longleftrightarrow> ks \<noteq> [] \<and> (\<forall>k \<in> set ks. is_word k)"
| "cli_ok (CmdMset items) \<longleftrightarrow> items \<noteq> [] \<and> (\<forall>(k, v, t) \<in> set items. is_word k \<and> is_word v \<and> t \<noteq> Some 0)"
| "cli_ok (CmdInvalid op) \<longleftrightarrow> False"
| "cli_ok _ \<longleftrightarrow> True"

lemma is_word_len: "is_word w \<Longrightarrow> 0 < len w"
  by (simp add: is_word_def flip: length_as_bytes)

lemma cli_shape_ok: "cli_shape args c \<Longrightarrow> \<forall>a \<in> set args. is_word a \<Longrightarrow> cli_ok c"
proof (induction rule: cli_shape.induct)
  case (shape_write k v vs)
  then show ?case using join_spaces_weight [of "v # vs"] is_word_len [of v] by auto
next
  case (shape_writettl t k secs v vs)
  then show ?case using join_spaces_weight [of "v # vs"] is_word_len [of v] by auto
qed (auto dest!: chunk_pairs_set chunk_pairs_nonempty)

lemma items_weight:
  "sum_list (map (\<lambda>(k, v, t). 7 + len k + len v + ttl_size t) (map (\<lambda>(k, v). (k, v, t)) ps)) \<le>
   6 * sum_list (map (\<lambda>(k, v). len k + len v + 2) ps)"
  by (induction ps) (auto simp: ttl_size_def size_defs split: option.split)

lemma items_fit:
  assumes "weight args \<le> 2 ^ 16"
  shows "command_ok (CmdMset (map (\<lambda>(k, v). (k, v, t)) (chunk_pairs args)))"
proof -
  have powers: "(2 :: nat) ^ 16 = 65536" "(2 :: nat) ^ 32 = 4294967296" by simp_all
  have "key_ok k" if "(k, v) \<in> set (chunk_pairs args)" for k v
    using chunk_pairs_set [OF that] member_weight [of k args] assms by (simp add: key_ok_def)
  moreover have "1 + sum_list (map (\<lambda>(k, v, t). 7 + len k + len v + ttl_size t) (map (\<lambda>(k, v). (k, v, t)) (chunk_pairs args))) < 2 ^ 32"
    using items_weight [of t "chunk_pairs args"] chunk_pairs_weight [of args] assms unfolding powers by linarith
  ultimately show ?thesis unfolding command_ok_def by auto
qed

lemma cli_shape_fits:
  assumes "cli_shape args c" and "weight args \<le> 2 ^ 16"
  shows "command_ok c"
  using assms
proof (induction rule: cli_shape.induct)
  case (shape_mget args)
  have "sum_list (map (\<lambda>k. 2 + len k) args) \<le> 2 * weight args" by (induction args) auto
  with shape_mget.prems show ?case by (fastforce simp: command_ok_def key_ok_def dest!: member_weight)
next
  case (shape_write k v vs)
  then show ?case using join_spaces_weight [of "v # vs"] by (simp add: command_ok_def key_ok_def)
next
  case (shape_writettl t k secs v vs)
  then show ?case using join_spaces_weight [of "v # vs"] by (simp add: command_ok_def key_ok_def)
next
  case (shape_mset args)
  then show ?case using items_fit [of args None] by simp
next
  case (shape_mwritettl t args secs)
  then show ?case using items_fit [of args "Some t"] by simp
qed (auto simp: command_ok_def key_ok_def)

text \<open>The words behind the name of the command.\<close>

lemma parse_command_words:
  assumes "parse_command line = ParsedCmd c"
  shows "\<exists>args. cli_shape args c \<and> (\<forall>a \<in> set args. is_word a) \<and> weight args \<le> len line"
proof -
  from assms obtain w args where w: "split_whitespace line = w # args" "parse_words w args = ParsedCmd c"
    by (auto simp: parse_command_def split: list.splits)
  moreover have "\<forall>a \<in> set args. is_word a" using split_whitespace_words [of _ line] w(1) by simp
  moreover have "weight args \<le> len line" using split_whitespace_weight [of line] w(1) by simp
  ultimately show ?thesis using parse_words_shape by blast
qed

text \<open>A line with a name in lower case, two spaces, and a value of two words.\<close>

lemmas words_eval =
  split_whitespace_def is_whitespace_def extra_len_def of_char_def as_bytes_inject [symmetric] mk_string.rep_eq utf8_valid_ascii_Cons

lemma sample_words: "split_whitespace (lit ''writettl  k 60 a b'') = map lit [''writettl'', ''k'', ''60'', ''a'', ''b'']"
  by (simp add: words_eval)

lemma lit_append: "str_append (lit s) (lit t) = lit (s @ t)"
  by transfer simp

lemma sample_line:
  "parse_command (lit ''writettl  k 60 a b'') = ParsedCmd (CmdWrite (lit ''k'') (lit ''a b'') (Some 60))"
proof -
  have name: "is_name (lit ''writettl'') name \<longleftrightarrow> as_bytes (lit ''WRITETTL'') = as_bytes (lit name)" for name
    by (simp add: is_name_def upper_char_def extra_len_def of_char_def)
  have secs: "parse_u32 (lit ''60'') = Some 60" by (simp add: parse_u32_def parse_uint_def Let_def of_char_def)
  show ?thesis
    by (simp add: parse_command_def sample_words parse_words_def name secs lit_append of_char_def)
qed

text \<open>C30. Every command that the client makes of a line is well formed, whatever the line is: a key is a non-empty word
  without white space, a written value is not empty, a time to live given with a write is at least one second, a batch
  has at least one item, and the sentinel for an unknown operation never occurs.\<close>

theorem parsed_commands_ok:
  assumes "parse_command line = ParsedCmd c"
  shows "cli_ok c"
  using parse_command_words [OF assms] cli_shape_ok by blast

theorem parsed_commands_ok_witness:
  "parse_command (lit ''writettl  k 60 a b'') = ParsedCmd (CmdWrite (lit ''k'') (lit ''a b'') (Some 60)) \<and>
   cli_ok (CmdWrite (lit ''k'') (lit ''a b'') (Some 60))"
  using parsed_commands_ok [OF sample_line] sample_line by blast

text \<open>What is typed is what the server executes: the command that the client makes of a line of less than 64 KB is
  encoded without a panic into a frame from which the server decodes the same command.\<close>

theorem typed_command_arrives:
  assumes "parse_command line = ParsedCmd c" and "len line < 2 ^ 16"
  shows "\<exists>frame. encode_command c = Inr frame \<and> decode_input_frame frame = Inr c"
proof -
  from parse_command_words [OF assms(1)] assms(2) have "command_ok c" using cli_shape_fits by fastforce
  from command_frame [OF this] show ?thesis by auto
qed

theorem typed_command_arrives_witness:
  "\<exists>frame. encode_command (CmdWrite (lit ''k'') (lit ''a b'') (Some 60)) = Inr frame \<and>
     decode_input_frame frame = Inr (CmdWrite (lit ''k'') (lit ''a b'') (Some 60))"
  using typed_command_arrives [OF sample_line] by simp

end
