(* ===== verification/Server_Startup.thy ===== *)
theory Server_Startup
  imports Server_Worker Server_Serving Cli_Parser
begin

text \<open>
  From the command line to a running server: the choice and the opening of the storage engine (src/src/main.rs) and the
  pool of workers that the server starts (src/src/server/lifecycle.rs). The number of processors is an argument; the
  listening socket and the file with its address are left out.

  Main result: a server that is started on an empty directory has an empty database and at least one worker, unless the
  sizes of its levels overflow, on which it panics.
\<close>

section \<open>Opening the database\<close>

datatype database = KvDatabase kv | LsmDatabase lsm

definition block_bytes :: "u64 \<Rightarrow> nat res" where
  "block_bytes kb =
     (if 2 ^ 64 \<le> unat kb * 1024 then Inl (Panic ''attempt to multiply with overflow'') else Inr (unat kb * 1024))"

definition load_strategy :: "'g f64 \<Rightarrow> 'f settings \<Rightarrow> nat \<Rightarrow> bool \<Rightarrow> dir \<Rightarrow> strategy res" where
  "load_strategy F s block_size compression d =
     (case set_storage_strategy s of
        SizeTieredK \<Rightarrow>
          and_then (st_load_from_dir F d (set_db_name s) 4 32 block_size compression) (\<lambda>st. Inr (SizeTieredS st))
      | LeveledK \<Rightarrow>
          and_then (leveled_load_from_dir d (set_db_name s) (unat (set_leveled_num_levels s)) (unat (set_leveled_l0_threshold s))
            (set_leveled_l1_max_bytes s) block_size compression) (\<lambda>lv. Inr (LeveledS lv)))"

text \<open>\<open>ts\<close> is the clock reading that names the first segment of a new hash-index database.\<close>

definition open_database :: "'g f64 \<Rightarrow> u64 \<Rightarrow> 'f settings \<Rightarrow> bytes \<Rightarrow> dir \<Rightarrow> database res" where
  "open_database F ts s wal d =
     (case set_engine s of
        EngineKV \<Rightarrow>
          and_then (kv_from_dir (set_db_name s) (set_max_segment_bytes s) (set_sync_strategy s) wal d) (\<lambda>db.
            Inr (KvDatabase (case db of
                Some db \<Rightarrow> db
              | None \<Rightarrow> kv_new ts (set_db_name s) (set_max_segment_bytes s) (set_sync_strategy s) wal d)))
      | EngineLsm \<Rightarrow>
          and_then (block_bytes (set_block_size_kb s)) (\<lambda>block_size.
            let compression = (set_block_compression s = CompressionLz77)
            in and_then (load_strategy F s block_size compression d) (\<lambda>strat.
               and_then (lsm_from_dir (set_db_name s) (unat (set_max_segment_bytes s)) strat block_size compression wal d) (\<lambda>db.
                 Inr (LsmDatabase db)))))"

section \<open>Starting the server\<close>

definition n_workers :: "nat option \<Rightarrow> 'f settings \<Rightarrow> nat" where
  "n_workers available_parallelism s =
     (case set_workers s of Some n \<Rightarrow> unat n | None \<Rightarrow> (case available_parallelism of Some n \<Rightarrow> n | None \<Rightarrow> 1))"

definition server_cfg :: "'f settings \<Rightarrow> 'f compaction_cfg" where
  "server_cfg s = \<lparr>cfg_ratio = set_compaction_ratio s, cfg_max_segment = set_compaction_max_segment s\<rparr>"

definition server_start :: "nat option \<Rightarrow> 'f settings \<Rightarrow> 's \<Rightarrow> 's pool" where
  "server_start available_parallelism s db =
     pool_new (n_workers available_parallelism s) (set_max_connections s)
       (map_option (\<lambda>secs. unat secs * 10 ^ 9) (set_read_timeout_secs s)) db"

section \<open>The first start\<close>

fun db_get :: "u64 \<Rightarrow> rstring \<Rightarrow> database \<Rightarrow> (rstring \<times> rstring) option res" where
  "db_get now key (KvDatabase db) = kv_get now key db"
| "db_get now key (LsmDatabase db) = lsm_get now (\<lambda>_. now) key db"

lemma get_segments_Nil [simp]: "get_segments [] db_name = []"
  by (simp add: get_segments_def)

lemma get_sstables_Nil [simp]: "get_sstables [] db_name = Inr []"
  by (simp add: get_sstables_def)

lemma wal_replay_Nil [simp]: "wal_replay [] = Inr memtable_new"
  by (simp add: wal_replay_def wal_replay_loop.simps)

lemma block_bytes_ok: "settings_ok s \<Longrightarrow> block_bytes (set_block_size_kb s) = Inr (unat (set_block_size_kb s) * 1024) \<and> unat (set_block_size_kb s) * 1024 < 2 ^ 31"
  by (simp add: settings_ok_def block_bytes_def word_le_nat_alt)

lemma map_res_ok: "\<forall>x \<in> set xs. \<exists>y. f x = Inr y \<Longrightarrow> \<exists>ys. map_res f xs = Inr ys"
  by (induction xs) fastforce+

lemma map_res_error:
  "x \<in> set xs \<Longrightarrow> f x = Inl e \<Longrightarrow> \<forall>y e'. f y = Inl e' \<longrightarrow> e' = e \<Longrightarrow> map_res f xs = Inl e"
proof (induction xs)
  case Nil
  from Nil.prems(1) show ?case by simp
next
  case (Cons y xs)
  show ?case
  proof (cases "f y")
    case (Inl e')
    then have "e' = e" using Cons.prems(3) by blast
    with Inl show ?thesis by simp
  next
    case (Inr z)
    then have "x \<in> set xs" using Cons.prems(1,2) by auto
    from Cons.IH [OF this Cons.prems(2,3)] Inr show ?thesis by simp
  qed
qed

text \<open>The size of the last level, the largest one, fits 64 bits.\<close>

definition levels_fit :: "'f settings \<Rightarrow> bool" where
  "levels_fit s \<longleftrightarrow> max 1 (unat (set_leveled_l1_max_bytes s)) * 10 ^ (unat (set_leveled_num_levels s) - 2) < 2 ^ 64"

lemma level_max_bytes_ok:
  assumes "max 1 (unat l1) * 10 ^ (n - 2) < 2 ^ 64" and "i < n"
  shows "\<exists>mb. level_max_bytes l1 i = Inr mb"
proof -
  have "(10 :: nat) ^ (i - 1) \<le> 10 ^ (n - 2)" using assms(2) by (intro power_increasing) auto
  then have "max 1 (unat l1) * 10 ^ (i - 1) < 2 ^ 64" using assms(1) by (meson le_less_trans mult_le_mono2)
  moreover have "1 * 10 ^ (i - 1) \<le> max 1 (unat l1) * 10 ^ (i - 1)" "unat l1 * 10 ^ (i - 1) \<le> max 1 (unat l1) * 10 ^ (i - 1)"
    by (rule mult_le_mono1, simp)+
  ultimately have "10 ^ (i - 1) < (2 :: nat) ^ 64" "unat l1 * 10 ^ (i - 1) < 2 ^ 64" by linarith+
  then show ?thesis by (simp add: level_max_bytes_def Let_def)
qed

lemma level_max_bytes_panics:
  assumes "\<not> max 1 (unat l1) * 10 ^ (n - 2) < 2 ^ 64"
  shows "n - 1 < n" and "level_max_bytes l1 (n - 1) = Inl (Panic ''attempt to multiply with overflow'')"
proof -
  have unat_lt: "unat l1 < 2 ^ 64" by (rule order.strict_trans2 [OF unsigned_less]) simp
  have "n \<noteq> 0" using assms unat_lt by (intro notI) (simp add: max_def split: if_splits)
  then show "n - 1 < n" by simp
  have "n - 1 - 1 = n - 2" by simp
  then show "level_max_bytes l1 (n - 1) = Inl (Panic ''attempt to multiply with overflow'')"
    using assms by (auto simp: level_max_bytes_def Let_def max_def split: if_splits)
qed

lemma level_max_bytes_errors: "level_max_bytes l1 i = Inl e \<Longrightarrow> e = Panic ''attempt to multiply with overflow''"
  by (auto simp: level_max_bytes_def Let_def split: if_splits)

lemma leveled_new_ok:
  assumes "max 1 (unat l1) * 10 ^ (n - 2) < 2 ^ 64"
  shows "\<exists>lv. leveled_new n l0 l1 bs compression = Inr lv"
proof -
  let ?f = "\<lambda>i. and_then (level_max_bytes l1 i) (\<lambda>mb.
    Inr \<lparr>lv_sstables = [], lv_level_num = i, lv_max_bytes = mb, lv_l0_threshold = l0, lv_is_terminal = (i = n - 1)\<rparr>)"
  have "\<forall>i \<in> set [0..<n]. \<exists>y. ?f i = Inr y" using level_max_bytes_ok [OF assms] by (fastforce simp: and_then_Inr_iff)
  from map_res_ok [OF this] show ?thesis by (auto simp: leveled_new_def)
qed

lemma leveled_new_panics:
  assumes "\<not> max 1 (unat l1) * 10 ^ (n - 2) < 2 ^ 64"
  shows "leveled_new n l0 l1 bs compression = Inl (Panic ''attempt to multiply with overflow'')"
proof -
  let ?f = "\<lambda>i. and_then (level_max_bytes l1 i) (\<lambda>mb.
    Inr \<lparr>lv_sstables = [], lv_level_num = i, lv_max_bytes = mb, lv_l0_threshold = l0, lv_is_terminal = (i = n - 1)\<rparr>)"
  note p = level_max_bytes_panics [OF assms]
  have "map_res ?f [0..<n] = Inl (Panic ''attempt to multiply with overflow'')"
  proof (rule map_res_error)
    show "n - 1 \<in> set [0..<n]" using p(1) by simp
    show "?f (n - 1) = Inl (Panic ''attempt to multiply with overflow'')" using p(2) by simp
    show "\<forall>i e. ?f i = Inl e \<longrightarrow> e = Panic ''attempt to multiply with overflow''"
    proof (intro allI impI)
      fix i e assume "?f i = Inl e"
      then show "e = Panic ''attempt to multiply with overflow''"
        using level_max_bytes_errors [of l1 i e] by (cases "level_max_bytes l1 i") simp_all
    qed
  qed
  then show ?thesis by (simp add: leveled_new_def)
qed

lemma load_strategy_empty:
  assumes "set_storage_strategy s = LeveledK \<Longrightarrow> levels_fit s"
  shows "\<exists>strat. load_strategy F s block_size compression [] = Inr strat \<and> str_iter_all strat = [] \<and>
    (\<forall>lv. strat = LeveledS lv \<longrightarrow> leveled_new (unat (set_leveled_num_levels s)) (unat (set_leveled_l0_threshold s)) (set_leveled_l1_max_bytes s) block_size compression = Inr lv)"
proof (cases "set_storage_strategy s")
  case SizeTieredK
  then show ?thesis by (simp add: load_strategy_def st_load_from_dir_def size_tiered_new_def st_iter_all_def)
next
  case LeveledK
  with assms leveled_new_ok obtain lv where "leveled_new (unat (set_leveled_num_levels s)) (unat (set_leveled_l0_threshold s)) (set_leveled_l1_max_bytes s) block_size compression = Inr lv"
    unfolding levels_fit_def by blast
  with LeveledK show ?thesis by (simp add: load_strategy_def leveled_load_from_dir_def leveled_new_tables)
qed

lemma open_database_panics:
  assumes "settings_ok s" and "set_engine s = EngineLsm" and "set_storage_strategy s = LeveledK" and "\<not> levels_fit s"
  shows "open_database F ts s [] [] = Inl (Panic ''attempt to multiply with overflow'')"
  using assms block_bytes_ok [OF assms(1)] leveled_new_panics
  by (simp add: open_database_def load_strategy_def leveled_load_from_dir_def levels_fit_def)

text \<open>A new database is empty and satisfies the invariant of its engine.\<close>

fun db_fresh :: "database \<Rightarrow> bool" where
  "db_fresh (KvDatabase db) \<longleftrightarrow> kv_inv db \<and> small_files (kv_dir db)"
| "db_fresh (LsmDatabase db) \<longleftrightarrow> str_iter_all (lsm_strategy db) = [] \<and> (\<forall>lv. lsm_strategy db = LeveledS lv \<longrightarrow> lvl_levels lv \<noteq> [] \<longrightarrow> lsm_ready db)"

lemma kv_first_start:
  "db_fresh (KvDatabase (kv_new ts name m f [] [])) \<and> (\<forall>t k. kv_get t k (kv_new ts name m f [] []) = Inr None)"
proof -
  have "dir_ok []" by (simp add: dir_ok_def)
  moreover have "small_files (kv_dir (kv_new ts name m f [] []))" by (simp add: small_files_def kv_new_def Let_def open_create_def)
  ultimately show ?thesis
    using kv_new_facts(1) [of "[]" ts name m f "[]"] by (simp add: kv_get_absent kv_new_def Let_def index_new_def)
qed

lemma lsm_first_get:
  assumes "str_iter_all strat = []"
  shows "lsm_get t (\<lambda>_. t) k (lsm_new name max_bytes strat block_size compression [] d) = Inr None"
proof -
  let ?s = "lsm_new name max_bytes strat block_size compression [] d"
  have "tables_hold (lsm_dir ?s) (lsm_tables ?s) []" using assms by (simp add: lsm_new_def)
  from lookup_view [OF this, of t "\<lambda>_. t" k] show ?thesis
    by (auto simp: lsm_get_def value_at_def lsm_view_def lsm_new_def memtable_new_def)
qed

lemma first_pool:
  assumes "settings_ok s" and "cores \<noteq> Some 0"
  shows "0 < length (pool_workers (server_start cores s db)) \<and> pool_ok (server_start cores s db)"
proof -
  have "0 < n_workers cores s" using assms by (auto simp: settings_ok_def n_workers_def unat_gt_0 split: option.split)
  then show ?thesis using pool_new_ok by (auto simp: server_start_def pool_new_def)
qed

lemma first_database:
  assumes ok: "settings_ok s" and fit: "set_engine s = EngineLsm \<Longrightarrow> set_storage_strategy s = LeveledK \<Longrightarrow> levels_fit s"
  shows "\<exists>db. open_database F ts s [] [] = Inr db \<and> (\<forall>t k. db_get t k db = Inr None) \<and> db_fresh db"
proof (cases "set_engine s")
  case EngineKV
  then have "open_database F ts s [] [] = Inr (KvDatabase (kv_new ts (set_db_name s) (set_max_segment_bytes s) (set_sync_strategy s) [] []))"
    by (simp add: open_database_def kv_from_dir_def)
  with kv_first_start [of ts "set_db_name s"] show ?thesis by (auto simp del: db_fresh.simps)
next
  case EngineLsm
  let ?bs = "unat (set_block_size_kb s) * 1024" and ?c = "set_block_compression s = CompressionLz77"
  from load_strategy_empty [of s F ?bs ?c] fit EngineLsm obtain strat where strat: "load_strategy F s ?bs ?c [] = Inr strat" "str_iter_all strat = []"
    "\<forall>lv. strat = LeveledS lv \<longrightarrow> leveled_new (unat (set_leveled_num_levels s)) (unat (set_leveled_l0_threshold s)) (set_leveled_l1_max_bytes s) ?bs ?c = Inr lv"
    by blast
  let ?db = "lsm_new (set_db_name s) (unat (set_max_segment_bytes s)) strat ?bs ?c [] []"
  have db: "open_database F ts s [] [] = Inr (LsmDatabase ?db)"
    using EngineLsm block_bytes_ok [OF ok] strat(1) by (simp add: open_database_def lsm_from_dir_def lsm_new_def)
  have "lsm_ready ?db" if "strat = LeveledS lv" "lvl_levels lv \<noteq> []" for lv
  proof -
    from strat(3) that have new: "leveled_new (unat (set_leveled_num_levels s)) (unat (set_leveled_l0_threshold s)) (set_leveled_l1_max_bytes s) ?bs ?c = Inr lv" by blast
    have "0 < unat (set_leveled_num_levels s)" using that(2) leveled_new_tables(1) [OF new] by (metis length_greater_0_conv)
    from lsm_inv_new [OF new this, of ?bs] that(1) block_bytes_ok [OF ok] show ?thesis unfolding lsm_ready_def by blast
  qed
  then have "db_fresh (LsmDatabase ?db)" using strat(2) by (auto simp: lsm_new_def)
  with db lsm_first_get [OF strat(2)] show ?thesis by (auto simp del: db_fresh.simps)
qed

text \<open>C14. The first start, on an empty directory with an empty log, for every command line that the parser accepts: with the
  leveled LSM engine and a size of the last level that does not fit 64 bits, opening the database panics. In every other case it
  gives a database that answers every read with nothing, and a pool that satisfies the invariant of the connection count,
  with at least one worker. The database of the hash-index engine, and that of the leveled LSM engine if it has at least one level,
  satisfies the invariant under which it serves clients.\<close>

theorem first_start:
  assumes "get_from_args P args = Inr (Start s)" and "cores \<noteq> Some 0"
  shows "if set_engine s = EngineLsm \<and> set_storage_strategy s = LeveledK \<and> \<not> levels_fit s
    then open_database F ts s [] [] = Inl (Panic ''attempt to multiply with overflow'')
    else \<exists>db. open_database F ts s [] [] = Inr db \<and> (\<forall>t k. db_get t k db = Inr None) \<and> db_fresh db \<and>
      0 < length (pool_workers (server_start cores s db)) \<and> pool_ok (server_start cores s db)"
proof -
  note ok = started_settings_ok [OF assms(1)]
  show ?thesis
  proof (cases "set_engine s = EngineLsm \<and> set_storage_strategy s = LeveledK \<and> \<not> levels_fit s")
    case True
    then show ?thesis using open_database_panics [OF ok] by simp
  next
    case False
    then obtain db where "open_database F ts s [] [] = Inr db" "\<forall>t k. db_get t k db = Inr None" "db_fresh db"
      using first_database [OF ok, of F ts] by blast
    then show ?thesis using False first_pool [OF ok assms(2), of db] by auto
  qed
qed

theorem first_start_witness:
  "\<exists>s db. get_from_args no_parsers [lit ''rustikv'', lit ''/db''] = Inr (Start s) \<and> open_database exact_f64 7 s [] [] = Inr db \<and>
     db_get 5 (lit ''k'') db = Inr None \<and> 0 < length (pool_workers (server_start (Some 4) s db))"
proof -
  have neq: "lit a \<noteq> lit b" if "map (\<lambda>c. take_bit 7 (of_char c :: byte)) a \<noteq> map (\<lambda>c. take_bit 7 (of_char c :: byte)) b" for a b
    using that by (metis lit.rep_eq)
  have args: "get_from_args no_parsers [lit ''rustikv'', lit ''/db''] = Inr (Start (default_settings no_parsers (lit ''/db'')))"
    by (simp add: get_from_args_def neq of_char_def)
  have "set_engine (default_settings no_parsers (lit ''/db'')) = EngineKV" by (simp add: default_settings_def)
  with first_start [OF args, of "Some 4" exact_f64 7] args show ?thesis by (simp, blast)
qed

end
