(* ===== verification/Client_Session.thy ===== *)
theory Client_Session
  imports Server_Startup
begin

text \<open>
  The interactive client (src/src/bin/rustikli.rs): its arguments, the loop over the lines, and what it prints. The
  terminal is the list of what is printed; the bytes that the server sends are an argument; \<open>err_text\<close> is the text the
  standard library makes of a failure.

  Main result: a user who writes a value and then reads the key sees the value, through the parser of the client, the
  frames, the execution of the commands by the server on a hash-index engine, and the printing of the answers.
\<close>

section \<open>Model\<close>

datatype printed = Out rstring | Err rstring

fun client_args :: "(rstring \<Rightarrow> rstring option) \<Rightarrow> rstring list \<Rightarrow> rstring \<Rightarrow> (rstring \<times> printed list) res" where
  "client_args addr_of [] host = Inr (host, [])"
| "client_args addr_of (arg # args) host =
     (if arg = lit ''-h'' \<or> arg = lit ''--host'' then
        (case args of
           [] \<Rightarrow> Inr (host, [])
         | v # rest \<Rightarrow> and_then (expect ''Invalid tcp address provided'' (addr_of v)) (client_args addr_of rest))
      else
        and_then (client_args addr_of args host) (\<lambda>(host, out). Inr (host, Out (str_append (lit ''Unknown argument: '') arg) # out)))"

definition client_host :: "(rstring \<Rightarrow> rstring option) \<Rightarrow> rstring list \<Rightarrow> (rstring \<times> printed list) res" where
  "client_host addr_of args = client_args addr_of (drop 1 args) (lit ''127.0.0.1:6666'')"

definition trim :: "rstring \<Rightarrow> rstring" where
  "trim s = mk_string (concat (rev (dropWhile is_whitespace (rev (dropWhile is_whitespace (chars (as_bytes s)))))))"

definition print_response :: "decoded_response \<Rightarrow> printed list" where
  "print_response res =
     (case dr_status res of
        StOk \<Rightarrow> map Out (dr_payload res)
      | StError \<Rightarrow> Out (lit ''Error >'') # map Out (dr_payload res)
      | StNotFound \<Rightarrow> [Out (lit ''Not found'')]
      | StNoop \<Rightarrow> [Out (lit ''NOOP'')])"

text \<open>One frame is read from the stream; a frame that cannot be decoded is reported.\<close>

definition client_receive :: "(error_kind \<Rightarrow> payload \<Rightarrow> rstring) \<Rightarrow> bytes \<Rightarrow> (printed list \<times> bytes) res" where
  "client_receive err_text stream =
     and_then (read_exact 4 stream) (\<lambda>(len_buf, stream).
     and_then (read_exact (unat (from_be len_buf :: u32)) stream) (\<lambda>(payload, stream).
       case decode_response_frame (len_buf @ payload) of
         Inr res \<Rightarrow> Inr (print_response res, stream)
       | Inl (IoError k p) \<Rightarrow> Inr ([Err (str_append (lit ''Error reading server response: '') (err_text k p))], stream)
       | Inl (Panic m) \<Rightarrow> Inl (Panic m)))"

text \<open>One turn of the loop: whether it goes on, what is sent and printed, and what is left of the stream.\<close>

definition client_line :: "(error_kind \<Rightarrow> payload \<Rightarrow> rstring) \<Rightarrow> rstring \<Rightarrow> bytes \<Rightarrow> (bool \<times> bytes \<times> printed list \<times> bytes) res" where
  "client_line err_text line stream =
     (case parse_command (trim line) of
        ParsedCmd command \<Rightarrow>
          and_then (encode_command command) (\<lambda>cmd.
          and_then (client_receive err_text stream) (\<lambda>(out, stream). Inr (True, cmd, out, stream)))
      | ParsedQuit \<Rightarrow> Inr (False, [], [Out (lit ''Cya!'')], stream)
      | InvalidInputMsg msg \<Rightarrow> Inr (True, [], if len msg = 0 then [] else [Err msg], stream))"

section \<open>Trimming does not change the words\<close>

lemma runs_skip: "\<forall>c \<in> set cs. is_whitespace c \<Longrightarrow> runs [] (cs @ ds) = runs [] ds"
  by (induction cs) simp_all

lemma runs_trailing: "\<forall>c \<in> set ds. is_whitespace c \<Longrightarrow> runs cur (cs @ ds) = runs cur cs"
proof (induction cs arbitrary: cur)
  case Nil
  then show ?case using runs_skip [of "tl ds" "[]"] by (cases ds) auto
qed simp

lemma as_bytes_trim:
  "as_bytes (trim s) = concat (rev (dropWhile is_whitespace (rev (dropWhile is_whitespace (chars (as_bytes s))))))"
proof -
  have "\<forall>c \<in> set (rev (dropWhile is_whitespace (rev (dropWhile is_whitespace (chars (as_bytes s)))))). utf8_valid c"
    using chars_full [of "as_bytes s"] by (auto simp: full_char_def dest!: set_dropWhileD)
  then show ?thesis unfolding trim_def by (simp add: utf8_valid_concat)
qed

lemma dropWhile_split: "\<exists>ws. xs = ws @ dropWhile P xs \<and> (\<forall>x \<in> set ws. P x)"
  by (intro exI [of _ "takeWhile P xs"]) (auto dest: set_takeWhileD)

lemma trim_words: "split_whitespace (trim s) = split_whitespace s"
proof -
  let ?cs = "chars (as_bytes s)"
  let ?ds = "dropWhile is_whitespace ?cs" and ?es = "rev (dropWhile is_whitespace (rev (dropWhile is_whitespace ?cs)))"
  from dropWhile_split [of ?cs is_whitespace] obtain us where us: "?cs = us @ ?ds" "\<forall>c \<in> set us. is_whitespace c"
    by (elim exE conjE) (rule that)
  from dropWhile_split [of "rev ?ds" is_whitespace] obtain vs where vs: "rev ?ds = vs @ dropWhile is_whitespace (rev ?ds)" "\<forall>c \<in> set vs. is_whitespace c"
    by (elim exE conjE) (rule that)
  have ds: "?ds = ?es @ rev vs" using arg_cong [OF vs(1), of rev] unfolding rev_append rev_rev_ident .
  have "\<forall>c \<in> set ?es. full_char c" using chars_full [of "as_bytes s"] by (auto dest!: set_dropWhileD)
  then have "chars (as_bytes (trim s)) = ?es" by (simp add: as_bytes_trim chars_concat)
  moreover have "runs [] ?cs = runs [] ?es"
  proof -
    have "runs [] ?cs = runs [] ?ds" using us(1) runs_skip [OF us(2), of ?ds] by metis
    also have "\<dots> = runs [] ?es" using ds runs_trailing [of "rev vs" "[]" ?es] vs(2) by (metis set_rev)
    finally show ?thesis .
  qed
  ultimately show ?thesis by (simp add: split_whitespace_def)
qed

lemma trim_parse [simp]: "parse_command (trim line) = parse_command line"
  by (simp add: parse_command_def trim_words)

section \<open>The client reads the server's frames\<close>

lemma client_receive_frame:
  assumes "1 + sum_list (map (\<lambda>s. 4 + len s) ps) < 2 ^ 32"
  shows "client_receive err_text (encode_frame status ps @ rest) = Inr (print_response \<lparr>dr_payload = ps, dr_status = status\<rparr>, rest)"
proof -
  from response_frame_parts [OF assms, of status] obtain body where "encode_frame status ps = u32_bytes (length body) @ body" "length body < 2 ^ 32"
    by (elim exE conjE) (rule that)
  then show ?thesis using response_decodes [OF assms, of status] by (simp add: client_receive_def)
qed

text \<open>A line that parses into a command: it is sent, and the answer is printed.\<close>

lemma client_line_command:
  assumes "parse_command line = ParsedCmd c" and "len line < 2 ^ 16" and "1 + sum_list (map (\<lambda>s. 4 + len s) ps) < 2 ^ 32"
  shows "\<exists>cmd. client_line err_text line (encode_frame status ps @ rest) =
      Inr (True, cmd, print_response \<lparr>dr_payload = ps, dr_status = status\<rparr>, rest) \<and> decode_input_frame cmd = Inr c"
proof -
  from parse_command_words [OF assms(1)] assms(2) have "command_ok c" using cli_shape_fits by fastforce
  from command_frame [OF this] obtain cmd where "encode_command c = Inr cmd" "decode_input_frame cmd = Inr c" by auto
  then show ?thesis using assms(1) client_receive_frame [OF assms(3)] by (simp add: client_line_def)
qed

section \<open>A session\<close>

lemma typed_write_sizes:
  assumes "parse_command line = ParsedCmd (CmdWrite k v t)" and "len line < 2 ^ 16"
  shows "len k \<le> MAX_KEY_SIZE" and "len v \<le> MAX_VALUE_SIZE"
proof -
  from parse_command_words [OF assms(1)] obtain args where shape: "cli_shape args (CmdWrite k v t)" and w: "weight args \<le> len line" by blast
  from shape have "\<exists>pre v' vs. args = k # pre @ v' # vs \<and> v = join_spaces (v' # vs)"
    by (cases rule: cli_shape.cases) (simp_all del: join_spaces.simps, metis append_Nil, metis append_Cons append_Nil)
  then obtain pre v' vs where "args = k # pre @ v' # vs" "v = join_spaces (v' # vs)" by blast
  then have "len k \<le> len line \<and> len v \<le> len line" using w join_spaces_weight [of "v' # vs"] by (simp del: join_spaces.simps)
  with assms(2) show "len k \<le> MAX_KEY_SIZE" "len v \<le> MAX_VALUE_SIZE" by (auto simp: MAX_KEY_SIZE_def MAX_VALUE_SIZE_def)
qed

text \<open>C13. A user reads back what was written, through the whole program: a line that parses into a write, typed into the
  client of a server with a hash-index engine, and then a line that parses into a read of the same key. The client sends
  frames from which the server decodes these commands; the server executes them and answers; the client prints nothing
  for the write and the value for the read.\<close>

theorem session_reads_write:
  assumes "parse_command line1 = ParsedCmd (CmdWrite k v None)" and "len line1 < 2 ^ 16"
    and "parse_command line2 = ParsedCmd (CmdRead k)" and "len line2 < 2 ^ 16"
    and "kv_inv (srv_db S)" and "small_files (kv_dir (srv_db S))" and "at_time (dc_op c2) t"
  shows "\<exists>cmd1 cmd2 write read answer1 answer2 S1 S2.
    client_line err_text line1 (answer1 @ rest) = Inr (True, cmd1, [], rest) \<and>
    decode_input_frame cmd1 = Inr write \<and> dispatch err_text F (kv_engine lost) cfg c1 write S = Inr (answer1, S1) \<and>
    client_line err_text line2 (answer2 @ rest) = Inr (True, cmd2, [Out v], rest) \<and>
    decode_input_frame cmd2 = Inr read \<and> dispatch err_text F (kv_engine lost) cfg c2 read S1 = Inr (answer2, S2)"
proof -
  note sz = typed_write_sizes [OF assms(1,2)]
  have "expiry_opt (dc_now_ms c1) None = Inr None" by (simp add: expiry_opt_def)
  from kv_served.write_then_read [OF assms(5,6) sz this assms(7), where err_text = err_text and G = F and cfg = cfg and lost = lost]
  obtain S1 S2 where d: "dispatch err_text F (kv_engine lost) cfg c1 (CmdWrite k v None) S = Inr (encode_frame StOk [], S1)"
    "dispatch err_text F (kv_engine lost) cfg c2 (CmdRead k) S1 = Inr (encode_frame StOk [v], S2)" by auto
  have "1 + sum_list (map (\<lambda>s. 4 + len s) [v]) < 2 ^ 32" using sz(2) by (simp add: MAX_VALUE_SIZE_def)
  from client_line_command [OF assms(3,4) this, of err_text StOk rest] obtain cmd2 where c2:
    "client_line err_text line2 (encode_frame StOk [v] @ rest) = Inr (True, cmd2, [Out v], rest)" "decode_input_frame cmd2 = Inr (CmdRead k)"
    by (auto simp: print_response_def)
  from client_line_command [OF assms(1,2), of "[]" err_text StOk rest] obtain cmd1 where c1:
    "client_line err_text line1 (encode_frame StOk [] @ rest) = Inr (True, cmd1, [], rest)" "decode_input_frame cmd1 = Inr (CmdWrite k v None)"
    by (auto simp: print_response_def)
  from c1 c2 d show ?thesis by blast
qed

lemma session_lines:
  "parse_command (lit ''write k two words'') = ParsedCmd (CmdWrite (lit ''k'') (lit ''two words'') None)"
  "parse_command (lit ''READ k'') = ParsedCmd (CmdRead (lit ''k''))"
proof -
  have words: "split_whitespace (lit ''write k two words'') = map lit [''write'', ''k'', ''two'', ''words'']"
    "split_whitespace (lit ''READ k'') = map lit [''READ'', ''k'']"
    by (simp_all add: words_eval)
  have name: "is_name (lit ''write'') n \<longleftrightarrow> as_bytes (lit ''WRITE'') = as_bytes (lit n)" "is_name (lit ''READ'') n \<longleftrightarrow> as_bytes (lit ''READ'') = as_bytes (lit n)" for n
    by (simp_all add: is_name_def upper_char_def extra_len_def of_char_def)
  show "parse_command (lit ''write k two words'') = ParsedCmd (CmdWrite (lit ''k'') (lit ''two words'') None)"
    "parse_command (lit ''READ k'') = ParsedCmd (CmdRead (lit ''k''))"
    by (simp_all add: parse_command_def words parse_words_def name lit_append of_char_def)
qed

theorem session_reads_write_witness:
  "\<exists>cmd1 cmd2 write read answer1 answer2 S1 S2.
    client_line (\<lambda>_ _. lit ''error'') (lit ''write k two words'') (answer1 @ []) = Inr (True, cmd1, [], []) \<and>
    decode_input_frame cmd1 = Inr write \<and>
    dispatch (\<lambda>_ _. lit ''error'') exact_f32 (kv_engine (\<lambda>s e. s)) \<lparr>cfg_ratio = 0, cfg_max_segment = 0\<rparr> (fixed_clock 2 5) write (fresh_server kv_small) = Inr (answer1, S1) \<and>
    client_line (\<lambda>_ _. lit ''error'') (lit ''READ k'') (answer2 @ []) = Inr (True, cmd2, [Out (lit ''two words'')], []) \<and>
    decode_input_frame cmd2 = Inr read \<and>
    dispatch (\<lambda>_ _. lit ''error'') exact_f32 (kv_engine (\<lambda>s e. s)) \<lparr>cfg_ratio = 0, cfg_max_segment = 0\<rparr> (fixed_clock 2 6) read S1 = Inr (answer2, S2)"
proof (rule session_reads_write [OF session_lines(1) _ session_lines(2)])
  show "kv_inv (srv_db (fresh_server kv_small))" using kv_new_facts(1) [of "[]"] by simp
  show "small_files (kv_dir (srv_db (fresh_server kv_small)))" by (simp add: small_files_def kv_new_def Let_def open_create_def)
  show "at_time (dc_op (fixed_clock 2 6)) 6" by simp
qed simp_all

end
