(* ===== verification/Bench_Workload.thy ===== *)
theory Bench_Workload
  imports Size_Tiered Complex_Main
begin

text \<open>
  What the load generator sends and how it sums up what it measured (src/src/bin/kvbench.rs): the keys, the reads with an
  exact number of misses, the range queries, the random numbers, the share of every thread, and the statistics of the
  latencies. A duration is its number of nanoseconds; floating-point arithmetic is a record of operations.
\<close>

unbundle bit_operations_syntax

section \<open>Arithmetic\<close>

record 'f bench_f64 = "'f f64" +
  f_mul :: "'f \<Rightarrow> 'f \<Rightarrow> 'f"
  f_add :: "'f \<Rightarrow> 'f \<Rightarrow> 'f"
  f_ln :: "'f \<Rightarrow> 'f"
  f_exp :: "'f \<Rightarrow> 'f"
  f_powf :: "'f \<Rightarrow> 'f \<Rightarrow> 'f"
  f_round :: "'f \<Rightarrow> 'f"
  f_as_usize :: "'f \<Rightarrow> nat"
  f_secs :: "nat \<Rightarrow> 'f"
  f_const :: "nat \<Rightarrow> nat \<Rightarrow> 'f"
  f_parse :: "rstring \<Rightarrow> 'f option"

text \<open>\<open>f_const F a b\<close> is the literal \<open>a / b\<close>, \<open>f_secs\<close> is \<open>as_secs_f64\<close>. Products of \<open>usize\<close> are checked.\<close>

definition checked_mul :: "nat \<Rightarrow> nat \<Rightarrow> nat res" where
  "checked_mul a b = (if a * b < 2 ^ 64 then Inr (a * b) else Inl (Panic ''attempt to multiply with overflow''))"

lemma checked_mul_ok [simp]: "a * b < 2 ^ 64 \<Longrightarrow> checked_mul a b = Inr (a * b)"
  by (simp add: checked_mul_def)

section \<open>Statistics of latencies\<close>

type_synonym duration = nat

record latency_stats =
  ls_min :: duration
  ls_max :: duration
  ls_mean :: duration
  ls_p99 :: duration

definition duration_sum :: "duration list \<Rightarrow> duration res" where
  "duration_sum ds =
     (if sum_list ds < 2 ^ 64 * 10 ^ 9 then Inr (sum_list ds) else Inl (Panic ''overflow in iter::sum over durations''))"

text \<open>The number of latencies is cast to 32 bits before the division.\<close>

definition duration_div :: "duration \<Rightarrow> nat \<Rightarrow> duration res" where
  "duration_div d n =
     (if n mod 2 ^ 32 = 0 then Inl (Panic ''divide by zero error when dividing duration by scalar'') else Inr (d div (n mod 2 ^ 32)))"

definition compute_stats :: "duration list \<Rightarrow> latency_stats res" where
  "compute_stats latencies =
     (let latencies = sort latencies
      in and_then (idx latencies 0) (\<lambda>mn.
         and_then (idx latencies (length latencies - 1)) (\<lambda>mx.
         and_then (duration_sum latencies) (\<lambda>total.
         and_then (duration_div total (length latencies)) (\<lambda>mean.
         and_then (checked_mul (length latencies) 99) (\<lambda>scaled.
         and_then (idx latencies (min (scaled div 100) (length latencies - 1))) (\<lambda>p99.
           Inr \<lparr>ls_min = mn, ls_max = mx, ls_mean = mean, ls_p99 = p99\<rparr>)))))))"

section \<open>Keys\<close>

text \<open>\<open>{i:08}\<close>: at least eight digits, with leading zeros.\<close>

definition pad8 :: "nat \<Rightarrow> rstring" where
  "pad8 i = mk_string (replicate (8 - length (show_dec i)) 48 @ show_dec i)"

definition bench_key :: "nat \<Rightarrow> rstring" where
  "bench_key i = str_append (lit ''bench:key:'') (pad8 i)"

definition missing_key :: "nat \<Rightarrow> rstring" where
  "missing_key i = str_append (lit ''bench:missing:'') (pad8 i)"

definition bench_keys :: "nat \<Rightarrow> rstring list" where
  "bench_keys count = map bench_key [0..<count]"

text \<open>The slices of a length, and every \<open>n\<close>-th item.\<close>

definition windows :: "nat \<Rightarrow> 'a list \<Rightarrow> 'a list list" where
  "windows n xs = map (\<lambda>i. take n (drop i xs)) [0..<length xs + 1 - n]"

fun step_by :: "nat \<Rightarrow> 'a list \<Rightarrow> 'a list" where
  "step_by n [] = []"
| "step_by n (x # xs) = x # step_by n (drop (n - 1) xs)"

definition build_range_queries :: "rstring list \<Rightarrow> nat \<Rightarrow> (rstring \<times> rstring) list" where
  "build_range_queries keys window =
     (if keys = [] \<or> window = 0 then []
      else map (\<lambda>w. (w ! 0, w ! (length w - 1))) (step_by window (windows window keys)))"

section \<open>Random numbers\<close>

definition next_u64 :: "u64 \<Rightarrow> u64 \<times> u64" where
  "next_u64 s =
     (let s = s XOR push_bit 13 s;
          s = s XOR drop_bit 7 s;
          s = s XOR push_bit 17 s
      in (s, s))"

definition next_f64 :: "('f, 'z) bench_f64_scheme \<Rightarrow> u64 \<Rightarrow> 'f \<times> u64" where
  "next_f64 F rng = (let (r, rng) = next_u64 rng in (f_div F (f_of_u64 F (drop_bit 11 r)) (f_of_u64 F (push_bit 53 1)), rng))"

definition next_zipf :: "('f, 'z) bench_f64_scheme \<Rightarrow> nat \<Rightarrow> 'f \<Rightarrow> u64 \<Rightarrow> (nat \<times> u64) res" where
  "next_zipf F n s rng =
     (let (u, rng) = next_f64 F rng;
          n_f = f_of_usize F n;
          one = f_const F 1 1
      in if f_eq F s one then
           let h_n = f_add F (f_ln F n_f) (f_const F 5772 10000);
               x = f_exp F (f_mul F u h_n)
           in and_then (checked_sub n 1) (\<lambda>last. Inr (min (f_as_usize F x) last, rng))
         else
           let e = f_sub F one s;
               h_n = f_div F (f_sub F (f_powf F n_f e) one) e;
               x = f_powf F (f_add F (f_mul F (f_mul F u h_n) e) one) (f_div F one e)
           in and_then (checked_sub n 1) (\<lambda>last. Inr (min (f_as_usize F x) last, rng)))"

section \<open>Reads with misses\<close>

definition rounded_share :: "('f, 'z) bench_f64_scheme \<Rightarrow> nat \<Rightarrow> 'f \<Rightarrow> nat" where
  "rounded_share F n ratio = f_as_usize F (f_round F (f_mul F (f_of_usize F n) ratio))"

text \<open>A miss whenever the running total crosses an integer.\<close>

definition is_miss :: "nat \<Rightarrow> nat \<Rightarrow> nat \<Rightarrow> bool res" where
  "is_miss miss_count n i =
     (if 0 < miss_count then
        and_then (checked_mul i miss_count) (\<lambda>a.
        and_then (checked_mul (i + 1) miss_count) (\<lambda>b. Inr (a div n < b div n)))
      else Inr False)"

definition build_read_keys :: "('f, 'z) bench_f64_scheme \<Rightarrow> rstring list \<Rightarrow> 'f \<Rightarrow> rstring list res" where
  "build_read_keys F keys miss_ratio =
     (let n = length keys; miss_count = rounded_share F n miss_ratio
      in map_res (\<lambda>(i, k). and_then (is_miss miss_count n i) (\<lambda>miss. Inr (if miss then missing_key i else k))) (enumerate 0 keys))"

fun zipf_reads :: "('f, 'z) bench_f64_scheme \<Rightarrow> rstring list \<Rightarrow> nat \<Rightarrow> nat \<Rightarrow> 'f \<Rightarrow> nat list \<Rightarrow> u64 \<Rightarrow> rstring list res" where
  "zipf_reads F keys miss_count count s [] rng = Inr []"
| "zipf_reads F keys miss_count count s (i # is) rng =
     and_then (is_miss miss_count count i) (\<lambda>miss.
       if miss then and_then (zipf_reads F keys miss_count count s is rng) (\<lambda>ks. Inr (missing_key i # ks))
       else
         and_then (next_zipf F (length keys) s rng) (\<lambda>(j, rng).
         and_then (idx keys j) (\<lambda>k.
         and_then (zipf_reads F keys miss_count count s is rng) (\<lambda>ks. Inr (k # ks)))))"

definition build_zipf_read_keys :: "('f, 'z) bench_f64_scheme \<Rightarrow> rstring list \<Rightarrow> nat \<Rightarrow> 'f \<Rightarrow> 'f \<Rightarrow> rstring list res" where
  "build_zipf_read_keys F keys count s miss_ratio =
     zipf_reads F keys (rounded_share F count miss_ratio) count s [0..<count] 0xDEADBEEFCAFE"

text \<open>The keys to delete, and the share of a thread.\<close>

definition delete_step :: "nat \<Rightarrow> nat \<Rightarrow> nat" where
  "delete_step count delete_count = max (if delete_count = 0 then 1 else count div max delete_count 1) 1"

definition select_deletes :: "nat \<Rightarrow> nat \<Rightarrow> rstring list \<Rightarrow> rstring list" where
  "select_deletes count delete_count keys = take delete_count (step_by (delete_step count delete_count) keys)"

definition thread_start :: "nat \<Rightarrow> nat \<Rightarrow> nat \<Rightarrow> nat res" where
  "thread_start count n w = and_then (checked_mul w count) (\<lambda>x. Inr (x div n))"

definition thread_end :: "nat \<Rightarrow> nat \<Rightarrow> nat \<Rightarrow> nat res" where
  "thread_end count n w = (if w + 1 = n then Inr count else and_then (checked_mul (w + 1) count) (\<lambda>x. Inr (x div n)))"

definition slice :: "nat \<Rightarrow> nat \<Rightarrow> 'a list \<Rightarrow> 'a list res" where
  "slice a b xs =
     (if b < a then Inl (Panic ''slice index starts after it ends'')
      else if length xs < b then Inl (Panic ''range end index out of range for slice'')
      else Inr (take (b - a) (drop a xs)))"

definition thread_keys :: "rstring list \<Rightarrow> nat \<Rightarrow> nat \<Rightarrow> rstring list res" where
  "thread_keys keys n w =
     and_then (thread_start (length keys) n w) (\<lambda>a.
     and_then (thread_end (length keys) n w) (\<lambda>b. slice a b keys))"

section \<open>The statistics\<close>

text \<open>The statistics are in order, and at most one latency in a hundred is above the reported percentile.\<close>

lemma sorted_above:
  assumes "sorted xs" and "i < length xs"
  shows "length (filter (\<lambda>x. xs ! i < x) xs) \<le> length xs - i - 1"
proof -
  have "\<forall>x \<in> set (take (Suc i) xs). \<not> xs ! i < x"
    using assms by (auto simp: in_set_conv_nth not_less intro!: sorted_nth_mono)
  then have "filter (\<lambda>x. xs ! i < x) (take (Suc i) xs) = []" by (simp add: filter_empty_conv)
  then have "filter (\<lambda>x. xs ! i < x) xs = filter (\<lambda>x. xs ! i < x) (drop (Suc i) xs)"
    using append_take_drop_id [of "Suc i" xs] by (metis append_Nil filter_append)
  then have "length (filter (\<lambda>x. xs ! i < x) xs) \<le> length (drop (Suc i) xs)" using length_filter_le by metis
  then show ?thesis by simp
qed

lemma mean_between:
  fixes xs :: "nat list"
  assumes "xs \<noteq> []" and "\<forall>x \<in> set xs. a \<le> x \<and> x \<le> b"
  shows "a \<le> sum_list xs div length xs" and "sum_list xs div length xs \<le> b"
proof -
  have "a * length xs \<le> sum_list xs \<and> sum_list xs \<le> b * length xs" using assms(2) by (induction xs) auto
  then show "a \<le> sum_list xs div length xs" "sum_list xs div length xs \<le> b"
    using assms(1) by (auto simp: less_eq_div_iff_mult_less_eq div_le_mono intro: order.trans [OF div_le_mono [of _ "b * length xs"]])
qed

lemma sum_list_sort [simp]: "sum_list (sort (xs :: nat list)) = sum_list xs"
proof (induction xs)
  case (Cons x xs)
  have "sum_list (insort x ys) = x + sum_list ys" for ys by (induction ys) simp_all
  then show ?case using Cons by simp
qed simp

theorem compute_stats_sound:
  assumes "latencies \<noteq> []" and "length latencies < 2 ^ 32" and "sum_list latencies < 2 ^ 64 * 10 ^ 9"
  shows "\<exists>st. compute_stats latencies = Inr st \<and> ls_min st \<le> ls_mean st \<and> ls_mean st \<le> ls_max st \<and>
    ls_min st \<le> ls_p99 st \<and> ls_p99 st \<le> ls_max st \<and> (\<forall>d \<in> set latencies. ls_min st \<le> d \<and> d \<le> ls_max st) \<and>
    100 * length (filter (\<lambda>d. ls_p99 st < d) latencies) \<le> length latencies"
proof -
  define xs where "xs = sort latencies"
  have xs: "sorted xs" "xs \<noteq> []" "length xs = length latencies" "sum_list xs = sum_list latencies" "set xs = set latencies"
    using assms(1) length_0_conv [of xs] by (simp_all add: xs_def del: length_0_conv) simp
  let ?n = "length xs" and ?i = "min (length xs * 99 div 100) (length xs - 1)"
  have n: "0 < ?n" "?n < 2 ^ 32" using xs(2,3) assms(2) by auto
  have i: "?i < ?n" unfolding min_less_iff_disj using n(1) by arith
  let ?st = "\<lparr>ls_min = xs ! 0, ls_max = xs ! (?n - 1), ls_mean = sum_list xs div ?n, ls_p99 = xs ! ?i\<rparr>"
  have run: "compute_stats latencies = Inr ?st"
    using n i assms(3) by (simp add: compute_stats_def Let_def xs_def [symmetric] duration_sum_def duration_div_def xs(4))
  have all: "\<forall>d \<in> set xs. xs ! 0 \<le> d \<and> d \<le> xs ! (?n - 1)"
  proof
    fix d assume "d \<in> set xs"
    then obtain j where "j < ?n" "d = xs ! j" by (auto simp: in_set_conv_nth)
    then show "xs ! 0 \<le> d \<and> d \<le> xs ! (?n - 1)" using xs(1) by (auto intro!: sorted_nth_mono)
  qed
  have "filter (\<lambda>d. xs ! ?i < d) xs = sort (filter (\<lambda>d. xs ! ?i < d) latencies)" by (simp add: xs_def filter_sort)
  then have "length (filter (\<lambda>d. xs ! ?i < d) latencies) = length (filter (\<lambda>d. xs ! ?i < d) xs)" by simp
  also have "\<dots> \<le> ?n - ?i - 1" by (rule sorted_above [OF xs(1) i])
  finally have "100 * length (filter (\<lambda>d. xs ! ?i < d) latencies) \<le> 100 * (?n - ?i - 1)" by simp
  also have "\<dots> \<le> ?n"
  proof -
    have "?n * 99 < 100 * (?n * 99 div 100) + 100" by simp
    then show ?thesis unfolding min_def using n(1) by (auto split: if_split)
  qed
  finally have "100 * length (filter (\<lambda>d. xs ! ?i < d) latencies) \<le> length latencies" using xs(3) by simp
  moreover have "xs ! ?i \<in> set xs" using i by (rule nth_mem)
  then have "xs ! 0 \<le> xs ! ?i" "xs ! ?i \<le> xs ! (?n - 1)" using all by blast+
  ultimately show ?thesis using run mean_between [OF xs(2) all] all xs(5) by (intro exI [of _ ?st]) simp
qed

section \<open>Keys and queries\<close>

lemma pad8_ascii: "utf8_valid (replicate n 48 @ show_dec i)"
proof (rule utf8_valid_ascii)
  fix b assume "b \<in> set (replicate n (48 :: byte) @ show_dec i)"
  then have "b \<le> 57" using show_dec_set [of b i] by auto
  then show "b < 0x80" by (simp add: word_le_nat_alt word_less_nat_alt)
qed

lemma as_bytes_pad8: "as_bytes (pad8 i) = replicate (8 - length (show_dec i)) 48 @ show_dec i"
  by (simp add: pad8_def mk_string.rep_eq pad8_ascii)

lemma parse_zeros: "0 < limit \<Longrightarrow> parse_digits limit 0 (replicate n 48 @ bs) = parse_digits limit 0 bs"
  by (induction n) simp_all

lemma pad8_inj: "pad8 i = pad8 j \<longleftrightarrow> i = j"
proof
  assume "pad8 i = pad8 j"
  then have "as_bytes (pad8 i) = as_bytes (pad8 j)" by simp
  then have "parse_digits (Suc (max i j)) 0 (as_bytes (pad8 i)) = parse_digits (Suc (max i j)) 0 (as_bytes (pad8 j))" by simp
  then show "i = j" by (simp add: as_bytes_pad8 parse_zeros parse_digits_show_dec)
qed simp

lemma str_append_inj: "str_append a s = str_append a t \<longleftrightarrow> s = t"
  by (simp flip: as_bytes_inject)

lemma bench_key_inj [simp]: "bench_key i = bench_key j \<longleftrightarrow> i = j"
  by (simp add: bench_key_def str_append_inj pad8_inj)

lemma bench_keys_distinct: "distinct (bench_keys n)"
  by (simp add: bench_keys_def distinct_map inj_on_def)

lemma length_bench_keys [simp]: "length (bench_keys n) = n"
  by (simp add: bench_keys_def)

lemma length_step_by: "0 < n \<Longrightarrow> length (step_by n xs) = (length xs + n - 1) div n"
proof (induction n xs rule: step_by.induct)
  case (2 n x xs)
  then show ?case
  proof (cases "length xs < n")
    case True
    then have "(length xs + n) div n = 1" using 2(2) by (simp add: div_add_self2)
    then show ?thesis using 2 True by simp
  next
    case False
    then have "(length xs + n) div n = Suc ((length xs - (n - 1) + n - 1) div n)" using 2(2) by (simp add: div_add_self2)
    then show ?thesis using 2 by simp
  qed
qed simp

lemma step_by_nth: "0 < n \<Longrightarrow> i < length (step_by n xs) \<Longrightarrow> step_by n xs ! i = xs ! (i * n) \<and> i * n < length xs"
proof (induction n xs arbitrary: i rule: step_by.induct)
  case (2 n x xs)
  show ?case
  proof (cases i)
    case (Suc j)
    with 2 have "step_by n (drop (n - 1) xs) ! j = drop (n - 1) xs ! (j * n)" "j * n < length (drop (n - 1) xs)" by auto
    moreover have "Suc j * n = Suc (n - 1 + j * n)" using 2(2) by simp
    ultimately show ?thesis using Suc by (simp only: step_by.simps nth_Cons_Suc nth_drop) auto
  qed simp
qed simp

lemma step_by_sub: "0 < n \<Longrightarrow> set (step_by n xs) \<subseteq> set xs"
  using step_by_nth [of n _ xs] by (force simp: in_set_conv_nth)

lemma step_by_distinct: "0 < n \<Longrightarrow> distinct xs \<Longrightarrow> distinct (step_by n xs)"
  unfolding distinct_conv_nth using step_by_nth [of n _ xs] by (metis mult_cancel2 neq0_conv)

text \<open>The range queries cover the keys in adjacent windows; keys after the last full window are in no query.\<close>

theorem range_queries_windows:
  assumes "0 < window"
  shows "length (build_range_queries keys window) = length keys div window"
    and "i < length keys div window \<Longrightarrow> build_range_queries keys window ! i = (keys ! (i * window), keys ! (i * window + (window - 1)))"
proof -
  let ?ws = "windows window keys"
  have len: "length (step_by window ?ws) = length keys div window" if "keys \<noteq> []"
  proof (cases "length keys < window")
    case True
    then show ?thesis using assms by (simp add: windows_def)
  next
    case False
    then show ?thesis using assms by (simp add: length_step_by windows_def)
  qed
  then show "length (build_range_queries keys window) = length keys div window" using assms by (auto simp: build_range_queries_def)
  assume i: "i < length keys div window"
  then have "keys \<noteq> []" by auto
  then have j: "i < length (step_by window ?ws)" using len i by simp
  note nth = step_by_nth [OF assms j]
  then have "i * window < length keys + 1 - window" by (simp add: windows_def)
  then have b: "i * window + window \<le> length keys" by linarith
  then have "?ws ! (i * window) = take window (drop (i * window) keys)" using nth by (simp add: windows_def)
  then show "build_range_queries keys window ! i = (keys ! (i * window), keys ! (i * window + (window - 1)))"
    using nth j b assms \<open>keys \<noteq> []\<close> min_absorb2 [of window "length keys - i * window"] by (simp add: build_range_queries_def)
qed

lemma no_range_queries: "window = 0 \<or> length keys < window \<Longrightarrow> build_range_queries keys window = []"
  using range_queries_windows(1) [of window keys] by (cases "window = 0") (auto simp: build_range_queries_def)

text \<open>As many keys are deleted as asked for.\<close>

lemma delete_step_pos: "0 < delete_step n m"
  by (simp add: delete_step_def)

lemma length_select_deletes:
  assumes "delete_count \<le> length keys"
  shows "length (select_deletes (length keys) delete_count keys) = delete_count"
proof (cases "delete_count = 0")
  case False
  let ?st = "delete_step (length keys) delete_count" and ?n = "length keys"
  have "?st * delete_count \<le> ?n" using False assms by (simp add: delete_step_def max_def)
  then have "delete_count \<le> (?n + ?st - 1) div ?st"
    using delete_step_pos [of ?n delete_count] by (simp add: less_eq_div_iff_mult_less_eq mult.commute)
  then show ?thesis using delete_step_pos [of ?n delete_count] by (simp add: select_deletes_def length_step_by)
qed (simp add: select_deletes_def)

lemma select_deletes_sub: "set (select_deletes n m keys) \<subseteq> set keys"
  unfolding select_deletes_def by (rule order.trans [OF set_take_subset step_by_sub [OF delete_step_pos]])

lemma select_deletes_distinct: "distinct keys \<Longrightarrow> distinct (select_deletes n m keys)"
  by (simp add: select_deletes_def step_by_distinct [OF delete_step_pos])

lemma missing_not_bench [simp]: "missing_key i \<noteq> bench_key j"
proof
  assume "missing_key i = bench_key j"
  then have "as_bytes (missing_key i) ! 6 = as_bytes (bench_key j) ! 6" by simp
  then show False by (simp add: missing_key_def bench_key_def lit.rep_eq of_char_def)
qed

section \<open>Misses\<close>

lemma count_crossings:
  assumes "m \<le> n" and "0 < n"
  shows "length (filter (\<lambda>i. i * m div n < (i + 1) * m div n) [0..<k]) = k * m div n"
proof (induction k)
  case (Suc k)
  have "(k + 1) * m div n \<le> (k * m + n) div n" using assms(1) by (intro div_le_mono) simp
  also have "\<dots> = k * m div n + 1" using assms(2) by simp
  finally have "(k + 1) * m div n \<le> k * m div n + 1" .
  moreover have "k * m div n \<le> (k + 1) * m div n" by (intro div_le_mono) simp
  ultimately show ?case using Suc by auto
qed simp

lemma is_miss_value:
  assumes "n * m < 2 ^ 64" and "i < n"
  shows "is_miss m n i = Inr (i * m div n < (i + 1) * m div n)"
proof -
  have "(i + 1) * m \<le> n * m" using assms(2) by (intro mult_right_mono) simp_all
  then have "(i + 1) * m < 2 ^ 64" "i * m < 2 ^ 64" using assms(1) by (auto simp: algebra_simps)
  then show ?thesis by (simp add: is_miss_def)
qed

text \<open>The reads are the keys in order, of which exactly the asked-for number, spread evenly, is replaced by keys that were
  never written.\<close>

theorem read_keys_misses:
  fixes F :: "('f, 'z) bench_f64_scheme"
  defines "m keys ratio \<equiv> rounded_share F (length keys) ratio"
  assumes "m keys ratio \<le> length keys" and "length keys * m keys ratio < 2 ^ 64" and "\<forall>i. missing_key i \<notin> set keys"
  shows "\<exists>ks. build_read_keys F keys ratio = Inr ks \<and> length ks = length keys \<and>
    (\<forall>i < length keys. ks ! i = (if i * m keys ratio div length keys < (i + 1) * m keys ratio div length keys then missing_key i else keys ! i)) \<and>
    length (filter (\<lambda>k. k \<notin> set keys) ks) = m keys ratio"
proof -
  let ?n = "length keys" and ?m = "m keys ratio"
  let ?miss = "\<lambda>i. i * ?m div ?n < (i + 1) * ?m div ?n"
  define ks where "ks = map (\<lambda>(i, k). if ?miss i then missing_key i else k) (enumerate 0 keys)"
  have "map_res (\<lambda>(i, k). and_then (is_miss ?m ?n i) (\<lambda>miss. Inr (if miss then missing_key i else k))) (enumerate 0 keys) = Inr ks"
    unfolding ks_def by (rule map_res_total) (use is_miss_value [OF assms(3)] in \<open>auto simp: in_set_enumerate_eq\<close>)
  then have run: "build_read_keys F keys ratio = Inr ks" by (simp add: build_read_keys_def Let_def m_def)
  have nth: "ks ! i = (if ?miss i then missing_key i else keys ! i)" if "i < ?n" for i
    using that by (simp add: ks_def nth_enumerate_eq)
  have len: "length ks = ?n" by (simp add: ks_def)
  have "ks = map (\<lambda>i. if ?miss i then missing_key i else keys ! i) [0..<?n]"
    using nth len by (intro nth_equalityI) simp_all
  then have "filter (\<lambda>k. k \<notin> set keys) ks = map (\<lambda>i. if ?miss i then missing_key i else keys ! i)
      (filter ((\<lambda>k. k \<notin> set keys) \<circ> (\<lambda>i. if ?miss i then missing_key i else keys ! i)) [0..<?n])" by (simp add: filter_map)
  moreover have "filter ((\<lambda>k. k \<notin> set keys) \<circ> (\<lambda>i. if ?miss i then missing_key i else keys ! i)) [0..<?n] = filter ?miss [0..<?n]"
    using assms(4) by (intro filter_cong) auto
  ultimately have "length (filter (\<lambda>k. k \<notin> set keys) ks) = length (filter ?miss [0..<?n])" by simp
  also have "\<dots> = ?m"
  proof (cases "?n = 0")
    case False
    then show ?thesis using count_crossings [OF assms(2), of ?n] by simp
  qed (use assms(2) in simp)
  finally show ?thesis using run len nth by blast
qed

section \<open>Threads\<close>

text \<open>The shares of the threads are the keys, cut in order: every key is handled by exactly one thread.\<close>

lemma thread_keys_value:
  assumes "w < n" and "n * length keys < 2 ^ 64"
  shows "thread_keys keys n w = Inr (take ((w + 1) * length keys div n - w * length keys div n) (drop (w * length keys div n) keys))"
proof -
  let ?c = "length keys"
  have le: "w * ?c \<le> (w + 1) * ?c" by simp
  have le2: "(w + 1) * ?c \<le> n * ?c" by (rule mult_right_mono) (use assms(1) in simp_all)
  then have sz: "w * ?c < 2 ^ 64" "(w + 1) * ?c < 2 ^ 64" using le assms(2) by linarith+
  have "(w + 1) * ?c div n \<le> n * ?c div n" using le2 by (rule div_le_mono)
  then have e: "(w + 1) * ?c div n \<le> ?c" using assms(1) by simp
  have "thread_end ?c n w = Inr ((w + 1) * ?c div n)"
  proof (cases "w + 1 = n")
    case True
    then have "(w + 1) * ?c div n = ?c" using assms(1) by (metis nonzero_mult_div_cancel_left not_less_zero)
    then show ?thesis using True by (simp only: thread_end_def refl if_True)
  next
    case False
    then show ?thesis using sz(2) by (simp add: thread_end_def)
  qed
  moreover have "thread_start ?c n w = Inr (w * ?c div n)" using sz(1) by (simp add: thread_start_def)
  moreover have "w * ?c div n \<le> (w + 1) * ?c div n" using le by (rule div_le_mono)
  ultimately show ?thesis using e by (simp add: thread_keys_def slice_def)
qed

theorem thread_keys_partition:
  assumes "0 < n" and "n * length keys < 2 ^ 64"
  shows "\<exists>shares. map_res (thread_keys keys n) [0..<n] = Inr shares \<and> concat shares = keys"
proof -
  let ?c = "length keys"
  let ?share = "\<lambda>w. take ((w + 1) * ?c div n - w * ?c div n) (drop (w * ?c div n) keys)"
  have run: "map_res (thread_keys keys n) [0..<n] = Inr (map ?share [0..<n])"
    by (rule map_res_total) (use thread_keys_value [OF _ assms(2)] in simp)
  have "concat (map ?share [0..<k]) = take (k * ?c div n) keys" for k
  proof (induction k)
    case (Suc k)
    have "k * ?c div n \<le> (k + 1) * ?c div n" by (intro div_le_mono) simp
    then have "take ((k + 1) * ?c div n) keys = take (k * ?c div n) keys @ ?share k"
      by (metis le_add_diff_inverse take_add)
    then show ?case using Suc by simp
  qed simp
  from this [of n] show ?thesis using run assms(1) by auto
qed

section \<open>Random numbers\<close>

text \<open>The generator never reaches the state in which it would stay for ever.\<close>

lemma xor_shift_zero:
  fixes x :: u64
  assumes "x XOR f x = 0" and "\<And>n. (f ^^ n) x = g n x" and "g 64 x = 0"
  shows "x = 0"
proof -
  have "f x = x XOR (x XOR f x)" by (simp flip: xor.assoc)
  then have "f x = x" using assms(1) by simp
  then have "(f ^^ n) x = x" for n by (induction n) simp_all
  then show ?thesis using assms(2,3) by metis
qed

lemma push_bits: "(push_bit k ^^ n) (x :: u64) = push_bit (n * k) x"
  by (induction n) (simp_all add: add.commute)

lemma drop_bits: "(drop_bit k ^^ n) (x :: u64) = drop_bit (n * k) x"
  by (induction n) (simp_all add: add.commute)

theorem rng_never_stuck: "s \<noteq> 0 \<Longrightarrow> fst (next_u64 s) \<noteq> 0"
proof -
  have push: "x = 0" if "x XOR push_bit k x = 0" "0 < k" for x :: u64 and k
  proof -
    have "64 * k \<ge> 64" using that(2) by simp
    then have "push_bit (64 * k) x = 0" by (simp add: push_bit_word_beyond)
    from xor_shift_zero [where f = "push_bit k" and g = "\<lambda>n. push_bit (n * k)", OF that(1) push_bits this] show ?thesis .
  qed
  have drop: "x = 0" if "x XOR drop_bit k x = 0" "0 < k" for x :: u64 and k
  proof -
    have "64 * k \<ge> 64" using that(2) by simp
    then have "drop_bit (64 * k) x = 0" by (simp add: drop_bit_word_beyond)
    from xor_shift_zero [where f = "drop_bit k" and g = "\<lambda>n. drop_bit (n * k)", OF that(1) drop_bits this] show ?thesis .
  qed
  assume "s \<noteq> 0"
  define a where "a = s XOR push_bit 13 s"
  define b where "b = a XOR drop_bit 7 a"
  have "a \<noteq> 0" unfolding a_def using push [of s 13] \<open>s \<noteq> 0\<close> by auto
  then have "b \<noteq> 0" unfolding b_def using drop [of a 7] by auto
  then have "b XOR push_bit 17 b \<noteq> 0" using push [of b 17] by auto
  moreover have "fst (next_u64 s) = b XOR push_bit 17 b" by (simp only: next_u64_def Let_def a_def b_def fst_conv)
  ultimately show ?thesis by simp
qed

text \<open>Exact arithmetic in place of \<open>f64\<close>.\<close>

definition real_f64 :: "real bench_f64" where
  "real_f64 =
     \<lparr>f_of_u64 = (\<lambda>w. of_nat (unat w)), f_of_usize = of_nat, f_div = (/), f_sub = (-), f_abs = abs,
      f_lt = (<), f_le = (\<le>), f_eq = (=), f_zero = 0, f_MAX = of_nat (2 ^ 1024 - 2 ^ 970),
      MIN_TIER_COEFFICIENT = 1 / 2, MAX_TIER_COEFFICIENT = 3 / 2,
      f_mul = (*), f_add = (+), f_ln = ln, f_exp = exp, f_powf = (powr), f_round = (\<lambda>x. of_int (round x)),
      f_as_usize = (\<lambda>x. nat \<lfloor>x\<rfloor>), f_secs = (\<lambda>ns. of_nat ns / 10 ^ 9), f_const = (\<lambda>a b. of_nat a / of_nat b), f_parse = (\<lambda>_. None)\<rparr>"

lemma real_f64_simps [simp]:
  "f_of_u64 real_f64 = (\<lambda>w. of_nat (unat w))" "f_of_usize real_f64 = of_nat" "f_div real_f64 = (/)" "f_sub real_f64 = (-)"
  "f_eq real_f64 = (=)" "f_mul real_f64 = (*)" "f_add real_f64 = (+)" "f_ln real_f64 = ln" "f_exp real_f64 = exp" "f_powf real_f64 = (powr)"
  "f_round real_f64 = (\<lambda>x. of_int (round x))" "f_as_usize real_f64 = (\<lambda>x. nat \<lfloor>x\<rfloor>)" "f_const real_f64 = (\<lambda>a b. of_nat a / of_nat b)"
  by (simp_all add: real_f64_def)

lemma rounded_share_le:
  assumes "0 \<le> ratio" and "ratio \<le> 1"
  shows "rounded_share real_f64 n ratio \<le> n"
proof -
  have "of_nat n * ratio \<le> of_nat n" using assms by (simp add: mult_left_le)
  then have "round (of_nat n * ratio) \<le> round (of_nat n :: real)" by (rule round_mono)
  then show ?thesis by (simp add: rounded_share_def)
qed

lemma powr_ge_one:
  assumes "1 \<le> (n :: real)" and "0 \<le> u" and "u < 1" and "e \<noteq> 0"
  shows "1 \<le> (u * ((n powr e - 1) / e) * e + 1) powr (1 / e)"
proof -
  let ?b = "u * (n powr e - 1) + 1"
  have eq: "u * ((n powr e - 1) / e) * e + 1 = ?b" using assms(4) by simp
  show ?thesis
  proof (cases "0 < e")
    case True
    then have "1 \<le> n powr e" using assms(1) by (simp add: ge_one_powr_ge_zero)
    then have "1 \<le> ?b" using assms(2) by simp
    then show ?thesis unfolding eq using True by (intro ge_one_powr_ge_zero) simp_all
  next
    case False
    then have e: "e < 0" using assms(4) by simp
    have p: "0 < n powr e" "n powr e \<le> 1" using assms(1) e powr_mono [of e 0 n] by simp_all
    have "u * (1 - n powr e) \<le> u * 1" using assms(2) p by (intro mult_left_mono) simp_all
    then have "u * (1 - n powr e) < 1" using assms(3) by simp
    then have b: "0 < ?b" "?b \<le> 1" using assms(2) p by (simp_all add: algebra_simps mult_left_le)
    then have "1 \<le> (1 / ?b) powr (- (1 / e))" using e by (intro ge_one_powr_ge_zero) (simp_all add: divide_nonpos_neg field_simps)
    then show ?thesis unfolding eq using b(1) by (simp add: powr_divide powr_minus_divide)
  qed
qed

lemma next_f64_range:
  assumes "next_f64 real_f64 rng = (u, rng')"
  shows "0 \<le> u" and "u < 1"
proof -
  obtain r rng1 where "next_u64 rng = (r, rng1)" by fastforce
  then have u: "u = of_nat (unat (drop_bit 11 r :: u64)) / of_nat (unat (push_bit 53 1 :: u64))"
    using assms by (auto simp: next_f64_def)
  have "unat (drop_bit 11 r) = unat r div 2 ^ 11" by (simp only: unat_drop_bit_eq drop_bit_nat_def)
  also have "\<dots> < 2 ^ 53" using unsigned_less [where 'a = nat, of r] by (simp add: less_mult_imp_div_less)
  finally have "unat (drop_bit 11 r) < 2 ^ 53" .
  moreover have "unat (push_bit 53 1 :: u64) = 2 ^ 53" by (simp add: push_bit_eq_mult)
  moreover define k where "k = unat (drop_bit 11 r)"
  ultimately have "u = real k / 2 ^ 53" "k < 2 ^ 53" using u by (simp_all only: k_def of_nat_power of_nat_numeral)
  then show "0 \<le> u" "u < 1" by simp_all
qed

text \<open>Though the first key is meant to be the hottest one, it is never read: already in exact arithmetic the sampled rank
  is at least one.\<close>

theorem zipf_skips_first:
  assumes "2 \<le> n" and "next_zipf real_f64 n s rng = Inr (i, rng')"
  shows "1 \<le> i \<and> i < n"
proof -
  obtain u rng1 where f: "next_f64 real_f64 rng = (u, rng1)" by fastforce
  note u = next_f64_range [OF f]
  have "1 \<le> nat \<lfloor>exp (u * (ln (real n) + 5772 / 10000))\<rfloor>"
  proof -
    have "0 \<le> ln (real n)" using assms(1) by simp
    then have "1 \<le> exp (u * (ln (real n) + 5772 / 10000))" using u(1) by (simp add: mult_nonneg_nonneg)
    then show ?thesis by (simp add: le_nat_floor le_nat_iff)
  qed
  moreover have "1 \<le> nat \<lfloor>(u * ((real n powr (1 - s) - 1) / (1 - s)) * (1 - s) + 1) powr (1 / (1 - s))\<rfloor>" if "s \<noteq> 1"
    using powr_ge_one [of "real n" u "1 - s"] u assms(1) that by (simp add: le_nat_iff)
  ultimately show ?thesis
    using assms by (auto simp: next_zipf_def f Let_def split: if_splits)
qed

end
