(* ===== verification/Kv_Bench.thy ===== *)
theory Kv_Bench
  imports Server_Serving Bench_Workload Settings_Args
begin

text \<open>
  The load generator (src/src/bin/kvbench.rs): one exchange with the server, the phases, the three modes, the reports and
  the command line. The peer is a function from the bytes that are sent to the bytes that arrive; the measured durations,
  the order in which the threads take turns and the outcome of connecting are arguments. A report holds the numbers that
  are printed, not their text. A non-ASCII part of a panic message is left out.
\<close>

section \<open>One exchange\<close>

datatype send_result = Hit | Miss

type_synonym 's peer = "bytes \<Rightarrow> 's \<Rightarrow> bytes \<times> 's"

text \<open>What has arrived and was not read yet, and the state of the peer.\<close>

type_synonym 's link = "bytes \<times> 's"

fun join_semi :: "rstring list \<Rightarrow> rstring" where
  "join_semi [] = lit ''''"
| "join_semi [w] = w"
| "join_semi (w # ws) = str_append w (str_append (lit ''; '') (join_semi ws))"

definition receive :: "bytes \<Rightarrow> (send_result \<times> bytes) res" where
  "receive arrived =
     and_then (read_exact 4 arrived) (\<lambda>(len_buf, rest).
     and_then (read_exact (unat (from_be len_buf :: u32)) rest) (\<lambda>(payload, rest).
     and_then (decode_response_frame (len_buf @ payload)) (\<lambda>res.
       case dr_status res of
         StOk \<Rightarrow> Inr (Hit, rest)
       | StNoop \<Rightarrow> Inr (Hit, rest)
       | StNotFound \<Rightarrow> Inr (Miss, rest)
       | StError \<Rightarrow> Inl (IoError OtherError (Message (map (\<lambda>b. char_of (unat b)) (as_bytes (join_semi (dr_payload res)))))))))"

definition send_command :: "'s peer \<Rightarrow> command \<Rightarrow> 's link \<Rightarrow> send_result res \<times> 's link" where
  "send_command peer cmd = (\<lambda>(inbuf, s).
     case encode_command cmd of
       Inl e \<Rightarrow> (Inl e, inbuf, s)
     | Inr frame \<Rightarrow>
         let (arrived, s) = peer frame s
         in case receive (inbuf @ arrived) of
              Inr (r, rest) \<Rightarrow> (Inr r, rest, s)
            | Inl e \<Rightarrow> (Inl e, [], s))"

section \<open>Phases\<close>

text \<open>Going on after a step that returned, with the state it left.\<close>

fun go_on :: "'a res \<times> 'c \<Rightarrow> ('a \<Rightarrow> 'c \<Rightarrow> 'b res \<times> 'c) \<Rightarrow> 'b res \<times> 'c" where
  "go_on (Inr x, c) f = f x c"
| "go_on (Inl e, c) f = (Inl e, c)"

text \<open>The number of misses of a list of commands, up to the first error.\<close>

fun run_ops :: "'s peer \<Rightarrow> command list \<Rightarrow> 's link \<Rightarrow> nat res \<times> 's link" where
  "run_ops peer [] c = (Inr 0, c)"
| "run_ops peer (cmd # cmds) c =
     go_on (send_command peer cmd c) (\<lambda>r c.
     go_on (run_ops peer cmds c) (\<lambda>misses c. (Inr ((if r = Miss then 1 else 0) + misses), c)))"

record phase_times =
  pt_op :: "nat \<Rightarrow> duration"
  pt_total :: duration

record phase_result =
  ph_latencies :: "duration list"
  ph_misses :: nat
  ph_elapsed :: duration

definition measured :: "phase_times \<Rightarrow> nat \<Rightarrow> nat \<Rightarrow> phase_result" where
  "measured tm n misses = \<lparr>ph_latencies = map (pt_op tm) [0..<n], ph_misses = misses, ph_elapsed = pt_total tm\<rparr>"

text \<open>A phase that counts its misses, and one that does not.\<close>

definition read_phase :: "'s peer \<Rightarrow> phase_times \<Rightarrow> command list \<Rightarrow> 's link \<Rightarrow> phase_result res \<times> 's link" where
  "read_phase peer tm cmds c = go_on (run_ops peer cmds c) (\<lambda>misses c. (Inr (measured tm (length cmds) misses), c))"

definition quiet_phase :: "'s peer \<Rightarrow> phase_times \<Rightarrow> command list \<Rightarrow> 's link \<Rightarrow> phase_result res \<times> 's link" where
  "quiet_phase peer tm cmds c = go_on (run_ops peer cmds c) (\<lambda>misses c. (Inr (measured tm (length cmds) 0), c))"

datatype bench_phase = PhWrite | PhRead | PhRange | PhDelete | PhReadAfterDelete | PhOverwrite | PhReadAfterOverwrite

record 'f phase_report =
  rp_label :: bench_phase
  rp_count :: nat
  rp_elapsed :: duration
  rp_throughput :: 'f
  rp_stats :: latency_stats
  rp_misses :: nat
  rp_miss_pct :: "'f option"

definition print_phase :: "('f, 'z) bench_f64_scheme \<Rightarrow> bench_phase \<Rightarrow> phase_result \<Rightarrow> 'f phase_report list res" where
  "print_phase F label r =
     (let n = length (ph_latencies r)
      in if n = 0 then Inr []
         else
           and_then (compute_stats (ph_latencies r)) (\<lambda>st.
             Inr [\<lparr>rp_label = label, rp_count = n, rp_elapsed = ph_elapsed r,
                   rp_throughput = f_div F (f_of_usize F n) (f_secs F (ph_elapsed r)), rp_stats = st, rp_misses = ph_misses r,
                   rp_miss_pct =
                     (if 0 < ph_misses r
                      then Some (f_mul F (f_div F (f_of_usize F (ph_misses r)) (f_of_usize F n)) (f_const F 100 1))
                      else None)\<rparr>]))"

section \<open>The sequential mode\<close>

record 'f bench_config =
  bc_host :: rstring
  bc_count :: nat
  bc_value_size :: nat
  bc_miss_ratio :: 'f
  bc_range_window :: nat
  bc_delete_ratio :: 'f
  bc_overwrite_rounds :: nat
  bc_zipf_s :: "'f option"
  bc_n_writers :: nat
  bc_n_readers :: nat
  bc_mixed_duration :: u64

definition repeated :: "char \<Rightarrow> nat \<Rightarrow> rstring" where
  "repeated c n = lit (replicate n c)"

definition read_keys_of :: "('f, 'z) bench_f64_scheme \<Rightarrow> 'f bench_config \<Rightarrow> rstring list \<Rightarrow> rstring list res" where
  "read_keys_of F cfg keys =
     (case bc_zipf_s cfg of
        Some s \<Rightarrow> build_zipf_read_keys F keys (bc_count cfg) s (bc_miss_ratio cfg)
      | None \<Rightarrow> build_read_keys F keys (bc_miss_ratio cfg))"

abbreviation write_cmds :: "rstring \<Rightarrow> rstring list \<Rightarrow> command list" where
  "write_cmds v ks \<equiv> map (\<lambda>k. CmdWrite k v None) ks"

definition delete_count :: "('f, 'z) bench_f64_scheme \<Rightarrow> 'f bench_config \<Rightarrow> nat" where
  "delete_count F cfg = rounded_share F (bc_count cfg) (bc_delete_ratio cfg)"

record tail_results =
  tr_delete :: phase_result
  tr_post_delete :: phase_result
  tr_overwrite :: phase_result
  tr_post_overwrite :: phase_result

text \<open>The deletions, the reads after them, the overwriting of the keys that are left, and the reads after that.\<close>

definition tail_phases ::
  "('f, 'z) bench_f64_scheme \<Rightarrow> 's peer \<Rightarrow> (bench_phase \<Rightarrow> phase_times) \<Rightarrow> 'f bench_config \<Rightarrow> rstring list \<Rightarrow> 's link \<Rightarrow> tail_results res \<times> 's link" where
  "tail_phases F peer tms cfg keys c =
     (let delete_keys = select_deletes (bc_count cfg) (delete_count F cfg) keys;
          surviving_keys = filter (\<lambda>k. k \<notin> set delete_keys) keys;
          overwrite_value = repeated (CHR ''y'') (bc_value_size cfg)
      in go_on (quiet_phase peer (tms PhDelete) (map CmdDelete delete_keys) c) (\<lambda>dl c.
         go_on (read_phase peer (tms PhReadAfterDelete) (map CmdRead keys) c) (\<lambda>pd c.
         go_on (quiet_phase peer (tms PhOverwrite)
                  (concat (replicate (bc_overwrite_rounds cfg) (write_cmds overwrite_value surviving_keys))) c) (\<lambda>ow c.
         go_on (read_phase peer (tms PhReadAfterOverwrite) (map CmdRead surviving_keys) c) (\<lambda>po c.
           (Inr \<lparr>tr_delete = dl, tr_post_delete = pd, tr_overwrite = ow, tr_post_overwrite = po\<rparr>, c))))))"

text \<open>What both modes print of them: the deletions and the overwriting only when they were asked for.\<close>

definition print_tail :: "('f, 'z) bench_f64_scheme \<Rightarrow> 'f bench_config \<Rightarrow> tail_results \<Rightarrow> 'f phase_report list res" where
  "print_tail F cfg tr =
     and_then
       (if 0 < delete_count F cfg then
          and_then (print_phase F PhDelete (tr_delete tr)) (\<lambda>a.
          and_then (print_phase F PhReadAfterDelete (tr_post_delete tr)) (\<lambda>b. Inr (a @ b)))
        else Inr []) (\<lambda>dels.
     and_then
       (if 0 < bc_overwrite_rounds cfg then
          and_then (print_phase F PhOverwrite (tr_overwrite tr)) (\<lambda>a.
          and_then (print_phase F PhReadAfterOverwrite (tr_post_overwrite tr)) (\<lambda>b. Inr (a @ b)))
        else Inr []) (\<lambda>ows. Inr (dels @ ows)))"

definition range_cmds :: "rstring list \<Rightarrow> nat \<Rightarrow> command list" where
  "range_cmds keys window = map (\<lambda>(a, b). CmdRange a b) (build_range_queries keys window)"

definition sequential ::
  "('f, 'z) bench_f64_scheme \<Rightarrow> (rstring \<Rightarrow> 's \<Rightarrow> unit res \<times> 's) \<Rightarrow> 's peer \<Rightarrow> (bench_phase \<Rightarrow> phase_times) \<Rightarrow> 'f bench_config \<Rightarrow> 's \<Rightarrow>
    'f phase_report list res \<times> 's" where
  "sequential F connect peer tms cfg s =
     (let keys = bench_keys (bc_count cfg)
      in case read_keys_of F cfg keys of
           Inl e \<Rightarrow> (Inl e, s)
         | Inr read_keys \<Rightarrow>
             go_on (connect (bc_host cfg) s) (\<lambda>_ s.
                let (r, c) =
                  go_on (quiet_phase peer (tms PhWrite) (write_cmds (repeated (CHR ''x'') (bc_value_size cfg)) keys) ([], s)) (\<lambda>w c.
                  go_on (read_phase peer (tms PhRead) (map CmdRead read_keys) c) (\<lambda>rd c.
                  go_on (quiet_phase peer (tms PhRange) (range_cmds keys (bc_range_window cfg)) c) (\<lambda>rg c.
                  go_on (tail_phases F peer tms cfg keys c) (\<lambda>tr c.
                    (and_then (print_phase F PhWrite w) (\<lambda>a.
                     and_then (print_phase F PhRead rd) (\<lambda>b.
                     and_then (print_phase F PhRange rg) (\<lambda>d.
                     and_then (print_tail F cfg tr) (\<lambda>e. Inr (a @ b @ d @ e))))), c)))))
                in (r, snd c)))"

section \<open>Threads\<close>

record bench_thread =
  th_todo :: "command list"
  th_in :: bytes
  th_ops :: nat
  th_misses :: nat
  th_error :: "failure option"

definition spawned :: "command list \<Rightarrow> bench_thread" where
  "spawned cmds = \<lparr>th_todo = cmds, th_in = [], th_ops = 0, th_misses = 0, th_error = None\<rparr>"

text \<open>Thread \<open>i\<close> makes its next exchange; an error ends it.\<close>

definition thread_step :: "'s peer \<Rightarrow> nat \<Rightarrow> bench_thread list \<times> 's \<Rightarrow> bench_thread list \<times> 's" where
  "thread_step peer i = (\<lambda>(ths, s).
     if i < length ths \<and> th_error (ths ! i) = None then
       (case th_todo (ths ! i) of
          [] \<Rightarrow> (ths, s)
        | cmd # cmds \<Rightarrow>
            (case send_command peer cmd (th_in (ths ! i), s) of
               (Inr r, inbuf, s) \<Rightarrow>
                 (ths[i := (ths ! i)\<lparr>th_todo := cmds, th_in := inbuf, th_ops := th_ops (ths ! i) + 1,
                            th_misses := th_misses (ths ! i) + (if r = Miss then 1 else 0)\<rparr>], s)
             | (Inl e, inbuf, s) \<Rightarrow> (ths[i := (ths ! i)\<lparr>th_in := inbuf, th_error := Some e\<rparr>], s)))
     else (ths, s))"

text \<open>The threads take turns as the schedule says, and then finish one after the other.\<close>

definition run_threads :: "'s peer \<Rightarrow> nat list \<Rightarrow> bench_thread list \<Rightarrow> 's \<Rightarrow> bench_thread list \<times> 's" where
  "run_threads peer schedule ths s =
     fold (thread_step peer) (schedule @ concat (map (\<lambda>i. replicate (length (th_todo (ths ! i))) i) [0..<length ths])) (ths, s)"

definition join_thread :: "string \<Rightarrow> phase_times \<Rightarrow> bench_thread \<Rightarrow> phase_result res" where
  "join_thread panicked tm t =
     (case th_error t of
        Some (Panic m) \<Rightarrow> Inl (Panic panicked)
      | Some e \<Rightarrow> Inl e
      | None \<Rightarrow> Inr (measured tm (th_ops t) (th_misses t)))"

fun collect :: "phase_result \<Rightarrow> phase_result res list \<Rightarrow> phase_result res" where
  "collect all_results [] = Inr all_results"
| "collect all_results (r # rs) =
     and_then r (\<lambda>r.
       collect \<lparr>ph_latencies = ph_latencies all_results @ ph_latencies r, ph_misses = ph_misses all_results + ph_misses r,
                ph_elapsed = (if ph_elapsed all_results < ph_elapsed r then ph_elapsed r else ph_elapsed all_results)\<rparr> rs)"

definition no_results :: phase_result where
  "no_results = \<lparr>ph_latencies = [], ph_misses = 0, ph_elapsed = 0\<rparr>"

fun connect_all :: "(rstring \<Rightarrow> 's \<Rightarrow> unit res \<times> 's) \<Rightarrow> rstring \<Rightarrow> nat \<Rightarrow> 's \<Rightarrow> unit res list \<times> 's" where
  "connect_all connect host 0 s = ([], s)"
| "connect_all connect host (Suc n) s =
     (let (r, s) = connect host s; (rs, s) = connect_all connect host n s in (r # rs, s))"

text \<open>All threads connect and meet at the barrier. One that cannot connect never gets there: when the first thread to be
  joined is among those that wait, the program waits for ever, which is \<open>None\<close>.\<close>

definition at_barrier :: "unit res list \<Rightarrow> unit res option" where
  "at_barrier rs =
     (if \<forall>r \<in> set rs. r = Inr () then Some (Inr ())
      else case hd rs of Inl (Panic m) \<Rightarrow> Some (Inl (Panic ''writer thread panicked'')) | Inl e \<Rightarrow> Some (Inl e) | Inr _ \<Rightarrow> None)"

record 'f aggregate =
  ag_total_ops :: nat
  ag_wall :: duration
  ag_throughput :: 'f

definition aggregate_of :: "('f, 'z) bench_f64_scheme \<Rightarrow> phase_result \<Rightarrow> phase_result \<Rightarrow> 'f aggregate" where
  "aggregate_of F w r =
     (let total_ops = length (ph_latencies w) + length (ph_latencies r); wall = max (ph_elapsed w) (ph_elapsed r)
      in \<lparr>ag_total_ops = total_ops, ag_wall = wall, ag_throughput = f_div F (f_of_usize F total_ops) (f_secs F wall)\<rparr>)"

text \<open>The measured times of the threads: of the writers first, then of the readers.\<close>

definition run_mode_threads ::
  "(rstring \<Rightarrow> 's \<Rightarrow> unit res \<times> 's) \<Rightarrow> 's peer \<Rightarrow> (nat \<Rightarrow> phase_times) \<Rightarrow> nat list \<Rightarrow> rstring \<Rightarrow> command list list \<Rightarrow> command list list \<Rightarrow> 's \<Rightarrow>
    ((phase_result \<times> phase_result) res \<times> 's) option" where
  "run_mode_threads connect peer thread_tms schedule host writers readers s =
     (let n = length writers; (rs, s) = connect_all connect host (n + length readers) s
      in case at_barrier rs of
           None \<Rightarrow> None
         | Some (Inl e) \<Rightarrow> Some (Inl e, s)
         | Some (Inr _) \<Rightarrow>
             (let (ths, s) = run_threads peer schedule (map spawned (writers @ readers)) s;
                  joined = (\<lambda>panicked ids. map (\<lambda>i. join_thread panicked (thread_tms i) (ths ! i)) ids)
              in Some (and_then (collect no_results (joined ''writer thread panicked'' [0..<n])) (\<lambda>w.
                       and_then (collect no_results (joined ''reader thread panicked'' [n..<length ths])) (\<lambda>r.
                         Inr (w\<lparr>ph_misses := 0\<rparr>, r))), s)))"

section \<open>The concurrent mode\<close>

definition concurrent ::
  "('f, 'z) bench_f64_scheme \<Rightarrow> (rstring \<Rightarrow> 's \<Rightarrow> unit res \<times> 's) \<Rightarrow> 's peer \<Rightarrow> (bench_phase \<Rightarrow> phase_times) \<Rightarrow> (nat \<Rightarrow> phase_times) \<Rightarrow> nat list \<Rightarrow>
    'f bench_config \<Rightarrow> 's \<Rightarrow> (('f phase_report list \<times> 'f aggregate) res \<times> 's) option" where
  "concurrent F connect peer tms thread_tms schedule cfg s =
     (let keys = bench_keys (bc_count cfg)
      in case and_then (read_keys_of F cfg keys) (\<lambda>read_keys.
                and_then (map_res (thread_keys keys (bc_n_writers cfg)) [0..<bc_n_writers cfg]) (\<lambda>ws.
                and_then (map_res (thread_keys read_keys (bc_n_readers cfg)) [0..<bc_n_readers cfg]) (\<lambda>rs. Inr (ws, rs)))) of
           Inl e \<Rightarrow> Some (Inl e, s)
         | Inr (ws, rs) \<Rightarrow>
             map_option (\<lambda>r.
               go_on r (\<lambda>(w, rd) s.
               go_on (connect (bc_host cfg) s) (\<lambda>_ s.
               let (rg, c) = quiet_phase peer (tms PhRange) (range_cmds keys (bc_range_window cfg)) ([], s)
               in go_on (rg, snd c) (\<lambda>rg s.
                  go_on (connect (bc_host cfg) s) (\<lambda>_ s.
                  let (tr, c) = tail_phases F peer tms cfg keys ([], s)
                  in go_on (tr, snd c) (\<lambda>tr s.
                       (and_then (print_phase F PhWrite w) (\<lambda>a.
                        and_then (print_phase F PhRead rd) (\<lambda>b.
                        and_then (print_phase F PhRange rg) (\<lambda>d.
                        and_then (print_tail F cfg tr) (\<lambda>e. Inr (a @ b @ d @ e, aggregate_of F w rd))))), s)))))))
             (run_mode_threads connect peer thread_tms schedule (bc_host cfg)
                (map (write_cmds (repeated (CHR ''x'') (bc_value_size cfg))) ws) (map (map CmdRead) rs) s))"

section \<open>The mixed mode\<close>

text \<open>Thread \<open>i\<close> goes round the keys until it sees the flag, before its operation number \<open>ops i\<close>.\<close>

definition round_keys :: "rstring list \<Rightarrow> nat \<Rightarrow> rstring list" where
  "round_keys keys n = map (\<lambda>j. keys ! (j mod length keys)) [0..<n]"

definition mixed ::
  "('f, 'z) bench_f64_scheme \<Rightarrow> (rstring \<Rightarrow> 's \<Rightarrow> unit res \<times> 's) \<Rightarrow> 's peer \<Rightarrow> (nat \<Rightarrow> phase_times) \<Rightarrow> (nat \<Rightarrow> nat) \<Rightarrow> nat list \<Rightarrow>
    'f bench_config \<Rightarrow> 's \<Rightarrow> (('f phase_report list \<times> 'f aggregate) res \<times> 's) option" where
  "mixed F connect peer thread_tms ops schedule cfg s =
     (let keys = bench_keys (bc_count cfg); n = bc_n_writers cfg
      in map_option (\<lambda>r.
           go_on r (\<lambda>(w, rd) s.
             (and_then (print_phase F PhWrite w) (\<lambda>a.
              and_then (print_phase F PhRead rd) (\<lambda>b. Inr (a @ b, aggregate_of F w rd))), s)))
         (run_mode_threads connect peer thread_tms schedule (bc_host cfg)
            (map (\<lambda>i. write_cmds (repeated (CHR ''x'') (bc_value_size cfg)) (round_keys keys (ops i))) [0..<n])
            (map (\<lambda>i. map CmdRead (round_keys keys (ops i))) [n..<n + bc_n_readers cfg]) s))"

section \<open>The command line\<close>

datatype bench_option =
  OptHost | OptCount | OptValueSize | OptMissRatio | OptMode | OptWriters | OptReaders | OptRangeWindow | OptDeleteRatio
  | OptOverwriteRounds | OptZipf | OptMixedDuration

definition bench_options :: "(bench_option \<times> string list) list" where
  "bench_options =
     [(OptHost, [''-h'', ''--host'']), (OptCount, [''-n'', ''--count'']), (OptValueSize, [''-s'', ''--value-size'']),
      (OptMissRatio, [''-m'', ''--miss-ratio'']), (OptMode, [''--mode'']), (OptWriters, [''--writers'']), (OptReaders, [''--readers'']),
      (OptRangeWindow, [''-r'', ''--range-window'']), (OptDeleteRatio, [''-d'', ''--delete-ratio'']),
      (OptOverwriteRounds, [''-o'', ''--overwrite-rounds'']), (OptZipf, [''--zipf'']), (OptMixedDuration, [''--mixed-duration''])]"

definition bench_option_of :: "rstring \<Rightarrow> bench_option option" where
  "bench_option_of arg = map_option fst (List.find (\<lambda>(_, names). arg \<in> lit ` set names) bench_options)"

definition parse_usize :: "string \<Rightarrow> rstring \<Rightarrow> nat res" where
  "parse_usize msg v = expect msg (parse_uint (2 ^ 64) (as_bytes v))"

definition parse_ratio :: "('f, 'z) bench_f64_scheme \<Rightarrow> string \<Rightarrow> string \<Rightarrow> rstring \<Rightarrow> 'f res" where
  "parse_ratio F msg out_of_range v =
     and_then (expect msg (f_parse F v)) (\<lambda>r.
       if f_le F (f_zero F) r \<and> f_le F r (f_const F 1 1) then Inr r else Inl (Panic out_of_range))"

fun apply_bench_option ::
  "('f, 'z) bench_f64_scheme \<Rightarrow> (rstring \<Rightarrow> rstring option) \<Rightarrow> bench_option \<Rightarrow> rstring \<Rightarrow> rstring \<times> 'f bench_config \<Rightarrow> (rstring \<times> 'f bench_config) res" where
  "apply_bench_option F addr_of OptHost v (mode, c) = and_then (expect ''Invalid TCP address'' (addr_of v)) (\<lambda>h. Inr (mode, c\<lparr>bc_host := h\<rparr>))"
| "apply_bench_option F addr_of OptCount v (mode, c) = and_then (parse_usize ''Invalid count (expected integer)'' v) (\<lambda>n. Inr (mode, c\<lparr>bc_count := n\<rparr>))"
| "apply_bench_option F addr_of OptValueSize v (mode, c) =
     and_then (parse_usize ''Invalid value size (expected integer)'' v) (\<lambda>n. Inr (mode, c\<lparr>bc_value_size := n\<rparr>))"
| "apply_bench_option F addr_of OptMissRatio v (mode, c) =
     and_then (parse_ratio F ''Invalid miss ratio'' ''miss-ratio must be between 0.0 and 1.0'' v) (\<lambda>r. Inr (mode, c\<lparr>bc_miss_ratio := r\<rparr>))"
| "apply_bench_option F addr_of OptMode v (mode, c) = Inr (v, c)"
| "apply_bench_option F addr_of OptWriters v (mode, c) =
     and_then (parse_usize ''Invalid writers count (expected integer)'' v) (\<lambda>n. Inr (mode, c\<lparr>bc_n_writers := n\<rparr>))"
| "apply_bench_option F addr_of OptReaders v (mode, c) =
     and_then (parse_usize ''Invalid readers count (expected integer)'' v) (\<lambda>n. Inr (mode, c\<lparr>bc_n_readers := n\<rparr>))"
| "apply_bench_option F addr_of OptRangeWindow v (mode, c) =
     and_then (parse_usize ''Invalid range window (expected integer)'' v) (\<lambda>n. Inr (mode, c\<lparr>bc_range_window := n\<rparr>))"
| "apply_bench_option F addr_of OptDeleteRatio v (mode, c) =
     and_then (parse_ratio F ''Invalid delete ratio'' ''delete-ratio must be between 0.0 and 1.0'' v) (\<lambda>r. Inr (mode, c\<lparr>bc_delete_ratio := r\<rparr>))"
| "apply_bench_option F addr_of OptOverwriteRounds v (mode, c) =
     and_then (parse_usize ''Invalid overwrite rounds (expected integer)'' v) (\<lambda>n. Inr (mode, c\<lparr>bc_overwrite_rounds := n\<rparr>))"
| "apply_bench_option F addr_of OptZipf v (mode, c) =
     and_then (expect ''Invalid zipf exponent (expected float > 0)'' (f_parse F v)) (\<lambda>s.
       if f_lt F (f_zero F) s then Inr (mode, c\<lparr>bc_zipf_s := Some s\<rparr>) else Inl (Panic ''zipf exponent must be > 0''))"
| "apply_bench_option F addr_of OptMixedDuration v (mode, c) =
     and_then (expect ''Invalid mixed duration (expected seconds)'' (parse_u64 v)) (\<lambda>n. Inr (mode, c\<lparr>bc_mixed_duration := n\<rparr>))"

text \<open>\<open>None\<close> when the help is shown. An option at the end without its value, and an unknown argument, are skipped.\<close>

fun bench_args ::
  "('f, 'z) bench_f64_scheme \<Rightarrow> (rstring \<Rightarrow> rstring option) \<Rightarrow> rstring list \<Rightarrow> rstring \<times> 'f bench_config \<Rightarrow> (rstring \<times> 'f bench_config) option res" where
  "bench_args F addr_of [] mc = Inr (Some mc)"
| "bench_args F addr_of (arg # args) mc =
     (if arg = lit ''--help'' then Inr None
      else case bench_option_of arg of
        Some opt \<Rightarrow>
          (case args of
             [] \<Rightarrow> Inr (Some mc)
           | v # rest \<Rightarrow> and_then (apply_bench_option F addr_of opt v mc) (bench_args F addr_of rest))
      | None \<Rightarrow> bench_args F addr_of args mc)"

definition default_bench :: "('f, 'z) bench_f64_scheme \<Rightarrow> 'f bench_config" where
  "default_bench F =
     \<lparr>bc_host = lit ''127.0.0.1:6666'', bc_count = 10000, bc_value_size = 100, bc_miss_ratio = f_zero F, bc_range_window = 100,
      bc_delete_ratio = f_zero F, bc_overwrite_rounds = 0, bc_zipf_s = None, bc_n_writers = 4, bc_n_readers = 4, bc_mixed_duration = 10\<rparr>"

datatype 'f bench_start = BenchHelp | BenchSequential "'f bench_config" | BenchConcurrent "'f bench_config" | BenchMixed "'f bench_config" | BenchExit

definition kvbench_main :: "('f, 'z) bench_f64_scheme \<Rightarrow> (rstring \<Rightarrow> rstring option) \<Rightarrow> rstring list \<Rightarrow> 'f bench_start res" where
  "kvbench_main F addr_of args =
     and_then (bench_args F addr_of (drop 1 args) (lit ''sequential'', default_bench F)) (\<lambda>r.
       case r of
         None \<Rightarrow> Inr BenchHelp
       | Some (mode, c) \<Rightarrow>
           if bc_count c = 0 then Inl (Panic ''count must be > 0'')
           else if bc_value_size c = 0 then Inl (Panic ''value-size must be > 0'')
           else if bc_n_writers c = 0 then Inl (Panic ''writers must be > 0'')
           else if bc_n_readers c = 0 then Inl (Panic ''readers must be > 0'')
           else if mode = lit ''sequential'' then Inr (BenchSequential c)
           else if mode = lit ''concurrent'' then Inr (BenchConcurrent c)
           else if mode = lit ''mixed'' then Inr (BenchMixed c)
           else Inr BenchExit)"

end
