(* ===== verification/Bench_Runs.thy ===== *)
theory Bench_Runs
  imports Kv_Bench Client_Session
begin

text \<open>
  The load generator against a server. What it relies on is the locale \<open>bench_target\<close>, in which the misses of every phase
  of the sequential mode are computed once; a server with a hash-index engine is an interpretation of it. No compaction
  thread takes a step while the load generator runs.

  Main results: the sequential mode reports exactly the misses it provoked; and it fails, against a hash-index engine, as
  soon as it asks for a range.
\<close>

section \<open>A server as the peer\<close>

text \<open>Every request is one frame, and the clock of the server's operation \<open>i\<close> is \<open>clk i\<close>. A panic closes the
  connection: nothing arrives.\<close>

definition serve ::
  "(error_kind \<Rightarrow> payload \<Rightarrow> rstring) \<Rightarrow> 'f f32 \<Rightarrow> 'e engine \<Rightarrow> 'f compaction_cfg \<Rightarrow> (nat \<Rightarrow> dispatch_clock) \<Rightarrow> (nat \<times> 'e server) peer" where
  "serve err_text G E cfg clk frame = (\<lambda>(i, S).
     case and_then (decode_input_frame frame) (\<lambda>cmd. dispatch err_text G E cfg (clk i) cmd S) of
       Inr (response, S') \<Rightarrow> (response, i + 1, S')
     | Inl e \<Rightarrow> ([], i + 1, S))"

lemma receive_frame:
  assumes "1 + sum_list (map (\<lambda>s. 4 + len s) ps) < 2 ^ 32"
  shows "receive (encode_frame status ps) =
    (case status of
       StOk \<Rightarrow> Inr (Hit, [])
     | StNoop \<Rightarrow> Inr (Hit, [])
     | StNotFound \<Rightarrow> Inr (Miss, [])
     | StError \<Rightarrow> Inl (IoError OtherError (Message (map (\<lambda>b. char_of (unat b)) (as_bytes (join_semi ps))))))"
proof -
  from response_frame_parts [OF assms, of status] obtain body where "encode_frame status ps = u32_bytes (length body) @ body" "length body < 2 ^ 32"
    by (elim exE conjE) (rule that)
  then show ?thesis
    using response_decodes [OF assms, of status] read_exact_append [of body "length body" "[]"]
    by (simp add: receive_def split: response_status.split)
qed

lemma served:
  assumes "command_ok cmd" and "dispatch err_text G E cfg (clk i) cmd S = Inr (encode_frame status ps, S')"
    and "1 + sum_list (map (\<lambda>s. 4 + len s) ps) < 2 ^ 32"
  shows "send_command (serve err_text G E cfg clk) cmd ([], i, S) =
    (case status of
       StOk \<Rightarrow> Inr Hit
     | StNoop \<Rightarrow> Inr Hit
     | StNotFound \<Rightarrow> Inr Miss
     | StError \<Rightarrow> Inl (IoError OtherError (Message (map (\<lambda>b. char_of (unat b)) (as_bytes (join_semi ps))))), [], i + 1, S')"
proof -
  from command_frame [OF assms(1)] obtain bs where "encode_command cmd = Inr bs" "decode_input_frame bs = Inr cmd" by auto
  then show ?thesis using assms(2) receive_frame [OF assms(3), of status]
    by (simp add: send_command_def serve_def split: response_status.split)
qed

section \<open>The reports\<close>

definition summary :: "'f phase_report \<Rightarrow> bench_phase \<times> nat \<times> nat" where
  "summary r = (rp_label r, rp_count r, rp_misses r)"

text \<open>Latencies of less than 136 years.\<close>

definition usual_times :: "phase_times \<Rightarrow> bool" where
  "usual_times tm \<longleftrightarrow> (\<forall>i. pt_op tm i < 2 ^ 32 * 10 ^ 9)"

lemma sum_list_bound: "\<forall>x \<in> set xs. x \<le> (b :: nat) \<Longrightarrow> sum_list xs \<le> length xs * b"
  by (induction xs) auto

lemma print_phase_summary:
  assumes "n < 2 ^ 32" and "usual_times tm"
  shows "\<exists>rs. print_phase F l (measured tm n m) = Inr rs \<and> map summary rs = (if n = 0 then [] else [(l, n, m)])"
proof (cases "n = 0")
  case False
  let ?lat = "map (pt_op tm) [0..<n]"
  have "\<forall>x \<in> set ?lat. x \<le> 2 ^ 32 * 10 ^ 9" using assms(2) by (auto simp: usual_times_def intro: less_imp_le)
  from sum_list_bound [OF this] have "sum_list ?lat \<le> n * (2 ^ 32 * 10 ^ 9)" by simp
  also have "\<dots> < 2 ^ 64 * 10 ^ 9" using assms(1) by simp
  finally have "sum_list ?lat < 2 ^ 64 * 10 ^ 9" .
  moreover have "?lat \<noteq> []" "length ?lat < 2 ^ 32" using False assms(1) by auto
  ultimately obtain st where "compute_stats ?lat = Inr st" using compute_stats_sound [of ?lat] by blast
  then show ?thesis using False by (simp add: print_phase_def measured_def Let_def summary_def)
qed (simp add: print_phase_def measured_def)

abbreviation phase_line :: "bench_phase \<Rightarrow> nat \<Rightarrow> nat \<Rightarrow> (bench_phase \<times> nat \<times> nat) list" where
  "phase_line l n m \<equiv> (if n = 0 then [] else [(l, n, m)])"

lemma print_two_phases:
  assumes "n < 2 ^ 32" and "usual_times tm" and "n' < 2 ^ 32" and "usual_times tm'"
  shows "\<exists>rs. and_then (print_phase F l (measured tm n m)) (\<lambda>a. and_then (print_phase F l' (measured tm' n' m')) (\<lambda>b. Inr (a @ b))) = Inr rs \<and>
    map summary rs = phase_line l n m @ phase_line l' n' m'"
proof -
  from print_phase_summary [OF assms(1,2), of F l m] obtain a where a: "print_phase F l (measured tm n m) = Inr a" "map summary a = phase_line l n m"
    by (elim exE conjE) (rule that)
  from print_phase_summary [OF assms(3,4), of F l' m'] obtain b where b: "print_phase F l' (measured tm' n' m') = Inr b" "map summary b = phase_line l' n' m'"
    by (elim exE conjE) (rule that)
  show ?thesis by (intro exI [of _ "a @ b"]) (simp only: a b and_then.simps map_append simp_thms)
qed

lemma print_tail_summary:
  assumes "dc = delete_count F cfg" and "rounds = bc_overwrite_rounds cfg" and "n < 2 ^ 32" and "dc \<le> n" and "rounds * (n - dc) < 2 ^ 32"
    and "\<And>ph. usual_times (tms ph)"
  shows "\<exists>rs. print_tail F cfg \<lparr>tr_delete = measured (tms PhDelete) dc 0, tr_post_delete = measured (tms PhReadAfterDelete) n dc,
           tr_overwrite = measured (tms PhOverwrite) (rounds * (n - dc)) 0, tr_post_overwrite = measured (tms PhReadAfterOverwrite) (n - dc) 0\<rparr> = Inr rs \<and>
    map summary rs = (if 0 < dc then [(PhDelete, dc, 0), (PhReadAfterDelete, n, dc)] else []) @
      (if 0 < rounds \<and> dc < n then [(PhOverwrite, rounds * (n - dc), 0), (PhReadAfterOverwrite, n - dc, 0)] else [])"
proof -
  have sz: "dc < 2 ^ 32" "n - dc < 2 ^ 32" using assms(3,4) by auto
  from print_two_phases [OF sz(1) assms(6) assms(3) assms(6), of F PhDelete PhDelete 0 PhReadAfterDelete PhReadAfterDelete dc]
    print_two_phases [OF assms(5) assms(6) sz(2) assms(6), of F PhOverwrite PhOverwrite 0 PhReadAfterOverwrite PhReadAfterOverwrite 0]
  show ?thesis using assms(1,2,4) by (auto simp: print_tail_def)
qed

section \<open>What the load generator relies on\<close>

text \<open>The names it uses.\<close>

definition bench_names :: "rstring set" where
  "bench_names = (\<lambda>i. bench_key i) ` {..<2 ^ 64} \<union> (\<lambda>i. missing_key i) ` {..<2 ^ 64}"

lemma length_show_dec: "n < 10 ^ Suc m \<Longrightarrow> length (show_dec n) \<le> Suc m"
proof (induction m arbitrary: n)
  case (Suc m)
  then have "n div 10 < 10 ^ Suc m" by auto
  from Suc.IH [OF this] show ?case by (subst show_dec.simps) simp
qed (subst show_dec.simps, simp)

lemma len_pad8: "i < 2 ^ 64 \<Longrightarrow> len (pad8 i) \<le> 20"
  using length_show_dec [of i 19] by (simp add: as_bytes_pad8 len_def)

lemma bench_name_len: "k \<in> bench_names \<Longrightarrow> len k \<le> 34"
  using len_pad8 by (force simp: bench_names_def bench_key_def missing_key_def)

lemma bench_keys_named: "n \<le> 2 ^ 64 \<Longrightarrow> set (bench_keys n) \<subseteq> bench_names"
  by (auto simp: bench_keys_def bench_names_def)

lemma length_rounds: "length (concat (replicate r xs)) = r * length xs"
  by (induction r) simp_all

text \<open>The keys to read: all of them names, and as many without a value as were asked for.\<close>

lemma bench_read_keys:
  fixes F :: "('f, 'z) bench_f64_scheme"
  assumes "cnt < 2 ^ 32" and "rounded_share F cnt ratio \<le> cnt" and "\<And>i. missing_key i \<notin> B"
  shows "\<exists>ks. build_read_keys F (bench_keys cnt) ratio = Inr ks \<and> length ks = cnt \<and> set ks \<subseteq> bench_names \<and>
    length (filter (\<lambda>k. k \<notin> set (bench_keys cnt) \<union> B) ks) = rounded_share F cnt ratio"
proof -
  let ?keys = "bench_keys cnt" and ?mc = "rounded_share F cnt ratio"
  have "cnt * ?mc < 2 ^ 32 * 2 ^ 32" using assms(1,2) by (intro mult_strict_mono') simp_all
  then have few: "cnt * ?mc < 2 ^ 64" by simp
  have fresh: "\<forall>i. missing_key i \<notin> set ?keys" by (auto simp: bench_keys_def)
  from read_keys_misses [of F ?keys ratio] assms(2) fresh few obtain ks where
    ks: "build_read_keys F ?keys ratio = Inr ks" "length ks = cnt"
      "\<forall>i < cnt. ks ! i = (if i * ?mc div cnt < (i + 1) * ?mc div cnt then missing_key i else ?keys ! i)"
      "length (filter (\<lambda>k. k \<notin> set ?keys) ks) = ?mc" by auto
  have key: "k \<in> bench_names \<and> (k \<notin> set ?keys \<union> B \<longleftrightarrow> k \<notin> set ?keys)" if "k \<in> set ks" for k
  proof -
    from that ks(2,3) obtain i where i: "i < cnt" "k = missing_key i \<or> k = ?keys ! i" by (auto simp: in_set_conv_nth)
    then have "i < 2 ^ 64" using assms(1) by simp
    with i fresh assms(3) show ?thesis by (auto simp: bench_keys_def bench_names_def)
  qed
  then have "filter (\<lambda>k. k \<notin> set ?keys \<union> B) ks = filter (\<lambda>k. k \<notin> set ?keys) ks" by (auto intro!: filter_cong)
  with ks key show ?thesis by auto
qed

text \<open>\<open>ready n B s\<close>: in state \<open>s\<close> the names in \<open>B\<close> have a value, the other names have none, and \<open>n\<close> more commands are
  answered.\<close>

locale bench_target =
  fixes peer :: "'s peer"
    and ready :: "nat \<Rightarrow> rstring set \<Rightarrow> 's \<Rightarrow> bool"
  assumes write_law: "ready (Suc n) B s \<Longrightarrow> k \<in> bench_names \<Longrightarrow> len v \<le> MAX_VALUE_SIZE \<Longrightarrow>
      \<exists>s'. send_command peer (CmdWrite k v None) ([], s) = (Inr Hit, [], s') \<and> ready n (insert k B) s'"
    and read_law: "ready (Suc n) B s \<Longrightarrow> k \<in> bench_names \<Longrightarrow>
      \<exists>s'. send_command peer (CmdRead k) ([], s) = (Inr (if k \<in> B then Hit else Miss), [], s') \<and> ready n B s'"
    and delete_law: "ready (Suc n) B s \<Longrightarrow> k \<in> bench_names \<Longrightarrow>
      \<exists>r s'. send_command peer (CmdDelete k) ([], s) = (Inr r, [], s') \<and> ready n (B - {k}) s'"
begin

lemma run_writes:
  assumes "ready (length ks + n) B s" and "set ks \<subseteq> bench_names" and "len v \<le> MAX_VALUE_SIZE"
  shows "\<exists>s'. run_ops peer (write_cmds v ks) ([], s) = (Inr 0, [], s') \<and> ready n (set ks \<union> B) s'"
  using assms(1,2)
proof (induction ks arbitrary: B s)
  case (Cons k ks)
  from write_law [of "length ks + n" B s k v] Cons.prems assms(3) obtain s1 where
    s1: "send_command peer (CmdWrite k v None) ([], s) = (Inr Hit, [], s1)" "ready (length ks + n) (insert k B) s1" by auto
  from Cons.IH [OF s1(2)] Cons.prems(2) s1(1) show ?case by auto
qed simp

lemma run_reads:
  assumes "ready (length ks + n) B s" and "set ks \<subseteq> bench_names"
  shows "\<exists>s'. run_ops peer (map CmdRead ks) ([], s) = (Inr (length (filter (\<lambda>k. k \<notin> B) ks)), [], s') \<and> ready n B s'"
  using assms
proof (induction ks arbitrary: s)
  case (Cons k ks)
  from read_law [of "length ks + n" B s k] Cons.prems obtain s1 where
    s1: "send_command peer (CmdRead k) ([], s) = (Inr (if k \<in> B then Hit else Miss), [], s1)" "ready (length ks + n) B s1" by auto
  from Cons.IH [OF s1(2)] Cons.prems(2) s1(1) show ?case by auto
qed simp

lemma run_deletes:
  assumes "ready (length ks + n) B s" and "set ks \<subseteq> bench_names"
  shows "\<exists>m s'. run_ops peer (map CmdDelete ks) ([], s) = (Inr m, [], s') \<and> ready n (B - set ks) s'"
  using assms
proof (induction ks arbitrary: B s)
  case (Cons k ks)
  from delete_law [of "length ks + n" B s k] Cons.prems obtain r s1 where
    s1: "send_command peer (CmdDelete k) ([], s) = (Inr r, [], s1)" "ready (length ks + n) (B - {k}) s1" by auto
  have "B - {k} - set ks = B - set (k # ks)" by auto
  with Cons.IH [OF s1(2)] Cons.prems(2) s1(1) show ?case by auto
qed simp

lemma run_overwrites:
  assumes "ready (rounds * length ks + n) B s" and "set ks \<subseteq> bench_names" and "len v \<le> MAX_VALUE_SIZE" and "set ks \<subseteq> B"
  shows "\<exists>s'. run_ops peer (concat (replicate rounds (write_cmds v ks))) ([], s) = (Inr 0, [], s') \<and> ready n B s'"
proof -
  let ?all = "concat (replicate rounds ks)"
  have "length ?all = rounds * length ks" by (rule length_rounds)
  moreover have sub: "set ?all \<subseteq> set ks" by auto
  moreover have "concat (replicate rounds (write_cmds v ks)) = write_cmds v ?all" by (simp add: map_concat)
  moreover have "set ?all \<union> B = B" using sub assms(4) by blast
  ultimately show ?thesis using run_writes [of ?all n B s v] assms(1-3) by auto
qed

text \<open>The deletions and what follows them, on a server that has a value for every key.\<close>

lemma run_tail:
  fixes cfg :: "'f bench_config" and F :: "('f, 'z) bench_f64_scheme"
  defines "cnt \<equiv> bc_count cfg" and "dc \<equiv> delete_count F cfg" and "rounds \<equiv> bc_overwrite_rounds cfg"
  assumes "ready (dc + cnt + rounds * (cnt - dc) + (cnt - dc) + n) B s" and "set (bench_keys cnt) \<subseteq> B"
    and "dc \<le> cnt" and "cnt \<le> 2 ^ 64" and "bc_value_size cfg \<le> MAX_VALUE_SIZE"
  shows "\<exists>s'. tail_phases F peer tms cfg (bench_keys cnt) ([], s) =
    (Inr \<lparr>tr_delete = measured (tms PhDelete) dc 0, tr_post_delete = measured (tms PhReadAfterDelete) cnt dc,
          tr_overwrite = measured (tms PhOverwrite) (rounds * (cnt - dc)) 0,
          tr_post_overwrite = measured (tms PhReadAfterOverwrite) (cnt - dc) 0\<rparr>, [], s')"
proof -
  let ?keys = "bench_keys cnt"
  define dels where "dels = select_deletes cnt dc ?keys"
  define surv where "surv = filter (\<lambda>k. k \<notin> set dels) ?keys"
  have named: "set ?keys \<subseteq> bench_names" by (rule bench_keys_named [OF assms(7)])
  have dels: "length dels = dc" "set dels \<subseteq> set ?keys" "distinct dels"
    using length_select_deletes [of dc ?keys] assms(6) select_deletes_sub select_deletes_distinct [OF bench_keys_distinct]
    by (auto simp: dels_def)
  have "filter (\<lambda>k. k \<notin> B - set dels) ?keys = filter (\<lambda>k. k \<in> set dels) ?keys" using assms(5) by (auto intro!: filter_cong)
  moreover have "length (filter (\<lambda>k. k \<in> set dels) ?keys) = dc"
    using distinct_card [OF distinct_filter [OF bench_keys_distinct], of "\<lambda>k. k \<in> set dels" cnt] distinct_card [OF dels(3)] dels(1,2)
    by (simp add: Collect_conj_eq Int_absorb2 inf.commute)
  ultimately have missed: "length (filter (\<lambda>k. k \<notin> B - set dels) ?keys) = dc" "length surv = cnt - dc"
    using sum_length_filter_compl [of "\<lambda>k. k \<in> set dels" ?keys] by (simp_all add: surv_def)
  have surv: "set surv \<subseteq> B - set dels" "set surv \<subseteq> bench_names" using assms(5) named by (auto simp: surv_def)
  have big: "len (repeated (CHR ''y'') (bc_value_size cfg)) \<le> MAX_VALUE_SIZE" using assms(8) by (simp add: repeated_def)
  from run_deletes [of dels "cnt + rounds * (cnt - dc) + (cnt - dc) + n" B s] assms(4) dels(1,2) named obtain m s1 where
    s1: "run_ops peer (map CmdDelete dels) ([], s) = (Inr m, [], s1)" "ready (cnt + rounds * (cnt - dc) + (cnt - dc) + n) (B - set dels) s1"
    by (auto simp: add.assoc)
  from run_reads [of ?keys "rounds * (cnt - dc) + (cnt - dc) + n" "B - set dels" s1] s1(2) named missed(1) obtain s2 where
    s2: "run_ops peer (map CmdRead ?keys) ([], s1) = (Inr dc, [], s2)" "ready (rounds * (cnt - dc) + (cnt - dc) + n) (B - set dels) s2"
    by (auto simp: add.assoc)
  from run_overwrites [of rounds surv "(cnt - dc) + n", OF _ surv(2) big surv(1)] s2(2) missed(2) obtain s3 where
    s3: "run_ops peer (concat (replicate rounds (write_cmds (repeated (CHR ''y'') (bc_value_size cfg)) surv))) ([], s2) = (Inr 0, [], s3)"
      "ready (cnt - dc + n) (B - set dels) s3"
    by (auto simp: add.assoc)
  have "filter (\<lambda>k. k \<notin> B - set dels) surv = []" using surv(1) by (auto simp: filter_empty_conv)
  with run_reads [of surv n "B - set dels" s3] s3(2) surv(2) missed(2) obtain s4 where
    s4: "run_ops peer (map CmdRead surv) ([], s3) = (Inr 0, [], s4)" by auto
  have "length (concat (replicate rounds (write_cmds (repeated (CHR ''y'') (bc_value_size cfg)) surv))) = rounds * (cnt - dc)"
    using missed(2) by (simp add: length_rounds)
  then show ?thesis
    using s1(1) s2(1) s3(1) s4 dels(1) missed(2)
    by (simp add: tail_phases_def Let_def quiet_phase_def read_phase_def cnt_def [symmetric] dc_def [symmetric] rounds_def [symmetric]
        dels_def [symmetric] surv_def [symmetric])
qed

text \<open>The phases before the deletions.\<close>

lemma run_head:
  assumes "ready (cnt + length read_keys + n) B s" and "cnt \<le> 2 ^ 64" and "set read_keys \<subseteq> bench_names" and "len v \<le> MAX_VALUE_SIZE"
  shows "\<exists>s1 s2. run_ops peer (write_cmds v (bench_keys cnt)) ([], s) = (Inr 0, [], s1) \<and>
    run_ops peer (map CmdRead read_keys) ([], s1) = (Inr (length (filter (\<lambda>k. k \<notin> set (bench_keys cnt) \<union> B) read_keys)), [], s2) \<and>
    ready n (set (bench_keys cnt) \<union> B) s2"
proof -
  from run_writes [of "bench_keys cnt" "length read_keys + n" B s v] bench_keys_named [OF assms(2)] assms(1,4) obtain s1 where
    s1: "run_ops peer (write_cmds v (bench_keys cnt)) ([], s) = (Inr 0, [], s1)" "ready (length read_keys + n) (set (bench_keys cnt) \<union> B) s1"
    by (auto simp: add.assoc)
  from run_reads [OF s1(2) assms(3)] s1(1) show ?thesis by auto
qed

lemma sequential_report:
  fixes cfg :: "'f bench_config" and F :: "('f, 'z) bench_f64_scheme"
  defines "cnt \<equiv> bc_count cfg" and "mc \<equiv> rounded_share F (bc_count cfg) (bc_miss_ratio cfg)" and "dc \<equiv> delete_count F cfg"
    and "rounds \<equiv> bc_overwrite_rounds cfg"
  assumes "ready (cnt + cnt + (dc + cnt + rounds * (cnt - dc) + (cnt - dc))) B s" and "connect (bc_host cfg) s0 = (Inr (), s)"
    and "bc_zipf_s cfg = None" and "cnt < 2 ^ 32" and "0 < cnt" and "mc \<le> cnt" and "dc \<le> cnt" and "rounds * (cnt - dc) < 2 ^ 32"
    and "bc_value_size cfg \<le> MAX_VALUE_SIZE" and "bc_range_window cfg = 0 \<or> cnt < bc_range_window cfg"
    and "\<And>ph. usual_times (tms ph)" and "\<And>i. missing_key i \<notin> B"
  shows "\<exists>reports s'. sequential F connect peer tms cfg s0 = (Inr reports, s') \<and>
    map summary reports = [(PhWrite, cnt, 0), (PhRead, cnt, mc)] @
      (if 0 < dc then [(PhDelete, dc, 0), (PhReadAfterDelete, cnt, dc)] else []) @
      (if 0 < rounds \<and> dc < cnt then [(PhOverwrite, rounds * (cnt - dc), 0), (PhReadAfterOverwrite, cnt - dc, 0)] else [])"
proof -
  let ?keys = "bench_keys cnt" and ?tail = "dc + cnt + rounds * (cnt - dc) + (cnt - dc)"
  let ?v = "repeated (CHR ''x'') (bc_value_size cfg)"
  from bench_read_keys [of cnt F "bc_miss_ratio cfg" B] assms(8,10,16) obtain rks where
    rks: "build_read_keys F ?keys (bc_miss_ratio cfg) = Inr rks" "length rks = cnt" "set rks \<subseteq> bench_names"
      "length (filter (\<lambda>k. k \<notin> set ?keys \<union> B) rks) = mc"
    by (auto simp: mc_def cnt_def [symmetric])
  have small: "cnt \<le> 2 ^ 64" "len ?v \<le> MAX_VALUE_SIZE" using assms(8,13) by (simp_all add: repeated_def)
  from run_head [of cnt rks ?tail B s ?v] assms(5) small rks(2-4) obtain s1 s2 where
    head: "run_ops peer (write_cmds ?v ?keys) ([], s) = (Inr 0, [], s1)" "run_ops peer (map CmdRead rks) ([], s1) = (Inr mc, [], s2)"
      "ready ?tail (set ?keys \<union> B) s2" by auto
  from run_tail [of F cfg 0 "set ?keys \<union> B" s2 tms] head(3) small(1) assms(11,13) obtain s3 where
    tail: "tail_phases F peer tms cfg ?keys ([], s2) =
      (Inr \<lparr>tr_delete = measured (tms PhDelete) dc 0, tr_post_delete = measured (tms PhReadAfterDelete) cnt dc,
          tr_overwrite = measured (tms PhOverwrite) (rounds * (cnt - dc)) 0,
          tr_post_overwrite = measured (tms PhReadAfterOverwrite) (cnt - dc) 0\<rparr>, [], s3)"
    by (auto simp: cnt_def dc_def rounds_def)
  from print_phase_summary [OF assms(8) assms(15), of F PhWrite PhWrite 0] obtain a where
    a: "print_phase F PhWrite (measured (tms PhWrite) cnt 0) = Inr a" "map summary a = [(PhWrite, cnt, 0)]" using assms(9) by auto
  from print_phase_summary [OF assms(8) assms(15), of F PhRead PhRead mc] obtain b where
    b: "print_phase F PhRead (measured (tms PhRead) cnt mc) = Inr b" "map summary b = [(PhRead, cnt, mc)]" using assms(9) by auto
  have "range_cmds ?keys (bc_range_window cfg) = []" using no_range_queries [of "bc_range_window cfg" ?keys] assms(14) by (simp add: range_cmds_def)
  moreover have "print_phase F PhRange (measured (tms PhRange) 0 0) = Inr []" by (simp add: print_phase_def measured_def)
  moreover note print_tail_summary [of dc F cfg rounds cnt tms, OF _ _ assms(8,11,12,15)]
  ultimately show ?thesis
    using assms(6,7) rks(1,2) head(1,2) tail a b
    by (auto simp: sequential_def Let_def read_keys_of_def quiet_phase_def read_phase_def cnt_def [symmetric] dc_def rounds_def)
qed

end

text \<open>A target that has no ranges: the first query for one ends the run.\<close>

locale rangeless_target = bench_target +
  fixes refusal :: string
  assumes range_law: "ready (Suc n) B s \<Longrightarrow> a \<in> bench_names \<Longrightarrow> b \<in> bench_names \<Longrightarrow>
      \<exists>s'. send_command peer (CmdRange a b) ([], s) = (Inl (IoError OtherError (Message refusal)), [], s')"
begin

lemma sequential_refused:
  fixes cfg :: "'f bench_config" and F :: "('f, 'z) bench_f64_scheme"
  defines "cnt \<equiv> bc_count cfg"
  assumes "ready (cnt + cnt + Suc n) B s" and "connect (bc_host cfg) s0 = (Inr (), s)" and "bc_zipf_s cfg = None" and "cnt < 2 ^ 32"
    and "rounded_share F cnt (bc_miss_ratio cfg) \<le> cnt" and "bc_value_size cfg \<le> MAX_VALUE_SIZE"
    and "0 < bc_range_window cfg" and "bc_range_window cfg \<le> cnt" and "\<And>i. missing_key i \<notin> B"
  shows "\<exists>s'. sequential F connect peer tms cfg s0 = (Inl (IoError OtherError (Message refusal)), s')"
proof -
  let ?keys = "bench_keys cnt" and ?v = "repeated (CHR ''x'') (bc_value_size cfg)" and ?w = "bc_range_window cfg"
  from bench_read_keys [OF assms(5,6,10)] obtain rks where
    rks: "build_read_keys F ?keys (bc_miss_ratio cfg) = Inr rks" "length rks = cnt" "set rks \<subseteq> bench_names"
      "length (filter (\<lambda>k. k \<notin> set ?keys \<union> B) rks) = rounded_share F cnt (bc_miss_ratio cfg)" by (elim exE conjE) (rule that)
  have small: "cnt \<le> 2 ^ 64" "len ?v \<le> MAX_VALUE_SIZE" using assms(5,7) by (simp_all add: repeated_def)
  from run_head [of cnt rks "Suc n" B s ?v] assms(2) small rks(2-4) obtain s1 s2 m where
    head: "run_ops peer (write_cmds ?v ?keys) ([], s) = (Inr 0, [], s1)" "run_ops peer (map CmdRead rks) ([], s1) = (Inr m, [], s2)"
      "ready (Suc n) (set ?keys \<union> B) s2" by auto
  have some: "0 < cnt div ?w" using assms(8,9) by (simp add: div_greater_zero_iff)
  with range_queries_windows(1) [OF assms(8), of ?keys] range_queries_windows(2) [OF assms(8), of 0 ?keys] obtain q qs where
    q: "build_range_queries ?keys ?w = q # qs" "q = (?keys ! 0, ?keys ! (?w - 1))"
    by (cases "build_range_queries ?keys ?w") fastforce+
  have "?keys ! 0 \<in> set ?keys" "?keys ! (?w - 1) \<in> set ?keys" using assms(8,9) by (auto intro!: nth_mem)
  with bench_keys_named [OF small(1)] range_law [OF head(3)] obtain s3 where
    "send_command peer (CmdRange (?keys ! 0) (?keys ! (?w - 1))) ([], s2) = (Inl (IoError OtherError (Message refusal)), [], s3)" by blast
  then have "run_ops peer (range_cmds ?keys ?w) ([], s2) = (Inl (IoError OtherError (Message refusal)), [], s3)"
    by (simp add: range_cmds_def q)
  then show ?thesis
    using assms(3,4) rks(1) head(1,2)
    by (simp add: sequential_def Let_def read_keys_of_def quiet_phase_def read_phase_def cnt_def [symmetric])
qed

end

section \<open>A hash-index engine behind the server\<close>

text \<open>Room for \<open>n\<close> more records in every file.\<close>

definition files_room :: "nat \<Rightarrow> dir \<Rightarrow> bool" where
  "files_room n d \<longleftrightarrow> n < 2 ^ 38 \<and> (\<forall>m bs. map_of d m = Some bs \<longrightarrow> length bs + n * 2 ^ 24 < 2 ^ 63)"

lemma files_room_small: "files_room n d \<Longrightarrow> small_files d"
  unfolding files_room_def small_files_def by (meson add_lessD1)

lemma files_room_less: "files_room (Suc n) d \<Longrightarrow> files_room n d"
  by (force simp: files_room_def)

lemma files_room_grows:
  assumes "grows_only f d d'" and "files_room (Suc n) d"
  shows "files_room n d'"
  unfolding files_room_def
proof (intro conjI allI impI)
  show n: "n < 2 ^ 38" using assms(2) by (simp add: files_room_def)
  fix m bs assume m: "map_of d' m = Some bs"
  show "length bs + n * 2 ^ 24 < 2 ^ 63"
  proof (cases "m = f")
    case True
    with assms(1) m obtain post where post: "bs = file_or_empty d f @ post" "length post < 2 ^ 24" by (auto simp: grows_only_def)
    have "length (file_or_empty d f) + Suc n * 2 ^ 24 \<le> 2 ^ 63"
      using assms(2) n by (fastforce simp: files_room_def file_or_empty_def split: option.split)
    then show ?thesis using post by simp
  next
    case False
    with assms m have "length bs + Suc n * 2 ^ 24 < 2 ^ 63" by (auto simp: grows_only_def files_room_def)
    then show ?thesis by simp
  qed
qed

lemma kv_write_room:
  assumes "kv_inv s" and "files_room (Suc n) (kv_dir s)" and "len k \<le> MAX_KEY_SIZE" "len v \<le> MAX_VALUE_SIZE"
    and "eng_set_with_ttl (kv_engine lost) c k v x s = (Inr (), s')"
  shows "files_room n (kv_dir s')"
proof -
  from kv_set_facts [OF assms(1) files_room_small [OF assms(2)] assms(3,4), of "oc_ts c 0" x] assms(5)
  have "grows_only (segment_filename (kv_active_segment s')) (kv_dir s) (kv_dir s')" by (auto simp: kv_engine_def with_state_def no_result_def)
  then show ?thesis using assms(2) by (rule files_room_grows)
qed

lemma kv_delete_room:
  assumes "kv_inv s" and "files_room (Suc n) (kv_dir s)" and "len k \<le> MAX_KEY_SIZE" and "eng_delete (kv_engine lost) c k s = (Inr r, s')"
  shows "files_room n (kv_dir s')"
proof -
  obtain offset h d where app: "handle_append (tombstone_record k) (kv_active_file s) (kv_dir s) = (offset, h, d)"
    by (cases "handle_append (tombstone_record k) (kv_active_file s) (kv_dir s)") auto
  have "record_fits (tombstone_record k)" using tombstone_record_ok [OF assms(3)] by simp
  from append_record(3) [OF assms(1) files_room_small [OF assms(2)] app this] files_room_grows assms(2) have "files_room n d" by blast
  moreover from assms(3,4) app have "kv_dir s' = kv_dir s \<or> kv_dir s' = d"
    by (auto simp: kv_engine_def with_state_def kv_delete_def index_delete_def Let_def and_then_Inr_iff split: sum.splits option.splits if_splits)
  ultimately show ?thesis using files_room_less [OF assms(2)] by auto
qed

text \<open>The number of the next operation, and the server.\<close>

fun kv_bench_ready :: "(nat \<Rightarrow> dispatch_clock) \<Rightarrow> nat \<Rightarrow> rstring set \<Rightarrow> nat \<times> kv server \<Rightarrow> bool" where
  "kv_bench_ready clk n B (i, S) \<longleftrightarrow>
     kv_inv (srv_db S) \<and> files_room n (kv_dir (srv_db S)) \<and> (\<forall>i. \<exists>t. at_time (dc_op (clk i)) t) \<and>
     (\<forall>t. \<forall>k \<in> bench_names. kv_val t (srv_db S) k \<noteq> None \<longleftrightarrow> k \<in> B)"

lemma bench_name_ok: "k \<in> bench_names \<Longrightarrow> len k \<le> MAX_KEY_SIZE \<and> key_ok k"
  using bench_name_len [of k] by (simp add: MAX_KEY_SIZE_def key_ok_def)

lemma kv_val_fits:
  assumes "kv_inv s" and "kv_val t s k = Some v"
  shows "len v \<le> MAX_VALUE_SIZE"
proof (cases "map_of (kv_index s) k")
  case None
  then show ?thesis using assms(2) by (simp add: kv_get_absent)
next
  case (Some e)
  from assms(1) Some obtain w where w: "entry_at (kv_dir s) (kv_db_name s) k e w" unfolding kv_inv_def by (blast dest: index_okD)
  from kv_get_entry(2) [OF assms(1) Some w, of t] assms(2) w show ?thesis by (auto simp: entry_at_def split: if_splits)
qed

lemma kv_serves_write:
  assumes "kv_bench_ready clk (Suc n) B (i, S)" and k: "k \<in> bench_names" and "len v \<le> MAX_VALUE_SIZE"
  shows "\<exists>s'. send_command (serve err_text G (kv_engine lost) cfg clk) (CmdWrite k v None) ([], i, S) = (Inr Hit, [], s') \<and>
    kv_bench_ready clk n (insert k B) s'"
proof -
  note ready = assms(1) [simplified] and sz = conjunct1 [OF bench_name_ok [OF k]]
  from kv_served.set_law [OF _ files_room_small sz assms(3), of "srv_db S" "Suc n" lost "dc_op (clk i)" None] ready obtain s' where
    s': "eng_set_with_ttl (kv_engine lost) (dc_op (clk i)) k v None (srv_db S) = (Inr (), s')" "kv_inv s'"
      "\<forall>t j. kv_val t s' j = (if j = k then Some v else kv_val t (srv_db S) j)" by auto
  obtain S' where S': "dispatch err_text G (kv_engine lost) cfg (clk i) (CmdWrite k v None) S = Inr (encode_frame StOk [], S')" "srv_db S' = s'"
    using s'(1) by (simp add: Let_def finish_write_def expiry_opt_def)
  have "command_ok (CmdWrite k v None)" using bench_name_ok [OF k] assms(3) by (simp add: command_ok_def MAX_KEY_SIZE_def MAX_VALUE_SIZE_def)
  from served [where clk = clk and i = i, OF this S'(1)] have "send_command (serve err_text G (kv_engine lost) cfg clk) (CmdWrite k v None) ([], i, S) = (Inr Hit, [], i + 1, S')" by simp
  moreover from ready have "kv_bench_ready clk n (insert k B) (i + 1, S')"
    using S'(2) s' kv_write_room [OF _ _ sz assms(3) s'(1)] by auto
  ultimately show ?thesis by blast
qed

lemma kv_serves_read:
  assumes "kv_bench_ready clk (Suc n) B (i, S)" and k: "k \<in> bench_names"
  shows "\<exists>s'. send_command (serve err_text G (kv_engine lost) cfg clk) (CmdRead k) ([], i, S) = (Inr (if k \<in> B then Hit else Miss), [], s') \<and>
    kv_bench_ready clk n B s'"
proof -
  note ready = assms(1) [simplified]
  from ready obtain t where t: "at_time (dc_op (clk i)) t" by blast
  from kv_served.read_answer [OF _ t, of S err_text G lost cfg k] ready obtain S' where
    S': "dispatch err_text G (kv_engine lost) cfg (clk i) (CmdRead k) S =
      Inr (case kv_val t (srv_db S) k of Some v \<Rightarrow> encode_frame StOk [v] | None \<Rightarrow> encode_frame StNotFound [], S')" "srv_db S' = srv_db S" by auto
  have bound: "(\<exists>v. kv_val t (srv_db S) k = Some v) \<longleftrightarrow> k \<in> B" using ready k by blast
  have ok: "command_ok (CmdRead k)" using bench_name_ok [OF k] by (simp add: command_ok_def)
  have "send_command (serve err_text G (kv_engine lost) cfg clk) (CmdRead k) ([], i, S) = (Inr (if k \<in> B then Hit else Miss), [], i + 1, S')"
  proof (cases "kv_val t (srv_db S) k")
    case None
    with bound have "k \<notin> B" by simp
    with served [OF ok, of err_text G "kv_engine lost" cfg clk i S StNotFound "[]" S'] S'(1) None show ?thesis by simp
  next
    case (Some v)
    with bound have "k \<in> B" by simp
    moreover have "len v \<le> MAX_VALUE_SIZE" using kv_val_fits Some ready by blast
    ultimately show ?thesis using served [OF ok, of err_text G "kv_engine lost" cfg clk i S StOk "[v]" S'] S'(1) Some by (simp add: MAX_VALUE_SIZE_def)
  qed
  moreover have "kv_bench_ready clk n B (i + 1, S')" using ready S'(2) files_room_less by auto
  ultimately show ?thesis by blast
qed

lemma kv_serves_delete:
  assumes "kv_bench_ready clk (Suc n) B (i, S)" and k: "k \<in> bench_names"
  shows "\<exists>r s'. send_command (serve err_text G (kv_engine lost) cfg clk) (CmdDelete k) ([], i, S) = (Inr r, [], s') \<and>
    kv_bench_ready clk n (B - {k}) s'"
proof -
  note ready = assms(1) [simplified] and sz = conjunct1 [OF bench_name_ok [OF k]]
  from ready obtain t where t: "at_time (dc_op (clk i)) t" by blast
  from kv_served.delete_law [OF _ files_room_small t sz, of "srv_db S" "Suc n" lost] ready obtain r s' where
    s': "eng_delete (kv_engine lost) (dc_op (clk i)) k (srv_db S) = (Inr r, s')" "kv_inv s'"
      "\<forall>t j. kv_val t s' j = (if j = k then None else kv_val t (srv_db S) j)" by auto
  obtain S' where S': "dispatch err_text G (kv_engine lost) cfg (clk i) (CmdDelete k) S =
      Inr (encode_frame (if r = None then StNotFound else StOk) [], S')" "srv_db S' = s'"
    using s'(1) by (cases r) (simp_all add: Let_def)
  have "command_ok (CmdDelete k)" using bench_name_ok [OF k] by (simp add: command_ok_def)
  from served [where clk = clk and i = i, OF this S'(1)] have "send_command (serve err_text G (kv_engine lost) cfg clk) (CmdDelete k) ([], i, S) =
      (Inr (if r = None then Miss else Hit), [], i + 1, S')" by simp
  moreover from ready have "kv_bench_ready clk n (B - {k}) (i + 1, S')"
    using S'(2) s' kv_delete_room [OF _ _ sz s'(1)] by auto
  ultimately show ?thesis by blast
qed

lemma kv_serves_range:
  assumes "a \<in> bench_names" and "b \<in> bench_names"
  shows "\<exists>s'. send_command (serve err_text G (kv_engine lost) cfg clk) (CmdRange a b) ([], i, S) =
    (Inl (IoError OtherError (Message ''RANGE not supported by KV engine'')), [], s')"
proof -
  have "dispatch err_text G (kv_engine lost) cfg (clk i) (CmdRange a b) S = Inr (encode_frame StError [lit ''RANGE not supported by KV engine''], S)"
    by (simp add: kv_engine_def)
  moreover have "command_ok (CmdRange a b)" using bench_name_ok assms by (simp add: command_ok_def)
  ultimately have "send_command (serve err_text G (kv_engine lost) cfg clk) (CmdRange a b) ([], i, S) =
      (Inl (IoError OtherError (Message (map (\<lambda>b. char_of (unat b)) (as_bytes (lit ''RANGE not supported by KV engine''))))), [], i + 1, S)"
    using served [of "CmdRange a b" err_text G "kv_engine lost" cfg clk i S StError "[lit ''RANGE not supported by KV engine'']" S] by simp
  moreover have "map (\<lambda>b. char_of (unat b)) (as_bytes (lit ''RANGE not supported by KV engine'')) = ''RANGE not supported by KV engine''"
    by code_simp
  ultimately show ?thesis by auto
qed

interpretation kv_target: rangeless_target "serve err_text G (kv_engine lost) cfg clk" "kv_bench_ready clk" "''RANGE not supported by KV engine''"
  for err_text and G :: "'f f32" and lost and cfg and clk
proof
  fix n B and s :: "nat \<times> kv server" and k a b v
  obtain i S where s: "s = (i, S)" by fastforce
  show "kv_bench_ready clk (Suc n) B s \<Longrightarrow> k \<in> bench_names \<Longrightarrow> len v \<le> MAX_VALUE_SIZE \<Longrightarrow>
      \<exists>s'. send_command (serve err_text G (kv_engine lost) cfg clk) (CmdWrite k v None) ([], s) = (Inr Hit, [], s') \<and> kv_bench_ready clk n (insert k B) s'"
    unfolding s by (rule kv_serves_write)
  show "kv_bench_ready clk (Suc n) B s \<Longrightarrow> k \<in> bench_names \<Longrightarrow>
      \<exists>s'. send_command (serve err_text G (kv_engine lost) cfg clk) (CmdRead k) ([], s) = (Inr (if k \<in> B then Hit else Miss), [], s') \<and> kv_bench_ready clk n B s'"
    unfolding s by (rule kv_serves_read)
  show "kv_bench_ready clk (Suc n) B s \<Longrightarrow> k \<in> bench_names \<Longrightarrow>
      \<exists>r s'. send_command (serve err_text G (kv_engine lost) cfg clk) (CmdDelete k) ([], s) = (Inr r, [], s') \<and> kv_bench_ready clk n (B - {k}) s'"
    unfolding s by (rule kv_serves_delete)
  show "kv_bench_ready clk (Suc n) B s \<Longrightarrow> a \<in> bench_names \<Longrightarrow> b \<in> bench_names \<Longrightarrow>
      \<exists>s'. send_command (serve err_text G (kv_engine lost) cfg clk) (CmdRange a b) ([], s) =
        (Inl (IoError OtherError (Message ''RANGE not supported by KV engine'')), [], s')"
    unfolding s by (rule kv_serves_range)
qed

section \<open>The load generator against the server\<close>

text \<open>C38. Against a server with a hash-index engine that holds none of the names meant to be missing, the sequential mode
  with uniformly chosen reads and without range queries (a window of 0 or larger than the number of keys) ends, and reports exactly the misses it provoked: the share of reads that the miss ratio asks for,
  one read after the deletions for every deleted key, and none in any other phase; and every phase reports as many
  operations as it has keys.\<close>

theorem kvbench_counts_misses:
  fixes cfg :: "'f bench_config" and F :: "('f, 'z) bench_f64_scheme"
  defines "n \<equiv> bc_count cfg" and "mc \<equiv> rounded_share F (bc_count cfg) (bc_miss_ratio cfg)" and "dc \<equiv> delete_count F cfg"
    and "rounds \<equiv> bc_overwrite_rounds cfg"
  assumes "kv_bench_ready clk (n + n + (dc + n + rounds * (n - dc) + (n - dc))) B s" and "connect (bc_host cfg) s0 = (Inr (), s)"
    and "bc_zipf_s cfg = None" and "n < 2 ^ 32" and "0 < n" and "mc \<le> n" and "dc \<le> n" and "rounds * (n - dc) < 2 ^ 32"
    and "bc_value_size cfg \<le> MAX_VALUE_SIZE" and "bc_range_window cfg = 0 \<or> n < bc_range_window cfg"
    and "\<And>ph. usual_times (tms ph)" and "\<And>i. missing_key i \<notin> B"
  shows "\<exists>reports s'. sequential F connect (serve err_text G (kv_engine lost) ccfg clk) tms cfg s0 = (Inr reports, s') \<and>
    map summary reports = [(PhWrite, n, 0), (PhRead, n, mc)] @
      (if 0 < dc then [(PhDelete, dc, 0), (PhReadAfterDelete, n, dc)] else []) @
      (if 0 < rounds \<and> dc < n then [(PhOverwrite, rounds * (n - dc), 0), (PhReadAfterOverwrite, n - dc, 0)] else [])"
  using kv_target.sequential_report [where cfg = cfg and F = F] assms unfolding n_def mc_def dc_def rounds_def by blast

text \<open>Four keys of three bytes, half of the reads misses, a quarter deleted, one round of overwriting; against a fresh server.\<close>

definition small_bench :: "real bench_config" where
  "small_bench =
     \<lparr>bc_host = lit ''h'', bc_count = 4, bc_value_size = 3, bc_miss_ratio = 1 / 2, bc_range_window = 0, bc_delete_ratio = 1 / 4,
      bc_overwrite_rounds = 1, bc_zipf_s = None, bc_n_writers = 1, bc_n_readers = 1, bc_mixed_duration = 1\<rparr>"

lemma kv_small_ready: "n < 2 ^ 38 \<Longrightarrow> kv_bench_ready (\<lambda>_. fixed_clock 2 1000) n {} (0, fresh_server kv_small)"
proof -
  assume "n < 2 ^ 38"
  then have "n * 2 ^ 24 < 2 ^ 63" by simp
  moreover have "kv_inv (srv_db (fresh_server kv_small))" using kv_new_facts(1) [of "[]"] by simp
  moreover have "map_of (kv_index kv_small) k = None" for k by (simp add: kv_new_def Let_def index_new_def)
  ultimately show ?thesis using \<open>n < 2 ^ 38\<close> by (simp add: kv_get_absent files_room_def kv_small_dir)
qed

theorem kvbench_counts_misses_witness:
  "\<exists>reports s'. sequential real_f64 (\<lambda>_ s. (Inr (), s)) (serve (\<lambda>_ _. lit ''error'') exact_f32 (kv_engine (\<lambda>s e. s)) \<lparr>cfg_ratio = 0, cfg_max_segment = 0\<rparr>
        (\<lambda>_. fixed_clock 2 1000)) (\<lambda>_. \<lparr>pt_op = (\<lambda>i. 5), pt_total = 9\<rparr>) small_bench (0, fresh_server kv_small) = (Inr reports, s') \<and>
    map summary reports = [(PhWrite, 4, 0), (PhRead, 4, 2), (PhDelete, 1, 0), (PhReadAfterDelete, 4, 1), (PhOverwrite, 3, 0), (PhReadAfterOverwrite, 3, 0)]"
proof -
  have cfg: "bc_count small_bench = 4" "rounded_share real_f64 4 (bc_miss_ratio small_bench) = 2" "delete_count real_f64 small_bench = 1"
    "bc_overwrite_rounds small_bench = 1" "bc_zipf_s small_bench = None" "bc_value_size small_bench = 3" "bc_range_window small_bench = 0"
    by (simp_all add: small_bench_def rounded_share_def delete_count_def)
  show ?thesis
    using kvbench_counts_misses [of "\<lambda>_. fixed_clock 2 1000" small_bench real_f64 "{}" "(0, fresh_server kv_small)" "\<lambda>_ s. (Inr (), s)"
        "(0, fresh_server kv_small)" "\<lambda>_. \<lparr>pt_op = (\<lambda>i. 5), pt_total = 9\<rparr>" "\<lambda>_ _. lit ''error''" exact_f32 "\<lambda>s e. s" "\<lparr>cfg_ratio = 0, cfg_max_segment = 0\<rparr>"]
      kv_small_ready cfg
    by (simp add: usual_times_def MAX_VALUE_SIZE_def del: kv_bench_ready.simps)
qed

text \<open>Against a hash-index engine the sequential mode fails at its first range query, with the server's refusal, and
  reports nothing: by default it asks for windows of a hundred keys.\<close>

theorem kvbench_fails_on_kv:
  fixes cfg :: "'f bench_config" and F :: "('f, 'z) bench_f64_scheme"
  assumes "kv_bench_ready clk (bc_count cfg + bc_count cfg + Suc n) B s" and "connect (bc_host cfg) s0 = (Inr (), s)" and "bc_zipf_s cfg = None"
    and "bc_count cfg < 2 ^ 32" and "rounded_share F (bc_count cfg) (bc_miss_ratio cfg) \<le> bc_count cfg" and "bc_value_size cfg \<le> MAX_VALUE_SIZE"
    and "0 < bc_range_window cfg" and "bc_range_window cfg \<le> bc_count cfg" and "\<And>i. missing_key i \<notin> B"
  shows "\<exists>s'. sequential F connect (serve err_text G (kv_engine lost) ccfg clk) tms cfg s0 =
    (Inl (IoError OtherError (Message ''RANGE not supported by KV engine'')), s')"
  using kv_target.sequential_refused [where cfg = cfg and F = F and connect = connect, OF assms] .

theorem kvbench_fails_on_kv_witness:
  "\<exists>s'. sequential real_f64 (\<lambda>_ s. (Inr (), s)) (serve (\<lambda>_ _. lit ''error'') exact_f32 (kv_engine (\<lambda>s e. s)) \<lparr>cfg_ratio = 0, cfg_max_segment = 0\<rparr>
        (\<lambda>_. fixed_clock 2 1000)) (\<lambda>_. \<lparr>pt_op = (\<lambda>i. 5), pt_total = 9\<rparr>) (default_bench real_f64) (0, fresh_server kv_small) =
    (Inl (IoError OtherError (Message ''RANGE not supported by KV engine'')), s')"
  by (rule kvbench_fails_on_kv [where B = "{}" and n = 0 and s = "(0, fresh_server kv_small)"])
    (use kv_small_ready in \<open>simp_all add: default_bench_def MAX_VALUE_SIZE_def rounded_share_def real_f64_def del: kv_bench_ready.simps\<close>)

end
