(* ===== verification/Lz77_Bench.thy ===== *)
theory Lz77_Bench
  imports Lz77_Codec Bench_Workload
begin

text \<open>
  The benchmark of the codec (src/src/bin/lz77bench.rs): its nine inputs, what it prints of each, and its check that
  decoding gives the input back. The measured times are an argument.

  Main result: the check succeeds on every input, so that the program prints all its lines.
\<close>

record 'f lz_report =
  lr_label :: string
  lr_original :: nat
  lr_compressed :: nat
  lr_ratio :: 'f
  lr_elapsed_ms :: nat
  lr_throughput :: 'f

definition lz_bench :: "('f, 'z) bench_f64_scheme \<Rightarrow> string \<Rightarrow> bytes \<Rightarrow> duration \<Rightarrow> 'f lz_report res" where
  "lz_bench F label data elapsed =
     and_then (lz77_encode data) (\<lambda>compressed.
       let original = length data;
           compressed_size = length compressed;
           ratio = f_div F (f_of_usize F compressed_size) (f_of_usize F original);
           throughput = f_div F (f_div F (f_of_usize F original) (f_secs F elapsed)) (f_mul F (f_const F 1024 1) (f_const F 1024 1))
       in and_then (lz77_decode compressed) (\<lambda>decompressed.
            if decompressed = data
            then Inr \<lparr>lr_label = label, lr_original = original, lr_compressed = compressed_size, lr_ratio = ratio,
                      lr_elapsed_ms = elapsed div 10 ^ 6, lr_throughput = throughput\<rparr>
            else Inl (Panic (''Roundtrip failed for: '' @ label))))"

definition lcg_next :: "u64 \<Rightarrow> u64" where
  "lcg_next state = state * 6364136223846793005 + 1442695040888963407"

fun lcg_bytes :: "nat \<Rightarrow> u64 \<Rightarrow> bytes" where
  "lcg_bytes 0 state = []"
| "lcg_bytes (Suc n) state = (let state = lcg_next state in ucast (drop_bit 56 state) # lcg_bytes n state)"

definition repeated_text :: "string \<Rightarrow> nat \<Rightarrow> bytes" where
  "repeated_text s n = concat (replicate n (as_bytes (lit s)))"

definition lorem :: string where
  "lorem =
     ''Lorem ipsum dolor sit amet, consectetur adipiscing elit. '' @
     ''Sed do eiusmod tempor incididunt ut labore et dolore magna aliqua. '' @
     ''Ut enim ad minim veniam, quis nostrud exercitation ullamco laboris. '' @
     ''Nisi ut aliquip ex ea commodo consequat. Duis aute irure dolor in '' @
     ''reprehenderit in voluptate velit esse cillum dolore eu fugiat nulla '' @
     ''pariatur. Excepteur sint occaecat cupidatat non proident, sunt in '' @
     ''culpa qui officia deserunt mollit anim id est laborum. ''"

definition lz_mixed :: bytes where
  "lz_mixed = map of_nat [0..<128] @ repeated_text ''pattern'' 1000 @ rev (map of_nat [0..<128])"

definition lz_inputs :: "(string \<times> bytes) list" where
  "lz_inputs =
     [(''Uniform (10 KB, all 'a')'', replicate 10000 97),
      (''Repetitive text (6 KB, 'hello world' x500)'', repeated_text ''hello world '' 500),
      (''Mixed (unique+repetitive+unique)'', lz_mixed),
      (''Natural text (Lorem ipsum ~600 KB)'', repeated_text lorem 1500),
      (''Binary alternating (100 KB, 0xFF/0x00)'', map (\<lambda>i. if i mod 2 = 0 then 0xFF else 0x00) [0..<102400]),
      (''Random (100 KB, LCG pseudo-random)'', lcg_bytes 102400 0xDEADBEEFCAFEBABE),
      (''Perf: 1 MB uniform bytes'', replicate 1048576 120),
      (''Perf: 10 MB repetitive text'', take 10485760 (repeated_text ''the quick brown fox '' 500000)),
      (''Perf: 1 MB random data'', lcg_bytes 1048576 0x123456789ABCDEF0)]"

definition lz77bench_main :: "('f, 'z) bench_f64_scheme \<Rightarrow> (nat \<Rightarrow> duration) \<Rightarrow> 'f lz_report list res" where
  "lz77bench_main F elapsed = map_res (\<lambda>(i, label, data). lz_bench F label data (elapsed i)) (enumerate 0 lz_inputs)"

section \<open>The check never fails\<close>

lemma lz_bench_ok:
  "\<exists>r. lz_bench F label data elapsed = Inr r \<and> lr_label r = label \<and> lr_original r = length data \<and> lr_compressed r \<le> 2 * length data"
  using lz77.compress_ok [of data] by (auto simp: lz_bench_def Let_def)

lemma map_res_list_all2: "\<forall>x \<in> set xs. \<exists>y. f x = Inr y \<and> P x y \<Longrightarrow> \<exists>ys. map_res f xs = Inr ys \<and> list_all2 P xs ys"
  by (induction xs) auto

theorem lz77bench_verifies:
  "\<exists>reports. lz77bench_main F elapsed = Inr reports \<and> map lr_label reports = map fst lz_inputs \<and>
    map lr_original reports = map (length \<circ> snd) lz_inputs \<and> (\<forall>r \<in> set reports. lr_compressed r \<le> 2 * lr_original r)"
proof -
  let ?P = "\<lambda>(i, label, data) r. lr_label r = label \<and> lr_original r = length data \<and> lr_compressed r \<le> 2 * length data"
  have "\<exists>reports. lz77bench_main F elapsed = Inr reports \<and> list_all2 ?P (enumerate 0 lz_inputs) reports"
    unfolding lz77bench_main_def by (rule map_res_list_all2) (use lz_bench_ok in fastforce)
  then obtain reports where r: "lz77bench_main F elapsed = Inr reports" "list_all2 ?P (enumerate 0 lz_inputs) reports" by blast
  then have l: "length reports = length lz_inputs" by (simp add: list_all2_conv_all_nth)
  have each: "lr_label (reports ! i) = fst (lz_inputs ! i) \<and> lr_original (reports ! i) = length (snd (lz_inputs ! i)) \<and>
        lr_compressed (reports ! i) \<le> 2 * length (snd (lz_inputs ! i))" if "i < length lz_inputs" for i
    using r(2) that by (auto simp: list_all2_conv_all_nth nth_enumerate_eq case_prod_unfold)
  have "map lr_label reports = map fst lz_inputs" "map lr_original reports = map (length \<circ> snd) lz_inputs"
    unfolding list_eq_iff_nth_eq using l each by simp_all
  moreover have "\<forall>r \<in> set reports. lr_compressed r \<le> 2 * lr_original r" using each l by (auto simp: in_set_conv_nth)
  ultimately show ?thesis using r(1) by blast
qed

end
