(* ===== verification/Spec2Isabelle.thy ===== *)
theory Spec2Isabelle
  imports Lsm_Restarts Background_Worker Client_Session Bench_Runs Lz77_Bench
begin

text \<open>
  Verification of \<open>rustikv\<close>, a key-value store with two storage engines and a TCP server (src/src).

  \<^bold>\<open>The program.\<close> A client sends commands in length-prefixed frames (\<open>bffp.rs\<close>). An acceptor hands each connection to one of
  several workers; a worker reads and writes its sockets without blocking, parses the frames (\<open>server/connection.rs\<close>,
  \<open>server/workerhandler.rs\<close>) and executes the commands on the storage engine (\<open>server/dispatch.rs\<close>). The hash-index engine
  (\<open>kvengine.rs\<close>) appends records to segment files and keeps an index from keys to offsets; the LSM engine
  (\<open>lsmengine.rs\<close>) keeps a memtable, writes it to sorted tables in a background thread, and merges the tables with a
  size-tiered or a leveled strategy. Both keep a write-ahead log. Compactions run in a thread of the server.

  \<^bold>\<open>How it is modelled.\<close> A structure is a record, an enum a datatype, a function a HOL function of the same name (with a
  prefix where several types have a method of that name). \<open>'a res\<close> is \<open>io::Result\<close> with panics as a second kind of failure;
  arithmetic that the development profile checks panics on overflow, atomics wrap around. \<open>u8\<close> to \<open>u64\<close> are words; a length of
  an in-memory buffer is a natural number. A \<open>String\<close> is a well-formed UTF-8 byte sequence. The data directory is an
  association list from names to contents; an operation of an engine is one step, also where the source takes several
  locks one after the other (except for the races that are treated on their own), the handling of an event by a worker is one
  step, and a background thread is a phase of the state, so that interleavings are sequences of steps. Arguments of the model, because they come from outside: clock readings, the
  iteration order of a \<open>HashMap\<close>, the outcomes of system calls on sockets, the decisions of the event loop, floating-point
  arithmetic, parsing of socket addresses, and the texts of errors.

  \<^bold>\<open>Foundations.\<close>
  \<^item> \<open>Prelude\<close>: failures, words and bytes, strings, big-endian integers, sorted association lists (locale \<open>map_ops\<close>), codecs
    (locale \<open>item_codec\<close>). \<open>Data_Dir\<close>: strings, decimal numbers, the directory.
  \<^item> \<open>Crc32\<close> (\<open>crc.rs\<close>): the table-driven checksum equals the bitwise one. \<open>Bloom_Filter\<close> (\<open>bloom.rs\<close>): no false negatives.
    \<open>Lz77_Codec\<close> (\<open>lz77.rs\<close>): the encoder is total and the decoder inverts it.
  \<^item> \<open>Disk_Record\<close> (\<open>record.rs\<close>, \<open>utils.rs\<close>): round trip, soundness of reading, detection of corruption. \<open>Hint_File\<close>
    (\<open>hint.rs\<close>), \<open>Block_Format\<close> (\<open>block.rs\<close>): round trips.
  \<^item> \<open>Memtable_Model\<close> (\<open>memtable.rs\<close>), \<open>Wal_Log\<close> (\<open>wal.rs\<close>): a log, also one torn in its last record, is replayed into the
    memtable of the logged operations.

  \<^bold>\<open>The LSM engine.\<close>
  \<^item> \<open>SSTable_File\<close>, \<open>SSTable_Correct\<close> (\<open>sstable.rs\<close>): a table answers as the memtable it was written from, also after its
    index was rebuilt.
  \<^item> \<open>Storage_Strategy\<close>, \<open>Size_Tiered\<close>, \<open>Leveled_Store\<close> (\<open>storage_strategy.rs\<close>, \<open>size_tiered.rs\<close>, \<open>leveled.rs\<close>): the interface
    of a strategy as locales, both strategies as interpretations; which compactions keep what reads return, and which
    do not; with the size-tiered strategy a read can return an overwritten value.
  \<^item> \<open>Lsm_Engine\<close>, \<open>Lsm_History\<close>, \<open>Lsm_Queries\<close> (\<open>lsmengine.rs\<close>): with the leveled strategy and without compaction, reads
    return the last write in any interleaving with the flush thread; what \<open>list_keys\<close> and \<open>range\<close> return.
  \<^item> \<open>Leveled_Compaction\<close>, \<open>Lsm_Compaction\<close> (\<open>leveled.rs\<close>, \<open>lsmengine.rs\<close>): while nothing was deleted or has a time to live, a
    full compaction returns and changes no read, and reads return the last write in any interleaving of writes, flush
    thread, partial and full compactions; the one race of a full compaction with a flush that loses writes.
  \<^item> \<open>Leveled_Reload\<close>, \<open>Leveled_Files\<close>, \<open>Lsm_Restarts\<close> (\<open>leveled.rs\<close>, \<open>lsmengine.rs\<close>): compactions leave no file behind, and a
    directory that is opened again gives back the tables in their order; so, again without deletions and times to live, reads return the last
    write across any number of restarts outside the write of a table. A crash in an append to the log loses nothing; one
    before the file of a flushed table is created forgets exactly the memtable that was being flushed. \<open>Lsm_Durable\<close>: the two logs a restart does not survive, a torn one and one with a value over the limit.

  \<^bold>\<open>The hash-index engine.\<close> \<open>Segment_Index\<close> (\<open>segment.rs\<close>, \<open>hash_index.rs\<close>), \<open>Kv_Engine\<close>, \<open>Kv_Correct\<close>, \<open>Kv_Compaction\<close>,
  \<open>Kv_History\<close> (\<open>kvengine.rs\<close>): reads return the last write in any history of writes, deletions, changes of expiry and
  compactions. \<open>Kv_Recovery\<close>, \<open>Kv_Durable\<close>: without compaction, every returned write survives any number of crashes
  between operations or in an append to the log; after a crash in the append to a segment the directory cannot be opened. With
  compaction, writes can be lost, in two ways. \<open>Engine_Api\<close>: the contract of an engine as the locale \<open>kv_store\<close>, of which
  both engines are interpretations.

  \<^bold>\<open>The server.\<close>
  \<^item> \<open>Bffp_Protocol\<close> (\<open>bffp.rs\<close>), \<open>Connection_Io\<close> (\<open>server/connection.rs\<close>): round trips of commands and responses, no panic
    on any input, delivery of all commands however the bytes are cut into reads and readiness events, bounded buffers,
    responses in order.
  \<^item> \<open>Server_Dispatch\<close> (\<open>stats.rs\<close>, \<open>engine.rs\<close>, \<open>server/dispatch.rs\<close>): the trait as a record of operations with the two
    engines as values, the commands, the compaction threads. \<open>Server_Serving\<close>: a client reads its own write, proved once
    in the locale \<open>engine_contract\<close>, of which both engines are interpretations. \<open>Server_Threads\<close>: one compaction at a time,
    compaction threads end, and a failed compaction blocks all later ones.
  \<^item> \<open>Server_Worker\<close> (\<open>server/workerhandler.rs\<close>, \<open>server/acceptor.rs\<close>): requests are executed and answered in order; the
    connection count is exact in every interleaving of acceptor, workers and threads; the limit can be exceeded.
  \<^item> \<open>Settings_Args\<close> (\<open>settings.rs\<close>), \<open>Server_Startup\<close> (\<open>main.rs\<close>, \<open>server/lifecycle.rs\<close>): which options are checked; the first
    start succeeds, or panics when the sizes of the levels overflow. \<open>Background_Worker\<close> (\<open>worker.rs\<close>): the thread ends when it is told to.

  \<^bold>\<open>The client.\<close> \<open>Cli_Parser\<close> (\<open>cli.rs\<close>): every parsed command is well formed and arrives as it was typed. \<open>Client_Session\<close>
  (\<open>bin/rustikli.rs\<close>): a user who writes and then reads sees the value, through the whole program.

  \<^bold>\<open>The benchmarks.\<close> \<open>Bench_Workload\<close> (\<open>bin/kvbench.rs\<close>): the statistics are in order, the reads have the number of misses
  that was asked for, the threads share the keys, the random numbers never get stuck. \<open>Kv_Bench\<close>: the exchange with the
  server, the phases, the three modes, the command line. \<open>Bench_Runs\<close>: what the load generator relies on is the locale
  \<open>bench_target\<close>, a server with a hash-index engine is an interpretation; there the sequential mode reports exactly the misses
  it provoked, if it asks for no range, and it fails as soon as it asks for one. \<open>Lz77_Bench\<close> (\<open>bin/lz77bench.rs\<close>): the check of the round trip
  never fails.

  \<^bold>\<open>Bounds.\<close> No definition needs fuel: loops recurse over data with a measure, and the one loop that may run for ever
  (\<open>worker_loop\<close>) is a partial function, with a theorem that it returns. Theorems about the LSM engine bound the number of
  entries of a memtable by \<open>2 ^ 40\<close> and the block size by \<open>2 ^ 31\<close>, so that offsets fit 64 bits; those about the hash-index
  engine bound files by \<open>2 ^ 63\<close> bytes. The theorems over histories of the LSM engine are about the leveled strategy:
  with deletions and expiry between compactions, with compactions for stores without them; the size-tiered compactions
  have theorems of their own. They assume that the files to be written are new: the name of a table is made of the time in
  nanoseconds, and creating a table whose file exists is an error; a segment is named by milliseconds, and opening an existing
  one appends to it.

  \<^bold>\<open>Not modelled.\<close> Failures of writing to files, except where a theorem is about a crash; after an error of an engine
  operation the state is a parameter (\<open>lost\<close>). The durability of \<open>fsync\<close>: what is appended survives. Binding the listening
  socket, the file with the server's address, verbose logging, printing the help. The event loop of \<open>mio\<close> and its wrapper
  \<open>server/worker.rs\<close>. \<open>bin/engbench.rs\<close> and \<open>bin/redis-compare.rs\<close>, which compare
  the store with sled and with a Redis server.
\<close>

text \<open>\<open>lsm_open\<close>, by which \<open>Lsm_Restarts\<close> opens a directory, is what the server does with the settings of a leveled LSM engine.\<close>

lemma open_database_leveled:
  assumes "set_engine s = EngineLsm" and "set_storage_strategy s = LeveledK" and "block_bytes (set_block_size_kb s) = Inr block_size"
  shows "open_database F ts s wal d =
    and_then (lsm_open (set_db_name s) (unat (set_max_segment_bytes s)) (unat (set_leveled_num_levels s)) (unat (set_leveled_l0_threshold s))
        (set_leveled_l1_max_bytes s) block_size (set_block_compression s = CompressionLz77) wal d) (\<lambda>db. Inr (LsmDatabase db))"
  using assms by (simp add: open_database_def load_strategy_def lsm_open_def Let_def and_then_assoc)

end
